(* ===== verification/Prelude.thy ===== *)
theory Prelude
  imports Main "HOL-Library.Word"
begin

text \<open>
  Shared vocabulary of the development: the machine types of the C++ sources, the faults a
  step of the program can end in, the result type that carries them, and the reads and writes
  of a \<^verbatim>\<open>vector<char>\<close> as operations on byte lists that fault where the
  C++ is undefined. Also the lemmas about them that every component uses, and the collections
  (\<open>mem_simps\<close>, \<open>res_simps\<close>) through which their proofs reach them.
\<close>

section \<open>Machine types\<close>

type_synonym byte = "8 word"
type_synonym size_t = "64 word"
type_synonym int32 = "32 word"
type_synonym int64 = "64 word"

section \<open>Faults and results\<close>

text \<open>
  The ways a C++ statement of the modelled sources stops without a normal result:
  an access outside an object (\<open>OutOfBounds\<close>), \<^verbatim>\<open>std::copy\<close> on overlapping ranges in the
  forbidden direction (\<open>OverlappingCopy\<close>), \<^verbatim>\<open>std::out_of_range\<close> thrown by
  \<^verbatim>\<open>std::string::substr\<close> (\<open>OutOfRange\<close>), \<^verbatim>\<open>std::length_error\<close> (\<open>LengthError\<close>), the use of an
  object after its destruction (\<open>UseAfterFree\<close>), a null pointer or an empty
  \<^verbatim>\<open>boost::any\<close> that is used (\<open>NullDeref\<close>), a failed \<^verbatim>\<open>assert\<close> or \<^verbatim>\<open>GOOGLE_CHECK\<close>
  (\<open>Aborted\<close>), \<^verbatim>\<open>exit(-1)\<close> (\<open>ProcessExit\<close>), and the release of a mutex by a thread that does not hold
  it, or its destruction while it is in use (\<open>MutexMisuse\<close>), and the overflow of an \<^verbatim>\<open>int\<close>
  (\<open>IntOverflow\<close>).
\<close>

datatype fault =
    OutOfBounds
  | OverlappingCopy
  | OutOfRange
  | LengthError
  | UseAfterFree
  | NullDeref
  | Aborted
  | ProcessExit
  | MutexMisuse
  | IntOverflow

type_synonym 'a result = "fault + 'a"

named_theorems res_simps \<open>results: sequencing and inversion\<close>
named_theorems mem_simps \<open>byte vectors: reads, writes, resizing\<close>

definition andThen :: "'a result \<Rightarrow> ('a \<Rightarrow> 'b result) \<Rightarrow> 'b result" where
  "andThen r k = (case r of Inl e \<Rightarrow> Inl e | Inr x \<Rightarrow> k x)"

lemma andThen_Inr [simp, res_simps]: "andThen (Inr x) k = k x"
  by (simp add: andThen_def)

lemma andThen_Inl [simp, res_simps]: "andThen (Inl e) k = Inl e"
  by (simp add: andThen_def)

lemma andThen_eq_Inr [res_simps]:
  "andThen r k = Inr y \<longleftrightarrow> (\<exists>x. r = Inr x \<and> k x = Inr y)"
  by (cases r) auto

lemma andThen_eq_Inl [res_simps]:
  "andThen r k = Inl e \<longleftrightarrow> r = Inl e \<or> (\<exists>x. r = Inr x \<and> k x = Inl e)"
  by (cases r) auto

lemma andThen_assoc: "andThen (andThen r k) h = andThen r (\<lambda>x. andThen (k x) h)"
  by (cases r) auto

lemma andThen_cong [fundef_cong]:
  "r = r' \<Longrightarrow> (\<And>x. r' = Inr x \<Longrightarrow> k x = k' x) \<Longrightarrow> andThen r k = andThen r' k'"
  by (cases r') auto

definition is_ok :: "'a result \<Rightarrow> bool" where
  "is_ok r = (case r of Inl _ \<Rightarrow> False | Inr _ \<Rightarrow> True)"

lemma is_ok_simps [simp, res_simps]: "is_ok (Inr x)" "\<not> is_ok (Inl e)"
  by (simp_all add: is_ok_def)

lemma is_ok_iff [res_simps]: "is_ok r \<longleftrightarrow> (\<exists>x. r = Inr x)"
  by (cases r) auto

section \<open>Byte vectors\<close>

text \<open>
  \<open>read_range v i n\<close> reads \<open>n\<close> bytes of the vector \<open>v\<close> from offset \<open>i\<close>;
  \<open>copy_into v i d\<close> is \<^verbatim>\<open>std::copy(d, d+len, v.begin()+i)\<close>; \<open>copy_within v a b d\<close> is
  \<^verbatim>\<open>std::copy(v.begin()+a, v.begin()+b, v.begin()+d)\<close>, which the standard leaves undefined
  when \<open>d\<close> lies in the copied range; \<open>vec_resize v n\<close> is \<^verbatim>\<open>v.resize(n)\<close>, whose
  new elements are value-initialised.
\<close>

definition read_range :: "byte list \<Rightarrow> nat \<Rightarrow> nat \<Rightarrow> byte list result" where
  "read_range v i n = (if i + n \<le> length v then Inr (take n (drop i v)) else Inl OutOfBounds)"

definition copy_into :: "byte list \<Rightarrow> nat \<Rightarrow> byte list \<Rightarrow> byte list result" where
  "copy_into v i d =
     (if i + length d \<le> length v then Inr (take i v @ d @ drop (i + length d) v)
      else Inl OutOfBounds)"

definition copy_within :: "byte list \<Rightarrow> nat \<Rightarrow> nat \<Rightarrow> nat \<Rightarrow> byte list result" where
  "copy_within v a b d =
     (if b < a \<or> length v < b \<or> length v < d + (b - a) then Inl OutOfBounds
      else if a \<le> d \<and> d < b then Inl OverlappingCopy
      else copy_into v d (take (b - a) (drop a v)))"

definition vec_resize :: "byte list \<Rightarrow> nat \<Rightarrow> byte list" where
  "vec_resize v n = take n v @ replicate (n - length v) 0"

lemma read_range_ok [mem_simps]:
  "i + n \<le> length v \<Longrightarrow> read_range v i n = Inr (take n (drop i v))"
  by (simp add: read_range_def)

lemma read_range_length: "read_range v i n = Inr d \<Longrightarrow> length d = n"
  by (auto simp: read_range_def split: if_splits)

lemma copy_into_ok [mem_simps]:
  "i + length d \<le> length v \<Longrightarrow> copy_into v i d = Inr (take i v @ d @ drop (i + length d) v)"
  by (simp add: copy_into_def)

lemma copy_into_length: "copy_into v i d = Inr v' \<Longrightarrow> length v' = length v"
  by (auto simp: copy_into_def split: if_splits)

lemma copy_within_left [mem_simps]:
  assumes "a \<le> b" "b \<le> length v" "d < a"
  shows "copy_within v a b d =
    Inr (take d v @ take (b - a) (drop a v) @ drop (d + (b - a)) v)"
  using assms by (simp add: copy_within_def copy_into_def)

lemma length_vec_resize [simp]: "length (vec_resize v n) = n"
  by (simp add: vec_resize_def)

lemma take_vec_resize: "m \<le> n \<Longrightarrow> m \<le> length v \<Longrightarrow> take m (vec_resize v n) = take m v"
  by (simp add: vec_resize_def min_def)

lemma take_drop_take: "take n (drop i (take m xs)) = take (min n (m - i)) (drop i xs)"
  by (simp add: drop_take min.commute)

text \<open>
  What a window of the vector reads after a block was written just in front of it, or just
  behind it.
\<close>

lemma window_front:
  "i + length d + m \<le> length v \<Longrightarrow>
     take (length d + m) (drop i (take i v @ d @ drop (i + length d) v)) = d @ take m (drop (i + length d) v)"
  by (simp add: min_absorb1)

lemma window_back:
  assumes "i + m + length d \<le> length v"
  shows "take (m + length d) (drop i (take (i + m) v @ d @ rest)) = take m (drop i v) @ d"
proof -
  have "drop i (take (i + m) v) = take m (drop i v)"
    by (simp add: drop_take)
  then show ?thesis
    using assms by (simp add: min_absorb1)
qed

section \<open>Sizes as numbers\<close>

text \<open>
  \<open>size_of\<close> reads a length as the \<^verbatim>\<open>size_t\<close> the code computes with; \<open>fits\<close> says that a
  length is representable, which every object in a 64-bit address space satisfies.
\<close>

definition size_of :: "'a list \<Rightarrow> size_t" where
  "size_of xs = of_nat (length xs)"

abbreviation fits :: "nat \<Rightarrow> bool" where
  "fits n \<equiv> n < 2 ^ 64"

lemma unat_of_nat_size: "fits n \<Longrightarrow> unat (of_nat n :: size_t) = n"
  by (simp add: unat_of_nat)

lemma unat_size_of: "fits (length xs) \<Longrightarrow> unat (size_of xs) = length xs"
  by (simp add: size_of_def unat_of_nat)

lemma unat_add_size: "fits (unat a + unat b) \<Longrightarrow> unat (a + b :: size_t) = unat a + unat b"
  by (simp add: unat_word_ariths)

lemma unat_sub_size: "unat b \<le> unat a \<Longrightarrow> unat (a - b :: size_t) = unat a - unat b"
  by (simp add: unat_sub word_le_nat_alt)

lemma unat_lt_size: "unat (a :: size_t) < 2 ^ 64"
  using unsigned_less [of a, where ?'a = nat] by simp

section \<open>Byte streams\<close>

text \<open>
  What a sender may rely on when it hands frames to a connection: \<open>session w frames w'\<close> says that from \<open>w\<close> to \<open>w'\<close>
  these frames were sent, in this order; \<open>taken\<close> is what the peer can have read, \<open>unsent\<close> what the
  connection still holds.
\<close>

locale byte_stream =
  fixes opened :: "'w \<Rightarrow> bool" and session :: "'w \<Rightarrow> byte list list \<Rightarrow> 'w \<Rightarrow> bool"
    and taken :: "'w \<Rightarrow> byte list" and unsent :: "'w \<Rightarrow> byte list"
  assumes in_order: "opened w \<Longrightarrow> session w frames w' \<Longrightarrow> length (concat frames) < 2 ^ 31
    \<Longrightarrow> taken w' @ unsent w' = concat frames"

end
