(* ===== verification/Endian.thy ===== *)
theory Endian
  imports Prelude
begin

text \<open>
  \<^verbatim>\<open>simplifyMuduo/include/EndianCode.h\<close>: conversion between host and network byte order. The
  byte order of the host is a parameter (\<open>Little\<close> or \<open>Big\<close>), because
  \<^verbatim>\<open>htobe16/32/64\<close> and \<^verbatim>\<open>be16/32/64toh\<close> swap the bytes on a little-endian machine and are the
  identity on a big-endian one. \<open>store16/32/64\<close> and \<open>load16/32/64\<close> are \<^verbatim>\<open>memcpy\<close> between an
  integer and memory on that host. The lemmas show that what reaches memory after
  \<open>hostToNetwork\<close> is the big-endian image on either host, and that both conversions are
  involutions.
\<close>

unbundle bit_operations_syntax

datatype endian = Little | Big

section \<open>Bytes of an integer\<close>

definition bytes16 :: "16 word \<Rightarrow> byte list" where
  "bytes16 w = [ucast (drop_bit 8 w), ucast w]"

definition bytes32 :: "32 word \<Rightarrow> byte list" where
  "bytes32 w = [ucast (drop_bit 24 w), ucast (drop_bit 16 w), ucast (drop_bit 8 w), ucast w]"

definition bytes64 :: "64 word \<Rightarrow> byte list" where
  "bytes64 w =
     [ucast (drop_bit 56 w), ucast (drop_bit 48 w), ucast (drop_bit 40 w), ucast (drop_bit 32 w),
      ucast (drop_bit 24 w), ucast (drop_bit 16 w), ucast (drop_bit 8 w), ucast w]"

text \<open>The integer of a list of bytes, the first byte the most significant.\<close>

definition join_bytes :: "byte list \<Rightarrow> 'a::len word" where
  "join_bytes bs = foldl (\<lambda>acc b. push_bit 8 acc OR ucast b) 0 bs"

lemma length_bytes [simp]:
  "length (bytes16 a) = 2" "length (bytes32 b) = 4" "length (bytes64 c) = 8"
  by (simp_all add: bytes16_def bytes32_def bytes64_def)

lemma join_byte_step:
  fixes w :: "'a::len word"
  shows "push_bit 8 (drop_bit (k + 8) w) OR ucast (ucast (drop_bit k w) :: byte) = drop_bit k w"
  by (rule bit_word_eqI) (auto simp: bit_simps not_less algebra_simps less_diff_conv2)

lemmas join_byte_steps =
  join_byte_step [where k = 0, simplified] join_byte_step [where k = 8, simplified]
  join_byte_step [where k = 16, simplified] join_byte_step [where k = 24, simplified]
  join_byte_step [where k = 32, simplified] join_byte_step [where k = 40, simplified]
  join_byte_step [where k = 48, simplified]

lemma join_top_byte:
  fixes w :: "'a::len word"
  assumes "LENGTH('a) \<le> k + 8"
  shows "ucast (ucast (drop_bit k w) :: byte) = drop_bit k w"
  using assms by (intro bit_word_eqI) (auto simp: bit_simps dest: bit_imp_le_length)

lemma join_bytes16 [simp]: "join_bytes (bytes16 w) = w"
  by (simp add: join_bytes_def bytes16_def join_byte_steps join_top_byte)

lemma join_bytes32 [simp]: "join_bytes (bytes32 w) = w"
  by (simp add: join_bytes_def bytes32_def join_byte_steps join_top_byte)

lemma join_bytes64 [simp]: "join_bytes (bytes64 w) = w"
  by (simp add: join_bytes_def bytes64_def join_byte_steps join_top_byte)

text \<open>Bit \<open>n\<close> of the joined integer is bit \<open>n mod 8\<close> of byte \<open>n div 8\<close>, counted from the last.\<close>

lemma bit_join_bytes:
  "bit (join_bytes bs :: 'a::len word) n \<longleftrightarrow>
     n < LENGTH('a) \<and> n div 8 < length bs \<and> bit (rev bs ! (n div 8)) (n mod 8)"
proof (induction bs arbitrary: n rule: rev_induct)
  case Nil
  then show ?case by (simp add: join_bytes_def)
next
  case (snoc b bs)
  have step: "join_bytes (bs @ [b]) = (push_bit 8 (join_bytes bs) OR ucast b :: 'a word)"
    by (simp add: join_bytes_def)
  show ?case
  proof (cases "n < 8")
    case True
    then show ?thesis
      by (auto simp: step bit_simps)
  next
    case False
    then obtain m where m: "n = m + 8"
      by (metis add.commute le_Suc_ex not_less)
    have "\<not> bit b (m + 8)"
      using bit_imp_le_length [of b "m + 8"] by auto
    moreover have "(m + 8) div 8 = Suc (m div 8)" and "(m + 8) mod 8 = m mod 8"
      by simp_all
    ultimately show ?thesis
      using snoc.IH [of m] by (auto simp: step bit_simps m)
  qed
qed

lemma nth_byte_of_join:
  assumes "k + 8 \<le> LENGTH('a::len)" "8 dvd k" "k div 8 < length bs"
  shows "(ucast (drop_bit k (join_bytes bs :: 'a word)) :: byte) = rev bs ! (k div 8)"
proof (rule bit_word_eqI)
  fix n assume "n < LENGTH(8)"
  then have n: "n < 8" by simp
  from \<open>8 dvd k\<close> obtain q where "k = 8 * q" ..
  with n assms show "bit (ucast (drop_bit k (join_bytes bs :: 'a word)) :: byte) n
      = bit (rev bs ! (k div 8)) n"
    by (auto simp: bit_simps bit_join_bytes)
qed

lemma list_of_length_2: "length bs = 2 \<Longrightarrow> \<exists>a b. bs = [a, b]"
  by (auto simp: numeral_eq_Suc length_Suc_conv)

lemma list_of_length_4: "length bs = 4 \<Longrightarrow> \<exists>a b c d. bs = [a, b, c, d]"
  by (auto simp: numeral_eq_Suc length_Suc_conv)

lemma bytes16_join: "length bs = 2 \<Longrightarrow> bytes16 (join_bytes bs) = bs"
  using nth_byte_of_join [where 'a = 16 and k = 0 and bs = bs]
    nth_byte_of_join [where 'a = 16 and k = 8 and bs = bs]
  by (auto simp: bytes16_def dest!: list_of_length_2)

lemma bytes32_join: "length bs = 4 \<Longrightarrow> bytes32 (join_bytes bs) = bs"
  using nth_byte_of_join [where 'a = 32 and k = 0 and bs = bs]
    nth_byte_of_join [where 'a = 32 and k = 8 and bs = bs]
    nth_byte_of_join [where 'a = 32 and k = 16 and bs = bs]
    nth_byte_of_join [where 'a = 32 and k = 24 and bs = bs]
  by (auto simp: bytes32_def dest!: list_of_length_4)

lemma list_of_length_8:
  "length bs = 8 \<Longrightarrow> \<exists>a b c d e f g h. bs = [a, b, c, d, e, f, g, h]"
  by (auto simp: numeral_eq_Suc length_Suc_conv)

lemma bytes64_join: "length bs = 8 \<Longrightarrow> bytes64 (join_bytes bs) = bs"
  using nth_byte_of_join [where 'a = 64 and k = 0 and bs = bs]
    nth_byte_of_join [where 'a = 64 and k = 8 and bs = bs]
    nth_byte_of_join [where 'a = 64 and k = 16 and bs = bs]
    nth_byte_of_join [where 'a = 64 and k = 24 and bs = bs]
    nth_byte_of_join [where 'a = 64 and k = 32 and bs = bs]
    nth_byte_of_join [where 'a = 64 and k = 40 and bs = bs]
    nth_byte_of_join [where 'a = 64 and k = 48 and bs = bs]
    nth_byte_of_join [where 'a = 64 and k = 56 and bs = bs]
  by (auto simp: bytes64_def dest!: list_of_length_8)

section \<open>The conversions\<close>

definition bswap16 :: "16 word \<Rightarrow> 16 word" where
  "bswap16 w = join_bytes (rev (bytes16 w))"

definition bswap32 :: "32 word \<Rightarrow> 32 word" where
  "bswap32 w = join_bytes (rev (bytes32 w))"

definition bswap64 :: "64 word \<Rightarrow> 64 word" where
  "bswap64 w = join_bytes (rev (bytes64 w))"

definition hostToNetwork64 :: "endian \<Rightarrow> 64 word \<Rightarrow> 64 word" where
  "hostToNetwork64 e host64 = (case e of Little \<Rightarrow> bswap64 host64 | Big \<Rightarrow> host64)"

definition hostToNetwork32 :: "endian \<Rightarrow> 32 word \<Rightarrow> 32 word" where
  "hostToNetwork32 e host32 = (case e of Little \<Rightarrow> bswap32 host32 | Big \<Rightarrow> host32)"

definition hostToNetwork16 :: "endian \<Rightarrow> 16 word \<Rightarrow> 16 word" where
  "hostToNetwork16 e host16 = (case e of Little \<Rightarrow> bswap16 host16 | Big \<Rightarrow> host16)"

definition networkToHost64 :: "endian \<Rightarrow> 64 word \<Rightarrow> 64 word" where
  "networkToHost64 e net64 = (case e of Little \<Rightarrow> bswap64 net64 | Big \<Rightarrow> net64)"

definition networkToHost32 :: "endian \<Rightarrow> 32 word \<Rightarrow> 32 word" where
  "networkToHost32 e net32 = (case e of Little \<Rightarrow> bswap32 net32 | Big \<Rightarrow> net32)"

definition networkToHost16 :: "endian \<Rightarrow> 16 word \<Rightarrow> 16 word" where
  "networkToHost16 e net16 = (case e of Little \<Rightarrow> bswap16 net16 | Big \<Rightarrow> net16)"

section \<open>Integers in memory\<close>

definition store16 :: "endian \<Rightarrow> 16 word \<Rightarrow> byte list" where
  "store16 e w = (case e of Little \<Rightarrow> rev (bytes16 w) | Big \<Rightarrow> bytes16 w)"

definition store32 :: "endian \<Rightarrow> 32 word \<Rightarrow> byte list" where
  "store32 e w = (case e of Little \<Rightarrow> rev (bytes32 w) | Big \<Rightarrow> bytes32 w)"

definition store64 :: "endian \<Rightarrow> 64 word \<Rightarrow> byte list" where
  "store64 e w = (case e of Little \<Rightarrow> rev (bytes64 w) | Big \<Rightarrow> bytes64 w)"

definition load16 :: "endian \<Rightarrow> byte list \<Rightarrow> 16 word" where
  "load16 e bs = join_bytes (case e of Little \<Rightarrow> rev bs | Big \<Rightarrow> bs)"

definition load32 :: "endian \<Rightarrow> byte list \<Rightarrow> 32 word" where
  "load32 e bs = join_bytes (case e of Little \<Rightarrow> rev bs | Big \<Rightarrow> bs)"

definition load64 :: "endian \<Rightarrow> byte list \<Rightarrow> 64 word" where
  "load64 e bs = join_bytes (case e of Little \<Rightarrow> rev bs | Big \<Rightarrow> bs)"

lemma bswap_bswap [simp]:
  "bswap16 (bswap16 a) = a" "bswap32 (bswap32 b) = b" "bswap64 (bswap64 c) = c"
  by (simp_all add: bswap16_def bswap32_def bswap64_def bytes16_join bytes32_join bytes64_join)

lemma length_store [simp]:
  "length (store16 e a) = 2" "length (store32 e b) = 4" "length (store64 e c) = 8"
  by (cases e; simp add: store16_def store32_def store64_def)+

lemma load_store [simp]:
  "load16 e (store16 e a) = a" "load32 e (store32 e b) = b" "load64 e (store64 e c) = c"
  by (cases e; simp add: load16_def store16_def load32_def store32_def load64_def store64_def)+

lemma network_host_inverse [simp]:
  "networkToHost16 e (hostToNetwork16 e a) = a"
  "networkToHost32 e (hostToNetwork32 e b) = b"
  "networkToHost64 e (hostToNetwork64 e c) = c"
  by (cases e; simp add: networkToHost16_def hostToNetwork16_def networkToHost32_def
      hostToNetwork32_def networkToHost64_def hostToNetwork64_def)+

lemma store_network:
  "store16 e (hostToNetwork16 e a) = bytes16 a"
  "store32 e (hostToNetwork32 e b) = bytes32 b"
  "store64 e (hostToNetwork64 e c) = bytes64 c"
  by (cases e; simp add: store16_def hostToNetwork16_def bswap16_def bytes16_join
      store32_def hostToNetwork32_def bswap32_def bytes32_join
      store64_def hostToNetwork64_def bswap64_def bytes64_join)+

lemma network_load:
  "length x = 2 \<Longrightarrow> networkToHost16 e (load16 e x) = join_bytes x"
  "length y = 4 \<Longrightarrow> networkToHost32 e (load32 e y) = join_bytes y"
  "length z = 8 \<Longrightarrow> networkToHost64 e (load64 e z) = join_bytes z"
  by (cases e; simp add: load16_def networkToHost16_def bswap16_def bytes16_join
      load32_def networkToHost32_def bswap32_def bytes32_join
      load64_def networkToHost64_def bswap64_def bytes64_join)+

section \<open>Properties\<close>

text \<open>
  Network byte order on either kind of host: an integer converted with \<^verbatim>\<open>hostToNetwork\<close> lies in
  memory most significant byte first, and a peer of the other or the same byte order that loads
  these bytes and converts them with \<^verbatim>\<open>networkToHost\<close> gets the integer back.
\<close>

theorem network_order:
  "store16 e (hostToNetwork16 e a) = bytes16 a \<and> networkToHost16 e' (load16 e' (bytes16 a)) = a
   \<and> store32 e (hostToNetwork32 e b) = bytes32 b \<and> networkToHost32 e' (load32 e' (bytes32 b)) = b
   \<and> store64 e (hostToNetwork64 e c) = bytes64 c \<and> networkToHost64 e' (load64 e' (bytes64 c)) = c"
  by (simp add: store_network network_load)

end
