(* ===== verification/Buffer.thy ===== *)
theory Buffer
  imports Prelude
begin

text \<open>
  \<^verbatim>\<open>simplifyMuduo/include/Buffer.h\<close> and \<^verbatim>\<open>simplifyMuduo/src/Buffer.cc\<close>: the byte buffer with a
  prependable, a readable and a writable area in one \<^verbatim>\<open>vector<char>\<close>. The indices are
  \<^verbatim>\<open>size_t\<close> values and all sums and differences wrap as in the code; an access outside the
  vector is a fault. \<open>buffer_ok\<close> is the representation invariant, \<open>content\<close> the abstract
  view (the readable bytes); the lemmas show what each operation does to the content, that none
  faults while the vector stays addressable, and that the buffer refines a byte queue
  (locale \<open>byte_queue\<close>, interpreted at the end).
\<close>

section \<open>State\<close>

record buffer =
  vec :: "byte list"
  readerIndex :: size_t
  writerIndex :: size_t

definition kCheapPrepend :: size_t where
  "kCheapPrepend = 8"

definition kInitialSize :: size_t where
  "kInitialSize = 1024"

definition Buffer_init :: "size_t \<Rightarrow> buffer" where
  "Buffer_init initialSize =
     \<lparr>vec = replicate (unat (kCheapPrepend + initialSize)) 0,
      readerIndex = kCheapPrepend, writerIndex = kCheapPrepend\<rparr>"

definition readableBytes :: "buffer \<Rightarrow> size_t" where
  "readableBytes b = writerIndex b - readerIndex b"

definition writableBytes :: "buffer \<Rightarrow> size_t" where
  "writableBytes b = size_of (vec b) - writerIndex b"

definition prependableBytes :: "buffer \<Rightarrow> size_t" where
  "prependableBytes b = readerIndex b"

section \<open>Operations\<close>

text \<open>
  \<^verbatim>\<open>peek\<close> returns a pointer to the reader index; what the callers do with it is to read \<open>n\<close>
  bytes from there.
\<close>

definition peek_read :: "buffer \<Rightarrow> nat \<Rightarrow> byte list result" where
  "peek_read b n = read_range (vec b) (unat (readerIndex b)) n"

text \<open>
  \<^verbatim>\<open>prepend\<close> of a longer block than the prependable area only prints a message: the buffer is
  unchanged and the caller is not told.
\<close>

definition prepend :: "buffer \<Rightarrow> byte list \<Rightarrow> buffer result" where
  "prepend b data =
     (if prependableBytes b < size_of data then Inr b
      else let r = readerIndex b - size_of data
           in andThen (copy_into (vec b) (unat r) data)
                (\<lambda>v. Inr (b\<lparr>vec := v, readerIndex := r\<rparr>)))"

definition retrieveAll :: "buffer \<Rightarrow> buffer" where
  "retrieveAll b = b\<lparr>readerIndex := kCheapPrepend, writerIndex := kCheapPrepend\<rparr>"

definition retrieve :: "buffer \<Rightarrow> size_t \<Rightarrow> buffer" where
  "retrieve b len =
     (if len < readableBytes b then b\<lparr>readerIndex := readerIndex b + len\<rparr>
      else b\<lparr>readerIndex := kCheapPrepend, writerIndex := kCheapPrepend\<rparr>)"

definition retrieveAsString :: "buffer \<Rightarrow> size_t \<Rightarrow> (byte list \<times> buffer) result" where
  "retrieveAsString b len =
     andThen (peek_read b (unat len)) (\<lambda>result. Inr (result, retrieve b len))"

definition retrieveAllAsString :: "buffer \<Rightarrow> (byte list \<times> buffer) result" where
  "retrieveAllAsString b = retrieveAsString b (readableBytes b)"

definition makeSpace :: "buffer \<Rightarrow> size_t \<Rightarrow> buffer result" where
  "makeSpace b len =
     (if writableBytes b + prependableBytes b < len + kCheapPrepend
      then Inr (b\<lparr>vec := vec_resize (vec b) (unat (writerIndex b + len))\<rparr>)
      else let readable = readableBytes b
           in andThen (copy_within (vec b) (unat (readerIndex b)) (unat (writerIndex b))
                         (unat kCheapPrepend))
                (\<lambda>v. Inr (b\<lparr>vec := v, readerIndex := kCheapPrepend,
                            writerIndex := kCheapPrepend + readable\<rparr>)))"

definition ensureWritableBytes :: "buffer \<Rightarrow> size_t \<Rightarrow> buffer result" where
  "ensureWritableBytes b len = (if writableBytes b < len then makeSpace b len else Inr b)"

text \<open>\<^verbatim>\<open>beginWrite()\<close> as it is used: \<open>d\<close> is written through the pointer it returns.\<close>

definition write_at_beginWrite :: "buffer \<Rightarrow> byte list \<Rightarrow> buffer result" where
  "write_at_beginWrite b d =
     andThen (copy_into (vec b) (unat (writerIndex b)) d) (\<lambda>v. Inr (b\<lparr>vec := v\<rparr>))"

definition hasWritten :: "buffer \<Rightarrow> size_t \<Rightarrow> buffer" where
  "hasWritten b len = b\<lparr>writerIndex := writerIndex b + len\<rparr>"

definition append_data :: "buffer \<Rightarrow> byte list \<Rightarrow> buffer result" where
  "append_data b data =
     andThen (if writableBytes b < size_of data then makeSpace b (size_of data) else Inr b)
       (\<lambda>b1. andThen (copy_into (vec b1) (unat (writerIndex b1)) data)
         (\<lambda>v. Inr (b1\<lparr>vec := v, writerIndex := writerIndex b1 + size_of data\<rparr>)))"

text \<open>
  \<^verbatim>\<open>readFd\<close>: the outcome of the \<^verbatim>\<open>readv\<close> system call is an input, either an \<^verbatim>\<open>errno\<close> or the
  bytes read; \<open>iov_capacity\<close> is how many bytes the \<^verbatim>\<open>iovec\<close> array of the call can take, and
  \<^verbatim>\<open>readv\<close> returns no more. The result carries the return value and, on failure, the
  \<^verbatim>\<open>savedErrno\<close> stored through the pointer.
\<close>

datatype readv_outcome = ReadvError int | ReadvData "byte list"

definition kExtraBuf :: nat where
  "kExtraBuf = 65536"

definition iov_capacity :: "buffer \<Rightarrow> nat" where
  "iov_capacity b =
     (let writable = unat (writableBytes b)
      in if writable < kExtraBuf then writable + kExtraBuf else writable)"

record readFd_result =
  rf_buffer :: buffer
  rf_n :: int
  rf_errno :: "int option"

definition readFd :: "buffer \<Rightarrow> readv_outcome \<Rightarrow> readFd_result result" where
  "readFd b rv =
     (case rv of
        ReadvError e \<Rightarrow> Inr \<lparr>rf_buffer = b, rf_n = -1, rf_errno = Some e\<rparr>
      | ReadvData d \<Rightarrow>
          let writable = writableBytes b; n = size_of d
          in if iov_capacity b < length d then Inl OutOfBounds
             else andThen (copy_into (vec b) (unat (writerIndex b)) (take (unat writable) d))
               (\<lambda>v. andThen
                 (if n \<le> writable then Inr (b\<lparr>vec := v, writerIndex := writerIndex b + n\<rparr>)
                  else append_data (b\<lparr>vec := v, writerIndex := size_of (vec b)\<rparr>)
                         (drop (unat writable) d))
                 (\<lambda>b'. Inr \<lparr>rf_buffer = b', rf_n = int (length d), rf_errno = None\<rparr>)))"

section \<open>Invariant and abstract view\<close>

text \<open>
  The picture in \<^verbatim>\<open>Buffer.h\<close>: \<open>0 \<le> readerIndex \<le> writerIndex \<le> size\<close>; the vector keeps at least
  the cheap-prepend area, to which the indices are reset.
\<close>

definition buffer_ok :: "buffer \<Rightarrow> bool" where
  "buffer_ok b \<longleftrightarrow> unat (readerIndex b) \<le> unat (writerIndex b)
     \<and> unat (writerIndex b) \<le> length (vec b)
     \<and> unat kCheapPrepend \<le> length (vec b) \<and> fits (length (vec b))"

definition content :: "buffer \<Rightarrow> byte list" where
  "content b = take (unat (writerIndex b) - unat (readerIndex b))
                 (drop (unat (readerIndex b)) (vec b))"

text \<open>The vector can grow by \<open>n\<close> bytes (and the prepend area) and stay addressable.\<close>

definition room :: "buffer \<Rightarrow> nat \<Rightarrow> bool" where
  "room b n \<longleftrightarrow> fits (length (vec b) + n + 8)"

text \<open>
  What a successful operation leaves: a valid buffer whose vector grew by at most \<open>n\<close> bytes and
  which still has the prepend area in front of the content if it had it before.
\<close>

definition grows :: "buffer \<Rightarrow> nat \<Rightarrow> buffer \<Rightarrow> bool" where
  "grows b n b' \<longleftrightarrow> buffer_ok b' \<and> length (vec b') \<le> length (vec b) + n
     \<and> (8 \<le> unat (readerIndex b) \<longrightarrow> 8 \<le> unat (readerIndex b'))"

lemma unat_kCheapPrepend [simp]: "unat kCheapPrepend = 8"
  by (simp add: kCheapPrepend_def)

lemma buffer_okD:
  assumes "buffer_ok b"
  shows "unat (readerIndex b) \<le> unat (writerIndex b)"
    and "unat (writerIndex b) \<le> length (vec b)"
    and "8 \<le> length (vec b)"
    and "fits (length (vec b))"
  using assms by (simp_all add: buffer_ok_def)

lemma length_content:
  "buffer_ok b \<Longrightarrow> length (content b) = unat (writerIndex b) - unat (readerIndex b)"
  by (auto simp: content_def buffer_ok_def)

lemma unat_readableBytes: "buffer_ok b \<Longrightarrow> unat (readableBytes b) = length (content b)"
  by (simp add: readableBytes_def unat_sub_size buffer_okD length_content)

lemma readableBytes_content: "buffer_ok b \<Longrightarrow> readableBytes b = size_of (content b)"
  by (metis unat_readableBytes size_of_def of_nat_unat ucast_id)

lemma fits_content: "buffer_ok b \<Longrightarrow> fits (length (content b))"
  by (auto simp: length_content buffer_ok_def)

lemma unat_writableBytes:
  "buffer_ok b \<Longrightarrow> unat (writableBytes b) = length (vec b) - unat (writerIndex b)"
  by (subst writableBytes_def, subst unat_sub_size) (auto simp: unat_size_of buffer_ok_def)

lemma roomD: "room b n \<Longrightarrow> fits (length (vec b) + n)" "room b n \<Longrightarrow> fits n"
  by (auto simp: room_def)

lemma room_mono: "room b n \<Longrightarrow> m \<le> n \<Longrightarrow> room b m"
  by (simp add: room_def)

lemma grows_room: "grows b n b' \<Longrightarrow> room b (n + m) \<Longrightarrow> room b' m"
  by (simp add: grows_def room_def)

lemma grows_ok: "grows b n b' \<Longrightarrow> buffer_ok b'"
  by (simp add: grows_def)

lemma grows_refl: "buffer_ok b \<Longrightarrow> grows b n b"
  by (simp add: grows_def)

lemma grows_trans: "grows b m b' \<Longrightarrow> grows b' n b'' \<Longrightarrow> grows b (m + n) b''"
  by (auto simp: grows_def)

section \<open>Lemmas about the operations\<close>

lemma Buffer_init_ok:
  "fits (8 + unat n) \<Longrightarrow> buffer_ok (Buffer_init n) \<and> content (Buffer_init n) = []"
  by (simp add: Buffer_init_def buffer_ok_def content_def unat_add_size kCheapPrepend_def
      unat_word_ariths)

lemma retrieveAll_ok:
  "buffer_ok b \<Longrightarrow> grows b 0 (retrieveAll b) \<and> content (retrieveAll b) = []"
  by (simp add: grows_def retrieveAll_def buffer_ok_def content_def)

lemma retrieve_ok:
  assumes "buffer_ok b"
  shows "grows b 0 (retrieve b len) \<and> content (retrieve b len) = drop (unat len) (content b)"
proof (cases "len < readableBytes b")
  case True
  then have len: "unat len < length (content b)"
    using assms by (simp add: word_less_nat_alt unat_readableBytes)
  then have idx: "unat (readerIndex b + len) = unat (readerIndex b) + unat len"
    using assms by (intro unat_add_size) (auto simp: length_content buffer_ok_def)
  with True len assms show ?thesis
    by (auto simp: retrieve_def grows_def buffer_ok_def content_def drop_take add.commute
        length_content [OF assms])
next
  case False
  then have "length (content b) \<le> unat len"
    using assms by (simp add: word_less_nat_alt unat_readableBytes not_less)
  with False show ?thesis
    using retrieveAll_ok [OF assms] by (simp add: retrieve_def retrieveAll_def)
qed

lemma peek_read_ok:
  assumes "buffer_ok b" "n \<le> length (content b)"
  shows "peek_read b n = Inr (take n (content b))"
proof -
  have "unat (readerIndex b) + n \<le> length (vec b)"
    using assms by (auto simp: length_content buffer_ok_def)
  moreover have "take n (drop (unat (readerIndex b)) (vec b)) = take n (content b)"
    using assms(2) by (simp add: content_def length_content [OF assms(1)] min_absorb1)
  ultimately show ?thesis
    by (simp add: peek_read_def read_range_def)
qed

lemma retrieveAllAsString_ok:
  assumes "buffer_ok b"
  shows "\<exists>b'. retrieveAllAsString b = Inr (content b, b') \<and> grows b 0 b' \<and> content b' = []"
  using retrieve_ok [OF assms, of "readableBytes b"]
  by (simp add: retrieveAllAsString_def retrieveAsString_def peek_read_ok assms
      unat_readableBytes)

lemma prepend_ok:
  assumes ok: "buffer_ok b" and small: "length data \<le> unat (readerIndex b)"
  shows "\<exists>b'. prepend b data = Inr b' \<and> buffer_ok b' \<and> content b' = data @ content b
           \<and> length (vec b') = length (vec b)"
proof -
  have f: "fits (length data)"
    using small unat_lt_size [of "readerIndex b"] by linarith
  have guard: "\<not> prependableBytes b < size_of data"
    using small by (simp add: prependableBytes_def word_less_nat_alt unat_size_of [OF f])
  define r where "r = readerIndex b - size_of data"
  have r: "unat r = unat (readerIndex b) - length data"
    using small by (simp add: r_def unat_sub_size unat_size_of [OF f])
  have "unat r + length data = unat (readerIndex b)"
    using r small by simp
  then have fit: "unat r + length data \<le> length (vec b)"
    using ok by (simp add: buffer_ok_def)
  define v where "v = take (unat r) (vec b) @ data @ drop (unat r + length data) (vec b)"
  have "prepend b data = Inr (b\<lparr>vec := v, readerIndex := r\<rparr>)"
    by (simp add: prepend_def guard Let_def copy_into_ok [OF fit] v_def flip: r_def)
  moreover have "length v = length (vec b)"
    using fit by (simp add: v_def)
  moreover have "content (b\<lparr>vec := v, readerIndex := r\<rparr>) = data @ content b"
  proof -
    have "unat (writerIndex b) - unat r
        = length data + (unat (writerIndex b) - unat (readerIndex b))"
      using r small buffer_okD [OF ok] by simp
    then show ?thesis
      using window_front [of "unat r" data "unat (writerIndex b) - unat (readerIndex b)" "vec b"]
        r small buffer_okD [OF ok]
      by (simp add: content_def v_def)
  qed
  ultimately show ?thesis
    using buffer_okD [OF ok] r by (auto simp: buffer_ok_def)
qed

lemma prepend_too_long:
  "buffer_ok b \<Longrightarrow> fits (length data) \<Longrightarrow> unat (readerIndex b) < length data \<Longrightarrow> prepend b data = Inr b"
  by (simp add: prepend_def prependableBytes_def word_less_nat_alt unat_size_of)

text \<open>
  \<^verbatim>\<open>makeSpace\<close> is called when the writable area is too small. Either the vector grows, or the
  readable bytes move to the front; the condition of the second branch then implies
  \<open>kCheapPrepend < readerIndex\<close>, so the copy goes to the left and its ranges may overlap.
\<close>

lemma makeSpace_ok:
  assumes ok: "buffer_ok b" and r: "room b (unat len)"
    and need: "writableBytes b < len"
  shows "\<exists>b'. makeSpace b len = Inr b' \<and> grows b (unat len) b' \<and> content b' = content b
           \<and> unat len \<le> length (vec b') - unat (writerIndex b')"
proof -
  note f = buffer_okD [OF ok]
  have wr: "unat (writableBytes b) = length (vec b) - unat (writerIndex b)"
    by (rule unat_writableBytes [OF ok])
  have need': "length (vec b) - unat (writerIndex b) < unat len"
    using need wr by (simp add: word_less_nat_alt)
  have r': "length (vec b) + unat len + 8 < 2 ^ 64"
    using r by (simp add: room_def)
  have lhs: "unat (writableBytes b + prependableBytes b)
      = length (vec b) - unat (writerIndex b) + unat (readerIndex b)"
    using f wr by (subst unat_add_size) (auto simp: prependableBytes_def)
  have rhs: "unat (len + kCheapPrepend) = unat len + 8"
    using r' by (subst unat_add_size) auto
  show ?thesis
  proof (cases "writableBytes b + prependableBytes b < len + kCheapPrepend")
    case True
    have w: "unat (writerIndex b + len) = unat (writerIndex b) + unat len"
      using f r' by (intro unat_add_size) linarith
    define b' where "b' = b\<lparr>vec := vec_resize (vec b) (unat (writerIndex b) + unat len)\<rparr>"
    have "makeSpace b len = Inr b'"
      using True by (simp add: makeSpace_def w b'_def)
    moreover have "content b' = content b"
    proof -
      have "take (unat (writerIndex b)) (vec b') = take (unat (writerIndex b)) (vec b)"
        using f by (simp add: b'_def take_vec_resize)
      then show ?thesis
        using f by (simp add: content_def b'_def take_drop)
    qed
    moreover have "grows b (unat len) b'"
      using f r' need' by (auto simp: grows_def buffer_ok_def b'_def)
    ultimately show ?thesis
      using f by (simp add: b'_def)
  next
    case False
    then have big: "unat len + 8 \<le> length (vec b) - unat (writerIndex b) + unat (readerIndex b)"
      using lhs rhs by (simp add: word_less_nat_alt not_less)
    then have left: "8 < unat (readerIndex b)"
      using need' by linarith
    let ?m = "unat (writerIndex b) - unat (readerIndex b)"
    have m: "length (content b) = ?m"
      using ok by (rule length_content)
    have w': "unat (kCheapPrepend + readableBytes b) = 8 + ?m"
      using f left m by (subst unat_add_size) (auto simp: unat_readableBytes [OF ok])
    define b' where "b' = b\<lparr>vec := take 8 (vec b) @ content b @ drop (8 + ?m) (vec b),
        readerIndex := kCheapPrepend, writerIndex := kCheapPrepend + readableBytes b\<rparr>"
    have cw: "copy_within (vec b) (unat (readerIndex b)) (unat (writerIndex b)) 8
        = Inr (take 8 (vec b) @ content b @ drop (8 + ?m) (vec b))"
      using f left by (simp add: copy_within_left content_def)
    have b': "vec b' = take 8 (vec b) @ content b @ drop (8 + ?m) (vec b)"
        "unat (readerIndex b') = 8" "unat (writerIndex b') = 8 + ?m"
      using w' by (simp_all add: b'_def)
    have len: "length (vec b') = length (vec b)"
      using f left m b' by simp
    have "makeSpace b len = Inr b'"
      using False cw by (simp add: makeSpace_def b'_def Let_def)
    moreover have "content b' = content b"
      using f left m b' by (simp add: content_def [of b'])
    moreover have "grows b (unat len) b'"
      using f left len b' by (simp add: grows_def buffer_ok_def) arith
    ultimately show ?thesis
      using len b' big left f by simp
  qed
qed

lemma ensureWritableBytes_ok:
  assumes ok: "buffer_ok b" and r: "room b (unat len)"
  shows "\<exists>b'. ensureWritableBytes b len = Inr b' \<and> grows b (unat len) b'
           \<and> content b' = content b
           \<and> unat len \<le> length (vec b') - unat (writerIndex b')"
proof (cases "writableBytes b < len")
  case True
  with makeSpace_ok [OF ok r True] show ?thesis
    by (simp add: ensureWritableBytes_def)
next
  case False
  then have "unat len \<le> length (vec b) - unat (writerIndex b)"
    by (simp add: word_less_nat_alt not_less unat_writableBytes [OF ok])
  with False ok show ?thesis
    by (auto simp: ensureWritableBytes_def grows_def)
qed

text \<open>Writing a block into the writable area and advancing the writer index over it.\<close>

lemma write_window:
  assumes ok: "buffer_ok b" and fit: "length d \<le> length (vec b) - unat (writerIndex b)"
  defines "b' \<equiv> b\<lparr>vec := take (unat (writerIndex b)) (vec b) @ d
                           @ drop (unat (writerIndex b) + length d) (vec b),
                   writerIndex := writerIndex b + size_of d\<rparr>"
  shows "copy_into (vec b) (unat (writerIndex b)) d = Inr (vec b')"
    and "grows b 0 b'" and "content b' = content b @ d"
    and "unat (writerIndex b') = unat (writerIndex b) + length d"
proof -
  note f = buffer_okD [OF ok]
  have fd: "fits (length d)" using fit f by linarith
  show c: "copy_into (vec b) (unat (writerIndex b)) d = Inr (vec b')"
    using fit f by (simp add: b'_def copy_into_ok)
  show w: "unat (writerIndex b') = unat (writerIndex b) + length d"
    using fit f by (simp add: b'_def unat_size_of [OF fd] unat_add_size)
  have len: "length (vec b') = length (vec b)"
    using c by (rule copy_into_length)
  show "grows b 0 b'"
    using f fit len w by (simp add: grows_def buffer_ok_def) (simp add: b'_def)
  let ?r = "unat (readerIndex b)" and ?m = "unat (writerIndex b) - unat (readerIndex b)"
  have "take (?m + length d) (drop ?r (take (?r + ?m) (vec b) @ d
          @ drop (unat (writerIndex b) + length d) (vec b))) = take ?m (drop ?r (vec b)) @ d"
    using f fit by (intro window_back) linarith
  moreover have "unat (writerIndex b') - unat (readerIndex b') = ?m + length d"
    using w f by (simp add: b'_def)
  ultimately show "content b' = content b @ d"
    using f by (simp add: content_def) (simp add: b'_def)
qed

lemma append_data_ok:
  assumes ok: "buffer_ok b" and r: "room b (length d)"
  shows "\<exists>b'. append_data b d = Inr b' \<and> grows b (length d) b' \<and> content b' = content b @ d"
proof -
  have fd: "fits (length d)" using r by (rule roomD)
  obtain b1 where
      b1: "(if writableBytes b < size_of d then makeSpace b (size_of d) else Inr b) = Inr b1"
    and g1: "grows b (length d) b1" and c1: "content b1 = content b"
    and fit: "length d \<le> length (vec b1) - unat (writerIndex b1)"
    using ensureWritableBytes_ok [OF ok, of "size_of d"] r
    unfolding ensureWritableBytes_def by (auto simp: unat_size_of [OF fd])
  note w = write_window [OF grows_ok [OF g1] fit]
  show ?thesis
    using w(1,2,3) grows_trans [OF g1 w(2)] c1 by (simp add: append_data_def b1)
qed

lemma hasWritten_ok:
  assumes ok: "buffer_ok b" and fit: "length d \<le> length (vec b) - unat (writerIndex b)"
  shows "\<exists>b'. write_at_beginWrite b d = Inr b' \<and> grows b 0 (hasWritten b' (size_of d))
           \<and> content (hasWritten b' (size_of d)) = content b @ d"
  using write_window [OF ok fit]
  by (simp add: write_at_beginWrite_def hasWritten_def)

lemma readFd_data_ok:
  assumes ok: "buffer_ok b" and r: "room b (length d)" and cap: "length d \<le> iov_capacity b"
  shows "\<exists>b'. readFd b (ReadvData d) = Inr \<lparr>rf_buffer = b', rf_n = int (length d), rf_errno = None\<rparr>
           \<and> grows b (length d) b' \<and> content b' = content b @ d"
proof -
  note f = buffer_okD [OF ok]
  have fd: "fits (length d)" using r by (rule roomD)
  have wr: "unat (writableBytes b) = length (vec b) - unat (writerIndex b)"
    by (rule unat_writableBytes [OF ok])
  show ?thesis
  proof (cases "size_of d \<le> writableBytes b")
    case True
    then have fit: "length d \<le> length (vec b) - unat (writerIndex b)"
      by (simp add: word_le_nat_alt unat_size_of [OF fd] wr)
    with True cap wr write_window [OF ok fit] show ?thesis
      by (simp add: readFd_def Let_def grows_def)
  next
    case False
    define d1 d2 where "d1 = take (unat (writableBytes b)) d"
      and "d2 = drop (unat (writableBytes b)) d"
    have d: "d = d1 @ d2" by (simp add: d1_def d2_def)
    have l1: "length d1 = length (vec b) - unat (writerIndex b)"
      using False by (simp add: d1_def wr word_le_nat_alt unat_size_of [OF fd])
    note w = write_window [OF ok, of d1]
    let ?b1 = "b\<lparr>vec := take (unat (writerIndex b)) (vec b) @ d1
                           @ drop (unat (writerIndex b) + length d1) (vec b),
                   writerIndex := writerIndex b + size_of d1\<rparr>"
    have w_end: "writerIndex b + size_of d1 = size_of (vec b)"
      using f by (simp add: size_of_def l1 of_nat_diff)
    have g1: "grows b 0 ?b1" and c1: "content ?b1 = content b @ d1"
      using w l1 by simp_all
    have r1: "room ?b1 (length d2)"
      using grows_room [OF g1, of "length d2"] r d by (simp add: room_def)
    obtain b' where b': "append_data ?b1 d2 = Inr b'" "grows ?b1 (length d2) b'"
        "content b' = content ?b1 @ d2"
      using append_data_ok [OF grows_ok [OF g1] r1] by blast
    have g: "grows b (length d) b'"
      using grows_trans [OF g1 b'(2)] d by (auto simp: grows_def)
    have "readFd b (ReadvData d)
        = Inr \<lparr>rf_buffer = b', rf_n = int (length d), rf_errno = None\<rparr>"
      using False cap w(1) l1 b'(1) w_end
      by (simp add: readFd_def Let_def flip: d1_def d2_def)
    with g b'(3) c1 d show ?thesis by simp
  qed
qed

section \<open>The interface the clients use: a byte queue\<close>

text \<open>
  The codec and the connections use a buffer through \<^verbatim>\<open>append\<close>, \<^verbatim>\<open>retrieve\<close> and the readable
  bytes. The locale states what they rely on; \<open>put_all\<close> and \<open>queue_run\<close> are the client-side
  loops its lemmas are about.
\<close>

fun put_all :: "('q \<Rightarrow> byte list \<Rightarrow> 'q result) \<Rightarrow> 'q \<Rightarrow> byte list list \<Rightarrow> 'q result" where
  "put_all put q [] = Inr q"
| "put_all put q (d # ds) = andThen (put q d) (\<lambda>q'. put_all put q' ds)"

datatype queue_op = Put "byte list" | Take size_t

fun queue_run ::
  "('q \<Rightarrow> byte list \<Rightarrow> 'q result) \<Rightarrow> ('q \<Rightarrow> size_t \<Rightarrow> 'q) \<Rightarrow> 'q \<Rightarrow> queue_op list \<Rightarrow> 'q result" where
  "queue_run put off q [] = Inr q"
| "queue_run put off q (Put d # ops) = andThen (put q d) (\<lambda>q'. queue_run put off q' ops)"
| "queue_run put off q (Take n # ops) = queue_run put off (off q n) ops"

fun spec_run :: "byte list \<Rightarrow> queue_op list \<Rightarrow> byte list" where
  "spec_run xs [] = xs"
| "spec_run xs (Put d # ops) = spec_run (xs @ d) ops"
| "spec_run xs (Take n # ops) = spec_run (drop (unat n) xs) ops"

fun put_bytes :: "queue_op list \<Rightarrow> nat" where
  "put_bytes [] = 0"
| "put_bytes (Put d # ops) = length d + put_bytes ops"
| "put_bytes (Take n # ops) = put_bytes ops"

locale byte_queue =
  fixes ok :: "'q \<Rightarrow> bool"
    and view :: "'q \<Rightarrow> byte list"
    and space :: "'q \<Rightarrow> nat \<Rightarrow> bool"
    and put :: "'q \<Rightarrow> byte list \<Rightarrow> 'q result"
    and off :: "'q \<Rightarrow> size_t \<Rightarrow> 'q"
  assumes put_law: "ok q \<Longrightarrow> space q (length d + m) \<Longrightarrow>
      \<exists>q'. put q d = Inr q' \<and> ok q' \<and> view q' = view q @ d \<and> space q' m"
    and off_law: "ok q \<Longrightarrow> ok (off q n) \<and> view (off q n) = drop (unat n) (view q)"
    and off_space: "ok q \<Longrightarrow> space q m \<Longrightarrow> space (off q n) m"
begin

lemma put_all_law:
  "ok q \<Longrightarrow> space q (length (concat ds) + m) \<Longrightarrow>
     \<exists>q'. put_all put q ds = Inr q' \<and> ok q' \<and> view q' = view q @ concat ds \<and> space q' m"
proof (induction ds arbitrary: q)
  case Nil
  then show ?case by simp
next
  case (Cons d ds)
  then obtain q1 where "put q d = Inr q1" "ok q1" "view q1 = view q @ d"
      "space q1 (length (concat ds) + m)"
    using put_law [of q d "length (concat ds) + m"] by (auto simp: add.assoc)
  with Cons.IH [of q1] show ?case by simp
qed

lemma run_law:
  "ok q \<Longrightarrow> space q (put_bytes ops + m) \<Longrightarrow>
     \<exists>q'. queue_run put off q ops = Inr q' \<and> ok q' \<and> view q' = spec_run (view q) ops \<and> space q' m"
proof (induction ops arbitrary: q)
  case Nil
  then show ?case by simp
next
  case (Cons op ops)
  show ?case
  proof (cases op)
    case (Put d)
    with Cons.prems obtain q1 where "put q d = Inr q1" "ok q1" "view q1 = view q @ d"
        "space q1 (put_bytes ops + m)"
      using put_law [of q d "put_bytes ops + m"] by (auto simp: add.assoc)
    with Cons.IH [of q1] Put show ?thesis by simp
  next
    case (Take n)
    with Cons.prems Cons.IH [of "off q n"] off_law [of q n] show ?thesis
      by (simp add: off_space)
  qed
qed

end

interpretation bq: byte_queue buffer_ok content room append_data retrieve
proof unfold_locales
  fix b and d :: "byte list" and m
  assume ok: "buffer_ok b" and r: "room b (length d + m)"
  then obtain b' where "append_data b d = Inr b'" "grows b (length d) b'"
      "content b' = content b @ d"
    using append_data_ok room_mono [OF r] by (meson le_add1)
  with r show "\<exists>b'. append_data b d = Inr b' \<and> buffer_ok b' \<and> content b' = content b @ d \<and> room b' m"
    by (auto intro: grows_room grows_ok)
next
  fix b n assume "buffer_ok b"
  then show "buffer_ok (retrieve b n) \<and> content (retrieve b n) = drop (unat n) (content b)"
    using retrieve_ok [of b n] by (simp add: grows_def)
next
  fix b m n assume "buffer_ok b" "room b m"
  then show "room (retrieve b n) m"
    using retrieve_ok [of b n] grows_room [of b 0 "retrieve b n" m] by simp
qed

section \<open>The whole interface as a state machine\<close>

text \<open>
  The abstract buffer is the picture in \<^verbatim>\<open>Buffer.h\<close> without the vector: how many bytes are prependable, which are readable and how
  many are writable. The readable ones are a queue; the two numbers say which calls the interface allows and when the vector grows.
\<close>

record areas =
  prependable :: nat
  readable :: "byte list"
  writable :: nat

definition areas_of :: "buffer \<Rightarrow> areas" where
  "areas_of b = \<lparr>prependable = unat (readerIndex b), readable = content b, writable = length (vec b) - unat (writerIndex b)\<rparr>"

definition area_total :: "areas \<Rightarrow> nat" where
  "area_total a = prependable a + length (readable a) + writable a"

definition area_drop :: "nat \<Rightarrow> areas \<Rightarrow> areas" where
  "area_drop n a =
     (if n < length (readable a) then a\<lparr>prependable := prependable a + n, readable := drop n (readable a)\<rparr>
      else \<lparr>prependable = 8, readable = [], writable = area_total a - 8\<rparr>)"

text \<open>Room for \<open>n\<close> bytes behind the readable ones: as it is, by growing, or by moving the readable bytes to the front.\<close>

definition area_ensure :: "nat \<Rightarrow> areas \<Rightarrow> areas" where
  "area_ensure n a =
     (if n \<le> writable a then a
      else if writable a + prependable a < n + 8 then a\<lparr>writable := n\<rparr>
      else a\<lparr>prependable := 8, writable := writable a + prependable a - 8\<rparr>)"

definition area_write :: "byte list \<Rightarrow> areas \<Rightarrow> areas" where
  "area_write d a = a\<lparr>readable := readable a @ d, writable := writable a - length d\<rparr>"

definition area_append :: "byte list \<Rightarrow> areas \<Rightarrow> areas" where
  "area_append d a = area_write d (area_ensure (length d) a)"

definition area_prepend :: "byte list \<Rightarrow> areas \<Rightarrow> areas" where
  "area_prepend d a =
     (if prependable a < length d then a
      else a\<lparr>prependable := prependable a - length d, readable := d @ readable a\<rparr>)"

text \<open>
  One step per public operation. \<open>OpWrite d\<close> is what \<^verbatim>\<open>beginWrite\<close> and \<^verbatim>\<open>hasWritten\<close> are there for: \<open>d\<close> is written through the
  pointer and then announced. \<open>OpPeek n\<close> reads \<open>n\<close> bytes through the pointer of \<^verbatim>\<open>peek\<close>. The output is what the operation returns.
\<close>

datatype buffer_op =
    OpAppend "byte list"
  | OpPrepend "byte list"
  | OpPeek nat
  | OpRetrieve size_t
  | OpRetrieveAll
  | OpRetrieveAsString size_t
  | OpRetrieveAllAsString
  | OpEnsureWritable size_t
  | OpWrite "byte list"
  | OpReadFd readv_outcome
  | OpSizes

datatype buffer_out = NoOut | Bytes "byte list" | ReadResult int "int option" | Sizes size_t size_t size_t

fun buffer_step :: "buffer \<Rightarrow> buffer_op \<Rightarrow> (buffer_out \<times> buffer) result" where
  "buffer_step b (OpAppend d) = andThen (append_data b d) (\<lambda>b'. Inr (NoOut, b'))"
| "buffer_step b (OpPrepend d) = andThen (prepend b d) (\<lambda>b'. Inr (NoOut, b'))"
| "buffer_step b (OpPeek n) = andThen (peek_read b n) (\<lambda>d. Inr (Bytes d, b))"
| "buffer_step b (OpRetrieve n) = Inr (NoOut, retrieve b n)"
| "buffer_step b OpRetrieveAll = Inr (NoOut, retrieveAll b)"
| "buffer_step b (OpRetrieveAsString n) = andThen (retrieveAsString b n) (\<lambda>(d, b'). Inr (Bytes d, b'))"
| "buffer_step b OpRetrieveAllAsString = andThen (retrieveAllAsString b) (\<lambda>(d, b'). Inr (Bytes d, b'))"
| "buffer_step b (OpEnsureWritable n) = andThen (ensureWritableBytes b n) (\<lambda>b'. Inr (NoOut, b'))"
| "buffer_step b (OpWrite d) = andThen (write_at_beginWrite b d) (\<lambda>b'. Inr (NoOut, hasWritten b' (size_of d)))"
| "buffer_step b (OpReadFd rv) = andThen (readFd b rv) (\<lambda>r. Inr (ReadResult (rf_n r) (rf_errno r), rf_buffer r))"
| "buffer_step b OpSizes = Inr (Sizes (readableBytes b) (writableBytes b) (prependableBytes b), b)"

fun buffer_spec :: "areas \<Rightarrow> buffer_op \<Rightarrow> buffer_out \<times> areas" where
  "buffer_spec a (OpAppend d) = (NoOut, area_append d a)"
| "buffer_spec a (OpPrepend d) = (NoOut, area_prepend d a)"
| "buffer_spec a (OpPeek n) = (Bytes (take n (readable a)), a)"
| "buffer_spec a (OpRetrieve n) = (NoOut, area_drop (unat n) a)"
| "buffer_spec a OpRetrieveAll = (NoOut, area_drop (length (readable a)) a)"
| "buffer_spec a (OpRetrieveAsString n) = (Bytes (take (unat n) (readable a)), area_drop (unat n) a)"
| "buffer_spec a OpRetrieveAllAsString = (Bytes (readable a), area_drop (length (readable a)) a)"
| "buffer_spec a (OpEnsureWritable n) = (NoOut, area_ensure (unat n) a)"
| "buffer_spec a (OpWrite d) = (NoOut, area_write d a)"
| "buffer_spec a (OpReadFd rv) =
     (case rv of
        ReadvError e \<Rightarrow> (ReadResult (-1) (Some e), a)
      | ReadvData d \<Rightarrow> (ReadResult (int (length d)) None,
          if length d \<le> writable a then area_write d a
          else area_append (drop (writable a) d) (area_write (take (writable a) d) a)))"
| "buffer_spec a OpSizes = (Sizes (size_of (readable a)) (of_nat (writable a)) (of_nat (prependable a)), a)"

text \<open>
  What the interface leaves to its callers: to read no more than there is through \<^verbatim>\<open>peek\<close> and \<^verbatim>\<open>retrieveAsString\<close>, and to write no more
  than there is room for through \<^verbatim>\<open>beginWrite\<close>. A \<^verbatim>\<open>readv\<close> delivers no more than its two buffers take.
\<close>

fun op_allowed :: "areas \<Rightarrow> buffer_op \<Rightarrow> bool" where
  "op_allowed a (OpPeek n) \<longleftrightarrow> n \<le> length (readable a)"
| "op_allowed a (OpRetrieveAsString n) \<longleftrightarrow> unat n \<le> length (readable a)"
| "op_allowed a (OpWrite d) \<longleftrightarrow> length d \<le> writable a"
| "op_allowed a (OpReadFd (ReadvData d)) \<longleftrightarrow>
     length d \<le> (if writable a < kExtraBuf then writable a + kExtraBuf else writable a)"
| "op_allowed a op \<longleftrightarrow> True"

text \<open>How much an operation can make the vector grow.\<close>

fun op_demand :: "buffer_op \<Rightarrow> nat" where
  "op_demand (OpAppend d) = length d"
| "op_demand (OpPrepend d) = length d"
| "op_demand (OpEnsureWritable n) = unat n"
| "op_demand (OpReadFd (ReadvData d)) = length d"
| "op_demand op = 0"

fun buffer_run :: "buffer \<Rightarrow> buffer_op list \<Rightarrow> (buffer_out list \<times> buffer) result" where
  "buffer_run b [] = Inr ([], b)"
| "buffer_run b (op # ops) =
     andThen (buffer_step b op)
       (\<lambda>(out, b'). andThen (buffer_run b' ops) (\<lambda>(outs, b''). Inr (out # outs, b'')))"

fun buffer_spec_run :: "areas \<Rightarrow> buffer_op list \<Rightarrow> buffer_out list \<times> areas" where
  "buffer_spec_run a [] = ([], a)"
| "buffer_spec_run a (op # ops) =
     (let (out, a') = buffer_spec a op; (outs, a'') = buffer_spec_run a' ops in (out # outs, a''))"

fun ops_allowed :: "areas \<Rightarrow> buffer_op list \<Rightarrow> bool" where
  "ops_allowed a [] \<longleftrightarrow> True"
| "ops_allowed a (op # ops) \<longleftrightarrow> op_allowed a op \<and> ops_allowed (snd (buffer_spec a op)) ops"

lemma readable_areas [simp]: "readable (areas_of b) = content b"
  by (simp add: areas_of_def)

lemma area_total_ok: "buffer_ok b \<Longrightarrow> area_total (areas_of b) = length (vec b)"
  by (auto simp: area_total_def areas_of_def length_content buffer_ok_def)

lemma retrieveAll_areas: "buffer_ok b \<Longrightarrow> areas_of (retrieveAll b) = area_drop (length (content b)) (areas_of b)"
  using retrieveAll_ok [of b] area_total_ok [of b]
  by (simp add: area_drop_def areas_of_def) (simp add: retrieveAll_def)

lemma retrieve_areas:
  assumes ok: "buffer_ok b"
  shows "areas_of (retrieve b n) = area_drop (unat n) (areas_of b)"
proof (cases "n < readableBytes b")
  case True
  then have len: "unat n < length (content b)" using ok by (simp add: word_less_nat_alt unat_readableBytes)
  then have "unat (readerIndex b + n) = unat (readerIndex b) + unat n"
    using ok by (intro unat_add_size) (auto simp: length_content buffer_ok_def)
  with True len retrieve_ok [OF ok, of n] show ?thesis
    by (simp add: area_drop_def areas_of_def) (simp add: retrieve_def)
next
  case False
  then have "length (content b) \<le> unat n" "retrieve b n = retrieveAll b"
    using ok by (simp_all add: word_less_nat_alt unat_readableBytes not_less retrieve_def retrieveAll_def)
  with retrieveAll_areas [OF ok] show ?thesis by (simp add: area_drop_def area_total_def)
qed

lemma retrieveAsString_ok:
  assumes "buffer_ok b" "unat n \<le> length (content b)"
  shows "retrieveAsString b n = Inr (take (unat n) (content b), retrieve b n)"
  using assms by (simp add: retrieveAsString_def peek_read_ok)

lemma prepend_areas:
  assumes ok: "buffer_ok b" and f: "fits (length d)"
  shows "\<exists>b'. prepend b d = Inr b' \<and> buffer_ok b' \<and> length (vec b') = length (vec b) \<and> areas_of b' = area_prepend d (areas_of b)"
proof (cases "length d \<le> unat (readerIndex b)")
  case True
  from prepend_ok [OF ok True] obtain b' where b': "prepend b d = Inr b'" "buffer_ok b'" "content b' = d @ content b"
    "length (vec b') = length (vec b)" by blast
  moreover have "\<not> prependableBytes b < size_of d"
    using True by (simp add: prependableBytes_def word_less_nat_alt unat_size_of [OF f])
  then have "unat (readerIndex b') = unat (readerIndex b) - length d" "writerIndex b' = writerIndex b"
    using b'(1) True by (auto simp: prepend_def Let_def andThen_eq_Inr unat_sub_size unat_size_of [OF f])
  ultimately show ?thesis using True by (auto simp: area_prepend_def areas_of_def)
next
  case False
  with prepend_too_long [OF ok f] ok show ?thesis by (simp add: area_prepend_def areas_of_def)
qed

lemma makeSpace_areas:
  assumes ok: "buffer_ok b" and r: "room b (unat len)" and need: "writableBytes b < len"
  shows "\<exists>b'. makeSpace b len = Inr b' \<and> grows b (unat len) b' \<and> areas_of b' = area_ensure (unat len) (areas_of b)"
proof -
  from makeSpace_ok [OF ok r need] obtain b' where b': "makeSpace b len = Inr b'" "grows b (unat len) b'" "content b' = content b" by blast
  note f = buffer_okD [OF ok] and wr = unat_writableBytes [OF ok]
  have lhs: "unat (writableBytes b + prependableBytes b) = length (vec b) - unat (writerIndex b) + unat (readerIndex b)"
    using f wr by (subst unat_add_size) (auto simp: prependableBytes_def)
  have rhs: "unat (len + kCheapPrepend) = unat len + 8"
    using r by (subst unat_add_size) (auto simp: room_def)
  have grown: "unat (writerIndex b + len) = unat (writerIndex b) + unat len"
    using r f by (subst unat_add_size) (auto simp: room_def)
  have small: "length (vec b) - unat (writerIndex b) < unat len" using need by (simp add: word_less_nat_alt wr)
  show ?thesis
  proof (cases "writableBytes b + prependableBytes b < len + kCheapPrepend")
    case True
    then have "b' = b\<lparr>vec := vec_resize (vec b) (unat (writerIndex b) + unat len)\<rparr>"
      using b'(1) by (simp add: makeSpace_def grown)
    moreover have "length (vec b) - unat (writerIndex b) + unat (readerIndex b) < unat len + 8"
      using True by (simp add: word_less_nat_alt lhs rhs)
    ultimately show ?thesis using b' small by (auto simp: areas_of_def area_ensure_def)
  next
    case False
    then obtain v where v: "b' = b\<lparr>vec := v, readerIndex := kCheapPrepend, writerIndex := kCheapPrepend + readableBytes b\<rparr>"
      "length v = length (vec b)"
      using b'(1) by (auto simp: makeSpace_def Let_def andThen_eq_Inr copy_within_def dest: copy_into_length split: if_splits)
    have big: "\<not> length (vec b) - unat (writerIndex b) + unat (readerIndex b) < unat len + 8"
      using False by (simp add: word_less_nat_alt lhs rhs)
    have "unat (kCheapPrepend + readableBytes b) = 8 + length (content b)"
      using f big small by (subst unat_add_size) (auto simp: unat_readableBytes [OF ok] length_content [OF ok])
    then have "length v - unat (kCheapPrepend + readableBytes b) = length (vec b) - unat (writerIndex b) + unat (readerIndex b) - 8"
      using v(2) f big small by (simp add: length_content [OF ok])
    then show ?thesis using b' small big v(1) by (auto simp: areas_of_def area_ensure_def)
  qed
qed

lemma ensureWritableBytes_areas:
  assumes "buffer_ok b" "room b (unat len)"
  shows "\<exists>b'. ensureWritableBytes b len = Inr b' \<and> grows b (unat len) b' \<and> areas_of b' = area_ensure (unat len) (areas_of b)"
proof (cases "writableBytes b < len")
  case True
  with makeSpace_areas [OF assms True] show ?thesis by (simp add: ensureWritableBytes_def)
next
  case False
  then have "unat len \<le> length (vec b) - unat (writerIndex b)"
    by (simp add: word_less_nat_alt not_less unat_writableBytes [OF assms(1)])
  with False assms(1) show ?thesis by (simp add: ensureWritableBytes_def grows_def area_ensure_def areas_of_def)
qed

lemma area_ensure_room: "length d \<le> writable (area_ensure (length d) a)"
  by (simp add: area_ensure_def) arith

text \<open>The block goes behind the readable bytes, and the writable area shrinks by it.\<close>

lemma write_areas:
  assumes "buffer_ok b" "length d \<le> writable (areas_of b)"
  shows "\<exists>v. copy_into (vec b) (unat (writerIndex b)) d = Inr v
    \<and> grows b 0 (b\<lparr>vec := v, writerIndex := writerIndex b + size_of d\<rparr>)
    \<and> areas_of (b\<lparr>vec := v, writerIndex := writerIndex b + size_of d\<rparr>) = area_write d (areas_of b)"
proof -
  have fit: "length d \<le> length (vec b) - unat (writerIndex b)" using assms(2) by (simp add: areas_of_def)
  note w = write_window [OF assms(1) fit]
  from copy_into_length [OF w(1)] w show ?thesis
    by (auto simp: areas_of_def area_write_def)
qed

lemma append_areas:
  assumes ok: "buffer_ok b" and r: "room b (length d)"
  shows "\<exists>b'. append_data b d = Inr b' \<and> grows b (length d) b' \<and> areas_of b' = area_append d (areas_of b)"
proof -
  have fd: "unat (size_of d) = length d" using roomD(2) [OF r] by (rule unat_size_of)
  from ensureWritableBytes_areas [OF ok, of "size_of d"] r obtain b1 where
    b1: "ensureWritableBytes b (size_of d) = Inr b1" "grows b (length d) b1" "areas_of b1 = area_ensure (length d) (areas_of b)"
    by (auto simp: fd)
  then obtain v where v: "copy_into (vec b1) (unat (writerIndex b1)) d = Inr v"
    "grows b1 0 (b1\<lparr>vec := v, writerIndex := writerIndex b1 + size_of d\<rparr>)"
    "areas_of (b1\<lparr>vec := v, writerIndex := writerIndex b1 + size_of d\<rparr>) = area_write d (areas_of b1)"
    using write_areas [OF grows_ok [OF b1(2)], of d] area_ensure_room [of d "areas_of b"] by auto
  then show ?thesis using b1 grows_trans [OF b1(2) v(2)]
    by (simp add: append_data_def area_append_def flip: ensureWritableBytes_def)
qed

lemma readFd_areas:
  assumes ok: "buffer_ok b" and r: "room b (length d)" and cap: "length d \<le> iov_capacity b"
  shows "\<exists>b'. readFd b (ReadvData d) = Inr \<lparr>rf_buffer = b', rf_n = int (length d), rf_errno = None\<rparr>
    \<and> grows b (length d) b' \<and> areas_of b' = snd (buffer_spec (areas_of b) (OpReadFd (ReadvData d)))"
proof -
  have wr: "unat (writableBytes b) = writable (areas_of b)" by (simp add: areas_of_def unat_writableBytes [OF ok])
  have le: "size_of d \<le> writableBytes b \<longleftrightarrow> length d \<le> writable (areas_of b)"
    by (simp add: word_le_nat_alt unat_size_of [OF roomD(2) [OF r]] wr)
  show ?thesis
  proof (cases "length d \<le> writable (areas_of b)")
    case True
    with write_areas [OF ok True] cap le wr show ?thesis by (auto simp: readFd_def Let_def grows_def)
  next
    case False
    let ?d1 = "take (writable (areas_of b)) d" and ?d2 = "drop (writable (areas_of b)) d"
    have l1: "length ?d1 = writable (areas_of b)" using False by simp
    then obtain v where v: "copy_into (vec b) (unat (writerIndex b)) ?d1 = Inr v"
      "grows b 0 (b\<lparr>vec := v, writerIndex := writerIndex b + size_of ?d1\<rparr>)"
      "areas_of (b\<lparr>vec := v, writerIndex := writerIndex b + size_of ?d1\<rparr>) = area_write ?d1 (areas_of b)"
      using write_areas [OF ok, of ?d1] by auto
    have "writerIndex b + size_of ?d1 = size_of (vec b)"
      using buffer_okD [OF ok] l1 by (simp add: size_of_def areas_of_def of_nat_diff)
    moreover have same: "size_of v = size_of (vec b)" using copy_into_length [OF v(1)] by (simp add: size_of_def)
    ultimately have end_: "writerIndex b + size_of ?d1 = size_of v" by simp
    let ?b1 = "b\<lparr>vec := v, writerIndex := size_of v\<rparr>"
    note v' = v(2,3) [unfolded end_]
    have "room ?b1 (length ?d2)" using grows_room [OF v'(1), of "length ?d2"] r by (simp add: room_def)
    with append_areas [OF grows_ok [OF v'(1)]] obtain b' where
      b': "append_data ?b1 ?d2 = Inr b'" "grows ?b1 (length ?d2) b'" "areas_of b' = area_append ?d2 (areas_of ?b1)" by blast
    have "grows b (length d) b'" using grows_trans [OF v'(1) b'(2)] by (auto simp: grows_def)
    with False cap le wr v(1) v' b' show ?thesis by (simp add: readFd_def Let_def flip: same)
  qed
qed

lemma iov_capacity_ge: "kExtraBuf \<le> iov_capacity b"
  by (simp add: iov_capacity_def Let_def)

lemma iov_capacity_areas: "buffer_ok b \<Longrightarrow>
    iov_capacity b = (if writable (areas_of b) < kExtraBuf then writable (areas_of b) + kExtraBuf else writable (areas_of b))"
  by (simp add: iov_capacity_def Let_def areas_of_def unat_writableBytes)

lemma buffer_step_refines:
  assumes ok: "buffer_ok b" and r: "room b (op_demand op)" and allowed: "op_allowed (areas_of b) op"
  shows "\<exists>out b'. buffer_step b op = Inr (out, b') \<and> buffer_ok b' \<and> length (vec b') \<le> length (vec b) + op_demand op
           \<and> buffer_spec (areas_of b) op = (out, areas_of b')"
proof (cases op)
  case (OpAppend d)
  with append_areas [OF ok, of d] r show ?thesis by (auto simp: grows_def)
next
  case (OpPrepend d)
  with prepend_areas [OF ok, of d] r show ?thesis by (auto simp: room_def)
next
  case (OpPeek n)
  with allowed ok show ?thesis by (simp add: peek_read_ok)
next
  case (OpRetrieve n)
  with retrieve_ok [OF ok, of n] retrieve_areas [OF ok, of n] show ?thesis by (simp add: grows_def)
next
  case OpRetrieveAll
  with retrieveAll_ok [OF ok] retrieveAll_areas [OF ok] show ?thesis by (simp add: grows_def)
next
  case (OpRetrieveAsString n)
  with allowed retrieve_ok [OF ok, of n] retrieve_areas [OF ok, of n] ok show ?thesis
    by (simp add: grows_def retrieveAsString_ok)
next
  case OpRetrieveAllAsString
  with retrieve_ok [OF ok, of "readableBytes b"] retrieve_areas [OF ok, of "readableBytes b"] ok show ?thesis
    by (simp add: grows_def retrieveAllAsString_def retrieveAsString_ok unat_readableBytes)
next
  case (OpEnsureWritable n)
  with ensureWritableBytes_areas [OF ok, of n] r show ?thesis by (auto simp: grows_def)
next
  case (OpWrite d)
  with allowed write_areas [OF ok, of d] show ?thesis by (auto simp: write_at_beginWrite_def hasWritten_def grows_def)
next
  case (OpReadFd rv)
  show ?thesis
  proof (cases rv)
    case (ReadvError e)
    with ok OpReadFd show ?thesis by (simp add: readFd_def)
  next
    case (ReadvData d)
    with OpReadFd readFd_areas [OF ok, of d] r allowed show ?thesis
      by (auto simp: grows_def iov_capacity_areas [OF ok] split: if_splits)
  qed
next
  case OpSizes
  have "of_nat (unat (writableBytes b)) = writableBytes b" by simp
  with OpSizes ok show ?thesis
    by (simp add: readableBytes_content prependableBytes_def areas_of_def flip: unat_writableBytes)
qed

lemma buffer_run_refines:
  assumes "buffer_ok b" "room b (sum_list (map op_demand ops))" "ops_allowed (areas_of b) ops"
  shows "\<exists>outs b'. buffer_run b ops = Inr (outs, b') \<and> buffer_ok b'
           \<and> buffer_spec_run (areas_of b) ops = (outs, areas_of b')"
  using assms
proof (induction ops arbitrary: b)
  case Nil
  then show ?case by simp
next
  case (Cons op ops)
  then obtain out b1 where s: "buffer_step b op = Inr (out, b1)" "buffer_ok b1"
      "length (vec b1) \<le> length (vec b) + op_demand op" "buffer_spec (areas_of b) op = (out, areas_of b1)"
    using buffer_step_refines [of b op] room_mono [OF Cons.prems(2)] by auto
  have "room b1 (sum_list (map op_demand ops))" using s(3) Cons.prems(2) by (simp add: room_def)
  with Cons.IH [of b1] Cons.prems(3) s obtain outs b2 where "buffer_run b1 ops = Inr (outs, b2)"
      "buffer_ok b2" "buffer_spec_run (areas_of b1) ops = (outs, areas_of b2)"
    by auto
  with s show ?case by simp
qed

section \<open>Properties\<close>

text \<open>C10:
  The buffer is a byte queue between two free areas: any sequence of the public operations, from any valid buffer that can grow by
  what the operations write, runs without an access outside the vector and without an overlapping copy, returns what the abstract
  buffer returns, and leaves exactly its three areas. The callers' part is \<open>ops_allowed\<close>: no more is read through \<^verbatim>\<open>peek\<close> and
  \<^verbatim>\<open>retrieveAsString\<close> than is readable, no more is written through \<^verbatim>\<open>beginWrite\<close> and announced with \<^verbatim>\<open>hasWritten\<close> than is writable.
  A \<^verbatim>\<open>prepend\<close> of any length is allowed; one that does not fit changes nothing.
\<close>

theorem buffer_is_byte_queue:
  assumes "buffer_ok b" "room b (sum_list (map op_demand ops))" "ops_allowed (areas_of b) ops"
  shows "\<exists>outs b'. buffer_run b ops = Inr (outs, b') \<and> buffer_ok b'
           \<and> buffer_spec_run (areas_of b) ops = (outs, areas_of b')"
  by (rule buffer_run_refines [OF assms])

lemma buffer_is_byte_queue_witness:
  "\<exists>b'. buffer_run (Buffer_init 4) [OpAppend [1, 2, 3], OpPrepend [0], OpRetrieveAsString 2, OpEnsureWritable 9, OpWrite [9],
       OpReadFd (ReadvData [4]), OpRetrieveAllAsString]
     = Inr ([NoOut, NoOut, Bytes [0, 1], NoOut, NoOut, ReadResult 1 None, Bytes [2, 3, 9, 4]], b')
     \<and> content b' = []"
proof -
  define ops where "ops = [OpAppend [1, 2, 3], OpPrepend [0], OpRetrieveAsString 2, OpEnsureWritable 9, OpWrite [9],
       OpReadFd (ReadvData [4]), OpRetrieveAllAsString]"
  have b: "buffer_ok (Buffer_init 4)" "content (Buffer_init 4) = []"
    using Buffer_init_ok [of 4] by simp_all
  have a: "areas_of (Buffer_init 4) = \<lparr>prependable = 8, readable = [], writable = 4\<rparr>"
    using b(2) by (simp add: areas_of_def) (simp add: Buffer_init_def kCheapPrepend_def)
  note area_defs = area_append_def area_ensure_def area_write_def area_prepend_def area_drop_def area_total_def
  have "room (Buffer_init 4) (sum_list (map op_demand ops))"
    by (simp add: ops_def room_def Buffer_init_def kCheapPrepend_def)
  moreover have "ops_allowed (areas_of (Buffer_init 4)) ops"
    by (simp add: a ops_def area_defs kExtraBuf_def)
  ultimately obtain outs b' where
    run: "buffer_run (Buffer_init 4) ops = Inr (outs, b')"
      "buffer_spec_run (areas_of (Buffer_init 4)) ops = (outs, areas_of b')"
    using buffer_is_byte_queue [OF b(1), of ops] by blast
  have "fst (buffer_spec_run (areas_of (Buffer_init 4)) ops) =
      [NoOut, NoOut, Bytes [0, 1], NoOut, NoOut, ReadResult 1 None, Bytes [2, 3, 9, 4]]"
    "readable (snd (buffer_spec_run (areas_of (Buffer_init 4)) ops)) = []"
    unfolding a ops_def by code_simp+
  with run show ?thesis unfolding ops_def by (intro exI [of _ b']) simp
qed

text \<open>
  \<^verbatim>\<open>append\<close> reuses the space in front of the readable bytes: when what is free before and behind
  them, less the 8 bytes kept for prepending, is enough, the vector keeps its size; otherwise it
  grows to exactly what is needed. In both cases nothing readable is lost.
\<close>

theorem append_reuses_space:
  assumes "buffer_ok b" "room b (length d)"
  shows "\<exists>b'. append_data b d = Inr b' \<and> content b' = content b @ d
     \<and> length (vec b') =
         (if length d \<le> length (vec b) - unat (writerIndex b) then length (vec b)
          else if length d + 8 \<le> length (vec b) - unat (writerIndex b) + unat (readerIndex b)
          then length (vec b) else unat (writerIndex b) + length d)"
proof -
  have fd: "fits (length d)" using assms(2) by (rule roomD)
  note f = buffer_okD [OF assms(1)] and wr = unat_writableBytes [OF assms(1)]
  obtain b' where b': "append_data b d = Inr b'" "content b' = content b @ d"
    using append_data_ok [OF assms] by blast
  obtain b1 where b1: "(if writableBytes b < size_of d then makeSpace b (size_of d) else Inr b) = Inr b1"
      "copy_into (vec b1) (unat (writerIndex b1)) d = Inr (vec b')"
    using b'(1) by (auto simp: append_data_def andThen_eq_Inr)
  have len: "length (vec b') = length (vec b1)"
    by (rule copy_into_length [OF b1(2)])
  have small: "writableBytes b < size_of d \<longleftrightarrow> length (vec b) - unat (writerIndex b) < length d"
    by (simp add: word_less_nat_alt wr unat_size_of [OF fd])
  have lhs: "unat (writableBytes b + prependableBytes b)
      = length (vec b) - unat (writerIndex b) + unat (readerIndex b)"
    using f wr by (subst unat_add_size) (auto simp: prependableBytes_def)
  have rhs: "unat (size_of d + kCheapPrepend) = length d + 8"
    using assms(2) by (subst unat_add_size) (auto simp: unat_size_of [OF fd] room_def)
  have "unat (writerIndex b + size_of d) = unat (writerIndex b) + length d"
    using assms(2) f by (subst unat_add_size) (auto simp: unat_size_of [OF fd] room_def)
  moreover have "writableBytes b + prependableBytes b < size_of d + kCheapPrepend
      \<longleftrightarrow> length (vec b) - unat (writerIndex b) + unat (readerIndex b) < length d + 8"
    by (simp add: word_less_nat_alt lhs rhs)
  ultimately show ?thesis
    using b1(1) b'
    by (auto simp: len small makeSpace_def andThen_eq_Inr Let_def
        copy_within_def split: if_splits dest: copy_into_length)
qed

lemma append_reuses_space_witness:
  "\<exists>b'. append_data \<lparr>vec = [0, 0, 0, 0, 0, 0, 0, 0, 1, 2, 3, 4], readerIndex = 11, writerIndex = 12\<rparr>
       [5, 6] = Inr b' \<and> content b' = [4, 5, 6] \<and> length (vec b') = 12"
  using append_reuses_space [of "\<lparr>vec = [0, 0, 0, 0, 0, 0, 0, 0, 1, 2, 3, 4], readerIndex = 11,
      writerIndex = 12\<rparr>" "[5, 6]"]
  by (auto simp: buffer_ok_def room_def content_def)

text \<open>
  \<^verbatim>\<open>readFd\<close> stores everything one \<^verbatim>\<open>readv\<close> can deliver, what fits behind the writer index and what
  spilled into the 64 KiB stack buffer, in order, and returns its length; a failing \<^verbatim>\<open>readv\<close>
  changes nothing and its \<^verbatim>\<open>errno\<close> is saved.
\<close>

theorem readFd_stores_all:
  assumes "buffer_ok b"
  shows "readFd b (ReadvError err) = Inr \<lparr>rf_buffer = b, rf_n = -1, rf_errno = Some err\<rparr>
    \<and> (room b (length d) \<and> length d \<le> iov_capacity b \<longrightarrow>
        (\<exists>b'. readFd b (ReadvData d) = Inr \<lparr>rf_buffer = b', rf_n = int (length d), rf_errno = None\<rparr>
          \<and> buffer_ok b' \<and> content b' = content b @ d))"
  using readFd_data_ok [OF assms, of d] by (auto simp: readFd_def grows_def)

lemma readFd_stores_all_witness:
  "\<exists>b'. readFd (Buffer_init 2) (ReadvData [1, 2, 3]) = Inr \<lparr>rf_buffer = b', rf_n = 3, rf_errno = None\<rparr>
     \<and> content b' = [1, 2, 3]"
  using readFd_stores_all [of "Buffer_init 2" 0 "[1, 2, 3]"] Buffer_init_ok [of 2] iov_capacity_ge [of "Buffer_init 2"]
  by (auto simp: room_def kExtraBuf_def Buffer_init_def kCheapPrepend_def)

text \<open>
  \<^verbatim>\<open>prepend\<close> puts the block in front of the readable bytes when the prependable area holds it, and
  otherwise leaves the buffer as it is without reporting it to the caller.
\<close>

theorem prepend_fits_or_drops:
  assumes "buffer_ok b" "fits (length d)"
  shows "\<exists>b'. prepend b d = Inr b' \<and> buffer_ok b'
    \<and> (if length d \<le> unat (readerIndex b) then content b' = d @ content b else b' = b)"
  using prepend_ok [OF assms(1), of d] prepend_too_long [OF assms] assms
  by (cases "length d \<le> unat (readerIndex b)") auto

lemma prepend_fits_or_drops_witness:
  "\<exists>b'. prepend (Buffer_init 2) [1, 2, 3, 4] = Inr b' \<and> content b' = [1, 2, 3, 4]"
  using prepend_fits_or_drops [of "Buffer_init 2" "[1, 2, 3, 4]"] Buffer_init_ok [of 2]
  by (auto simp: Buffer_init_def kCheapPrepend_def split: if_splits)

end
