(* ===== verification/Codec.thy ===== *)
theory Codec
  imports Buffer Endian
begin

text \<open>
  \<^verbatim>\<open>rpc/ProtobufCodecLite.h\<close> and \<^verbatim>\<open>rpc/ProtobufCodecLite.cc\<close>: the framing of messages on a TCP
  byte stream (size, tag, payload, Adler-32 checksum). What the code takes from elsewhere is in
  the record \<open>codec_env\<close>: the byte order of the host, zlib's \<^verbatim>\<open>adler32\<close>, and the four
  operations of a protobuf message (required fields set, size, serialisation into an array,
  parsing from an array);
  theory \<open>RpcMeta\<close> models those of the message class this program sends. The callbacks are
  state transformers, so that what the codec does to its client is part of the result.
  The lemmas give the wire image of a message, what \<open>parse\<close> answers on every branch,
  that decoding returns the messages whatever the segmentation of the stream, and that no input
  makes the codec itself read out of bounds.
\<close>

section \<open>Constants, error codes, environment\<close>

definition kHeaderLen :: int where
  "kHeaderLen = 4"

definition kChecksumLen :: int where
  "kChecksumLen = 4"

definition kMaxMessageLen :: int where
  "kMaxMessageLen = 64 * 1024 * 1024"

datatype ErrorCode =
    kNoError
  | kInvalidLength
  | kCheckSumError
  | kInvalidNameLen
  | kUnknownMessageType
  | kParseError

definition errorCodeToString :: "ErrorCode \<Rightarrow> string" where
  "errorCodeToString errorCode =
     (case errorCode of
        kNoError \<Rightarrow> ''NoError''
      | kInvalidLength \<Rightarrow> ''InvalidLength''
      | kCheckSumError \<Rightarrow> ''CheckSumError''
      | kInvalidNameLen \<Rightarrow> ''InvalidNameLen''
      | kUnknownMessageType \<Rightarrow> ''UnknownMessageType''
      | kParseError \<Rightarrow> ''ParseError'')"

record 'm codec_env =
  host_order :: endian
  adler32 :: "64 word \<Rightarrow> byte list \<Rightarrow> 64 word"
  isInitialized :: "'m \<Rightarrow> bool"
  byteSizeLong :: "'m \<Rightarrow> size_t"
  serializeToArray :: "'m \<Rightarrow> byte list"
  parseFromArray :: "byte list \<Rightarrow> 'm option"

record ('s, 'm) codec =
  tag :: "byte list"
  messageCallback :: "'s \<Rightarrow> 'm \<Rightarrow> 's result"
  errorCallback :: "'s \<Rightarrow> buffer \<Rightarrow> ErrorCode \<Rightarrow> ('s \<times> buffer) result"

text \<open>The \<^verbatim>\<open>const int\<close> member the constructor sets.\<close>

definition kMinMessageLen :: "('s, 'm) codec \<Rightarrow> int" where
  "kMinMessageLen cd = int (length (tag cd)) + kChecksumLen"

text \<open>The error callback of a codec that is not given one: print the code and exit.\<close>

definition defaultErrorCallback :: "'s \<Rightarrow> buffer \<Rightarrow> ErrorCode \<Rightarrow> ('s \<times> buffer) result" where
  "defaultErrorCallback s b errorCode = Inl ProcessExit"

definition ProtobufCodecLite :: "byte list \<Rightarrow> ('s \<Rightarrow> 'm \<Rightarrow> 's result) \<Rightarrow> ('s, 'm) codec" where
  "ProtobufCodecLite tagArg messageCb =
     \<lparr>tag = tagArg, messageCallback = messageCb, errorCallback = defaultErrorCallback\<rparr>"

section \<open>Encoding\<close>

text \<open>The Adler-32 of a block, started at 1, cut to 32 bits.\<close>

definition checksum :: "('m, 'z) codec_env_scheme \<Rightarrow> byte list \<Rightarrow> int32" where
  "checksum env d = ucast (adler32 env 1 d)"

text \<open>
  \<^verbatim>\<open>serializeToBuffer\<close>: check that the required fields are set (\<^verbatim>\<open>GOOGLE_DCHECK\<close>, which is
  active in this build: the makefiles do not define \<^verbatim>\<open>NDEBUG\<close>), reserve the message and the checksum, write the message at
  \<^verbatim>\<open>beginWrite()\<close>, compare the number of bytes written with the size computed before (a
  difference ends in \<^verbatim>\<open>ByteSizeConsistencyError\<close>, whose checks abort the process), advance.
\<close>

definition ByteSizeConsistencyError :: "int \<Rightarrow> int \<Rightarrow> int \<Rightarrow> 'a result" where
  "ByteSizeConsistencyError byte_size_before byte_size_after bytes_produced =
     (if byte_size_before \<noteq> byte_size_after then Inl Aborted
      else if bytes_produced \<noteq> byte_size_before then Inl Aborted
      else Inl Aborted)"

definition serializeToBuffer ::
  "('m, 'z) codec_env_scheme \<Rightarrow> 'm \<Rightarrow> buffer \<Rightarrow> (int32 \<times> buffer) result" where
  "serializeToBuffer env message b =
     (if \<not> isInitialized env message then Inl Aborted
      else let byteSize = ucast (byteSizeLong env message) :: int32;
          bytes = serializeToArray env message
      in andThen (ensureWritableBytes b (scast (byteSize + 4)))
        (\<lambda>b1. andThen (write_at_beginWrite b1 bytes)
        (\<lambda>b2. if int (length bytes) \<noteq> sint byteSize
               then ByteSizeConsistencyError (sint byteSize)
                      (sint (ucast (byteSizeLong env message) :: int32)) (int (length bytes))
               else Inr (byteSize, hasWritten b2 (scast byteSize)))))"

definition fillEmptyBuffer ::
  "('m, 'z) codec_env_scheme \<Rightarrow> ('s, 'm) codec \<Rightarrow> buffer \<Rightarrow> 'm \<Rightarrow> buffer result" where
  "fillEmptyBuffer env cd b message =
     andThen (append_data b (tag cd))
       (\<lambda>b1. andThen (serializeToBuffer env message b1)
       (\<lambda>(byteSize, b2). andThen (peek_read b2 (unat (ucast (readableBytes b2) :: int32)))
       (\<lambda>covered.
          let checkSum = hostToNetwork32 (host_order env) (checksum env covered)
          in andThen (append_data b2 (store32 (host_order env) checkSum))
       (\<lambda>b3. let len = hostToNetwork32 (host_order env) (ucast (readableBytes b3))
              in prepend b3 (store32 (host_order env) len)))))"

text \<open>\<^verbatim>\<open>send\<close> hands the encoded bytes, as one string, to \<^verbatim>\<open>TcpConnection::send\<close>.\<close>

definition codec_send :: "('m, 'z) codec_env_scheme \<Rightarrow> ('s, 'm) codec \<Rightarrow> 'm \<Rightarrow> byte list result" where
  "codec_send env cd message =
     andThen (fillEmptyBuffer env cd (Buffer_init kInitialSize) message)
       (\<lambda>b. andThen (retrieveAllAsString b) (\<lambda>(msg, b'). Inr msg))"

section \<open>Decoding\<close>

text \<open>Reads through a raw pointer with \<^verbatim>\<open>int\<close> offsets: \<open>mem\<close> is what is mapped behind it.\<close>

definition read_at :: "byte list \<Rightarrow> int \<Rightarrow> int \<Rightarrow> byte list result" where
  "read_at mem i n = (if i < 0 \<or> n < 0 then Inl OutOfBounds else read_range mem (nat i) (nat n))"

definition validateChecksum :: "('m, 'z) codec_env_scheme \<Rightarrow> byte list \<Rightarrow> int \<Rightarrow> bool result" where
  "validateChecksum env mem len =
     andThen (read_at mem (len - kChecksumLen) kChecksumLen)
       (\<lambda>be32. let expectedCheckSum = networkToHost32 (host_order env) (load32 (host_order env) be32)
                in andThen (read_at mem 0 (len - kChecksumLen))
       (\<lambda>d. Inr (checksum env d = expectedCheckSum)))"

text \<open>A \<^verbatim>\<open>std::string(data, dataLen)\<close> of a negative length throws \<^verbatim>\<open>std::length_error\<close>.\<close>

definition parse ::
  "('m, 'z) codec_env_scheme \<Rightarrow> ('s, 'm) codec \<Rightarrow> byte list \<Rightarrow> int \<Rightarrow> (ErrorCode \<times> 'm option) result" where
  "parse env cd mem len =
     andThen (validateChecksum env mem len)
       (\<lambda>valid. if valid then
            andThen (read_at mem 0 (int (length (tag cd))))
              (\<lambda>t. if t = tag cd then
                   (let dataLen = len - kChecksumLen - int (length (tag cd))
                    in if dataLen < 0 then Inl LengthError
                       else andThen (read_at mem (int (length (tag cd))) dataLen)
                         (\<lambda>payload. case parseFromArray env payload of
                              Some m \<Rightarrow> Inr (kNoError, Some m)
                            | None \<Rightarrow> Inr (kParseError, None)))
                 else Inr (kUnknownMessageType, None))
          else Inr (kCheckSumError, None))"

lemma retrieve_shrinks:
  assumes "0 < n" "n \<le> readableBytes b"
  shows "unat (readableBytes (retrieve b n)) < unat (readableBytes b)"
proof (cases "n < readableBytes b")
  case True
  then have "readableBytes (retrieve b n) = readableBytes b - n"
    by (simp add: retrieve_def readableBytes_def)
  moreover have "unat (readableBytes b - n) = unat (readableBytes b) - unat n"
    using assms(2) by (simp add: unat_sub)
  ultimately show ?thesis
    using assms by (simp add: word_less_nat_alt word_le_nat_alt)
next
  case False
  then have "readableBytes (retrieve b n) = 0"
    by (simp add: retrieve_def readableBytes_def)
  with assms show ?thesis
    by (simp add: word_less_nat_alt word_le_nat_alt)
qed

lemma uint_of_int_size: "0 \<le> i \<Longrightarrow> i < 2 ^ 64 \<Longrightarrow> uint (of_int i :: size_t) = i"
  by (simp add: uint_word_of_int_eq take_bit_int_eq_self)

text \<open>The decoding loop; every frame consumed shrinks the readable bytes.\<close>

function onMessage ::
  "('m, 'z) codec_env_scheme \<Rightarrow> ('s, 'm) codec \<Rightarrow> 's \<Rightarrow> buffer \<Rightarrow> ('s \<times> buffer) result" where
  "onMessage env cd s b =
     (if (kMinMessageLen cd + kHeaderLen) mod 2 ^ 32 \<le> uint (readableBytes b) then
        andThen (peek_read b 4)
          (\<lambda>hdr.
            let len = sint (networkToHost32 (host_order env) (load32 (host_order env) hdr))
            in if kMaxMessageLen < len \<or> len < kMinMessageLen cd
               then errorCallback cd s b kInvalidLength
               else if kHeaderLen + len \<le> uint (readableBytes b) then
                 andThen (parse env cd (drop (unat (readerIndex b) + nat kHeaderLen) (vec b)) len)
                   (\<lambda>r. case r of
                      (kNoError, Some message) \<Rightarrow>
                        andThen (messageCallback cd s message)
                          (\<lambda>s'. onMessage env cd s' (retrieve b (of_int (kHeaderLen + len))))
                    | (errorCode, _) \<Rightarrow> errorCallback cd s b errorCode)
               else Inr (s, b))
      else Inr (s, b))"
  by pat_completeness auto
termination
proof (relation "measure (\<lambda>(env, cd, s, b). unat (readableBytes b))", goal_cases)
  case 1
  then show ?case by simp
next
  case (2 env cd s b hdr len r error opt message s')
  have "0 < kHeaderLen + len" "kHeaderLen + len < 2 ^ 64"
    using 2 by (auto simp: kHeaderLen_def kMinMessageLen_def kChecksumLen_def kMaxMessageLen_def)
  then have u: "uint (of_int (kHeaderLen + len) :: size_t) = kHeaderLen + len"
    by (intro uint_of_int_size) auto
  have "0 < (of_int (kHeaderLen + len) :: size_t)"
    using \<open>0 < kHeaderLen + len\<close> u by (simp add: word_less_def)
  moreover have "of_int (kHeaderLen + len) \<le> readableBytes b"
    using 2 u by (simp add: word_le_def)
  ultimately show ?case
    by (simp add: retrieve_shrinks)
qed

declare onMessage.simps [simp del]

section \<open>The wire image\<close>

text \<open>
  The picture in \<^verbatim>\<open>ProtobufCodecLite.h\<close>: a big-endian length, the tag, the payload and the
  big-endian checksum of tag and payload; the length counts what follows it.
\<close>

definition frame_body :: "('m, 'z) codec_env_scheme \<Rightarrow> byte list \<Rightarrow> 'm \<Rightarrow> byte list" where
  "frame_body env t m =
     (let covered = t @ serializeToArray env m in covered @ bytes32 (checksum env covered))"

definition frame :: "('m, 'z) codec_env_scheme \<Rightarrow> byte list \<Rightarrow> 'm \<Rightarrow> byte list" where
  "frame env t m = bytes32 (of_nat (length (frame_body env t m))) @ frame_body env t m"

text \<open>
  A message the codec can send: initialised, of the size it reports, and small enough for the
  limit the receiver checks.
\<close>

definition encodable :: "('m, 'z) codec_env_scheme \<Rightarrow> byte list \<Rightarrow> 'm \<Rightarrow> bool" where
  "encodable env t m \<longleftrightarrow> isInitialized env m
     \<and> unat (byteSizeLong env m) = length (serializeToArray env m)
     \<and> int (length (frame_body env t m)) \<le> kMaxMessageLen"

lemma length_frame_body:
  "length (frame_body env t m) = length t + length (serializeToArray env m) + 4"
  by (simp add: frame_body_def Let_def)

lemma length_frame: "length (frame env t m) = length (frame_body env t m) + 4"
  by (simp add: frame_def)

lemma sint_of_nat_int32: "n < 2 ^ 31 \<Longrightarrow> sint (of_nat n :: int32) = int n"
  by (simp add: signed_of_nat signed_take_bit_int_eq_self)

lemma unat_ucast_int32: "unat (x :: size_t) < 2 ^ 31 \<Longrightarrow> unat (ucast x :: int32) = unat x"
  by (simp add: unsigned_ucast_eq take_bit_nat_eq_self)

lemma sint_ucast_int32: "unat (x :: size_t) < 2 ^ 31 \<Longrightarrow> sint (ucast x :: int32) = int (unat x)"
  using sint_of_nat_int32 by force

lemma unat_scast_size:
  assumes "unat (y :: int32) < 2 ^ 31"
  shows "unat (scast y :: size_t) = unat y"
proof -
  have "sint y = int (unat y)"
    using sint_of_nat_int32 [OF assms] by simp
  then have "(scast y :: size_t) = of_nat (unat y)"
    by (metis scast_eq of_int_of_nat_eq)
  then show ?thesis
    using assms by (simp add: unsigned_ucast_eq take_bit_nat_eq_self)
qed

lemma serializeToBuffer_ok:
  fixes env :: "('m, 'z) codec_env_scheme"
  assumes ok: "buffer_ok b" and r: "room b (length ser + 4)"
    and init: "isInitialized env m"
    and sz: "unat (byteSizeLong env m) = length ser"
    and ser: "ser = serializeToArray env m"
    and small: "length ser + 4 < 2 ^ 31"
  shows "\<exists>b'. serializeToBuffer env m b = Inr (of_nat (length ser), b')
           \<and> grows b (length ser + 4) b' \<and> content b' = content b @ ser"
proof -
  define n :: int32 where "n = ucast (byteSizeLong env m)"
  have n: "unat n = length ser" "sint n = int (length ser)"
    using small sz by (simp_all add: n_def unat_ucast_int32 sint_ucast_int32)
  have "unat (n + 4) = length ser + 4"
    using small n(1) by (simp add: unat_word_ariths)
  then have n4: "unat (scast (n + 4) :: size_t) = length ser + 4"
    using small by (simp add: unat_scast_size)
  obtain b1 where b1: "ensureWritableBytes b (scast (n + 4)) = Inr b1"
      "grows b (length ser + 4) b1" "content b1 = content b"
      "length ser + 4 \<le> length (vec b1) - unat (writerIndex b1)"
    using ensureWritableBytes_ok [OF ok, of "scast (n + 4)"] r n4 by auto
  have "(scast n :: size_t) = size_of ser"
    using n(1) small by (metis size_of_def of_nat_unat ucast_id unat_scast_size add_lessD1)
  then obtain b2 where b2: "write_at_beginWrite b1 ser = Inr b2"
      "grows b1 0 (hasWritten b2 (scast n))" "content (hasWritten b2 (scast n)) = content b1 @ ser"
    using hasWritten_ok [OF grows_ok [OF b1(2)], of ser] b1(4) by auto
  have "n = of_nat (length ser)"
    using n(1) by (metis of_nat_unat ucast_id)
  with b1 b2 n init ser grows_trans [OF b1(2) b2(2)] show ?thesis
    by (simp add: serializeToBuffer_def Let_def flip: n_def)
qed

lemma fillEmptyBuffer_ok:
  fixes env :: "('m, 'z) codec_env_scheme" and cd :: "('s, 'm) codec"
  assumes ok: "buffer_ok b" and empty: "content b = []" and pre: "8 \<le> unat (readerIndex b)"
    and r: "room b (length (frame env (tag cd) m))"
    and enc: "encodable env (tag cd) m"
  shows "\<exists>b'. fillEmptyBuffer env cd b m = Inr b' \<and> buffer_ok b'
           \<and> content b' = frame env (tag cd) m"
proof -
  define ser where "ser = serializeToArray env m"
  have lens: "length (frame env (tag cd) m) = length (tag cd) + length ser + 8"
    by (simp add: length_frame length_frame_body ser_def)
  have small: "length (tag cd) + length ser + 4 < 2 ^ 31"
    using enc by (simp add: encodable_def length_frame_body kMaxMessageLen_def ser_def)
  have r': "room b (length (tag cd) + (length ser + 4 + 4))"
    using r lens by (simp add: ac_simps)
  obtain b1 where b1: "append_data b (tag cd) = Inr b1" "grows b (length (tag cd)) b1"
      "content b1 = tag cd"
    using append_data_ok [OF ok, of "tag cd"] room_mono [OF r', of "length (tag cd)"] empty
    by auto
  have r1: "room b1 (length ser + 4 + 4)"
    by (rule grows_room [OF b1(2) r'])
  obtain b2 where b2: "serializeToBuffer env m b1 = Inr (of_nat (length ser), b2)"
      "grows b1 (length ser + 4) b2" "content b2 = tag cd @ ser"
    using serializeToBuffer_ok [OF grows_ok [OF b1(2)] room_mono [OF r1] _ _ ser_def] enc small b1(3)
    by (auto simp: encodable_def ser_def)
  note ok2 = grows_ok [OF b2(2)]
  have covered: "peek_read b2 (unat (ucast (readableBytes b2) :: int32)) = Inr (tag cd @ ser)"
    using small by (simp add: unat_ucast_int32 unat_readableBytes [OF ok2] b2(3)
        peek_read_ok [OF ok2])
  define ck where "ck = checksum env (tag cd @ ser)"
  have body: "frame_body env (tag cd) m = (tag cd @ ser) @ bytes32 ck"
    by (simp add: frame_body_def ser_def ck_def)
  obtain b3 where b3: "append_data b2 (bytes32 ck) = Inr b3" "grows b2 4 b3"
      "content b3 = frame_body env (tag cd) m"
    using append_data_ok [OF ok2, of "bytes32 ck"] grows_room [OF b2(2) r1] b2(3) body by auto
  note ok3 = grows_ok [OF b3(2)]
  have "unat (readableBytes b3) = length (frame_body env (tag cd) m)"
    by (simp add: unat_readableBytes [OF ok3] b3(3))
  then have len: "(ucast (readableBytes b3) :: int32) = of_nat (length (frame_body env (tag cd) m))"
    by (metis of_nat_unat)
  have "8 \<le> unat (readerIndex b3)"
    using pre b1(2) b2(2) b3(2) by (auto simp: grows_def)
  then obtain b' where "prepend b3 (bytes32 (of_nat (length (frame_body env (tag cd) m)))) = Inr b'"
      "buffer_ok b'" "content b' = frame env (tag cd) m"
    using prepend_ok [OF ok3, of "bytes32 (of_nat (length (frame_body env (tag cd) m)))"] b3(3)
    by (auto simp: frame_def)
  then show ?thesis
    using b1(1) b2(1) covered b3(1) len
    by (simp add: fillEmptyBuffer_def Let_def store_network flip: ck_def)
qed

lemma codec_send_ok:
  fixes env :: "('m, 'z) codec_env_scheme" and cd :: "('s, 'm) codec"
  assumes enc: "encodable env (tag cd) m"
  shows "codec_send env cd m = Inr (frame env (tag cd) m)"
proof -
  let ?b = "Buffer_init kInitialSize"
  have b: "buffer_ok ?b" "content ?b = []"
    using Buffer_init_ok [of kInitialSize] by (simp_all add: kInitialSize_def)
  have "length (vec ?b) = 1032" "unat (readerIndex ?b) = 8"
    by (simp_all add: Buffer_init_def kInitialSize_def kCheapPrepend_def)
  moreover have "length (frame env (tag cd) m) \<le> 64 * 1024 * 1024 + 4"
    using enc by (simp add: encodable_def length_frame kMaxMessageLen_def)
  ultimately obtain b' where "fillEmptyBuffer env cd ?b m = Inr b'" "buffer_ok b'"
      "content b' = frame env (tag cd) m"
    using fillEmptyBuffer_ok [OF b _ _ enc] by (auto simp: room_def)
  with retrieveAllAsString_ok [of b'] show ?thesis
    by (auto simp: codec_send_def)
qed

section \<open>What \<open>parse\<close> answers\<close>

lemma read_at_ok:
  "0 \<le> i \<Longrightarrow> 0 \<le> n \<Longrightarrow> nat i + nat n \<le> length mem \<Longrightarrow> read_at mem i n = Inr (take (nat n) (drop (nat i) mem))"
  by (simp add: read_at_def read_range_ok)

text \<open>
  The answer as a function of the frame alone (the \<open>len\<close> bytes behind the length field): the
  checksum is compared first, then the tag, then the payload is parsed.
\<close>

definition parse_spec ::
  "('m, 'z) codec_env_scheme \<Rightarrow> byte list \<Rightarrow> byte list \<Rightarrow> ErrorCode \<times> 'm option" where
  "parse_spec env t fr =
     (let covered = take (length fr - 4) fr; ck = drop (length fr - 4) fr
      in if checksum env covered \<noteq> join_bytes ck then (kCheckSumError, None)
         else if take (length t) covered \<noteq> t then (kUnknownMessageType, None)
         else case parseFromArray env (drop (length t) covered) of
                Some m \<Rightarrow> (kNoError, Some m)
              | None \<Rightarrow> (kParseError, None))"

lemma parse_ok:
  fixes env :: "('m, 'z) codec_env_scheme" and cd :: "('s, 'm) codec"
  assumes "kMinMessageLen cd \<le> len" "nat len \<le> length mem"
  shows "parse env cd mem len = Inr (parse_spec env (tag cd) (take (nat len) mem))"
proof -
  define n where "n = nat len - 4"
  define t where "t = tag cd"
  have len: "len = int (n + 4)" and t: "length t \<le> n" and mem: "n + 4 \<le> length mem"
    using assms by (auto simp: kMinMessageLen_def kChecksumLen_def n_def t_def)
  have ck: "read_at mem (len - kChecksumLen) kChecksumLen = Inr (take 4 (drop n mem))"
    and body: "read_at mem 0 (len - kChecksumLen) = Inr (take n mem)"
    using mem by (simp_all add: len kChecksumLen_def read_at_ok)
  have four: "length (take 4 (drop n mem)) = 4"
    using mem by simp
  have valid: "validateChecksum env mem len
      = Inr (checksum env (take n mem) = join_bytes (take 4 (drop n mem)))"
    by (simp add: validateChecksum_def ck body Let_def network_load(2) [OF four])
  have tg: "read_at mem 0 (int (length t)) = Inr (take (length t) mem)"
    using t mem by (simp add: read_at_ok)
  have pl: "read_at mem (int (length t)) (len - kChecksumLen - int (length t))
      = Inr (drop (length t) (take n mem))"
    using t mem by (simp add: read_at_ok len kChecksumLen_def drop_take nat_diff_distrib')
  have fr: "take (length (take (nat len) mem) - 4) (take (nat len) mem) = take n mem"
    "drop (length (take (nat len) mem) - 4) (take (nat len) mem) = take 4 (drop n mem)"
    using mem by (simp_all add: len drop_take nat_add_distrib min_absorb1)
  have tt: "take (length t) (take n mem) = take (length t) mem"
    using t by (simp add: min_absorb1)
  have "\<not> len - kChecksumLen - int (length t) < 0"
    using t by (simp add: len kChecksumLen_def)
  then show ?thesis
    using t
    by (simp add: parse_def valid tg pl Let_def min_absorb1 flip: t_def split: option.split)
      (simp add: parse_spec_def Let_def fr tt del: length_take take_take)
qed

lemma parse_spec_frame:
  assumes "parseFromArray env (serializeToArray env m) = Some m'"
  shows "parse_spec env t (frame_body env t m) = (kNoError, Some m')"
  using assms by (simp add: parse_spec_def frame_body_def Let_def)

lemma unat_of_int_size: "0 \<le> i \<Longrightarrow> i < 2 ^ 64 \<Longrightarrow> unat (of_int i :: size_t) = nat i"
  by (metis nat_uint_eq uint_of_int_size)

section \<open>The decoder on byte strings\<close>

text \<open>
  What the loop does, without buffers and callbacks: the messages at the front of a byte string,
  the bytes left over, and the error that stopped it, if any.
\<close>

function decode_spec ::
  "('m, 'z) codec_env_scheme \<Rightarrow> byte list \<Rightarrow> byte list \<Rightarrow> 'm list \<times> byte list \<times> ErrorCode option" where
  "decode_spec env t xs =
     (if length xs < length t + 8 then ([], xs, None)
      else let len = sint (join_bytes (take 4 xs) :: int32)
        in if kMaxMessageLen < len \<or> len < int (length t) + 4 then ([], xs, Some kInvalidLength)
           else if length xs < nat len + 4 then ([], xs, None)
           else (case parse_spec env t (take (nat len) (drop 4 xs)) of
                   (kNoError, Some m) \<Rightarrow>
                     (case decode_spec env t (drop (nat len + 4) xs) of
                        (ms, rest, e) \<Rightarrow> (m # ms, rest, e))
                 | (err, _) \<Rightarrow> ([], xs, Some err)))"
  by pat_completeness auto
termination
  by (relation "measure (\<lambda>(env, t, xs). length xs)") auto

declare decode_spec.simps [simp del]

fun deliver :: "('s \<Rightarrow> 'm \<Rightarrow> 's result) \<Rightarrow> 's \<Rightarrow> 'm list \<Rightarrow> 's result" where
  "deliver cb s [] = Inr s"
| "deliver cb s (m # ms) = andThen (cb s m) (\<lambda>s'. deliver cb s' ms)"

lemma deliver_append:
  "deliver cb s (ms @ ms') = andThen (deliver cb s ms) (\<lambda>s'. deliver cb s' ms')"
  by (induction ms arbitrary: s) (simp_all add: andThen_assoc)

text \<open>A tag short enough for the loop's \<^verbatim>\<open>uint32_t\<close> guard; the program's is 4 bytes long.\<close>

definition tag_ok :: "byte list \<Rightarrow> bool" where
  "tag_ok t \<longleftrightarrow> int (length t) + 4 \<le> kMaxMessageLen"

lemma guard_iff:
  assumes "buffer_ok b" "tag_ok (tag cd)"
  shows "(kMinMessageLen cd + kHeaderLen) mod 2 ^ 32 \<le> uint (readableBytes b)
           \<longleftrightarrow> length (tag cd) + 8 \<le> length (content b)"
proof -
  have "(kMinMessageLen cd + kHeaderLen) mod 2 ^ 32 = int (length (tag cd) + 8)"
    using assms(2)
    by (simp add: kMinMessageLen_def kChecksumLen_def kHeaderLen_def tag_ok_def kMaxMessageLen_def)
  moreover have "uint (readableBytes b) = int (length (content b))"
    by (simp add: unat_readableBytes [OF assms(1), symmetric])
  ultimately show ?thesis by presburger
qed

lemma content_behind_header:
  assumes "buffer_ok b" "n + 4 \<le> length (content b)"
  shows "take n (drop (unat (readerIndex b) + 4) (vec b)) = take n (drop 4 (content b))"
    and "n \<le> length (drop (unat (readerIndex b) + 4) (vec b))"
  using assms length_content [OF assms(1)] buffer_okD [OF assms(1)]
  by (auto simp: content_def drop_take min_absorb1 add.commute)

text \<open>One round of the loop as a function of the content; the buffer's layout is gone.\<close>

definition accepted :: "ErrorCode \<times> 'm option \<Rightarrow> 'm option" where
  "accepted r = (if fst r = kNoError then snd r else None)"

definition hdr_len :: "byte list \<Rightarrow> int" where
  "hdr_len c = sint (join_bytes (take 4 c) :: int32)"

lemma peek_header:
  assumes "buffer_ok b" "4 \<le> length (content b)"
  shows "peek_read b 4 = Inr (take 4 (content b))"
    and "sint (networkToHost32 e (load32 e (take 4 (content b)))) = hdr_len (content b)"
  using assms by (simp_all add: peek_read_ok hdr_len_def network_load)

lemma parse_in_buffer:
  assumes ok: "buffer_ok b" and "kMinMessageLen cd \<le> len" and fits: "nat len + 4 \<le> length (content b)"
  shows "parse env cd (drop (unat (readerIndex b) + nat kHeaderLen) (vec b)) len
    = Inr (parse_spec env (tag cd) (take (nat len) (drop 4 (content b))))"
  using assms content_behind_header [OF ok fits] by (simp add: parse_ok kHeaderLen_def)

lemma onMessage_round:
  fixes env :: "('m, 'z) codec_env_scheme" and cd :: "('s, 'm) codec"
  assumes ok: "buffer_ok b" and tok: "tag_ok (tag cd)"
  defines "c \<equiv> content b" and "t \<equiv> tag cd" and "len \<equiv> hdr_len (content b)"
  shows "onMessage env cd s b =
     (if length c < length t + 8 then Inr (s, b)
      else if kMaxMessageLen < len \<or> len < int (length t) + 4 then errorCallback cd s b kInvalidLength
      else if length c < nat len + 4 then Inr (s, b)
      else let r = parse_spec env t (take (nat len) (drop 4 c))
        in case accepted r of
             Some m \<Rightarrow> andThen (messageCallback cd s m)
               (\<lambda>s'. onMessage env cd s' (retrieve b (of_int (kHeaderLen + len))))
           | None \<Rightarrow> errorCallback cd s b (fst r))"
proof (cases "length c < length t + 8")
  case True
  then show ?thesis
    using guard_iff [OF ok tok] by (subst onMessage.simps) (simp add: c_def t_def)
next
  case long: False
  then have four: "4 \<le> length (content b)"
    by (simp add: c_def)
  have guard: "(kMinMessageLen cd + kHeaderLen) mod 2 ^ 32 \<le> uint (readableBytes b)"
    using long guard_iff [OF ok tok] by (simp add: c_def t_def)
  have kmin: "kMinMessageLen cd = int (length t) + 4"
    by (simp add: kMinMessageLen_def kChecksumLen_def t_def)
  have ru: "uint (readableBytes b) = int (length c)"
    by (simp add: unat_readableBytes [OF ok, symmetric] c_def)
  note round = trans [OF onMessage.simps if_P [OF guard]] peek_header [OF ok four]
    len_def [symmetric]
  show ?thesis
  proof (cases "kMaxMessageLen < len \<or> len < int (length t) + 4 \<or> length c < nat len + 4")
    case True
    then show ?thesis
      using long kmin ru by (auto simp: round kHeaderLen_def Let_def)
  next
    case False
    then have fit: "kHeaderLen + len \<le> uint (readableBytes b)"
      by (simp add: ru kHeaderLen_def) linarith
    obtain err opt where r: "parse_spec env t (take (nat len) (drop 4 c)) = (err, opt)"
      by fastforce
    have "parse env cd (drop (unat (readerIndex b) + nat kHeaderLen) (vec b)) len = Inr (err, opt)"
      using False parse_in_buffer [OF ok, of cd len env] kmin r by (simp add: c_def t_def)
    with False fit show ?thesis
      using long kmin
      by (cases err; cases opt) (simp_all add: round Let_def accepted_def r)
  qed
qed

lemma retrieve_frame:
  assumes ok: "buffer_ok b" and len: "0 \<le> len" "len \<le> kMaxMessageLen"
  shows "grows b 0 (retrieve b (of_int (kHeaderLen + len)))"
    and "content (retrieve b (of_int (kHeaderLen + len))) = drop (nat len + 4) (content b)"
proof -
  have "unat (of_int (kHeaderLen + len) :: size_t) = nat len + 4"
    using len by (subst unat_of_int_size) (auto simp: kHeaderLen_def kMaxMessageLen_def)
  then show "grows b 0 (retrieve b (of_int (kHeaderLen + len)))"
    and "content (retrieve b (of_int (kHeaderLen + len))) = drop (nat len + 4) (content b)"
    using retrieve_ok [OF ok, of "of_int (kHeaderLen + len)"] by simp_all
qed

lemma decode_spec_round:
  fixes env :: "('m, 'z) codec_env_scheme" and c :: "byte list"
  defines "len \<equiv> hdr_len c"
  shows "decode_spec env t c =
     (if length c < length t + 8 then ([], c, None)
      else if kMaxMessageLen < len \<or> len < int (length t) + 4 then ([], c, Some kInvalidLength)
      else if length c < nat len + 4 then ([], c, None)
      else let r = parse_spec env t (take (nat len) (drop 4 c))
        in case accepted r of
             Some m \<Rightarrow> (case decode_spec env t (drop (nat len + 4) c) of (ms, rest, e) \<Rightarrow> (m # ms, rest, e))
           | None \<Rightarrow> ([], c, Some (fst r)))"
  by (subst decode_spec.simps)
    (simp add: Let_def accepted_def len_def hdr_len_def split: prod.split ErrorCode.split option.split)

text \<open>
  The loop does what \<open>decode_spec\<close> says: the callbacks get its messages in order, the buffer is
  left with its rest, the error callback gets its error. A fault can only come from a callback.
\<close>

lemma onMessage_refines:
  fixes env :: "('m, 'z) codec_env_scheme" and cd :: "('s, 'm) codec"
  assumes "buffer_ok b" "tag_ok (tag cd)"
    and "decode_spec env (tag cd) (content b) = (ms, rest, e)"
  shows "\<exists>b'. grows b 0 b' \<and> content b' = rest \<and>
           (\<forall>s. onMessage env cd s b = andThen (deliver (messageCallback cd) s ms)
              (\<lambda>s'. case e of None \<Rightarrow> Inr (s', b') | Some err \<Rightarrow> errorCallback cd s' b' err))"
  using assms
proof (induction "length (content b)" arbitrary: b ms rule: less_induct)
  case (less b ms)
  note ok = less.prems(1) and tok = less.prems(2) and dec = less.prems(3)
  define c t len where "c = content b" and "t = tag cd" and "len = hdr_len (content b)"
  define r where "r = parse_spec env t (take (nat len) (drop 4 c))"
  define go where "go \<longleftrightarrow> length t + 8 \<le> length c \<and> len \<le> kMaxMessageLen
    \<and> int (length t) + 4 \<le> len \<and> nat len + 4 \<le> length c"
  note R = onMessage_round [OF ok tok, of env, folded c_def t_def len_def, unfolded Let_def,
      folded r_def]
  have len_c: "hdr_len c = len" by (simp add: c_def len_def)
  note D = decode_spec_round [of env t c, unfolded len_c Let_def, folded r_def]
  show ?case
  proof (cases "go \<and> accepted r \<noteq> None")
    case False
    then have "ms = [] \<and> rest = c \<and> (\<forall>s. onMessage env cd s b
        = (case e of None \<Rightarrow> Inr (s, b) | Some err \<Rightarrow> errorCallback cd s b err))"
      using dec [folded c_def t_def, unfolded D] by (auto simp: R go_def split: if_splits)
    then show ?thesis
      using grows_refl [OF ok] by (auto simp: c_def)
  next
    case whole: True
    then obtain m where m: "accepted r = Some m" by blast
    define b1 where "b1 = retrieve b (of_int (kHeaderLen + len))"
    have b1: "grows b 0 b1" "content b1 = drop (nat len + 4) c"
      using retrieve_frame [OF ok, of len] whole by (simp_all add: b1_def c_def go_def)
    obtain ms' where d: "decode_spec env t (content b1) = (ms', rest, e)" "ms = m # ms'"
      using dec [folded c_def t_def, unfolded D] whole m
      by (auto simp: b1(2) go_def split: prod.splits)
    have round: "onMessage env cd s b = andThen (messageCallback cd s m) (\<lambda>s'. onMessage env cd s' b1)" for s
      using whole m by (simp add: R b1_def go_def)
    have "nat len + 4 \<le> length c"
      using whole by (simp add: go_def)
    then have "length (content b1) < length (content b)"
      by (simp add: b1(2) flip: c_def)
    from less.hyps [OF this grows_ok [OF b1(1)] tok d(1) [unfolded t_def]]
    obtain b' where "grows b1 0 b'" "content b' = rest"
        "\<And>s. onMessage env cd s b1 = andThen (deliver (messageCallback cd) s ms')
          (\<lambda>s'. case e of None \<Rightarrow> Inr (s', b') | Some err \<Rightarrow> errorCallback cd s' b' err)"
      by blast
    with round d(2) show ?thesis
      using grows_trans [OF b1(1), of 0 b'] by (auto simp: andThen_assoc)
  qed
qed

section \<open>Streams\<close>

text \<open>Bytes that arrive later do not change what has been decoded, nor an error.\<close>

lemma hdr_len_append: "4 \<le> length xs \<Longrightarrow> hdr_len (xs @ ys) = hdr_len xs"
  by (simp add: hdr_len_def)

lemma decode_spec_append:
  assumes "decode_spec env t xs = (ms, rest, e)"
  shows "decode_spec env t (xs @ ys) =
     (case e of Some err \<Rightarrow> (ms, rest @ ys, e)
      | None \<Rightarrow> (case decode_spec env t (rest @ ys) of (ms', rest', e') \<Rightarrow> (ms @ ms', rest', e')))"
  using assms
proof (induction "length xs" arbitrary: xs ms rule: less_induct)
  case less
  define len where "len = hdr_len xs"
  define r where "r = parse_spec env t (take (nat len) (drop 4 xs))"
  define go where "go \<longleftrightarrow> length t + 8 \<le> length xs \<and> len \<le> kMaxMessageLen
    \<and> int (length t) + 4 \<le> len \<and> nat len + 4 \<le> length xs"
  note D = decode_spec_round [of env t xs, folded len_def, unfolded Let_def, folded r_def]
  show ?case
  proof (cases "go \<and> accepted r \<noteq> None")
    case False
    show ?thesis
    proof (cases e)
      case None
      with False less.prems have "ms = [] \<and> rest = xs"
        by (auto simp: D go_def split: if_splits option.splits prod.splits)
      with None show ?thesis by simp
    next
      case (Some err)
      then have long: "length t + 8 \<le> length xs"
        using less.prems by (auto simp: D split: if_splits)
      then have h: "hdr_len (xs @ ys) = len"
        by (simp add: hdr_len_append len_def)
      have "go \<longrightarrow> take (nat len) (drop 4 (xs @ ys)) = take (nat len) (drop 4 xs)"
        by (auto simp: go_def)
      with Some False less.prems long show ?thesis
        by (subst decode_spec_round) (auto simp: D h go_def Let_def r_def split: if_splits option.splits)
    qed
  next
    case True
    then obtain m where m: "accepted r = Some m" by blast
    define xs1 where "xs1 = drop (nat len + 4) xs"
    obtain ms1 where d: "decode_spec env t xs1 = (ms1, rest, e)" "ms = m # ms1"
      using less.prems True m by (auto simp: D go_def xs1_def split: prod.splits)
    have "length xs1 < length xs"
      using True by (simp add: go_def xs1_def) arith
    note IH = less.hyps [OF this d(1)]
    have h: "hdr_len (xs @ ys) = len"
      using True by (simp add: hdr_len_append len_def go_def)
    have "decode_spec env t (xs @ ys)
        = (case decode_spec env t (xs1 @ ys) of (ms', rest', e') \<Rightarrow> (m # ms', rest', e'))"
      using True m by (subst decode_spec_round) (simp add: h go_def Let_def r_def xs1_def)
    with IH d(2) show ?thesis
      by (auto split: option.splits prod.splits)
  qed
qed

lemma decode_spec_prefix:
  assumes "decode_spec env t (xs @ ys) = (ms, rest, None)"
  shows "\<exists>ms1 ms2 r. decode_spec env t xs = (ms1, r, None) \<and> decode_spec env t (r @ ys) = (ms2, rest, None)
           \<and> ms = ms1 @ ms2"
proof -
  obtain ms1 r e where d: "decode_spec env t xs = (ms1, r, e)"
    by (cases "decode_spec env t xs") auto
  from assms decode_spec_append [OF d, of ys] show ?thesis
    by (cases e) (auto simp: d split: prod.splits)
qed

text \<open>A frame in front of a byte string is the first message decoded.\<close>

lemma decode_spec_frame:
  fixes env :: "('m, 'z) codec_env_scheme"
  assumes enc: "encodable env t m" and par: "parseFromArray env (serializeToArray env m) = Some m'"
  shows "decode_spec env t (frame env t m @ xs)
    = (case decode_spec env t xs of (ms, rest, e) \<Rightarrow> (m' # ms, rest, e))"
proof -
  define n where "n = length (frame_body env t m)"
  have n: "length t + 4 \<le> n" "int n \<le> kMaxMessageLen"
    using enc by (simp_all add: n_def length_frame_body encodable_def)
  then have "n < 2 ^ 31"
    by (simp add: kMaxMessageLen_def)
  define ys where "ys = frame env t m @ xs"
  have h: "hdr_len ys = int n"
    using n \<open>n < 2 ^ 31\<close> by (simp add: ys_def hdr_len_def frame_def sint_of_nat_int32 flip: n_def)
  have body: "take n (drop 4 ys) = frame_body env t m"
    by (simp add: ys_def frame_def n_def)
  have rest: "drop (n + 4) ys = xs"
    by (simp add: ys_def frame_def n_def)
  have len: "length ys = n + 4 + length xs"
    by (simp add: ys_def length_frame n_def)
  have "decode_spec env t ys = (case decode_spec env t xs of (ms, rest, e) \<Rightarrow> (m' # ms, rest, e))"
    using n by (subst decode_spec_round)
      (simp add: h Let_def len body rest parse_spec_frame [OF par] accepted_def)
  then show ?thesis by (simp only: ys_def)
qed

lemma decode_spec_frames:
  fixes env :: "('m, 'z) codec_env_scheme"
  assumes "\<forall>m \<in> set ms. encodable env t m \<and> parseFromArray env (serializeToArray env m) = Some m"
  shows "decode_spec env t (concat (map (frame env t) ms) @ xs)
    = (case decode_spec env t xs of (ms', rest, e) \<Rightarrow> (ms @ ms', rest, e))"
  using assms
  by (induction ms) (simp_all add: decode_spec_frame split: prod.splits)

text \<open>What is left over is a frame that is not complete yet.\<close>

lemma decode_spec_rest:
  "decode_spec env t xs = (ms, rest, None) \<Longrightarrow> decode_spec env t rest = ([], rest, None)"
proof (induction "length xs" arbitrary: xs ms rule: less_induct)
  case less
  define len where "len = hdr_len xs"
  define r where "r = parse_spec env t (take (nat len) (drop 4 xs))"
  define go where "go \<longleftrightarrow> length t + 8 \<le> length xs \<and> len \<le> kMaxMessageLen
    \<and> int (length t) + 4 \<le> len \<and> nat len + 4 \<le> length xs"
  note D = decode_spec_round [of env t xs, folded len_def, unfolded Let_def, folded r_def]
  show ?case
  proof (cases "go \<and> accepted r \<noteq> None")
    case False
    with less.prems have "ms = [] \<and> rest = xs"
      by (auto simp: D go_def split: if_splits option.splits prod.splits)
    with less.prems show ?thesis by simp
  next
    case True
    then obtain m where m: "accepted r = Some m" by blast
    then obtain ms1 where d: "decode_spec env t (drop (nat len + 4) xs) = (ms1, rest, None)"
      using less.prems True by (auto simp: D go_def split: prod.splits)
    have "length (drop (nat len + 4) xs) < length xs"
      using True by (auto simp: go_def)
    from less.hyps [OF this d] show ?thesis .
  qed
qed

text \<open>
  The receive loop of a connection: each arrival is read into the buffer and then decoded
  (\<^verbatim>\<open>TcpConnection::handleRead\<close> calls \<^verbatim>\<open>readFd\<close> and then the user's \<^verbatim>\<open>onMessage\<close>).
\<close>

fun feed ::
  "('m, 'z) codec_env_scheme \<Rightarrow> ('s, 'm) codec \<Rightarrow> 's \<Rightarrow> buffer \<Rightarrow> byte list list \<Rightarrow> ('s \<times> buffer) result" where
  "feed env cd s b [] = Inr (s, b)"
| "feed env cd s b (d # ds) =
     andThen (readFd b (ReadvData d))
       (\<lambda>r. andThen (onMessage env cd s (rf_buffer r)) (\<lambda>(s', b'). feed env cd s' b' ds))"

lemma feed_segments:
  fixes env :: "('m, 'z) codec_env_scheme" and cd :: "('s, 'm) codec"
  assumes "buffer_ok b" "room b (length (concat ds))" "tag_ok (tag cd)"
    and "\<forall>d \<in> set ds. length d \<le> kExtraBuf"
    and "decode_spec env (tag cd) (content b) = ([], content b, None)"
    and "decode_spec env (tag cd) (content b @ concat ds) = (ms, rest, None)"
  shows "\<exists>b'. buffer_ok b' \<and> content b' = rest \<and>
           (\<forall>s. feed env cd s b ds = andThen (deliver (messageCallback cd) s ms) (\<lambda>s'. Inr (s', b')))"
  using assms
proof (induction ds arbitrary: b ms)
  case Nil
  then show ?case by auto
next
  case (Cons d ds)
  note ok = Cons.prems(1) and rm = Cons.prems(2) and tok = Cons.prems(3)
  have "length d \<le> iov_capacity b"
    using Cons.prems(4) iov_capacity_ge [of b] by simp
  then obtain b1 where b1: "readFd b (ReadvData d) = Inr \<lparr>rf_buffer = b1, rf_n = int (length d), rf_errno = None\<rparr>"
      "grows b (length d) b1" "content b1 = content b @ d"
    using readFd_data_ok [OF ok] room_mono [OF rm, of "length d"] by auto
  have "decode_spec env (tag cd) ((content b @ d) @ concat ds) = (ms, rest, None)"
    using Cons.prems(6) by simp
  from decode_spec_prefix [OF this] obtain ms1 ms2 r where
      d1: "decode_spec env (tag cd) (content b1) = (ms1, r, None)"
    and d2: "decode_spec env (tag cd) (r @ concat ds) = (ms2, rest, None)" and ms: "ms = ms1 @ ms2"
    unfolding b1(3) by blast
  from onMessage_refines [OF grows_ok [OF b1(2)] tok d1] obtain b2 where
      b2: "grows b1 0 b2" "content b2 = r"
        "\<And>s. onMessage env cd s b1 = andThen (deliver (messageCallback cd) s ms1) (\<lambda>s'. Inr (s', b2))"
    by auto
  have "room b2 (length (concat ds))"
    using grows_room [OF grows_trans [OF b1(2) b2(1)], of "length (concat ds)"] rm by simp
  moreover have "decode_spec env (tag cd) (content b2) = ([], content b2, None)"
    using decode_spec_rest [OF d1] by (simp add: b2(2))
  ultimately obtain b' where "buffer_ok b'" "content b' = rest"
      "\<forall>s. feed env cd s b2 ds = andThen (deliver (messageCallback cd) s ms2) (\<lambda>s'. Inr (s', b'))"
    using Cons.IH [OF grows_ok [OF b2(1)] _ tok _ _ d2 [folded b2(2)]] Cons.prems(4) by auto
  with b1(1) b2(3) ms show ?case
    by (auto simp: deliver_append andThen_assoc)
qed

section \<open>Where a fault can come from\<close>

lemma deliver_fault:
  "deliver cb s ms = Inl f \<Longrightarrow> \<exists>s' m. m \<in> set ms \<and> cb s' m = Inl f"
proof (induction ms arbitrary: s)
  case (Cons m ms)
  from Cons.prems Cons.IH show ?case
    by (auto simp: andThen_eq_Inl) blast+
qed simp

lemma deliver_ok: "\<forall>s m. is_ok (cb s m) \<Longrightarrow> is_ok (deliver cb s ms)"
proof (induction ms arbitrary: s)
  case (Cons m ms)
  then obtain s' where "cb s m = Inr s'"
    by (metis is_ok_iff)
  with Cons show ?case by simp
qed simp

section \<open>The receive loop on a new buffer\<close>

lemma new_buffer [simp]: "buffer_ok (Buffer_init kInitialSize)" "content (Buffer_init kInitialSize) = []"
  using Buffer_init_ok [of kInitialSize] by (simp_all add: kInitialSize_def)

lemma new_buffer_room: "n \<le> 2 ^ 40 \<Longrightarrow> room (Buffer_init kInitialSize) n"
  by (simp add: room_def Buffer_init_def kInitialSize_def kCheapPrepend_def)

lemma append_new_buffer:
  assumes "length d \<le> 2 ^ 40"
  shows "\<exists>b. append_data (Buffer_init kInitialSize) d = Inr b \<and> buffer_ok b \<and> content b = d"
  using append_data_ok [OF new_buffer(1) new_buffer_room [OF assms]] by (auto simp: grows_def)

lemma feed_new_buffer:
  fixes env :: "('m, 'z) codec_env_scheme" and cd :: "('s, 'm) codec"
  assumes "tag_ok (tag cd)" "length (concat ds) \<le> 2 ^ 40" "\<forall>d \<in> set ds. length d \<le> kExtraBuf"
    and "decode_spec env (tag cd) (concat ds) = (ms, rest, None)"
  shows "\<exists>b. content b = rest \<and> (\<forall>s. feed env cd s (Buffer_init kInitialSize) ds
      = andThen (deliver (messageCallback cd) s ms) (\<lambda>s'. Inr (s', b)))"
proof -
  have "decode_spec env (tag cd) [] = ([], [], None)"
    by (simp add: decode_spec.simps)
  with assms show ?thesis
    using feed_segments [of "Buffer_init kInitialSize" ds cd env ms rest]
    by (auto simp: new_buffer_room)
qed

section \<open>A concrete environment\<close>

text \<open>
  The Adler-32 of RFC 1950 and a message class whose wire form is the message itself, for the
  instances of the theorems. \<open>adler32_spec\<close> takes and returns the two 16-bit sums in one word.
\<close>

definition adler_base :: nat where
  "adler_base = 65521"

fun adler_sums :: "nat \<times> nat \<Rightarrow> byte list \<Rightarrow> nat \<times> nat" where
  "adler_sums (a, b) [] = (a, b)"
| "adler_sums (a, b) (x # xs) =
     (let a' = (a + unat x) mod adler_base in adler_sums (a', (b + a') mod adler_base) xs)"

definition adler32_spec :: "64 word \<Rightarrow> byte list \<Rightarrow> 64 word" where
  "adler32_spec w xs =
     (let n = unat w; (a, b) = adler_sums (n mod 65536, n div 65536) xs
      in of_nat (b * 65536 + a))"

definition raw_env :: "endian \<Rightarrow> byte list codec_env" where
  "raw_env e = \<lparr>host_order = e, adler32 = adler32_spec, isInitialized = (\<lambda>m. True),
     byteSizeLong = size_of, serializeToArray = (\<lambda>m. m), parseFromArray = Some\<rparr>"

definition rpc_tag :: "byte list" where
  "rpc_tag = [82, 80, 67, 48]"

text \<open>A client that keeps the messages it is given, newest last, and the errors it is told.\<close>

definition log_message :: "'m list \<times> ErrorCode list \<Rightarrow> 'm \<Rightarrow> ('m list \<times> ErrorCode list) result" where
  "log_message s m = Inr (fst s @ [m], snd s)"

definition log_error ::
  "'m list \<times> ErrorCode list \<Rightarrow> buffer \<Rightarrow> ErrorCode \<Rightarrow> (('m list \<times> ErrorCode list) \<times> buffer) result" where
  "log_error s b e = Inr ((fst s, snd s @ [e]), b)"

definition log_codec :: "('m list \<times> ErrorCode list, 'm) codec" where
  "log_codec = \<lparr>tag = rpc_tag, messageCallback = log_message, errorCallback = log_error\<rparr>"

definition strict_codec :: "(byte list list \<times> ErrorCode list, byte list) codec" where
  "strict_codec = ProtobufCodecLite rpc_tag log_message"

lemma raw_env_sel [simp]:
  "isInitialized (raw_env e) m" "byteSizeLong (raw_env e) m = size_of m"
  "serializeToArray (raw_env e) m = m" "parseFromArray (raw_env e) m = Some m"
  by (simp_all add: raw_env_def)

lemma log_codec_sel [simp]:
  "tag log_codec = rpc_tag" "messageCallback log_codec = log_message"
  "errorCallback log_codec = log_error"
  by (simp_all add: log_codec_def)

lemma rpc_tag_ok [simp]: "length rpc_tag = 4" "tag_ok rpc_tag"
  by (simp_all add: rpc_tag_def tag_ok_def kMaxMessageLen_def)

lemma adler_rpc_tag: "adler_sums (Suc 0, 0) rpc_tag = (278, 754)"
  by (simp add: rpc_tag_def adler_base_def)

lemma raw_encodable: "length m \<le> 1000 \<Longrightarrow> encodable (raw_env e) rpc_tag m"
  by (simp add: encodable_def length_frame_body kMaxMessageLen_def unat_size_of)

section \<open>Two clients of the codec\<close>

lemma parse_tag: "tag cd = tag cd' \<Longrightarrow> parse env cd mem len = parse env cd' mem len"
  unfolding parse_def by (erule ssubst) (rule refl)

lemma kMinMessageLen_tag: "tag cd = tag cd' \<Longrightarrow> kMinMessageLen cd = kMinMessageLen cd'"
  by (simp add: kMinMessageLen_def)

lemma Codec_fields [simp]:
  "tag (ProtobufCodecLite t cb) = t" "messageCallback (ProtobufCodecLite t cb) = cb"
  "errorCallback (ProtobufCodecLite t cb) s b e = Inl ProcessExit"
  by (simp_all add: ProtobufCodecLite_def defaultErrorCallback_def)

text \<open>
  A run of the loop that returns either stops at once or hands a message over and goes on with a
  shorter buffer; which of the two does not depend on the message callback.
\<close>

lemma onMessage_next:
  fixes env :: "('m, 'z) codec_env_scheme" and cb' :: "'t \<Rightarrow> 'm \<Rightarrow> 't result"
  assumes run: "onMessage env (ProtobufCodecLite tg cb) s b = Inr (s', b')"
  shows "(s = s' \<and> b = b' \<and> (\<forall>t. onMessage env (ProtobufCodecLite tg cb') t b = Inr (t, b)))
    \<or> (\<exists>m s1 b1. unat (readableBytes b1) < unat (readableBytes b) \<and> cb s m = Inr s1
        \<and> onMessage env (ProtobufCodecLite tg cb) s1 b1 = Inr (s', b')
        \<and> (\<forall>t. onMessage env (ProtobufCodecLite tg cb') t b
             = andThen (cb' t m) (\<lambda>t1. onMessage env (ProtobufCodecLite tg cb') t1 b1)))"
proof -
  let ?cd = "ProtobufCodecLite tg cb" and ?cd' = "ProtobufCodecLite tg cb'"
  have same: "tag ?cd' = tag ?cd" by simp
  note sync = parse_tag [OF same] kMinMessageLen_tag [OF same]
  note run = run [unfolded onMessage.simps [of env ?cd s b]]
  show ?thesis
  proof (cases "(kMinMessageLen ?cd + kHeaderLen) mod 2 ^ 32 \<le> uint (readableBytes b)")
    case False
    then have "onMessage env ?cd' t b = Inr (t, b)" for t
      by (subst onMessage.simps) (simp add: sync)
    with False run show ?thesis by simp
  next
    case guard: True
    with run obtain hdr where hdr: "peek_read b 4 = Inr hdr" by (auto simp: andThen_eq_Inr)
    define len where "len = sint (networkToHost32 (host_order env) (load32 (host_order env) hdr))"
    have valid: "\<not> (kMaxMessageLen < len \<or> len < kMinMessageLen ?cd)"
      using run guard hdr by (auto simp: len_def)
    show ?thesis
    proof (cases "kHeaderLen + len \<le> uint (readableBytes b)")
      case False
      then have "onMessage env ?cd' t b = Inr (t, b)" for t
        using guard hdr valid by (subst onMessage.simps) (simp add: sync flip: len_def)
      with False run guard hdr valid show ?thesis by (simp flip: len_def)
    next
      case complete: True
      define b1 where "b1 = retrieve b (of_int (kHeaderLen + len))"
      obtain err opt where p: "parse env ?cd (drop (unat (readerIndex b) + nat kHeaderLen) (vec b)) len = Inr (err, opt)"
        using run guard hdr valid complete by (auto simp: andThen_eq_Inr simp flip: len_def)
      with run guard hdr valid complete obtain m s1 where m: "err = kNoError" "opt = Some m"
        and s1: "cb s m = Inr s1" "onMessage env ?cd s1 b1 = Inr (s', b')"
        by (cases err; cases opt) (auto simp: andThen_eq_Inr b1_def simp flip: len_def)
      have "onMessage env ?cd' t b = andThen (cb' t m) (\<lambda>t1. onMessage env ?cd' t1 b1)" for t
        using guard hdr valid complete p m
        by (subst onMessage.simps) (simp add: sync b1_def flip: len_def)
      moreover have "unat (readableBytes b1) < unat (readableBytes b)"
      proof -
        have pos: "0 < kHeaderLen + len" "kHeaderLen + len < 2 ^ 64"
          using valid by (auto simp: kHeaderLen_def kMinMessageLen_def kChecksumLen_def kMaxMessageLen_def)
        then have "uint (of_int (kHeaderLen + len) :: size_t) = kHeaderLen + len"
          by (intro uint_of_int_size) auto
        then show ?thesis
          using pos(1) complete unfolding b1_def by (intro retrieve_shrinks) (simp_all add: word_less_def word_le_def)
      qed
      ultimately show ?thesis using s1 by blast
    qed
  qed
qed

text \<open>
  The same receive loop with two message callbacks: \<open>conc_cb\<close> on the states of the program, \<open>abs_cb\<close> on
  an abstraction. \<open>R\<close> relates the states; \<open>G\<close> restricts the abstract ones, and holds of a state whenever
  it holds of a later one (a bound on what has been done so far). Then the loops refine each other.
\<close>

locale callback_refinement =
  fixes abs_cb :: "'s \<Rightarrow> 'm \<Rightarrow> 's result" and conc_cb :: "'t \<Rightarrow> 'm \<Rightarrow> 't result"
    and R :: "'s \<Rightarrow> 't \<Rightarrow> bool" and G :: "'s \<Rightarrow> bool"
  assumes refined_step: "R s t \<Longrightarrow> abs_cb s m = Inr s' \<Longrightarrow> G s' \<Longrightarrow> \<exists>t'. conc_cb t m = Inr t' \<and> R s' t'"
    and bound_back: "abs_cb s m = Inr s' \<Longrightarrow> G s' \<Longrightarrow> G s"
begin

lemma onMessage_back:
  "onMessage env (ProtobufCodecLite tg abs_cb) s b = Inr (s', b') \<Longrightarrow> G s' \<Longrightarrow> G s"
proof (induction "unat (readableBytes b)" arbitrary: s b rule: less_induct)
  case less
  from onMessage_next [OF less.prems(1), of conc_cb] less.hyps less.prems(2) show ?case
    by (auto intro: bound_back)
qed

lemma onMessage_refined:
  "R s t \<Longrightarrow> onMessage env (ProtobufCodecLite tg abs_cb) s b = Inr (s', b') \<Longrightarrow> G s'
    \<Longrightarrow> \<exists>t'. onMessage env (ProtobufCodecLite tg conc_cb) t b = Inr (t', b') \<and> R s' t'"
proof (induction "unat (readableBytes b)" arbitrary: s t b rule: less_induct)
  case less
  from onMessage_next [OF less.prems(2), of conc_cb] show ?case
  proof (elim disjE exE conjE)
    fix m s1 b1
    assume shrink: "unat (readableBytes b1) < unat (readableBytes b)" and s1: "abs_cb s m = Inr s1"
      "onMessage env (ProtobufCodecLite tg abs_cb) s1 b1 = Inr (s', b')"
      and conc: "\<forall>t. onMessage env (ProtobufCodecLite tg conc_cb) t b
        = andThen (conc_cb t m) (\<lambda>t1. onMessage env (ProtobufCodecLite tg conc_cb) t1 b1)"
    from refined_step [OF less.prems(1) s1(1) onMessage_back [OF s1(2) less.prems(3)]] obtain t1 where
      "conc_cb t m = Inr t1" "R s1 t1" by blast
    with less.hyps [OF shrink _ s1(2) less.prems(3)] conc show ?thesis by simp
  qed (use less.prems in simp)
qed

end

section \<open>Messages over a byte stream\<close>

text \<open>Whatever prefix of the frames has arrived, the messages handed over are a prefix of those sent.\<close>

lemma frames_arriving:
  fixes env :: "('m, 'z) codec_env_scheme" and cd :: "('s, 'm) codec"
  assumes "tag_ok (tag cd)"
    and "\<forall>m \<in> set ms. encodable env (tag cd) m \<and> parseFromArray env (serializeToArray env m) = Some m"
    and "map (codec_send env cd) ms = map Inr frames"
    and "concat pieces @ later = concat frames"
    and "\<forall>d \<in> set pieces. length d \<le> kExtraBuf" "length (concat frames) \<le> 2 ^ 40"
  shows "\<exists>n b'. (later = [] \<longrightarrow> length ms \<le> n \<and> content b' = [])
    \<and> (\<forall>s. feed env cd s (Buffer_init kInitialSize) pieces
        = andThen (deliver (messageCallback cd) s (take n ms)) (\<lambda>s'. Inr (s', b')))"
proof -
  have "map (codec_send env cd) ms = map (\<lambda>m. Inr (frame env (tag cd) m)) ms"
    using assms(2) by (simp add: codec_send_ok)
  then have "(map Inr frames :: byte list result list) = map Inr (map (frame env (tag cd)) ms)"
    by (simp only: assms(3) list.map_comp comp_def)
  then have "frames = map (frame env (tag cd)) ms"
    by (metis inj_Inr inj_map_eq_map)
  then have all: "decode_spec env (tag cd) (concat pieces @ later) = (ms, [], None)"
    using decode_spec_frames [of ms env "tag cd" "[]"] assms(2,4)
    by (simp add: decode_spec.simps [of env "tag cd" "[]"])
  from decode_spec_prefix [OF this] obtain ms1 ms2 r where
      d: "decode_spec env (tag cd) (concat pieces) = (ms1, r, None)" "ms = ms1 @ ms2" by blast
  have small: "length (concat pieces) \<le> 2 ^ 40"
    using assms(6) unfolding assms(4) [symmetric] by simp
  from feed_new_buffer [OF assms(1) small assms(5) d(1)] obtain b where
      b: "content b = r" "\<forall>s. feed env cd s (Buffer_init kInitialSize) pieces
        = andThen (deliver (messageCallback cd) s ms1) (\<lambda>s'. Inr (s', b))" by blast
  have "later = [] \<longrightarrow> ms1 = ms \<and> r = []" using all d(1) by auto
  with b d(2) show ?thesis by (intro exI [of _ "length ms1"] exI [of _ b]) auto
qed

lemma frames_delivered:
  fixes env :: "('m, 'z) codec_env_scheme" and cd :: "('s, 'm) codec"
  assumes "tag_ok (tag cd)"
    and "\<forall>m \<in> set ms. encodable env (tag cd) m \<and> parseFromArray env (serializeToArray env m) = Some m"
    and "map (codec_send env cd) ms = map Inr frames"
    and "concat pieces = concat frames"
    and "\<forall>d \<in> set pieces. length d \<le> kExtraBuf" "length (concat frames) \<le> 2 ^ 40"
  shows "\<exists>b'. content b' = [] \<and> (\<forall>s. feed env cd s (Buffer_init kInitialSize) pieces
      = andThen (deliver (messageCallback cd) s ms) (\<lambda>s'. Inr (s', b')))"
proof -
  have "concat pieces @ [] = concat frames" using assms(4) by simp
  from frames_arriving [OF assms(1-3) this assms(5,6)] show ?thesis by auto
qed

context byte_stream begin

lemma messages_arrive:
  fixes env :: "('m, 'z) codec_env_scheme" and cd :: "('s, 'm) codec"
  assumes "tag_ok (tag cd)"
    and "\<forall>m \<in> set ms. encodable env (tag cd) m \<and> parseFromArray env (serializeToArray env m) = Some m"
    and "map (codec_send env cd) ms = map Inr frames"
    and "opened w" "session w frames w'" "length (concat frames) < 2 ^ 31"
    and "concat pieces @ later = taken w'" "\<forall>d \<in> set pieces. length d \<le> kExtraBuf"
  shows "\<exists>n b'. (later = [] \<and> unsent w' = [] \<longrightarrow> length ms \<le> n \<and> content b' = [])
    \<and> (\<forall>s. feed env cd s (Buffer_init kInitialSize) pieces
        = andThen (deliver (messageCallback cd) s (take n ms)) (\<lambda>s'. Inr (s', b')))"
proof -
  have "concat pieces @ later @ unsent w' = concat frames"
    using in_order [OF assms(4-6)] unfolding assms(7) [symmetric] by simp
  from frames_arriving [OF assms(1-3) this assms(8)] assms(6) show ?thesis by simp
qed

end

section \<open>Properties\<close>

text \<open>C5: 
  The bytes \<^verbatim>\<open>ProtobufCodecLite::send\<close> hands to the connection are exactly the frame of
  \<^verbatim>\<open>ProtobufCodecLite.h\<close>: big-endian length of what follows, tag, payload, big-endian Adler-32 of
  tag and payload, on a little-endian and on a big-endian host, for every message the receiver's
  size limit admits; no buffer access of the encoder is out of bounds.
\<close>

theorem send_writes_frame:
  fixes env :: "('m, 'z) codec_env_scheme" and cd :: "('s, 'm) codec"
  assumes "encodable env (tag cd) m"
  shows "codec_send env cd m = Inr (bytes32 (of_nat (length (tag cd @ serializeToArray env m) + 4))
      @ tag cd @ serializeToArray env m
      @ bytes32 (checksum env (tag cd @ serializeToArray env m)))"
  using codec_send_ok [OF assms] by (simp add: frame_def frame_body_def Let_def add.assoc)

lemma send_writes_frame_witness:
  "codec_send (raw_env Little) log_codec [1, 2, 3] = Inr (bytes32 (of_nat (length (rpc_tag @ [1, 2, 3]) + 4))
      @ rpc_tag @ [1, 2, 3] @ bytes32 (checksum (raw_env Little) (rpc_tag @ [1, 2, 3])))"
  using send_writes_frame [of "raw_env Little" log_codec "[1, 2, 3]"] raw_encodable [of "[1, 2, 3]"]
  by simp

text \<open>C6:
  Framing round trip: when messages are sent one after the other and the bytes arrive at the peer
  cut into arbitrary pieces (each at most what one \<^verbatim>\<open>readv\<close> delivers), the receive loop hands
  exactly these messages to the message callback, in order, and leaves the input buffer empty.
\<close>

theorem stream_roundtrip:
  fixes env :: "('m, 'z) codec_env_scheme" and cd :: "('s, 'm) codec"
  assumes "tag_ok (tag cd)"
    and "\<forall>m \<in> set ms. encodable env (tag cd) m \<and> parseFromArray env (serializeToArray env m) = Some m"
    and "map (codec_send env cd) ms = map Inr frames"
    and "concat pieces = concat frames"
    and "\<forall>d \<in> set pieces. length d \<le> kExtraBuf" "length (concat frames) \<le> 2 ^ 40"
  shows "\<exists>b'. content b' = [] \<and> (\<forall>s. feed env cd s (Buffer_init kInitialSize) pieces
      = andThen (deliver (messageCallback cd) s ms) (\<lambda>s'. Inr (s', b')))"
  by (rule frames_delivered [OF assms])

lemma stream_roundtrip_witness:
  "\<exists>b'. content b' = [] \<and> (\<forall>s. feed (raw_env Big) log_codec s (Buffer_init kInitialSize)
      [take 5 (frame (raw_env Big) rpc_tag [7] @ frame (raw_env Big) rpc_tag []),
       drop 5 (frame (raw_env Big) rpc_tag [7] @ frame (raw_env Big) rpc_tag [])]
      = andThen (deliver log_message s [[7], []]) (\<lambda>s'. Inr (s', b')))"
  using stream_roundtrip [of log_codec "[[7], []]" "raw_env Big"
      "[frame (raw_env Big) rpc_tag [7], frame (raw_env Big) rpc_tag []]"
      "[take 5 (frame (raw_env Big) rpc_tag [7] @ frame (raw_env Big) rpc_tag []),
        drop 5 (frame (raw_env Big) rpc_tag [7] @ frame (raw_env Big) rpc_tag [])]"]
    codec_send_ok [of "raw_env Big" log_codec "[7]"] codec_send_ok [of "raw_env Big" log_codec "[]"]
    raw_encodable [of "[7]" Big] raw_encodable [of "[]" Big]
  by (simp add: length_frame length_frame_body kExtraBuf_def)

text \<open>C7:
  On every byte sequence in the input buffer, also a hostile one, the decoding loop returns, and
  it does what the buffer-free decoder \<open>decode_spec\<close> says: the accepted messages go to the message
  callback in order, exactly their frames leave the buffer, and the first error is passed to the
  error callback with the buffer that still holds the offending frame.
\<close>

theorem onMessage_decodes:
  fixes env :: "('m, 'z) codec_env_scheme" and cd :: "('s, 'm) codec"
  assumes "buffer_ok b" "tag_ok (tag cd)"
    and "decode_spec env (tag cd) (content b) = (ms, rest, e)"
  shows "\<exists>b'. buffer_ok b' \<and> content b' = rest \<and>
           (\<forall>s. onMessage env cd s b = andThen (deliver (messageCallback cd) s ms)
              (\<lambda>s'. case e of None \<Rightarrow> Inr (s', b') | Some err \<Rightarrow> errorCallback cd s' b' err))"
  using onMessage_refines [OF assms] grows_ok by blast

lemma onMessage_decodes_witness:
  "\<exists>b'. buffer_ok b' \<and> content b' = [] \<and>
     (\<forall>s. onMessage (raw_env Big) log_codec s (Buffer_init kInitialSize) = Inr (s, b'))"
  using onMessage_decodes [of "Buffer_init kInitialSize" log_codec "raw_env Big" "[]" "[]" None]
  by (simp add: decode_spec.simps)

text \<open>C8:
  Memory safety of the decoder: whatever bytes the peer sends, the loop itself never reads outside
  the buffer, never builds a string of negative length and never stops the process; when it
  faults, the fault is one of the message callback or of the error callback.
\<close>

theorem onMessage_safe:
  fixes env :: "('m, 'z) codec_env_scheme" and cd :: "('s, 'm) codec"
  assumes "buffer_ok b" "tag_ok (tag cd)" "onMessage env cd s b = Inl f"
  shows "(\<exists>s' m. messageCallback cd s' m = Inl f)
    \<or> (\<exists>s' b' err. buffer_ok b' \<and> errorCallback cd s' b' err = Inl f)"
proof -
  obtain ms rest e where d: "decode_spec env (tag cd) (content b) = (ms, rest, e)"
    by (metis prod_cases3)
  from onMessage_refines [OF assms(1,2) d] obtain b' where b': "buffer_ok b'"
      "onMessage env cd s b = andThen (deliver (messageCallback cd) s ms)
        (\<lambda>s'. case e of None \<Rightarrow> Inr (s', b') | Some err \<Rightarrow> errorCallback cd s' b' err)"
    using grows_ok by blast
  with assms(3) show ?thesis
    by (auto simp: andThen_eq_Inl split: option.splits) (blast dest: deliver_fault)+
qed

lemma onMessage_safe_witness:
  "(\<exists>s' m. messageCallback strict_codec s' m = Inl ProcessExit)
   \<or> (\<exists>s' b' err. buffer_ok b' \<and>
        errorCallback strict_codec s' b' err = Inl ProcessExit)"
proof -
  obtain b where b: "buffer_ok b" "content b = replicate 12 0"
    using append_new_buffer [of "replicate 12 0"] by auto
  have "hdr_len (content b) = 0"
    by (simp add: b(2) hdr_len_def join_bytes_def numeral_eq_Suc)
  then have run: "onMessage (raw_env Big) strict_codec ([], []) b = Inl ProcessExit"
    using onMessage_round [OF b(1), of strict_codec "raw_env Big"]
    by (simp add: strict_codec_def ProtobufCodecLite_def b(2) defaultErrorCallback_def)
  show ?thesis
    by (rule onMessage_safe [OF b(1) _ run]) (simp add: strict_codec_def ProtobufCodecLite_def)
qed

text \<open>C9:
  The verdict on the first frame of the buffer, branch by branch: a length field outside
  \<open>[kMinMessageLen, kMaxMessageLen]\<close> is \<open>kInvalidLength\<close> even before the frame is complete; an
  incomplete frame of an admissible length waits; of a complete one, a wrong checksum, then a
  wrong tag, then an unparsable payload are reported in this order, with the frame still in the
  buffer; otherwise the message is delivered, its frame consumed, and the loop goes on.
\<close>

theorem onMessage_verdicts:
  fixes env :: "('m, 'z) codec_env_scheme" and cd :: "('s, 'm) codec"
  assumes "buffer_ok b" "tag_ok (tag cd)" "length (tag cd) + 8 \<le> length (content b)"
  shows "onMessage env cd s b =
    (let len = sint (join_bytes (take 4 (content b)) :: int32);
         covered = take (nat len - 4) (drop 4 (content b));
         ck = join_bytes (take 4 (drop (nat len) (content b)))
     in if len < kMinMessageLen cd \<or> kMaxMessageLen < len then errorCallback cd s b kInvalidLength
        else if length (content b) < nat len + 4 then Inr (s, b)
        else if checksum env covered \<noteq> ck then errorCallback cd s b kCheckSumError
        else if take (length (tag cd)) covered \<noteq> tag cd then errorCallback cd s b kUnknownMessageType
        else case parseFromArray env (drop (length (tag cd)) covered) of
               None \<Rightarrow> errorCallback cd s b kParseError
             | Some m \<Rightarrow> andThen (messageCallback cd s m)
                 (\<lambda>s'. onMessage env cd s' (retrieve b (of_int (kHeaderLen + len)))))"
proof -
  define len where "len = hdr_len (content b)"
  define c where "c = content b"
  have kmin: "kMinMessageLen cd = int (length (tag cd)) + 4"
    by (simp add: kMinMessageLen_def kChecksumLen_def)
  have spec: "parse_spec env (tag cd) (take (nat len) (drop 4 c)) =
      (if checksum env (take (nat len - 4) (drop 4 c)) \<noteq> join_bytes (take 4 (drop (nat len) c))
       then (kCheckSumError, None)
       else if take (length (tag cd)) (take (nat len - 4) (drop 4 c)) \<noteq> tag cd
       then (kUnknownMessageType, None)
       else case parseFromArray env (drop (length (tag cd)) (take (nat len - 4) (drop 4 c))) of
              Some m \<Rightarrow> (kNoError, Some m) | None \<Rightarrow> (kParseError, None))"
    if "int (length (tag cd)) + 4 \<le> len" "nat len + 4 \<le> length c"
  proof -
    have n: "length (take (nat len) (drop 4 c)) = nat len" "4 \<le> nat len"
      using that by auto
    have "take (nat len - 4) (take (nat len) (drop 4 c)) = take (nat len - 4) (drop 4 c)"
      "drop (nat len - 4) (take (nat len) (drop 4 c)) = take 4 (drop (nat len) c)"
      using n(2) by (simp_all add: min_absorb1 drop_take)
    then show ?thesis
      by (simp only: parse_spec_def Let_def n(1))
  qed
  note R = onMessage_round [OF assms(1,2), of env s, folded len_def, folded c_def, unfolded Let_def]
  have l: "\<not> length c < length (tag cd) + 8"
    using assms(3) by (simp add: c_def)
  have hl: "hdr_len c = len"
    by (simp add: len_def c_def)
  note fold = hdr_len_def [symmetric] c_def [symmetric] hl Let_def kmin
  consider (bad) "len < int (length (tag cd)) + 4 \<or> kMaxMessageLen < len"
    | (short) "\<not> (len < int (length (tag cd)) + 4 \<or> kMaxMessageLen < len)" "length c < nat len + 4"
    | (whole) "\<not> len < int (length (tag cd)) + 4" "\<not> kMaxMessageLen < len" "\<not> length c < nat len + 4"
    by blast
  then show ?thesis
  proof cases
    case bad
    then have "kMaxMessageLen < len \<or> len < int (length (tag cd)) + 4" by blast
    with bad l show ?thesis unfolding fold R by (simp only: if_True if_False)
  next
    case short
    then have "\<not> (kMaxMessageLen < len \<or> len < int (length (tag cd)) + 4)" by blast
    with short l show ?thesis unfolding fold R by (simp only: if_True if_False)
  next
    case whole
    have big: "int (length (tag cd)) + 4 \<le> len" "nat len + 4 \<le> length c"
      using whole by linarith+
    note sp = spec [OF big]
    show ?thesis
      unfolding fold R sp using whole l by (simp add: accepted_def split: option.split)
  qed
qed


lemma onMessage_verdicts_witness:
  "\<exists>b. content b = bytes32 8 @ rpc_tag @ [0, 0, 0, 0]
     \<and> onMessage (raw_env Big) log_codec ([], []) b = Inr (([], [kCheckSumError]), b)"
proof -
  define d where "d = bytes32 8 @ rpc_tag @ [0, 0, 0, 0 :: byte]"
  obtain b where b: "buffer_ok b" "content b = d"
    using append_new_buffer [of d] by (auto simp: d_def)
  have "(join_bytes (take 4 d) :: int32) = 8" "take 4 (drop 4 d) = rpc_tag"
      "join_bytes (take 4 (drop 8 d)) = (0 :: int32)" "length d = 12"
    by (simp_all add: d_def) (simp_all add: rpc_tag_def join_bytes_def numeral_eq_Suc)
  moreover have "checksum (raw_env Big) rpc_tag \<noteq> 0"
    by (simp add: checksum_def raw_env_def adler32_spec_def adler_rpc_tag)
  ultimately have "onMessage (raw_env Big) log_codec ([], []) b = Inr (([], [kCheckSumError]), b)"
    using onMessage_verdicts [of b log_codec "raw_env Big" "([], [])"] b
    by (simp add: kMinMessageLen_def kChecksumLen_def kMaxMessageLen_def log_error_def)
  with b(2) show ?thesis by (auto simp: d_def)
qed

text \<open>
  A codec built without an error callback (as \<^verbatim>\<open>RpcChannel\<close> does) ends the whole process at the
  first malformed frame, after the messages before it were delivered.
\<close>

theorem malformed_frame_exits:
  fixes env :: "('m, 'z) codec_env_scheme"
  assumes "buffer_ok b" "tag_ok t" "decode_spec env t (content b) = (ms, rest, Some err)"
  shows "onMessage env (ProtobufCodecLite t cb) s b = andThen (deliver cb s ms) (\<lambda>s'. Inl ProcessExit)"
  using onMessage_refines [of b "ProtobufCodecLite t cb" env ms rest "Some err"] assms
  by (auto simp: ProtobufCodecLite_def defaultErrorCallback_def)

lemma malformed_frame_exits_witness:
  "\<exists>b. content b = replicate 12 0 \<and>
     onMessage (raw_env Big) (ProtobufCodecLite rpc_tag log_message) ([], []) b = Inl ProcessExit"
proof -
  obtain b where b: "buffer_ok b" "content b = replicate 12 0"
    using append_new_buffer [of "replicate 12 0"] by auto
  have "decode_spec (raw_env Big) rpc_tag (content b) = ([], content b, Some kInvalidLength)"
    by (subst decode_spec.simps) (simp add: b(2) join_bytes_def numeral_eq_Suc)
  from malformed_frame_exits [OF b(1) _ this, of log_message "([], [])"] b(2) show ?thesis
    by auto
qed

text \<open>
  The segmentation of the stream is invisible to the client: two ways of cutting the same bytes,
  which hold no malformed frame but may end in the middle of one, give the same run of the message
  callback, the same fault if it faults, and leave the same bytes in the buffer.
\<close>

theorem segmentation_invisible:
  fixes env :: "('m, 'z) codec_env_scheme" and cd :: "('s, 'm) codec"
  assumes "tag_ok (tag cd)" "concat ds = concat ds'" "length (concat ds) \<le> 2 ^ 40"
    and "\<forall>d \<in> set ds \<union> set ds'. length d \<le> kExtraBuf"
    and "decode_spec env (tag cd) (concat ds) = (ms, rest, None)"
  shows "\<exists>b b'. content b = content b' \<and> (\<forall>s. \<exists>r :: 's result.
      feed env cd s (Buffer_init kInitialSize) ds = andThen r (\<lambda>s'. Inr (s', b))
      \<and> feed env cd s (Buffer_init kInitialSize) ds' = andThen r (\<lambda>s'. Inr (s', b')))"
  using feed_new_buffer [of cd ds env ms rest] feed_new_buffer [of cd ds' env ms rest] assms
  by (metis Un_iff)

lemma segmentation_invisible_witness:
  "\<exists>b b'. content b = content b' \<and> (\<forall>s. \<exists>r :: (byte list list \<times> ErrorCode list) result.
      feed (raw_env Big) log_codec s (Buffer_init kInitialSize) [[0, 0], [0]] = andThen r (\<lambda>s'. Inr (s', b))
      \<and> feed (raw_env Big) log_codec s (Buffer_init kInitialSize) [[0], [0, 0]] = andThen r (\<lambda>s'. Inr (s', b')))"
  by (rule segmentation_invisible [where ms = "[]" and rest = "[0, 0, 0]"])
    (simp_all add: kExtraBuf_def decode_spec.simps [of "raw_env Big" rpc_tag])

end
