(* ===== verification/RpcMeta.thy ===== *)
theory RpcMeta
  imports Endian
begin

text \<open>
  \<^verbatim>\<open>rpc/RpcMeta.pb.h\<close> and \<^verbatim>\<open>rpc/RpcMeta.pb.cc\<close>: the message class \<^verbatim>\<open>RpcMetaMessage\<close> that travels on the
  wire: presence bits, fields, accessors, clearing, merging, size, serialisation and the parsing
  loop. The protobuf library the class calls is the record \<open>pb\<close> (wire-level readers and writers,
  unknown-field sets); what the class relies on is stated by the locale \<open>pb_wire\<close> in theory
  \<open>WireFormat\<close>, where it is also interpreted. The state of a parse (the pointer into the input
  with its \<^verbatim>\<open>ParseContext\<close>) is the type \<open>'p\<close>, an unknown-field set the type \<open>'u\<close>. Strings are
  byte lists; arenas (memory ownership inside the library) are not modelled, and the UTF-8 checks,
  which only log, have no effect on the result. The lemmas show that every accessor keeps
  \<open>msg_ok\<close> and what each reads after each write.
\<close>

section \<open>Enumerations\<close>

text \<open>
  The C++ enumerations have the underlying type \<^verbatim>\<open>int\<close>, so a variable of the type can hold any
  32-bit value; the enumerators are constants and \<^verbatim>\<open>..._IsValid\<close> recognises them.
\<close>

definition REQUEST :: int32 where "REQUEST = 1"
definition RESPONSE :: int32 where "RESPONSE = 2"
definition ERROR :: int32 where "ERROR = 3"

definition MessageType_IsValid :: "int32 \<Rightarrow> bool" where
  "MessageType_IsValid value \<longleftrightarrow> value = 1 \<or> value = 2 \<or> value = 3"

definition NO_ERROR :: int32 where "NO_ERROR = 0"
definition WRONG_PROTO :: int32 where "WRONG_PROTO = 1"
definition NO_SERVICE :: int32 where "NO_SERVICE = 2"
definition NO_METHOD :: int32 where "NO_METHOD = 3"
definition INVALID_REQUEST :: int32 where "INVALID_REQUEST = 4"
definition INVALID_RESPONSE :: int32 where "INVALID_RESPONSE = 5"
definition TIMEOUT :: int32 where "TIMEOUT = 6"

definition ErrorCode_IsValid :: "int32 \<Rightarrow> bool" where
  "ErrorCode_IsValid value \<longleftrightarrow>
     value = 0 \<or> value = 1 \<or> value = 2 \<or> value = 3 \<or> value = 4 \<or> value = 5 \<or> value = 6"

lemmas enum_defs = REQUEST_def RESPONSE_def ERROR_def NO_ERROR_def WRONG_PROTO_def
  NO_SERVICE_def NO_METHOD_def INVALID_REQUEST_def INVALID_RESPONSE_def TIMEOUT_def

section \<open>The protobuf library\<close>

text \<open>
  \<open>Done\<close> answers \<open>Inr\<close> the pointer to go on with, or \<open>Inl\<close> the final pointer (none after an
  overrun). A reader that fails returns no pointer; \<open>ReadTag\<close> then also returns the tag 0, so its
  failure is just \<open>None\<close>. \<open>ReadString\<close> is \<^verbatim>\<open>InlineGreedyStringParser\<close>, which leaves some string
  behind also when it fails. \<open>LoadUint64\<close> is the unaligned load followed by \<^verbatim>\<open>ptr += 8\<close>.
\<close>

record ('u, 'p) pb =
  no_fields :: 'u
  have_unknown_fields :: "'u \<Rightarrow> bool"
  merge_fields :: "'u \<Rightarrow> 'u \<Rightarrow> 'u"
  WriteVarint :: "nat \<Rightarrow> 64 word \<Rightarrow> 'u \<Rightarrow> 'u"
  UnknownFieldParse :: "32 word \<Rightarrow> 'u \<Rightarrow> 'p \<Rightarrow> 'u \<times> 'p option"
  UnknownFieldsToArray :: "'u \<Rightarrow> byte list"
  UnknownFieldsSize :: "'u \<Rightarrow> size_t"
  Done :: "'p \<Rightarrow> 'p option + 'p"
  ReadTag :: "'p \<Rightarrow> (32 word \<times> 'p) option"
  SetLastTag :: "32 word \<Rightarrow> 'p \<Rightarrow> 'p"
  ReadVarint64 :: "'p \<Rightarrow> (64 word \<times> 'p) option"
  LoadUint64 :: "'p \<Rightarrow> 64 word \<times> 'p"
  ReadString :: "'p \<Rightarrow> byte list \<times> 'p option"
  WriteEnumToArray :: "nat \<Rightarrow> int32 \<Rightarrow> byte list"
  WriteFixed64ToArray :: "nat \<Rightarrow> 64 word \<Rightarrow> byte list"
  WriteString :: "nat \<Rightarrow> byte list \<Rightarrow> byte list"
  WriteBytes :: "nat \<Rightarrow> byte list \<Rightarrow> byte list"
  EnumSize :: "int32 \<Rightarrow> size_t"
  StringSize :: "byte list \<Rightarrow> size_t"
  BytesSize :: "byte list \<Rightarrow> size_t"
  parse_begin :: "byte list \<Rightarrow> 'p"
  parse_ended :: "'p \<Rightarrow> bool"

section \<open>The class\<close>

record 'u RpcMetaMessage =
  has_bits :: "32 word"
  unknown_fields :: 'u
  cached_size :: int32
  service_field :: "byte list"
  method_field :: "byte list"
  request_field :: "byte list"
  response_field :: "byte list"
  id_field :: "64 word"
  error_field :: int32
  type_field :: int32

text \<open>The default constructor (\<^verbatim>\<open>SharedCtor\<close>) and the default instance have the same values.\<close>

definition SharedCtor :: "('u, 'p) pb \<Rightarrow> 'u RpcMetaMessage" where
  "SharedCtor rt = \<lparr>has_bits = 0, unknown_fields = no_fields rt, cached_size = 0, service_field = [],
     method_field = [], request_field = [], response_field = [], id_field = 0, error_field = 0,
     type_field = 1\<rparr>"

subsection \<open>Scalar fields\<close>

definition internal_has_type :: "'u RpcMetaMessage \<Rightarrow> bool" where
  "internal_has_type m \<longleftrightarrow> has_bits m AND 0x40 \<noteq> 0"

definition has_type :: "'u RpcMetaMessage \<Rightarrow> bool" where
  "has_type m = internal_has_type m"

definition clear_type :: "'u RpcMetaMessage \<Rightarrow> 'u RpcMetaMessage" where
  "clear_type m = m\<lparr>type_field := 1, has_bits := has_bits m AND NOT 0x40\<rparr>"

definition get_type :: "'u RpcMetaMessage \<Rightarrow> int32" where
  "get_type m = type_field m"

text \<open>
  \<^verbatim>\<open>_internal_set_type\<close> first asserts that the value is valid; \<open>put_type\<close> is the assignment behind
  the assertion.
\<close>

definition put_type :: "int32 \<Rightarrow> 'u RpcMetaMessage \<Rightarrow> 'u RpcMetaMessage" where
  "put_type value m = m\<lparr>has_bits := has_bits m OR 0x40, type_field := value\<rparr>"

definition set_type :: "int32 \<Rightarrow> 'u RpcMetaMessage \<Rightarrow> 'u RpcMetaMessage result" where
  "set_type value m = (if MessageType_IsValid value then Inr (put_type value m) else Inl Aborted)"

definition internal_has_id :: "'u RpcMetaMessage \<Rightarrow> bool" where
  "internal_has_id m \<longleftrightarrow> has_bits m AND 0x10 \<noteq> 0"

definition has_id :: "'u RpcMetaMessage \<Rightarrow> bool" where
  "has_id m = internal_has_id m"

definition clear_id :: "'u RpcMetaMessage \<Rightarrow> 'u RpcMetaMessage" where
  "clear_id m = m\<lparr>id_field := 0, has_bits := has_bits m AND NOT 0x10\<rparr>"

definition get_id :: "'u RpcMetaMessage \<Rightarrow> 64 word" where
  "get_id m = id_field m"

definition set_id :: "64 word \<Rightarrow> 'u RpcMetaMessage \<Rightarrow> 'u RpcMetaMessage" where
  "set_id value m = m\<lparr>has_bits := has_bits m OR 0x10, id_field := value\<rparr>"

definition internal_has_error :: "'u RpcMetaMessage \<Rightarrow> bool" where
  "internal_has_error m \<longleftrightarrow> has_bits m AND 0x20 \<noteq> 0"

definition has_error :: "'u RpcMetaMessage \<Rightarrow> bool" where
  "has_error m = internal_has_error m"

definition clear_error :: "'u RpcMetaMessage \<Rightarrow> 'u RpcMetaMessage" where
  "clear_error m = m\<lparr>error_field := 0, has_bits := has_bits m AND NOT 0x20\<rparr>"

definition get_error :: "'u RpcMetaMessage \<Rightarrow> int32" where
  "get_error m = error_field m"

definition put_error :: "int32 \<Rightarrow> 'u RpcMetaMessage \<Rightarrow> 'u RpcMetaMessage" where
  "put_error value m = m\<lparr>has_bits := has_bits m OR 0x20, error_field := value\<rparr>"

definition set_error :: "int32 \<Rightarrow> 'u RpcMetaMessage \<Rightarrow> 'u RpcMetaMessage result" where
  "set_error value m = (if ErrorCode_IsValid value then Inr (put_error value m) else Inl Aborted)"

subsection \<open>String fields\<close>

text \<open>
  \<^verbatim>\<open>mutable_...\<close> returns a pointer to the string; the model takes what the caller does to the string
  as a function. \<^verbatim>\<open>release_...\<close> returns the string or a null pointer, \<^verbatim>\<open>set_allocated_...\<close> takes one.
\<close>

definition internal_has_service :: "'u RpcMetaMessage \<Rightarrow> bool" where
  "internal_has_service m \<longleftrightarrow> has_bits m AND 0x1 \<noteq> 0"

definition has_service :: "'u RpcMetaMessage \<Rightarrow> bool" where
  "has_service m = internal_has_service m"

definition clear_service :: "'u RpcMetaMessage \<Rightarrow> 'u RpcMetaMessage" where
  "clear_service m = m\<lparr>service_field := [], has_bits := has_bits m AND NOT 0x1\<rparr>"

definition get_service :: "'u RpcMetaMessage \<Rightarrow> byte list" where
  "get_service m = service_field m"

definition set_service :: "byte list \<Rightarrow> 'u RpcMetaMessage \<Rightarrow> 'u RpcMetaMessage" where
  "set_service value m = m\<lparr>has_bits := has_bits m OR 0x1, service_field := value\<rparr>"

definition mutable_service :: "(byte list \<Rightarrow> byte list) \<Rightarrow> 'u RpcMetaMessage \<Rightarrow> 'u RpcMetaMessage" where
  "mutable_service f m = m\<lparr>has_bits := has_bits m OR 0x1, service_field := f (service_field m)\<rparr>"

definition release_service :: "'u RpcMetaMessage \<Rightarrow> byte list option \<times> 'u RpcMetaMessage" where
  "release_service m =
     (if \<not> internal_has_service m then (None, m)
      else (Some (service_field m), m\<lparr>has_bits := has_bits m AND NOT 0x1, service_field := []\<rparr>))"

definition set_allocated_service :: "byte list option \<Rightarrow> 'u RpcMetaMessage \<Rightarrow> 'u RpcMetaMessage" where
  "set_allocated_service value m =
     (case value of
        Some v \<Rightarrow> m\<lparr>has_bits := has_bits m OR 0x1, service_field := v\<rparr>
      | None \<Rightarrow> m\<lparr>has_bits := has_bits m AND NOT 0x1, service_field := []\<rparr>)"

definition internal_has_method :: "'u RpcMetaMessage \<Rightarrow> bool" where
  "internal_has_method m \<longleftrightarrow> has_bits m AND 0x2 \<noteq> 0"

definition has_method :: "'u RpcMetaMessage \<Rightarrow> bool" where
  "has_method m = internal_has_method m"

definition clear_method :: "'u RpcMetaMessage \<Rightarrow> 'u RpcMetaMessage" where
  "clear_method m = m\<lparr>method_field := [], has_bits := has_bits m AND NOT 0x2\<rparr>"

definition get_method :: "'u RpcMetaMessage \<Rightarrow> byte list" where
  "get_method m = method_field m"

definition set_method :: "byte list \<Rightarrow> 'u RpcMetaMessage \<Rightarrow> 'u RpcMetaMessage" where
  "set_method value m = m\<lparr>has_bits := has_bits m OR 0x2, method_field := value\<rparr>"

definition mutable_method :: "(byte list \<Rightarrow> byte list) \<Rightarrow> 'u RpcMetaMessage \<Rightarrow> 'u RpcMetaMessage" where
  "mutable_method f m = m\<lparr>has_bits := has_bits m OR 0x2, method_field := f (method_field m)\<rparr>"

definition release_method :: "'u RpcMetaMessage \<Rightarrow> byte list option \<times> 'u RpcMetaMessage" where
  "release_method m =
     (if \<not> internal_has_method m then (None, m)
      else (Some (method_field m), m\<lparr>has_bits := has_bits m AND NOT 0x2, method_field := []\<rparr>))"

definition set_allocated_method :: "byte list option \<Rightarrow> 'u RpcMetaMessage \<Rightarrow> 'u RpcMetaMessage" where
  "set_allocated_method value m =
     (case value of
        Some v \<Rightarrow> m\<lparr>has_bits := has_bits m OR 0x2, method_field := v\<rparr>
      | None \<Rightarrow> m\<lparr>has_bits := has_bits m AND NOT 0x2, method_field := []\<rparr>)"

definition internal_has_request :: "'u RpcMetaMessage \<Rightarrow> bool" where
  "internal_has_request m \<longleftrightarrow> has_bits m AND 0x4 \<noteq> 0"

definition has_request :: "'u RpcMetaMessage \<Rightarrow> bool" where
  "has_request m = internal_has_request m"

definition clear_request :: "'u RpcMetaMessage \<Rightarrow> 'u RpcMetaMessage" where
  "clear_request m = m\<lparr>request_field := [], has_bits := has_bits m AND NOT 0x4\<rparr>"

definition get_request :: "'u RpcMetaMessage \<Rightarrow> byte list" where
  "get_request m = request_field m"

definition set_request :: "byte list \<Rightarrow> 'u RpcMetaMessage \<Rightarrow> 'u RpcMetaMessage" where
  "set_request value m = m\<lparr>has_bits := has_bits m OR 0x4, request_field := value\<rparr>"

definition mutable_request :: "(byte list \<Rightarrow> byte list) \<Rightarrow> 'u RpcMetaMessage \<Rightarrow> 'u RpcMetaMessage" where
  "mutable_request f m = m\<lparr>has_bits := has_bits m OR 0x4, request_field := f (request_field m)\<rparr>"

definition release_request :: "'u RpcMetaMessage \<Rightarrow> byte list option \<times> 'u RpcMetaMessage" where
  "release_request m =
     (if \<not> internal_has_request m then (None, m)
      else (Some (request_field m), m\<lparr>has_bits := has_bits m AND NOT 0x4, request_field := []\<rparr>))"

definition set_allocated_request :: "byte list option \<Rightarrow> 'u RpcMetaMessage \<Rightarrow> 'u RpcMetaMessage" where
  "set_allocated_request value m =
     (case value of
        Some v \<Rightarrow> m\<lparr>has_bits := has_bits m OR 0x4, request_field := v\<rparr>
      | None \<Rightarrow> m\<lparr>has_bits := has_bits m AND NOT 0x4, request_field := []\<rparr>)"

definition internal_has_response :: "'u RpcMetaMessage \<Rightarrow> bool" where
  "internal_has_response m \<longleftrightarrow> has_bits m AND 0x8 \<noteq> 0"

definition has_response :: "'u RpcMetaMessage \<Rightarrow> bool" where
  "has_response m = internal_has_response m"

definition clear_response :: "'u RpcMetaMessage \<Rightarrow> 'u RpcMetaMessage" where
  "clear_response m = m\<lparr>response_field := [], has_bits := has_bits m AND NOT 0x8\<rparr>"

definition get_response :: "'u RpcMetaMessage \<Rightarrow> byte list" where
  "get_response m = response_field m"

definition set_response :: "byte list \<Rightarrow> 'u RpcMetaMessage \<Rightarrow> 'u RpcMetaMessage" where
  "set_response value m = m\<lparr>has_bits := has_bits m OR 0x8, response_field := value\<rparr>"

definition mutable_response :: "(byte list \<Rightarrow> byte list) \<Rightarrow> 'u RpcMetaMessage \<Rightarrow> 'u RpcMetaMessage" where
  "mutable_response f m = m\<lparr>has_bits := has_bits m OR 0x8, response_field := f (response_field m)\<rparr>"

definition release_response :: "'u RpcMetaMessage \<Rightarrow> byte list option \<times> 'u RpcMetaMessage" where
  "release_response m =
     (if \<not> internal_has_response m then (None, m)
      else (Some (response_field m), m\<lparr>has_bits := has_bits m AND NOT 0x8, response_field := []\<rparr>))"

definition set_allocated_response :: "byte list option \<Rightarrow> 'u RpcMetaMessage \<Rightarrow> 'u RpcMetaMessage" where
  "set_allocated_response value m =
     (case value of
        Some v \<Rightarrow> m\<lparr>has_bits := has_bits m OR 0x8, response_field := v\<rparr>
      | None \<Rightarrow> m\<lparr>has_bits := has_bits m AND NOT 0x8, response_field := []\<rparr>)"

section \<open>Clear, copy, merge, swap\<close>

text \<open>An \<^verbatim>\<open>if\<close> statement without \<^verbatim>\<open>else\<close>.\<close>

definition when_do :: "bool \<Rightarrow> ('a \<Rightarrow> 'a) \<Rightarrow> 'a \<Rightarrow> 'a" where
  "when_do b f x = (if b then f x else x)"

definition Clear :: "('u, 'p) pb \<Rightarrow> 'u RpcMetaMessage \<Rightarrow> 'u RpcMetaMessage" where
  "Clear rt m =
     (let c = has_bits m;
          m = when_do (c AND 0xf \<noteq> 0) (\<lambda>m.
                let m = when_do (c AND 0x1 \<noteq> 0) (\<lambda>m. m\<lparr>service_field := []\<rparr>) m;
                    m = when_do (c AND 0x2 \<noteq> 0) (\<lambda>m. m\<lparr>method_field := []\<rparr>) m;
                    m = when_do (c AND 0x4 \<noteq> 0) (\<lambda>m. m\<lparr>request_field := []\<rparr>) m
                in when_do (c AND 0x8 \<noteq> 0) (\<lambda>m. m\<lparr>response_field := []\<rparr>) m) m;
          m = when_do (c AND 0x70 \<noteq> 0) (\<lambda>m. m\<lparr>id_field := 0, error_field := 0, type_field := 1\<rparr>) m
      in m\<lparr>has_bits := 0, unknown_fields := no_fields rt\<rparr>)"

text \<open>The copy constructor: a string field is copied only if it is present.\<close>

definition copy_of :: "('u, 'p) pb \<Rightarrow> 'u RpcMetaMessage \<Rightarrow> 'u RpcMetaMessage" where
  "copy_of rt from =
     \<lparr>has_bits = has_bits from, unknown_fields = merge_fields rt (no_fields rt) (unknown_fields from),
      cached_size = 0,
      service_field = (if internal_has_service from then service_field from else []),
      method_field = (if internal_has_method from then method_field from else []),
      request_field = (if internal_has_request from then request_field from else []),
      response_field = (if internal_has_response from then response_field from else []),
      id_field = id_field from, error_field = error_field from, type_field = type_field from\<rparr>"

text \<open>\<open>MergeFrom rt m from\<close> for two different objects (the code checks that they are).\<close>

definition MergeFrom ::
  "('u, 'p) pb \<Rightarrow> 'u RpcMetaMessage \<Rightarrow> 'u RpcMetaMessage \<Rightarrow> 'u RpcMetaMessage" where
  "MergeFrom rt m from =
     (let c = has_bits from;
          m = when_do (c AND 0x7f \<noteq> 0) (\<lambda>m.
                let m = when_do (c AND 0x1 \<noteq> 0) (set_service (service_field from)) m;
                    m = when_do (c AND 0x2 \<noteq> 0) (set_method (method_field from)) m;
                    m = when_do (c AND 0x4 \<noteq> 0) (set_request (request_field from)) m;
                    m = when_do (c AND 0x8 \<noteq> 0) (set_response (response_field from)) m;
                    m = when_do (c AND 0x10 \<noteq> 0) (\<lambda>m. m\<lparr>id_field := id_field from\<rparr>) m;
                    m = when_do (c AND 0x20 \<noteq> 0) (\<lambda>m. m\<lparr>error_field := error_field from\<rparr>) m;
                    m = when_do (c AND 0x40 \<noteq> 0) (\<lambda>m. m\<lparr>type_field := type_field from\<rparr>) m
                in m\<lparr>has_bits := has_bits m OR c\<rparr>) m
      in m\<lparr>unknown_fields := merge_fields rt (unknown_fields m) (unknown_fields from)\<rparr>)"

text \<open>
  The operations of one object that take another work on a store of objects, since both can be the same: \<^verbatim>\<open>MergeFrom\<close> asserts that
  they are not, \<^verbatim>\<open>CopyFrom\<close>, \<^verbatim>\<open>Swap\<close> and the move assignment return at once if they are. All objects are on the same (no) arena.
\<close>

type_synonym 'u messages = "nat \<Rightarrow> 'u RpcMetaMessage"

definition MergeFrom_other :: "('u, 'p) pb \<Rightarrow> nat \<Rightarrow> nat \<Rightarrow> 'u messages \<Rightarrow> 'u messages result" where
  "MergeFrom_other rt this from st =
     (if from = this then Inl Aborted else Inr (st(this := MergeFrom rt (st this) (st from))))"

definition CopyFrom :: "('u, 'p) pb \<Rightarrow> nat \<Rightarrow> nat \<Rightarrow> 'u messages \<Rightarrow> 'u messages result" where
  "CopyFrom rt this from st =
     (if from = this then Inr st
      else MergeFrom_other rt this from (st(this := Clear rt (st this))))"

text \<open>The cached sizes stay where they are.\<close>

definition InternalSwap ::
  "'u RpcMetaMessage \<Rightarrow> 'u RpcMetaMessage \<Rightarrow> 'u RpcMetaMessage \<times> 'u RpcMetaMessage" where
  "InternalSwap m other =
     (other\<lparr>cached_size := cached_size m\<rparr>, m\<lparr>cached_size := cached_size other\<rparr>)"

definition Swap :: "nat \<Rightarrow> nat \<Rightarrow> 'u messages \<Rightarrow> 'u messages" where
  "Swap this other st =
     (if other = this then st
      else let (a, b) = InternalSwap (st this) (st other) in st(this := a, other := b))"

definition move_assign :: "nat \<Rightarrow> nat \<Rightarrow> 'u messages \<Rightarrow> 'u messages" where
  "move_assign this from st =
     (if this = from then st
      else let (a, b) = InternalSwap (st this) (st from) in st(this := a, from := b))"

definition MissingRequiredFields :: "32 word \<Rightarrow> bool" where
  "MissingRequiredFields hb \<longleftrightarrow> (hb AND 0x50) XOR 0x50 \<noteq> 0"

definition IsInitialized :: "'u RpcMetaMessage \<Rightarrow> bool" where
  "IsInitialized m = (if MissingRequiredFields (has_bits m) then False else True)"

section \<open>Size and serialisation\<close>

definition RequiredFieldsByteSizeFallback :: "('u, 'p) pb \<Rightarrow> 'u RpcMetaMessage \<Rightarrow> size_t" where
  "RequiredFieldsByteSizeFallback rt m =
     (let total_size = 0;
          total_size = when_do (internal_has_id m) (\<lambda>t. t + (1 + 8)) total_size
      in when_do (internal_has_type m) (\<lambda>t. t + (1 + EnumSize rt (type_field m))) total_size)"

text \<open>The size, and the message with the size cached in it (cut to \<^verbatim>\<open>int\<close>).\<close>

definition ByteSizeLong :: "('u, 'p) pb \<Rightarrow> 'u RpcMetaMessage \<Rightarrow> size_t \<times> 'u RpcMetaMessage" where
  "ByteSizeLong rt m =
     (let total_size =
            (if (has_bits m AND 0x50) XOR 0x50 = 0 then 0 + (1 + 8) + (1 + EnumSize rt (type_field m))
             else 0 + RequiredFieldsByteSizeFallback rt m);
          c = has_bits m;
          total_size = when_do (c AND 0xf \<noteq> 0) (\<lambda>t.
            let t = when_do (c AND 0x1 \<noteq> 0) (\<lambda>t. t + (1 + StringSize rt (service_field m))) t;
                t = when_do (c AND 0x2 \<noteq> 0) (\<lambda>t. t + (1 + StringSize rt (method_field m))) t;
                t = when_do (c AND 0x4 \<noteq> 0) (\<lambda>t. t + (1 + BytesSize rt (request_field m))) t
            in when_do (c AND 0x8 \<noteq> 0) (\<lambda>t. t + (1 + BytesSize rt (response_field m))) t) total_size;
          total_size = when_do (c AND 0x20 \<noteq> 0) (\<lambda>t. t + (1 + EnumSize rt (error_field m))) total_size;
          total_size = when_do (have_unknown_fields rt (unknown_fields m))
            (\<lambda>t. t + UnknownFieldsSize rt (unknown_fields m)) total_size
      in (total_size, m\<lparr>cached_size := ucast total_size\<rparr>))"

text \<open>The bytes \<^verbatim>\<open>_InternalSerialize\<close> writes from \<^verbatim>\<open>target\<close> on.\<close>

definition InternalSerialize :: "('u, 'p) pb \<Rightarrow> 'u RpcMetaMessage \<Rightarrow> byte list" where
  "InternalSerialize rt m =
     (let c = has_bits m;
          target = [];
          target = target @ (if c AND 0x40 \<noteq> 0 then WriteEnumToArray rt 1 (type_field m) else []);
          target = target @ (if c AND 0x10 \<noteq> 0 then WriteFixed64ToArray rt 2 (id_field m) else []);
          target = target @ (if c AND 0x1 \<noteq> 0 then WriteString rt 3 (service_field m) else []);
          target = target @ (if c AND 0x2 \<noteq> 0 then WriteString rt 4 (method_field m) else []);
          target = target @ (if c AND 0x4 \<noteq> 0 then WriteBytes rt 5 (request_field m) else []);
          target = target @ (if c AND 0x8 \<noteq> 0 then WriteBytes rt 6 (response_field m) else []);
          target = target @ (if c AND 0x20 \<noteq> 0 then WriteEnumToArray rt 7 (error_field m) else [])
      in target @ (if have_unknown_fields rt (unknown_fields m)
                   then UnknownFieldsToArray rt (unknown_fields m) else []))"

section \<open>Parsing\<close>

text \<open>
  The loop of \<^verbatim>\<open>_InternalParse\<close>. One field leads either to the next round or to \<^verbatim>\<open>message_done\<close>
  with the final pointer (none after a failed \<^verbatim>\<open>CHK_\<close>). The presence of the identifier is
  collected in a local word that is or-ed into the message at the end.
\<close>

datatype ('u, 'p) parse_flow =
    Continue 'p "32 word" "'u RpcMetaMessage"
  | MessageDone "'p option" "32 word" "'u RpcMetaMessage"

definition handle_unusual ::
  "('u, 'p) pb \<Rightarrow> 32 word \<Rightarrow> 'p \<Rightarrow> 32 word \<Rightarrow> 'u RpcMetaMessage \<Rightarrow> ('u, 'p) parse_flow" where
  "handle_unusual rt tg ptr hb m =
     (if tg = 0 \<or> tg AND 7 = 4 then MessageDone (Some (SetLastTag rt tg ptr)) hb m
      else case UnknownFieldParse rt tg (unknown_fields m) ptr of
             (u, Some ptr') \<Rightarrow> Continue ptr' hb (m\<lparr>unknown_fields := u\<rparr>)
           | (u, None) \<Rightarrow> MessageDone None hb (m\<lparr>unknown_fields := u\<rparr>))"

text \<open>
  An enumeration field: the varint is cut to \<^verbatim>\<open>int\<close> before it is checked and stored; a value the
  enumeration does not have goes to the unknown fields uncut.
\<close>

definition parse_enum ::
  "('u, 'p) pb \<Rightarrow> nat \<Rightarrow> (int32 \<Rightarrow> bool) \<Rightarrow> (int32 \<Rightarrow> 'u RpcMetaMessage \<Rightarrow> 'u RpcMetaMessage)
    \<Rightarrow> 'p \<Rightarrow> 32 word \<Rightarrow> 'u RpcMetaMessage \<Rightarrow> ('u, 'p) parse_flow" where
  "parse_enum rt field valid put ptr hb m =
     (case ReadVarint64 rt ptr of
        None \<Rightarrow> MessageDone None hb m
      | Some (val, ptr') \<Rightarrow>
          if valid (ucast val) then Continue ptr' hb (put (ucast val) m)
          else Continue ptr' hb (m\<lparr>unknown_fields := WriteVarint rt field val (unknown_fields m)\<rparr>))"

definition parse_string ::
  "('u, 'p) pb \<Rightarrow> (byte list \<Rightarrow> 'u RpcMetaMessage \<Rightarrow> 'u RpcMetaMessage)
    \<Rightarrow> 'p \<Rightarrow> 32 word \<Rightarrow> 'u RpcMetaMessage \<Rightarrow> ('u, 'p) parse_flow" where
  "parse_string rt put ptr hb m =
     (case ReadString rt ptr of
        (s, Some ptr') \<Rightarrow> Continue ptr' hb (put s m)
      | (s, None) \<Rightarrow> MessageDone None hb (put s m))"

definition parse_field ::
  "('u, 'p) pb \<Rightarrow> 32 word \<Rightarrow> 'p \<Rightarrow> 32 word \<Rightarrow> 'u RpcMetaMessage \<Rightarrow> ('u, 'p) parse_flow" where
  "parse_field rt tg ptr hb m =
     (let field = drop_bit 3 tg; low = (ucast tg :: byte)
      in if field = 1 \<and> low = 8 then parse_enum rt 1 MessageType_IsValid put_type ptr hb m
         else if field = 2 \<and> low = 17 then
           (case LoadUint64 rt ptr of (v, ptr') \<Rightarrow> Continue ptr' (hb OR 0x10) (m\<lparr>id_field := v\<rparr>))
         else if field = 3 \<and> low = 26 then parse_string rt set_service ptr hb m
         else if field = 4 \<and> low = 34 then parse_string rt set_method ptr hb m
         else if field = 5 \<and> low = 42 then parse_string rt set_request ptr hb m
         else if field = 6 \<and> low = 50 then parse_string rt set_response ptr hb m
         else if field = 7 \<and> low = 56 then parse_enum rt 7 ErrorCode_IsValid put_error ptr hb m
         else handle_unusual rt tg ptr hb m)"

partial_function (option) parse_loop ::
  "('u, 'p) pb \<Rightarrow> 'p \<Rightarrow> 32 word \<Rightarrow> 'u RpcMetaMessage \<Rightarrow> (32 word \<times> 'u RpcMetaMessage \<times> 'p option) option"
where
  "parse_loop rt ptr hb m =
     (case Done rt ptr of
        Inl final \<Rightarrow> Some (hb, m, final)
      | Inr ptr1 \<Rightarrow>
          (case ReadTag rt ptr1 of
             None \<Rightarrow> Some (hb, m, None)
           | Some (tg, ptr2) \<Rightarrow>
               (case parse_field rt tg ptr2 hb m of
                  Continue ptr3 hb' m' \<Rightarrow> parse_loop rt ptr3 hb' m'
                | MessageDone final hb' m' \<Rightarrow> Some (hb', m', final))))"

definition InternalParse ::
  "('u, 'p) pb \<Rightarrow> 'p \<Rightarrow> 'u RpcMetaMessage \<Rightarrow> ('u RpcMetaMessage \<times> 'p option) option" where
  "InternalParse rt ptr m =
     map_option (\<lambda>(hb, m', final). (m'\<lparr>has_bits := has_bits m' OR hb\<rparr>, final)) (parse_loop rt ptr 0 m)"

text \<open>
  The library's \<^verbatim>\<open>MessageLite::ParseFromArray\<close> around it, as documented: clear the message, parse, and
  succeed if the parse consumed the whole input and every required field is set. The outer
  option is whether it returns at all.
\<close>

definition message_from_array ::
  "('u, 'p) pb \<Rightarrow> byte list \<Rightarrow> 'u RpcMetaMessage \<Rightarrow> 'u RpcMetaMessage option option" where
  "message_from_array rt data m =
     map_option (\<lambda>(m', final). case final of
         Some ptr \<Rightarrow> if parse_ended rt ptr \<and> IsInitialized m' then Some m' else None
       | None \<Rightarrow> None)
       (InternalParse rt (parse_begin rt data) (Clear rt m))"

section \<open>Presence bits\<close>

text \<open>Every test of a presence mask is a test of single bits.\<close>

lemma mask_bits:
  fixes w :: "32 word"
  shows "w AND 0x1 = 0 \<longleftrightarrow> \<not> bit w 0" "w AND 0x2 = 0 \<longleftrightarrow> \<not> bit w 1" "w AND 0x4 = 0 \<longleftrightarrow> \<not> bit w 2"
    "w AND 0x8 = 0 \<longleftrightarrow> \<not> bit w 3" "w AND 0x10 = 0 \<longleftrightarrow> \<not> bit w 4" "w AND 0x20 = 0 \<longleftrightarrow> \<not> bit w 5"
    "w AND 0x40 = 0 \<longleftrightarrow> \<not> bit w 6"
  using and_exp_eq_0_iff_not_bit [of w 0] and_exp_eq_0_iff_not_bit [of w 1]
    and_exp_eq_0_iff_not_bit [of w 2] and_exp_eq_0_iff_not_bit [of w 3]
    and_exp_eq_0_iff_not_bit [of w 4] and_exp_eq_0_iff_not_bit [of w 5]
    and_exp_eq_0_iff_not_bit [of w 6]
  by simp_all

lemma and_or_eq_0: "w AND (x OR y) = 0 \<longleftrightarrow> w AND x = 0 \<and> w AND y = (0 :: 32 word)"
  by (simp add: bit.conj_disj_distrib or_eq_0_iff)

lemma group_bits:
  fixes w :: "32 word"
  shows "w AND 0xf = 0 \<longleftrightarrow> \<not> bit w 0 \<and> \<not> bit w 1 \<and> \<not> bit w 2 \<and> \<not> bit w 3"
    and "w AND 0x70 = 0 \<longleftrightarrow> \<not> bit w 4 \<and> \<not> bit w 5 \<and> \<not> bit w 6"
    and "w AND 0x7f = 0 \<longleftrightarrow> \<not> bit w 0 \<and> \<not> bit w 1 \<and> \<not> bit w 2 \<and> \<not> bit w 3 \<and> \<not> bit w 4
           \<and> \<not> bit w 5 \<and> \<not> bit w 6"
    and "(w AND 0x50) XOR 0x50 = 0 \<longleftrightarrow> bit w 4 \<and> bit w 6"
proof -
  have f: "(0xf :: 32 word) = 0x1 OR (0x2 OR (0x4 OR 0x8))" "(0x70 :: 32 word) = 0x10 OR (0x20 OR 0x40)"
    "(0x7f :: 32 word) = 0xf OR 0x70" "(0x50 :: 32 word) = 0x10 OR 0x40"
    by simp_all
  show l: "w AND 0xf = 0 \<longleftrightarrow> \<not> bit w 0 \<and> \<not> bit w 1 \<and> \<not> bit w 2 \<and> \<not> bit w 3"
    unfolding f and_or_eq_0 mask_bits ..
  show h: "w AND 0x70 = 0 \<longleftrightarrow> \<not> bit w 4 \<and> \<not> bit w 5 \<and> \<not> bit w 6"
    unfolding f and_or_eq_0 mask_bits ..
  show "w AND 0x7f = 0 \<longleftrightarrow> \<not> bit w 0 \<and> \<not> bit w 1 \<and> \<not> bit w 2 \<and> \<not> bit w 3 \<and> \<not> bit w 4
      \<and> \<not> bit w 5 \<and> \<not> bit w 6"
    unfolding f(3) and_or_eq_0 l h by blast
  have "(w AND 0x50) XOR 0x50 = NOT w AND 0x50"
    by (rule bit_word_eqI) (auto simp: bit_simps)
  then have "(w AND 0x50) XOR 0x50 = 0 \<longleftrightarrow> NOT w AND (0x10 OR 0x40) = 0"
    by (simp only: f(4))
  then show "(w AND 0x50) XOR 0x50 = 0 \<longleftrightarrow> bit w 4 \<and> bit w 6"
    unfolding and_or_eq_0 mask_bits by (simp add: bit_not_iff)
qed

lemma powers: "(2 :: 32 word) ^ 0 = 0x1" "(2 :: 32 word) ^ 1 = 0x2" "(2 :: 32 word) ^ 2 = 0x4"
    "(2 :: 32 word) ^ 3 = 0x8" "(2 :: 32 word) ^ 4 = 0x10" "(2 :: 32 word) ^ 5 = 0x20"
    "(2 :: 32 word) ^ 6 = 0x40"
  by simp_all

lemma bit_or_power: "k < 32 \<Longrightarrow> bit (w OR 2 ^ k :: 32 word) n \<longleftrightarrow> bit w n \<or> n = k"
  by (auto simp: bit_or_iff bit_exp_iff)

lemma bit_and_power: "k < 32 \<Longrightarrow> bit (w AND NOT (2 ^ k) :: 32 word) n \<longleftrightarrow> bit w n \<and> n \<noteq> k"
  by (auto simp: bit_and_iff bit_not_iff bit_exp_iff dest: bit_imp_le_length)

lemma bits_of_or [simp]:
  fixes w :: "32 word"
  shows "bit (w OR 0x1) n \<longleftrightarrow> bit w n \<or> n = 0" "bit (w OR 0x2) n \<longleftrightarrow> bit w n \<or> n = 1"
    "bit (w OR 0x4) n \<longleftrightarrow> bit w n \<or> n = 2" "bit (w OR 0x8) n \<longleftrightarrow> bit w n \<or> n = 3"
    "bit (w OR 0x10) n \<longleftrightarrow> bit w n \<or> n = 4" "bit (w OR 0x20) n \<longleftrightarrow> bit w n \<or> n = 5"
    "bit (w OR 0x40) n \<longleftrightarrow> bit w n \<or> n = 6"
  by (rule bit_or_power [of 0, unfolded powers], simp,
    rule bit_or_power [of 1, unfolded powers], simp,
    rule bit_or_power [of 2, unfolded powers], simp,
    rule bit_or_power [of 3, unfolded powers], simp,
    rule bit_or_power [of 4, unfolded powers], simp,
    rule bit_or_power [of 5, unfolded powers], simp,
    rule bit_or_power [of 6, unfolded powers], simp)

lemma bits_of_and_not:
  fixes w :: "32 word"
  shows "bit (w AND NOT 0x1) n \<longleftrightarrow> bit w n \<and> n \<noteq> 0" "bit (w AND NOT 0x2) n \<longleftrightarrow> bit w n \<and> n \<noteq> 1"
    "bit (w AND NOT 0x4) n \<longleftrightarrow> bit w n \<and> n \<noteq> 2" "bit (w AND NOT 0x8) n \<longleftrightarrow> bit w n \<and> n \<noteq> 3"
    "bit (w AND NOT 0x10) n \<longleftrightarrow> bit w n \<and> n \<noteq> 4" "bit (w AND NOT 0x20) n \<longleftrightarrow> bit w n \<and> n \<noteq> 5"
    "bit (w AND NOT 0x40) n \<longleftrightarrow> bit w n \<and> n \<noteq> 6"
  by (rule bit_and_power [of 0, unfolded powers], simp,
    rule bit_and_power [of 1, unfolded powers], simp,
    rule bit_and_power [of 2, unfolded powers], simp,
    rule bit_and_power [of 3, unfolded powers], simp,
    rule bit_and_power [of 4, unfolded powers], simp,
    rule bit_and_power [of 5, unfolded powers], simp,
    rule bit_and_power [of 6, unfolded powers], simp)

lemmas bits_of_and_neg [simp] = bits_of_and_not [simplified]

section \<open>The message as a set of optional fields\<close>

text \<open>
  What the protocol means by a message: each field is there with a value or absent. The class
  keeps presence and value apart, so the link needs an invariant: only the seven presence bits are
  used, absent fields hold their defaults, enumerations hold enumerators.
\<close>

lemmas presence_defs = internal_has_type_def internal_has_id_def internal_has_error_def
  internal_has_service_def internal_has_method_def internal_has_request_def
  internal_has_response_def has_type_def has_id_def has_error_def has_service_def has_method_def
  has_request_def has_response_def

lemmas scalar_defs = clear_type_def get_type_def put_type_def set_type_def clear_id_def get_id_def
  set_id_def clear_error_def get_error_def put_error_def set_error_def

lemmas string_defs =
  clear_service_def get_service_def set_service_def mutable_service_def release_service_def
  set_allocated_service_def clear_method_def get_method_def set_method_def mutable_method_def
  release_method_def set_allocated_method_def clear_request_def get_request_def set_request_def
  mutable_request_def release_request_def set_allocated_request_def clear_response_def
  get_response_def set_response_def mutable_response_def release_response_def
  set_allocated_response_def

definition msg_ok :: "'u RpcMetaMessage \<Rightarrow> bool" where
  "msg_ok m \<longleftrightarrow> drop_bit 7 (has_bits m) = 0
     \<and> (has_type m \<or> type_field m = 1) \<and> (has_id m \<or> id_field m = 0) \<and> (has_error m \<or> error_field m = 0)
     \<and> (has_service m \<or> service_field m = []) \<and> (has_method m \<or> method_field m = [])
     \<and> (has_request m \<or> request_field m = []) \<and> (has_response m \<or> response_field m = [])
     \<and> MessageType_IsValid (type_field m) \<and> ErrorCode_IsValid (error_field m)"

record 'u meta_spec =
  a_type :: "int32 option"
  a_id :: "64 word option"
  a_service :: "byte list option"
  a_method :: "byte list option"
  a_request :: "byte list option"
  a_response :: "byte list option"
  a_error :: "int32 option"
  a_unknown :: 'u

definition abs_msg :: "'u RpcMetaMessage \<Rightarrow> 'u meta_spec" where
  "abs_msg m =
     \<lparr>a_type = (if has_type m then Some (type_field m) else None),
      a_id = (if has_id m then Some (id_field m) else None),
      a_service = (if has_service m then Some (service_field m) else None),
      a_method = (if has_method m then Some (method_field m) else None),
      a_request = (if has_request m then Some (request_field m) else None),
      a_response = (if has_response m then Some (response_field m) else None),
      a_error = (if has_error m then Some (error_field m) else None),
      a_unknown = unknown_fields m\<rparr>"

datatype string_field = FService | FMethod | FRequest | FResponse

text \<open>
  The operations of one object, and those of the store; the output is what the operation returns. A message constructed at an
  address is a new object there.
\<close>

datatype msg_op =
    HasType | GetType | SetType int32 | ClearType
  | HasId | GetId | SetId "64 word" | ClearId
  | HasError | GetError | SetError int32 | ClearError
  | HasString string_field
  | GetString string_field
  | SetString string_field "byte list"
  | ClearString string_field
  | MutableString string_field "byte list \<Rightarrow> byte list"
  | ReleaseString string_field
  | SetAllocated string_field "byte list option"
  | ClearAll
  | AskInitialized

datatype messages_op =
    OfMessage nat msg_op
  | MergeOp nat nat
  | CopyOp nat nat
  | SwapOp nat nat
  | MoveOp nat nat
  | Construct nat
  | CopyConstruct nat nat

datatype msg_out = NoValue | Flag bool | EnumValue int32 | IdValue "64 word" | StringValue "byte list"
  | ReleasedString "byte list option"

fun by_field :: "string_field \<Rightarrow> 'a \<Rightarrow> 'a \<Rightarrow> 'a \<Rightarrow> 'a \<Rightarrow> 'a" where
  "by_field FService a b c d = a"
| "by_field FMethod a b c d = b"
| "by_field FRequest a b c d = c"
| "by_field FResponse a b c d = d"

fun msg_step :: "('u, 'p) pb \<Rightarrow> 'u RpcMetaMessage \<Rightarrow> msg_op \<Rightarrow> (msg_out \<times> 'u RpcMetaMessage) result" where
  "msg_step rt m HasType = Inr (Flag (has_type m), m)"
| "msg_step rt m GetType = Inr (EnumValue (get_type m), m)"
| "msg_step rt m (SetType v) = andThen (set_type v m) (\<lambda>m'. Inr (NoValue, m'))"
| "msg_step rt m ClearType = Inr (NoValue, clear_type m)"
| "msg_step rt m HasId = Inr (Flag (has_id m), m)"
| "msg_step rt m GetId = Inr (IdValue (get_id m), m)"
| "msg_step rt m (SetId v) = Inr (NoValue, set_id v m)"
| "msg_step rt m ClearId = Inr (NoValue, clear_id m)"
| "msg_step rt m HasError = Inr (Flag (has_error m), m)"
| "msg_step rt m GetError = Inr (EnumValue (get_error m), m)"
| "msg_step rt m (SetError v) = andThen (set_error v m) (\<lambda>m'. Inr (NoValue, m'))"
| "msg_step rt m ClearError = Inr (NoValue, clear_error m)"
| "msg_step rt m (HasString f) = Inr (Flag (by_field f has_service has_method has_request has_response m), m)"
| "msg_step rt m (GetString f) = Inr (StringValue (by_field f get_service get_method get_request get_response m), m)"
| "msg_step rt m (SetString f v) =
     Inr (NoValue, by_field f set_service set_method set_request set_response v m)"
| "msg_step rt m (ClearString f) =
     Inr (NoValue, by_field f clear_service clear_method clear_request clear_response m)"
| "msg_step rt m (MutableString f g) =
     Inr (NoValue, by_field f mutable_service mutable_method mutable_request mutable_response g m)"
| "msg_step rt m (ReleaseString f) =
     (let (v, m') = by_field f release_service release_method release_request release_response m
      in Inr (ReleasedString v, m'))"
| "msg_step rt m (SetAllocated f v) =
     Inr (NoValue, by_field f set_allocated_service set_allocated_method set_allocated_request
            set_allocated_response v m)"
| "msg_step rt m ClearAll = Inr (NoValue, Clear rt m)"
| "msg_step rt m AskInitialized = Inr (Flag (IsInitialized m), m)"

fun messages_step :: "('u, 'p) pb \<Rightarrow> 'u messages \<Rightarrow> messages_op \<Rightarrow> (msg_out \<times> 'u messages) result" where
  "messages_step rt st (OfMessage i op) = andThen (msg_step rt (st i) op) (\<lambda>(out, m). Inr (out, st(i := m)))"
| "messages_step rt st (MergeOp i j) = andThen (MergeFrom_other rt i j st) (\<lambda>st'. Inr (NoValue, st'))"
| "messages_step rt st (CopyOp i j) = andThen (CopyFrom rt i j st) (\<lambda>st'. Inr (NoValue, st'))"
| "messages_step rt st (SwapOp i j) = Inr (NoValue, Swap i j st)"
| "messages_step rt st (MoveOp i j) = Inr (NoValue, move_assign i j st)"
| "messages_step rt st (Construct i) = Inr (NoValue, st(i := SharedCtor rt))"
| "messages_step rt st (CopyConstruct i j) = Inr (NoValue, st(i := copy_of rt (st j)))"

text \<open>The same operations on optional fields; merging prefers what the other message has.\<close>

definition newer :: "'a option \<Rightarrow> 'a option \<Rightarrow> 'a option" where
  "newer new old = (case new of None \<Rightarrow> old | Some v \<Rightarrow> Some v)"

definition merge_spec :: "('u, 'p) pb \<Rightarrow> 'u meta_spec \<Rightarrow> 'u meta_spec \<Rightarrow> 'u meta_spec" where
  "merge_spec rt a new =
     \<lparr>a_type = newer (a_type new) (a_type a), a_id = newer (a_id new) (a_id a),
      a_service = newer (a_service new) (a_service a), a_method = newer (a_method new) (a_method a),
      a_request = newer (a_request new) (a_request a),
      a_response = newer (a_response new) (a_response a), a_error = newer (a_error new) (a_error a),
      a_unknown = merge_fields rt (a_unknown a) (a_unknown new)\<rparr>"

definition empty_spec :: "('u, 'p) pb \<Rightarrow> 'u meta_spec" where
  "empty_spec rt = \<lparr>a_type = None, a_id = None, a_service = None, a_method = None,
     a_request = None, a_response = None, a_error = None, a_unknown = no_fields rt\<rparr>"

fun put_field :: "string_field \<Rightarrow> byte list option \<Rightarrow> 'u meta_spec \<Rightarrow> 'u meta_spec" where
  "put_field FService v a = a\<lparr>a_service := v\<rparr>"
| "put_field FMethod v a = a\<lparr>a_method := v\<rparr>"
| "put_field FRequest v a = a\<lparr>a_request := v\<rparr>"
| "put_field FResponse v a = a\<lparr>a_response := v\<rparr>"

fun field_of :: "string_field \<Rightarrow> 'u meta_spec \<Rightarrow> byte list option" where
  "field_of f a = by_field f (a_service a) (a_method a) (a_request a) (a_response a)"

definition or_default :: "'a \<Rightarrow> 'a option \<Rightarrow> 'a" where
  "or_default d v = (case v of None \<Rightarrow> d | Some x \<Rightarrow> x)"

fun msg_spec :: "('u, 'p) pb \<Rightarrow> 'u meta_spec \<Rightarrow> msg_op \<Rightarrow> (msg_out \<times> 'u meta_spec) result" where
  "msg_spec rt a HasType = Inr (Flag (a_type a \<noteq> None), a)"
| "msg_spec rt a GetType = Inr (EnumValue (or_default REQUEST (a_type a)), a)"
| "msg_spec rt a (SetType v) =
     (if MessageType_IsValid v then Inr (NoValue, a\<lparr>a_type := Some v\<rparr>) else Inl Aborted)"
| "msg_spec rt a ClearType = Inr (NoValue, a\<lparr>a_type := None\<rparr>)"
| "msg_spec rt a HasId = Inr (Flag (a_id a \<noteq> None), a)"
| "msg_spec rt a GetId = Inr (IdValue (or_default 0 (a_id a)), a)"
| "msg_spec rt a (SetId v) = Inr (NoValue, a\<lparr>a_id := Some v\<rparr>)"
| "msg_spec rt a ClearId = Inr (NoValue, a\<lparr>a_id := None\<rparr>)"
| "msg_spec rt a HasError = Inr (Flag (a_error a \<noteq> None), a)"
| "msg_spec rt a GetError = Inr (EnumValue (or_default NO_ERROR (a_error a)), a)"
| "msg_spec rt a (SetError v) =
     (if ErrorCode_IsValid v then Inr (NoValue, a\<lparr>a_error := Some v\<rparr>) else Inl Aborted)"
| "msg_spec rt a ClearError = Inr (NoValue, a\<lparr>a_error := None\<rparr>)"
| "msg_spec rt a (HasString f) = Inr (Flag (field_of f a \<noteq> None), a)"
| "msg_spec rt a (GetString f) = Inr (StringValue (or_default [] (field_of f a)), a)"
| "msg_spec rt a (SetString f v) = Inr (NoValue, put_field f (Some v) a)"
| "msg_spec rt a (ClearString f) = Inr (NoValue, put_field f None a)"
| "msg_spec rt a (MutableString f g) = Inr (NoValue, put_field f (Some (g (or_default [] (field_of f a)))) a)"
| "msg_spec rt a (ReleaseString f) = Inr (ReleasedString (field_of f a), put_field f None a)"
| "msg_spec rt a (SetAllocated f v) = Inr (NoValue, put_field f v a)"
| "msg_spec rt a ClearAll = Inr (NoValue, empty_spec rt)"
| "msg_spec rt a AskInitialized = Inr (Flag (a_type a \<noteq> None \<and> a_id a \<noteq> None), a)"

text \<open>Copies merge the unknown fields into none.\<close>

definition copied :: "('u, 'p) pb \<Rightarrow> 'u meta_spec \<Rightarrow> 'u meta_spec" where
  "copied rt a = a\<lparr>a_unknown := merge_fields rt (no_fields rt) (a_unknown a)\<rparr>"

fun messages_spec ::
  "('u, 'p) pb \<Rightarrow> (nat \<Rightarrow> 'u meta_spec) \<Rightarrow> messages_op \<Rightarrow> (msg_out \<times> (nat \<Rightarrow> 'u meta_spec)) result" where
  "messages_spec rt as (OfMessage i op) = andThen (msg_spec rt (as i) op) (\<lambda>(out, a). Inr (out, as(i := a)))"
| "messages_spec rt as (MergeOp i j) =
     (if i = j then Inl Aborted else Inr (NoValue, as(i := merge_spec rt (as i) (as j))))"
| "messages_spec rt as (CopyOp i j) = Inr (NoValue, if i = j then as else as(i := copied rt (as j)))"
| "messages_spec rt as (SwapOp i j) = Inr (NoValue, as(i := as j, j := as i))"
| "messages_spec rt as (MoveOp i j) = Inr (NoValue, as(i := as j, j := as i))"
| "messages_spec rt as (Construct i) = Inr (NoValue, as(i := empty_spec rt))"
| "messages_spec rt as (CopyConstruct i j) = Inr (NoValue, as(i := copied rt (as j)))"

lemma high_bits: "drop_bit 7 w = 0 \<longleftrightarrow> (\<forall>n. bit (w :: 32 word) n \<longrightarrow> n < 7)"
proof
  assume *: "drop_bit 7 w = 0"
  show "\<forall>n. bit w n \<longrightarrow> n < 7"
  proof (intro allI impI)
    fix n assume "bit w n"
    show "n < 7"
    proof (rule ccontr)
      assume "\<not> n < 7"
      then obtain k where "n = 7 + k" by (metis le_Suc_ex not_less)
      with \<open>bit w n\<close> have "bit (drop_bit 7 w) k" by (simp add: bit_drop_bit_eq)
      with * show False by simp
    qed
  qed
next
  assume "\<forall>n. bit w n \<longrightarrow> n < 7"
  then show "drop_bit 7 w = 0"
    by (intro bit_word_eqI) (auto simp: bit_drop_bit_eq)
qed

lemma enum_valid [simp]:
  "MessageType_IsValid 1" "MessageType_IsValid REQUEST" "MessageType_IsValid RESPONSE"
  "MessageType_IsValid ERROR" "ErrorCode_IsValid 0"
  by (simp_all add: MessageType_IsValid_def ErrorCode_IsValid_def enum_defs)

lemma presence_bits:
  "has_type m \<longleftrightarrow> bit (has_bits m) 6" "has_id m \<longleftrightarrow> bit (has_bits m) 4"
  "has_error m \<longleftrightarrow> bit (has_bits m) 5" "has_service m \<longleftrightarrow> bit (has_bits m) 0"
  "has_method m \<longleftrightarrow> bit (has_bits m) 1" "has_request m \<longleftrightarrow> bit (has_bits m) 2"
  "has_response m \<longleftrightarrow> bit (has_bits m) 3" "internal_has_type m \<longleftrightarrow> bit (has_bits m) 6"
  "internal_has_id m \<longleftrightarrow> bit (has_bits m) 4" "internal_has_service m \<longleftrightarrow> bit (has_bits m) 0"
  "internal_has_method m \<longleftrightarrow> bit (has_bits m) 1" "internal_has_request m \<longleftrightarrow> bit (has_bits m) 2"
  "internal_has_response m \<longleftrightarrow> bit (has_bits m) 3" "internal_has_error m \<longleftrightarrow> bit (has_bits m) 5"
  by (simp_all add: presence_defs mask_bits)

lemma IsInitialized_iff: "IsInitialized m \<longleftrightarrow> has_type m \<and> has_id m"
  by (auto simp: IsInitialized_def MissingRequiredFields_def group_bits presence_bits)

lemma msg_okD:
  assumes "msg_ok m"
  shows "has_service m \<or> service_field m = []" "has_method m \<or> method_field m = []"
    "has_request m \<or> request_field m = []" "has_response m \<or> response_field m = []"
    "has_id m \<or> id_field m = 0" "has_error m \<or> error_field m = 0" "has_type m \<or> type_field m = 1"
  using assms by (simp_all add: msg_ok_def)

text \<open>An absent field reads as its default, so reading it through its presence changes nothing.\<close>

lemma absent_default:
  assumes "msg_ok m"
  shows "(if has_service m then service_field m else []) = service_field m"
    "(if has_method m then method_field m else []) = method_field m"
    "(if has_request m then request_field m else []) = request_field m"
    "(if has_response m then response_field m else []) = response_field m"
    "(if has_id m then id_field m else 0) = id_field m"
    "(if has_error m then error_field m else 0) = error_field m"
    "(if has_type m then type_field m else 1) = type_field m"
  using msg_okD [OF assms] by metis+

lemmas msg_defs = msg_ok_def abs_msg_def presence_bits mask_bits group_bits high_bits

lemma when_do_sel:
  "has_bits (when_do b f m) = (if b then has_bits (f m) else has_bits m)"
  "unknown_fields (when_do b f m) = (if b then unknown_fields (f m) else unknown_fields m)"
  "cached_size (when_do b f m) = (if b then cached_size (f m) else cached_size m)"
  "service_field (when_do b f m) = (if b then service_field (f m) else service_field m)"
  "method_field (when_do b f m) = (if b then method_field (f m) else method_field m)"
  "request_field (when_do b f m) = (if b then request_field (f m) else request_field m)"
  "response_field (when_do b f m) = (if b then response_field (f m) else response_field m)"
  "id_field (when_do b f m) = (if b then id_field (f m) else id_field m)"
  "error_field (when_do b f m) = (if b then error_field (f m) else error_field m)"
  "type_field (when_do b f m) = (if b then type_field (f m) else type_field m)"
  by (simp_all add: when_do_def)

lemma Clear_fields:
  assumes "msg_ok m"
  shows "Clear rt m = (SharedCtor rt)\<lparr>cached_size := cached_size m\<rparr>"
  using assms
  by (intro RpcMetaMessage.equality)
    (simp_all add: Clear_def SharedCtor_def Let_def when_do_sel, auto simp: msg_defs)

lemma SharedCtor_ok: "msg_ok (SharedCtor rt)" "abs_msg (SharedCtor rt) = empty_spec rt"
  by (simp_all add: msg_defs SharedCtor_def empty_spec_def)

lemma abs_cached_size [simp]:
  "abs_msg (m\<lparr>cached_size := c\<rparr>) = abs_msg m" "msg_ok (m\<lparr>cached_size := c\<rparr>) = msg_ok m"
  by (simp_all add: abs_msg_def msg_ok_def presence_bits)

lemma Clear_ok: "msg_ok m \<Longrightarrow> msg_ok (Clear rt m) \<and> abs_msg (Clear rt m) = empty_spec rt"
  by (simp add: Clear_fields SharedCtor_ok)

text \<open>Field by field, a merge takes what the other message has.\<close>

lemma MergeFrom_sel:
  fixes m "from" :: "'u RpcMetaMessage"
  shows "service_field (MergeFrom rt m from) = (if has_service from then service_field from else service_field m)"
    and "method_field (MergeFrom rt m from) = (if has_method from then method_field from else method_field m)"
    and "request_field (MergeFrom rt m from) = (if has_request from then request_field from else request_field m)"
    and "response_field (MergeFrom rt m from) = (if has_response from then response_field from else response_field m)"
    and "id_field (MergeFrom rt m from) = (if has_id from then id_field from else id_field m)"
    and "error_field (MergeFrom rt m from) = (if has_error from then error_field from else error_field m)"
    and "type_field (MergeFrom rt m from) = (if has_type from then type_field from else type_field m)"
    and "unknown_fields (MergeFrom rt m from) = merge_fields rt (unknown_fields m) (unknown_fields from)"
  by (simp_all add: MergeFrom_def Let_def when_do_sel set_service_def set_method_def set_request_def
      set_response_def presence_bits mask_bits group_bits)

lemma absorb_present:
  fixes c w :: "32 word"
  shows "bit c 0 \<Longrightarrow> (w OR 0x1) OR c = w OR c" "bit c (Suc 0) \<Longrightarrow> (w OR 0x2) OR c = w OR c"
    "bit c 2 \<Longrightarrow> (w OR 0x4) OR c = w OR c" "bit c 3 \<Longrightarrow> (w OR 0x8) OR c = w OR c"
  by (rule bit_word_eqI, auto simp: bit_or_iff [of _ c])+

lemma no_bits: "drop_bit 7 w = 0 \<Longrightarrow> w AND 0x7f = 0 \<Longrightarrow> w = (0 :: 32 word)"
proof (rule bit_word_eqI)
  fix n :: nat
  assume "drop_bit 7 w = 0" "w AND 0x7f = 0"
  moreover have "n < 7 \<longleftrightarrow> n = 0 \<or> n = 1 \<or> n = 2 \<or> n = 3 \<or> n = 4 \<or> n = 5 \<or> n = 6" by arith
  ultimately show "bit w n = bit 0 n"
    using high_bits [of w] group_bits(3) [of w] by auto
qed

lemma MergeFrom_bits:
  assumes "msg_ok from"
  shows "has_bits (MergeFrom rt m from) = has_bits m OR has_bits from"
proof (cases "has_bits from AND 0x7f = 0")
  case True
  then have "has_bits from = 0"
    using assms by (simp add: no_bits msg_ok_def)
  then show ?thesis
    by (simp add: MergeFrom_def Let_def when_do_def)
next
  case False
  then show ?thesis
    by (simp add: MergeFrom_def Let_def when_do_sel mask_bits absorb_present set_service_def
        set_method_def set_request_def set_response_def)
qed

lemma newer_if:
  "newer (if b then Some x else None) (if b' then Some y else None)
     = (if b' \<or> b then Some (if b then x else y) else None)"
  by (simp add: newer_def)

lemma MergeFrom_abs:
  assumes "msg_ok from"
  shows "abs_msg (MergeFrom rt m from) = merge_spec rt (abs_msg m) (abs_msg from)"
  by (simp add: abs_msg_def merge_spec_def newer_if MergeFrom_sel presence_bits
      MergeFrom_bits [OF assms] bit_or_iff split del: if_split cong: if_cong)

lemma MergeFrom_ok:
  assumes "msg_ok m" "msg_ok from"
  shows "msg_ok (MergeFrom rt m from)"
  using assms
  by (simp add: msg_ok_def MergeFrom_sel presence_bits MergeFrom_bits [OF assms(2)] drop_bit_or bit_or_iff)

lemma high_or_and:
  "drop_bit 7 w = 0 \<Longrightarrow> drop_bit 7 (w AND x :: 32 word) = 0"
  by (simp add: drop_bit_and)

lemma or_default_if [simp]: "or_default d (if b then Some x else None) = (if b then x else d)"
  by (simp add: or_default_def)

lemma or_default_abs:
  assumes "msg_ok m"
  shows "or_default [] (field_of f (abs_msg m))
      = by_field f (service_field m) (method_field m) (request_field m) (response_field m)"
    and "or_default REQUEST (a_type (abs_msg m)) = type_field m" "or_default 0 (a_id (abs_msg m)) = id_field m"
    and "or_default NO_ERROR (a_error (abs_msg m)) = error_field m"
proof -
  show "or_default [] (field_of f (abs_msg m))
      = by_field f (service_field m) (method_field m) (request_field m) (response_field m)"
    using msg_okD [OF assms] by (cases f) (auto simp: abs_msg_def)
qed (use msg_okD [OF assms] in \<open>auto simp: abs_msg_def enum_defs\<close>)

lemma msg_step_refines:
  assumes "msg_ok m"
  shows "case msg_step rt m op of
      Inl e \<Rightarrow> msg_spec rt (abs_msg m) op = Inl e
    | Inr (out, m') \<Rightarrow> msg_ok m' \<and> msg_spec rt (abs_msg m) op = Inr (out, abs_msg m')"
proof (cases op)
  case (SetString f v)
  with assms show ?thesis
    by (cases f) (simp_all add: msg_ok_def abs_msg_def presence_bits string_defs drop_bit_or)
next
  case (ClearString f)
  with assms show ?thesis
    by (cases f) (simp_all add: msg_ok_def abs_msg_def presence_bits string_defs drop_bit_and)
next
  case (MutableString f g)
  with assms show ?thesis
    using or_default_abs(1) [OF assms(1), of f]
    by (cases f) (simp_all add: msg_ok_def abs_msg_def presence_bits string_defs drop_bit_or del: or_default_if)
next
  case (ReleaseString f)
  with assms show ?thesis
    by (cases f) (auto simp add: msg_ok_def abs_msg_def presence_bits string_defs drop_bit_and)
next
  case (SetAllocated f v)
  with assms show ?thesis
    by (cases f; cases v) (simp_all add: msg_ok_def abs_msg_def presence_bits string_defs drop_bit_or drop_bit_and)
next
  case (GetString f)
  with assms or_default_abs(1) [OF assms, of f] show ?thesis by (cases f) (simp_all add: string_defs)
next
  case (HasString f)
  with assms show ?thesis by (cases f) (simp_all add: abs_msg_def)
next
  case AskInitialized
  with assms show ?thesis by (simp add: IsInitialized_iff abs_msg_def)
next
  case ClearAll
  with assms show ?thesis by (simp add: Clear_ok)
next
  case (SetType v)
  with assms show ?thesis
    by (simp add: msg_ok_def abs_msg_def presence_bits scalar_defs drop_bit_or)
next
  case (SetError v)
  with assms show ?thesis
    by (simp add: msg_ok_def abs_msg_def presence_bits scalar_defs drop_bit_or)
next
  case GetType
  with assms or_default_abs(2) show ?thesis by (simp add: get_type_def)
next
  case GetId
  with assms or_default_abs(3) show ?thesis by (simp add: get_id_def)
next
  case GetError
  with assms or_default_abs(4) show ?thesis by (simp add: get_error_def)
next
  case HasType
  with assms show ?thesis by (simp add: abs_msg_def)
next
  case HasId
  with assms show ?thesis by (simp add: abs_msg_def)
next
  case HasError
  with assms show ?thesis by (simp add: abs_msg_def)
qed (use assms in \<open>simp_all add: msg_ok_def abs_msg_def presence_bits scalar_defs drop_bit_or
    drop_bit_and\<close>)

lemma copy_of_ok:
  assumes "msg_ok m"
  shows "msg_ok (copy_of rt m) \<and> abs_msg (copy_of rt m) = copied rt (abs_msg m)"
  using assms by (simp add: copy_of_def msg_ok_def abs_msg_def copied_def presence_bits)

lemma merged_into_empty: "merge_spec rt (empty_spec rt) a = copied rt a"
  by (simp add: merge_spec_def empty_spec_def copied_def newer_def option.case_eq_if)

lemma messages_step_refines:
  assumes ok: "\<forall>i. msg_ok (st i)"
  shows "case messages_step rt st op of
      Inl e \<Rightarrow> messages_spec rt (\<lambda>i. abs_msg (st i)) op = Inl e
    | Inr (out, st') \<Rightarrow> (\<forall>i. msg_ok (st' i))
        \<and> messages_spec rt (\<lambda>i. abs_msg (st i)) op = Inr (out, \<lambda>i. abs_msg (st' i))"
proof (cases op)
  case (OfMessage i mop)
  with msg_step_refines [of "st i" rt mop] ok show ?thesis
    by (auto split: sum.splits prod.splits)
next
  case (MergeOp i j)
  with ok show ?thesis by (auto simp: MergeFrom_other_def MergeFrom_ok MergeFrom_abs)
next
  case (CopyOp i j)
  with ok show ?thesis
    by (auto simp: CopyFrom_def MergeFrom_other_def MergeFrom_ok MergeFrom_abs Clear_ok merged_into_empty)
next
  case (CopyConstruct i j)
  with ok copy_of_ok show ?thesis by (auto simp: fun_eq_iff)
qed (use ok SharedCtor_ok [of rt] in \<open>auto simp: Swap_def move_assign_def InternalSwap_def fun_eq_iff\<close>)

lemma copy_of_abs:
  assumes "msg_ok m" "\<And>u. merge_fields rt (no_fields rt) u = u"
  shows "copy_of rt m = m\<lparr>cached_size := 0\<rparr>"
proof (rule RpcMetaMessage.equality)
  show "service_field (copy_of rt m) = service_field (m\<lparr>cached_size := 0\<rparr>)"
    "method_field (copy_of rt m) = method_field (m\<lparr>cached_size := 0\<rparr>)"
    "request_field (copy_of rt m) = request_field (m\<lparr>cached_size := 0\<rparr>)"
    "response_field (copy_of rt m) = response_field (m\<lparr>cached_size := 0\<rparr>)"
    using absent_default [OF assms(1)]
    by (simp_all add: copy_of_def has_service_def has_method_def has_request_def has_response_def
        split del: if_split)
qed (simp_all add: copy_of_def assms(2))

section \<open>Properties\<close>

text \<open>C11:
  The generated class implements a record of optional fields: each has, get, set, clear, mutable, release and set_allocated
  accessor, \<^verbatim>\<open>Clear\<close>, \<^verbatim>\<open>IsInitialized\<close>, \<^verbatim>\<open>MergeFrom\<close>, \<^verbatim>\<open>CopyFrom\<close>, \<^verbatim>\<open>Swap\<close>, the move assignment and both constructors change
  exactly the fields and objects they should, presence included, return what they should, and keep the
  representation invariant of every object, also when both objects of the operation are the same. It stops with an assertion only for a value outside an enumeration
  and for a merge of an object with itself.
\<close>

theorem message_is_optional_fields:
  assumes "\<forall>i. msg_ok (st i)"
  shows "case messages_step rt st op of
      Inl e \<Rightarrow> messages_spec rt (\<lambda>i. abs_msg (st i)) op = Inl e
    | Inr (out, st') \<Rightarrow> (\<forall>i. msg_ok (st' i))
        \<and> messages_spec rt (\<lambda>i. abs_msg (st i)) op = Inr (out, \<lambda>i. abs_msg (st' i))"
  by (rule messages_step_refines [OF assms])

lemma message_is_optional_fields_witness:
  "\<forall>rt :: (unit, unit) pb. \<exists>st'. messages_step rt ((\<lambda>i. SharedCtor rt)(1 := set_method [7] (SharedCtor rt))) (SwapOp 0 1) = Inr (NoValue, st')
      \<and> a_method (abs_msg (st' 0)) = Some [7] \<and> a_method (abs_msg (st' 1)) = None \<and> msg_ok (st' 0) \<and> msg_ok (st' 1)"
proof
  fix rt :: "(unit, unit) pb"
  define st where "st = (\<lambda>i :: nat. SharedCtor rt)(1 := set_method [7] (SharedCtor rt))"
  have set: "msg_ok (set_method [7] (SharedCtor rt))" "a_method (abs_msg (set_method [7] (SharedCtor rt))) = Some [7]"
    using msg_step_refines [OF SharedCtor_ok(1), of rt rt "SetString FMethod [7]"]
    by (auto simp: SharedCtor_ok dest!: sym [of "empty_spec rt\<lparr>a_method := Some [7]\<rparr>"])
  then have ok: "\<forall>i. msg_ok (st i)" by (simp add: st_def SharedCtor_ok)
  obtain st' where st': "messages_step rt st (SwapOp 0 1) = Inr (NoValue, st')" by simp
  have "(\<forall>i. msg_ok (st' i)) \<and> messages_spec rt (\<lambda>i. abs_msg (st i)) (SwapOp 0 1) = Inr (NoValue, \<lambda>i. abs_msg (st' i))"
    using message_is_optional_fields [OF ok, of rt "SwapOp 0 1"] unfolding st' by (simp del: messages_spec.simps)
  then have "\<forall>i. msg_ok (st' i)"
    "(\<lambda>i. abs_msg (st' i)) = (\<lambda>i. abs_msg (st i))(0 := abs_msg (st 1), 1 := abs_msg (st 0))" by auto
  then have "msg_ok (st' 0)" "msg_ok (st' 1)" "abs_msg (st' 0) = abs_msg (st 1)" "abs_msg (st' 1) = abs_msg (st 0)"
    by (auto simp: fun_eq_iff)
  then show "\<exists>st'. messages_step rt ((\<lambda>i. SharedCtor rt)(1 := set_method [7] (SharedCtor rt))) (SwapOp 0 1) = Inr (NoValue, st')
      \<and> a_method (abs_msg (st' 0)) = Some [7] \<and> a_method (abs_msg (st' 1)) = None \<and> msg_ok (st' 0) \<and> msg_ok (st' 1)"
    using st' set(2) SharedCtor_ok(2) [of rt] unfolding st_def by (intro exI [of _ st']) (simp add: empty_spec_def)
qed

end
