(* ===== verification/WireFormat.thy ===== *)
theory WireFormat
  imports RpcMeta Codec
begin

text \<open>
  The interface between the generated message class and the protobuf library, and the proofs that
  rest on it. Locale \<open>pb_progress\<close> says that the library's readers move forward, which makes the
  parsing loop end on every input; \<open>pb_wire\<close> adds that what the writers write the readers
  read, with the sizes the size functions announce, which gives the round trip of a message and
  the agreement of \<^verbatim>\<open>ByteSizeLong\<close> with the bytes written. \<open>message_class\<close> is the contract the
  codec asks of a message class; a library that satisfies \<open>pb_wire\<close> gives it. The last section
  writes the protobuf wire format down as an executable instance of \<open>pb\<close> and interprets the
  locales on it.
\<close>

section \<open>The readers move forward: parsing ends\<close>

locale pb_progress =
  fixes rt :: "('u, 'p) pb"
    and left :: "'p \<Rightarrow> nat"
  assumes done_left: "Done rt p = Inr p' \<Longrightarrow> left p' \<le> left p"
    and tag_left: "ReadTag rt p = Some (tg, p') \<Longrightarrow> left p' < left p"
    and varint_left: "ReadVarint64 rt p = Some (v, p') \<Longrightarrow> left p' \<le> left p"
    and load_left: "LoadUint64 rt p = (v, p') \<Longrightarrow> left p' \<le> left p"
    and string_left: "ReadString rt p = (s, Some p') \<Longrightarrow> left p' \<le> left p"
    and unknown_left: "UnknownFieldParse rt tg u p = (u', Some p') \<Longrightarrow> left p' \<le> left p"
begin

lemma field_left: "parse_field rt tg p hb m = Continue p' hb' m' \<Longrightarrow> left p' \<le> left p"
  by (auto simp: parse_field_def Let_def parse_enum_def parse_string_def handle_unusual_def
      dest: varint_left load_left string_left unknown_left
      split: if_splits option.splits prod.splits)

lemma parse_total: "\<exists>r. parse_loop rt p hb m = Some r"
proof (induction "left p" arbitrary: p hb m rule: less_induct)
  case less
  show ?case
  proof (cases "Done rt p")
    case (Inl final)
    then show ?thesis by (simp add: parse_loop.simps)
  next
    case (Inr p1)
    note d = Inr
    show ?thesis
    proof (cases "ReadTag rt p1")
      case None
      with d show ?thesis by (simp add: parse_loop.simps)
    next
      case (Some tp)
      obtain tg p2 where tp: "tp = (tg, p2)" by fastforce
      show ?thesis
      proof (cases "parse_field rt tg p2 hb m")
        case (Continue p3 hb' m')
        have "left p3 < left p"
          using done_left [OF d] tag_left [of p1 tg p2] field_left [OF Continue] Some tp by simp
        from less [OF this, of hb' m'] d Some tp Continue show ?thesis
          by (simp add: parse_loop.simps [of rt p hb m])
      next
        case (MessageDone final hb' m')
        with d Some tp show ?thesis by (simp add: parse_loop.simps)
      qed
    qed
  qed
qed

lemma message_total: "\<exists>r. message_from_array rt data m = Some r"
  using parse_total [of "parse_begin rt data" 0 "Clear rt m"]
  by (auto simp: message_from_array_def InternalParse_def)

end

section \<open>The writers write what the readers read\<close>

text \<open>\<open>pos data\<close> is the pointer to the first of the remaining bytes \<open>data\<close> of the input.\<close>

locale pb_wire = pb_progress rt left
  for rt :: "('u, 'p) pb" and left :: "'p \<Rightarrow> nat" +
  fixes pos :: "byte list \<Rightarrow> 'p"
  assumes begin_law: "parse_begin rt data = pos data"
    and done_end: "Done rt (pos []) = Inl (Some (pos []))"
    and done_more: "xs \<noteq> [] \<Longrightarrow> Done rt (pos xs) = Inr (pos xs)"
    and ended_law: "parse_ended rt (pos [])"
    and enum_law: "0 < n \<Longrightarrow> n < 16 \<Longrightarrow>
      \<exists>p. ReadTag rt (pos (WriteEnumToArray rt n v @ xs)) = Some (of_nat (8 * n), p)
        \<and> ReadVarint64 rt p = Some (scast v, pos xs)"
    and fixed_law: "0 < n \<Longrightarrow> n < 16 \<Longrightarrow>
      \<exists>p. ReadTag rt (pos (WriteFixed64ToArray rt n w @ xs)) = Some (of_nat (8 * n + 1), p)
        \<and> LoadUint64 rt p = (w, pos xs)"
    and string_law: "0 < n \<Longrightarrow> n < 16 \<Longrightarrow> length s < 2 ^ 31 \<Longrightarrow>
      \<exists>p. ReadTag rt (pos (WriteString rt n s @ xs)) = Some (of_nat (8 * n + 2), p)
        \<and> ReadString rt p = (s, Some (pos xs))"
    and bytes_law: "0 < n \<Longrightarrow> n < 16 \<Longrightarrow> length s < 2 ^ 31 \<Longrightarrow>
      \<exists>p. ReadTag rt (pos (WriteBytes rt n s @ xs)) = Some (of_nat (8 * n + 2), p)
        \<and> ReadString rt p = (s, Some (pos xs))"
    and enum_size: "0 < n \<Longrightarrow> n < 16 \<Longrightarrow> size_of (WriteEnumToArray rt n v) = 1 + EnumSize rt v"
    and fixed_size: "0 < n \<Longrightarrow> n < 16 \<Longrightarrow> size_of (WriteFixed64ToArray rt n w) = 1 + 8"
    and string_size: "0 < n \<Longrightarrow> n < 16 \<Longrightarrow> size_of (WriteString rt n s) = 1 + StringSize rt s"
    and bytes_size: "0 < n \<Longrightarrow> n < 16 \<Longrightarrow> size_of (WriteBytes rt n s) = 1 + BytesSize rt s"
    and enum_short: "0 < n \<Longrightarrow> n < 16 \<Longrightarrow> length (WriteEnumToArray rt n v) \<le> 11"
    and fixed_short: "0 < n \<Longrightarrow> n < 16 \<Longrightarrow> length (WriteFixed64ToArray rt n w) \<le> 11"
    and string_short: "0 < n \<Longrightarrow> n < 16 \<Longrightarrow> length s < 2 ^ 31 \<Longrightarrow> length (WriteString rt n s) \<le> length s + 11"
    and bytes_short: "0 < n \<Longrightarrow> n < 16 \<Longrightarrow> length s < 2 ^ 31 \<Longrightarrow> length (WriteBytes rt n s) \<le> length s + 11"
    and field_nonempty: "0 < n \<Longrightarrow> n < 16 \<Longrightarrow> WriteEnumToArray rt n v \<noteq> [] \<and> WriteFixed64ToArray rt n w \<noteq> []
      \<and> WriteString rt n s \<noteq> [] \<and> WriteBytes rt n s \<noteq> []"
    and no_unknown: "\<not> have_unknown_fields rt (no_fields rt)"

text \<open>A message this program can have built: valid, without unknown fields, strings of \<^verbatim>\<open>int\<close> size.\<close>

definition plain :: "('u, 'p) pb \<Rightarrow> 'u RpcMetaMessage \<Rightarrow> bool" where
  "plain rt m \<longleftrightarrow> msg_ok m \<and> unknown_fields m = no_fields rt \<and> cached_size m = 0
     \<and> length (service_field m) < 2 ^ 31 \<and> length (method_field m) < 2 ^ 31
     \<and> length (request_field m) < 2 ^ 31 \<and> length (response_field m) < 2 ^ 31"

lemma ucast_scast_enum: "(ucast (scast v :: 64 word) :: int32) = v"
proof (rule bit_word_eqI)
  fix n assume "n < LENGTH(32)"
  then have "min n 31 = n \<or> n = 31 \<and> min n 31 = n"
    by (auto simp: min_def)
  with \<open>n < LENGTH(32)\<close> show "bit (ucast (scast v :: 64 word) :: int32) n = bit v n"
    by (auto simp: bit_simps)
qed

lemma bits_when_put:
  "bit (has_bits (when_do b (put_type v) m)) n \<longleftrightarrow> bit (has_bits m) n \<or> b \<and> n = 6"
  "bit (has_bits (when_do b (\<lambda>m. m\<lparr>id_field := w\<rparr>) m)) n \<longleftrightarrow> bit (has_bits m) n"
  "bit (has_bits (when_do b (put_error v) m)) n \<longleftrightarrow> bit (has_bits m) n \<or> b \<and> n = 5"
  "bit (has_bits (when_do b (set_service s) m)) n \<longleftrightarrow> bit (has_bits m) n \<or> b \<and> n = 0"
  "bit (has_bits (when_do b (set_method s) m)) n \<longleftrightarrow> bit (has_bits m) n \<or> b \<and> n = 1"
  "bit (has_bits (when_do b (set_request s) m)) n \<longleftrightarrow> bit (has_bits m) n \<or> b \<and> n = 2"
  "bit (has_bits (when_do b (set_response s) m)) n \<longleftrightarrow> bit (has_bits m) n \<or> b \<and> n = 3"
  by (simp_all add: when_do_def put_type_def put_error_def set_service_def set_method_def
      set_request_def set_response_def)

lemma group_sum:
  fixes w :: "32 word" and x :: size_t
  shows "(if w AND 0xf \<noteq> 0 then (if bit w 0 then x else 0) + ((if bit w 1 then y else 0) +
      ((if bit w 2 then z else 0) + (if bit w 3 then u else 0))) else 0)
    = (if bit w 0 then x else 0) + ((if bit w 1 then y else 0) +
      ((if bit w 2 then z else 0) + (if bit w 3 then u else 0)))"
  using group_bits(1) [of w] by auto

lemma when_add: "when_do b (\<lambda>t. t + y) x = x + (if b then y else (0 :: size_t))"
  by (simp add: when_do_def)

lemma size_of_parts [simp]:
  "size_of ([] :: byte list) = 0" "size_of (xs @ ys) = size_of xs + size_of ys"
  "size_of (if b then w else []) = (if b then size_of w else 0)"
  by (simp_all add: size_of_def)

context pb_wire begin

lemma loop_step:
  assumes "xs \<noteq> []" "ReadTag rt (pos xs) = Some (tg, p)"
  shows "parse_loop rt (pos xs) hb m =
     (case parse_field rt tg p hb m of
        Continue p' hb' m' \<Rightarrow> parse_loop rt p' hb' m'
      | MessageDone final hb' m' \<Rightarrow> Some (hb', m', final))"
  using assms by (subst parse_loop.simps) (simp add: done_more)

lemma enum_step:
  assumes "n = 1 \<and> valid = MessageType_IsValid \<and> put = put_type
      \<or> n = 7 \<and> valid = ErrorCode_IsValid \<and> put = put_error" "valid v"
  shows "parse_loop rt (pos (WriteEnumToArray rt n v @ xs)) hb m = parse_loop rt (pos xs) hb (put v m)"
proof -
  have n: "0 < n" "n < 16" using assms(1) by auto
  obtain p where p: "ReadTag rt (pos (WriteEnumToArray rt n v @ xs)) = Some (of_nat (8 * n), p)"
      "ReadVarint64 rt p = Some (scast v, pos xs)"
    using enum_law [OF n] by blast
  have "parse_field rt (of_nat (8 * n)) p hb m = parse_enum rt n valid put p hb m"
    using assms(1) by (elim disjE conjE) (simp_all add: parse_field_def)
  then show ?thesis
    using loop_step [OF _ p(1)] field_nonempty [OF n] p(2) assms(2)
    by (simp add: parse_enum_def ucast_scast_enum)
qed

lemma id_step:
  "parse_loop rt (pos (WriteFixed64ToArray rt 2 w @ xs)) hb m
     = parse_loop rt (pos xs) (hb OR 0x10) (m\<lparr>id_field := w\<rparr>)"
proof -
  obtain p where p: "ReadTag rt (pos (WriteFixed64ToArray rt 2 w @ xs)) = Some (of_nat (8 * 2 + 1), p)"
      "LoadUint64 rt p = (w, pos xs)"
    using fixed_law [of 2] by auto
  then show ?thesis
    using loop_step [OF _ p(1)] field_nonempty [of 2] by (simp add: parse_field_def Let_def)
qed

lemma string_step:
  assumes "n = 3 \<and> put = set_service \<and> wr = WriteString rt \<or> n = 4 \<and> put = set_method \<and> wr = WriteString rt
      \<or> n = 5 \<and> put = set_request \<and> wr = WriteBytes rt \<or> n = 6 \<and> put = set_response \<and> wr = WriteBytes rt"
    and "length s < 2 ^ 31"
  shows "parse_loop rt (pos (wr n s @ xs)) hb m = parse_loop rt (pos xs) hb (put s m)"
proof -
  have n: "0 < n" "n < 16" using assms(1) by auto
  obtain p where p: "ReadTag rt (pos (wr n s @ xs)) = Some (of_nat (8 * n + 2), p)"
      "ReadString rt p = (s, Some (pos xs))"
    using string_law [OF n assms(2)] bytes_law [OF n assms(2)] assms(1) by metis
  have "parse_field rt (of_nat (8 * n + 2)) p hb m = parse_string rt put p hb m"
    using assms(1) by (elim disjE conjE) (simp_all add: parse_field_def)
  moreover have "wr n s \<noteq> []"
    using field_nonempty [OF n] assms(1) by metis
  ultimately show ?thesis
    using loop_step [OF _ p(1)] p(2) by (simp add: parse_string_def)
qed

text \<open>A field that is written only when it is present.\<close>

lemma optional_steps:
  "b \<longrightarrow> MessageType_IsValid v \<Longrightarrow>
     parse_loop rt (pos ((if b then WriteEnumToArray rt 1 v else []) @ xs)) hb m
       = parse_loop rt (pos xs) hb (when_do b (put_type v) m)"
  "b \<longrightarrow> ErrorCode_IsValid v \<Longrightarrow>
     parse_loop rt (pos ((if b then WriteEnumToArray rt 7 v else []) @ xs)) hb m
       = parse_loop rt (pos xs) hb (when_do b (put_error v) m)"
  "parse_loop rt (pos ((if b then WriteFixed64ToArray rt 2 w else []) @ xs)) hb m
     = parse_loop rt (pos xs) (when_do b (\<lambda>hb. hb OR 0x10) hb) (when_do b (\<lambda>m. m\<lparr>id_field := w\<rparr>) m)"
  "length s < 2 ^ 31 \<Longrightarrow> parse_loop rt (pos ((if b then WriteString rt 3 s else []) @ xs)) hb m
     = parse_loop rt (pos xs) hb (when_do b (set_service s) m)"
  "length s < 2 ^ 31 \<Longrightarrow> parse_loop rt (pos ((if b then WriteString rt 4 s else []) @ xs)) hb m
     = parse_loop rt (pos xs) hb (when_do b (set_method s) m)"
  "length s < 2 ^ 31 \<Longrightarrow> parse_loop rt (pos ((if b then WriteBytes rt 5 s else []) @ xs)) hb m
     = parse_loop rt (pos xs) hb (when_do b (set_request s) m)"
  "length s < 2 ^ 31 \<Longrightarrow> parse_loop rt (pos ((if b then WriteBytes rt 6 s else []) @ xs)) hb m
     = parse_loop rt (pos xs) hb (when_do b (set_response s) m)"
  by (simp_all add: when_do_def enum_step id_step string_step [where wr = "WriteString rt"]
      string_step [where wr = "WriteBytes rt"])

lemma parse_end: "parse_loop rt (pos []) hb m = Some (hb, m, Some (pos []))"
  by (simp add: parse_loop.simps done_end)

lemma serialize_fields:
  assumes "plain rt m"
  shows "InternalSerialize rt m =
      (if has_type m then WriteEnumToArray rt 1 (type_field m) else [])
    @ (if has_id m then WriteFixed64ToArray rt 2 (id_field m) else [])
    @ (if has_service m then WriteString rt 3 (service_field m) else [])
    @ (if has_method m then WriteString rt 4 (method_field m) else [])
    @ (if has_request m then WriteBytes rt 5 (request_field m) else [])
    @ (if has_response m then WriteBytes rt 6 (response_field m) else [])
    @ (if has_error m then WriteEnumToArray rt 7 (error_field m) else []) @ []"
  using assms
  by (simp add: InternalSerialize_def Let_def mask_bits no_unknown plain_def presence_bits if_not_P)

lemma serialize_length:
  assumes "plain rt m"
  shows "length (InternalSerialize rt m) \<le> length (service_field m) + length (method_field m)
    + length (request_field m) + length (response_field m) + 77"
proof -
  have l: "length (service_field m) < 2 ^ 31" "length (method_field m) < 2 ^ 31"
      "length (request_field m) < 2 ^ 31" "length (response_field m) < 2 ^ 31"
    using assms by (simp_all add: plain_def)
  have opt: "length (if b then w else []) \<le> k" if "length w \<le> k" for b k and w :: "byte list"
    using that by simp
  have b0: "length (if has_type m then WriteEnumToArray rt 1 (type_field m) else []) \<le> 11"
    using l by (intro opt enum_short [of 1]) simp_all
  have b1: "length (if has_id m then WriteFixed64ToArray rt 2 (id_field m) else []) \<le> 11"
    using l by (intro opt fixed_short [of 2]) simp_all
  have b2: "length (if has_service m then WriteString rt 3 (service_field m) else []) \<le> length (service_field m) + 11"
    using l by (intro opt string_short [of 3 "service_field m"]) simp_all
  have b3: "length (if has_method m then WriteString rt 4 (method_field m) else []) \<le> length (method_field m) + 11"
    using l by (intro opt string_short [of 4 "method_field m"]) simp_all
  have b4: "length (if has_request m then WriteBytes rt 5 (request_field m) else []) \<le> length (request_field m) + 11"
    using l by (intro opt bytes_short [of 5 "request_field m"]) simp_all
  have b5: "length (if has_response m then WriteBytes rt 6 (response_field m) else []) \<le> length (response_field m) + 11"
    using l by (intro opt bytes_short [of 6 "response_field m"]) simp_all
  have b6: "length (if has_error m then WriteEnumToArray rt 7 (error_field m) else []) \<le> 11"
    using l by (intro opt enum_short [of 7]) simp_all
  show ?thesis
    unfolding serialize_fields [OF assms] length_append list.size(3)
    using b0 b1 b2 b3 b4 b5 b6 by linarith
qed

lemma parse_serialized:
  assumes "plain rt m"
  shows "parse_loop rt (pos (InternalSerialize rt m)) 0 m0 =
     Some (when_do (has_id m) (\<lambda>hb. hb OR 0x10) 0,
       when_do (has_error m) (put_error (error_field m))
        (when_do (has_response m) (set_response (response_field m))
        (when_do (has_request m) (set_request (request_field m))
        (when_do (has_method m) (set_method (method_field m))
        (when_do (has_service m) (set_service (service_field m))
        (when_do (has_id m) (\<lambda>m0. m0\<lparr>id_field := id_field m\<rparr>)
        (when_do (has_type m) (put_type (type_field m)) m0)))))), Some (pos []))"
proof -
  have "MessageType_IsValid (type_field m)" "ErrorCode_IsValid (error_field m)"
      "length (service_field m) < 2 ^ 31" "length (method_field m) < 2 ^ 31"
      "length (request_field m) < 2 ^ 31" "length (response_field m) < 2 ^ 31"
    using assms by (simp_all add: plain_def msg_ok_def)
  then show ?thesis
    by (simp only: serialize_fields [OF assms] optional_steps parse_end simp_thms)
qed

lemma restored_message:
  assumes "plain rt m"
  defines "m1 \<equiv> when_do (has_error m) (put_error (error_field m))
        (when_do (has_response m) (set_response (response_field m))
        (when_do (has_request m) (set_request (request_field m))
        (when_do (has_method m) (set_method (method_field m))
        (when_do (has_service m) (set_service (service_field m))
        (when_do (has_id m) (\<lambda>m0. m0\<lparr>id_field := id_field m\<rparr>)
        (when_do (has_type m) (put_type (type_field m)) (SharedCtor rt)))))))"
  shows "m1\<lparr>has_bits := has_bits m1 OR when_do (has_id m) (\<lambda>hb. hb OR 0x10) 0\<rparr> = m"
proof (rule RpcMetaMessage.equality)
  let ?m2 = "m1\<lparr>has_bits := has_bits m1 OR when_do (has_id m) (\<lambda>hb. hb OR 0x10) 0\<rparr>"
  have ok: "msg_ok m" "unknown_fields m = no_fields rt" "cached_size m = 0"
    using assms(1) by (simp_all add: plain_def)
  note sels = when_do_sel put_error_def set_response_def set_request_def set_method_def
    set_service_def put_type_def SharedCtor_def
  show "service_field ?m2 = service_field m" "method_field ?m2 = method_field m"
      "request_field ?m2 = request_field m" "response_field ?m2 = response_field m"
      "id_field ?m2 = id_field m" "error_field ?m2 = error_field m" "type_field ?m2 = type_field m"
    using absent_default [OF ok(1)] by (simp_all add: m1_def sels split del: if_split cong: if_cong)
  show "unknown_fields ?m2 = unknown_fields m" "cached_size ?m2 = cached_size m"
    using ok(2,3) by (simp_all add: m1_def sels)
  show "has_bits ?m2 = has_bits m"
  proof (rule bit_word_eqI)
    fix n :: nat
    have "bit (has_bits ?m2) n \<longleftrightarrow> has_type m \<and> n = 6 \<or> has_service m \<and> n = 0 \<or> has_method m \<and> n = 1
        \<or> has_request m \<and> n = 2 \<or> has_response m \<and> n = 3 \<or> has_error m \<and> n = 5 \<or> has_id m \<and> n = 4"
      by (auto simp add: m1_def bits_when_put bit_or_iff SharedCtor_def when_do_def [of _ "\<lambda>hb. hb OR 0x10"]
          bits_of_or [of 0, simplified])
    moreover have "n < 7 \<longleftrightarrow> n = 0 \<or> n = 1 \<or> n = 2 \<or> n = 3 \<or> n = 4 \<or> n = 5 \<or> n = 6" by arith
    moreover have "bit (has_bits m) n \<longrightarrow> n < 7"
      using ok(1) by (simp add: msg_ok_def high_bits)
    ultimately show "bit (has_bits ?m2) n = bit (has_bits m) n"
      unfolding presence_bits by metis
  qed
qed simp

lemma parse_serialized_message:
  assumes "plain rt m"
  shows "message_from_array rt (InternalSerialize rt m) (SharedCtor rt)
    = Some (if has_type m \<and> has_id m then Some m else None)"
proof -
  have "Clear rt (SharedCtor rt) = SharedCtor rt"
    using Clear_fields [OF SharedCtor_ok(1), of rt rt] by (simp add: SharedCtor_def)
  then show ?thesis
    using restored_message [OF assms]
    by (simp add: message_from_array_def InternalParse_def begin_law parse_serialized [OF assms]
        ended_law IsInitialized_iff)
qed

lemma byte_size:
  assumes "plain rt m"
  shows "fst (ByteSizeLong rt m) = size_of (InternalSerialize rt m)"
proof -
  have req: "(if (has_bits m AND 0x50) XOR 0x50 = 0 then 0 + (1 + 8) + (1 + EnumSize rt (type_field m))
       else 0 + RequiredFieldsByteSizeFallback rt m)
     = (if has_id m then 1 + 8 else 0) + (if has_type m then 1 + EnumSize rt (type_field m) else 0)"
    unfolding group_bits RequiredFieldsByteSizeFallback_def Let_def when_add
    by (simp add: presence_bits)
  have "\<not> have_unknown_fields rt (unknown_fields m)"
    using assms by (simp add: plain_def no_unknown)
  then have "fst (ByteSizeLong rt m) =
      (if has_id m then 1 + 8 else 0) + (if has_type m then 1 + EnumSize rt (type_field m) else 0)
      + (if has_service m then 1 + StringSize rt (service_field m) else 0)
      + (if has_method m then 1 + StringSize rt (method_field m) else 0)
      + (if has_request m then 1 + BytesSize rt (request_field m) else 0)
      + (if has_response m then 1 + BytesSize rt (response_field m) else 0)
      + (if has_error m then 1 + EnumSize rt (error_field m) else 0)"
    unfolding ByteSizeLong_def req Let_def
    by (simp only: when_add mask_bits presence_bits fst_conv if_False not_not add.assoc add_0_right
        group_sum)
  then show ?thesis
    unfolding serialize_fields [OF assms] size_of_parts
    by (simp add: enum_size fixed_size string_size bytes_size cong: if_cong)
qed

end

section \<open>The contract of the codec\<close>

locale message_class =
  fixes env :: "('m, 'z) codec_env_scheme"
    and good :: "'m \<Rightarrow> bool"
  assumes init_law: "good m \<Longrightarrow> isInitialized env m"
    and size_law: "good m \<Longrightarrow> byteSizeLong env m = size_of (serializeToArray env m)"
    and parse_law: "good m \<Longrightarrow> parseFromArray env (serializeToArray env m) = Some m"
begin

text \<open>Small enough for the receiver's limit behind a tag of \<open>n\<close> bytes.\<close>

definition short :: "nat \<Rightarrow> 'm \<Rightarrow> bool" where
  "short n m \<longleftrightarrow> int (n + length (serializeToArray env m) + 4) \<le> kMaxMessageLen"

lemma good_encodable: "good m \<Longrightarrow> short (length t) m \<Longrightarrow> encodable env t m"
  by (simp add: encodable_def init_law size_law short_def length_frame_body unat_size_of
      kMaxMessageLen_def)

lemma send_frame:
  "good m \<Longrightarrow> short (length (tag cd)) m \<Longrightarrow> codec_send env cd m = Inr (frame env (tag cd) m)"
  by (intro codec_send_ok good_encodable)

lemma decode_frames:
  "\<forall>m \<in> set ms. good m \<and> short (length t) m \<Longrightarrow>
     decode_spec env t (concat (map (frame env t) ms)) = (ms, [], None)"
  using decode_spec_frames [of ms env t "[]"]
  by (simp add: good_encodable parse_law decode_spec.simps [of env t "[]"])

lemma receive_frames:
  assumes "buffer_ok b" "tag_ok (tag cd)" "content b = concat (map (frame env (tag cd)) ms)"
    and "\<forall>m \<in> set ms. good m \<and> short (length (tag cd)) m"
  shows "\<exists>b'. buffer_ok b' \<and> content b' = [] \<and> (\<forall>s. onMessage env cd s b
      = andThen (deliver (messageCallback cd) s ms) (\<lambda>s'. Inr (s', b')))"
  using onMessage_refines [OF assms(1,2), of env ms "[]" None] assms(3) decode_frames [OF assms(4)]
  by (auto simp: grows_def)

end

section \<open>The codec's environment for the generated class\<close>

definition rpc_env ::
  "endian \<Rightarrow> (64 word \<Rightarrow> byte list \<Rightarrow> 64 word) \<Rightarrow> ('u, 'p) pb \<Rightarrow> 'u RpcMetaMessage codec_env" where
  "rpc_env e adler rt =
     \<lparr>host_order = e, adler32 = adler, isInitialized = IsInitialized,
      byteSizeLong = (\<lambda>m. fst (ByteSizeLong rt m)), serializeToArray = InternalSerialize rt,
      parseFromArray = (\<lambda>data. case message_from_array rt data (SharedCtor rt) of
          Some r \<Rightarrow> r | None \<Rightarrow> None)\<rparr>"

lemma rpc_env_sel [simp]:
  "host_order (rpc_env e adler rt) = e" "adler32 (rpc_env e adler rt) = adler"
  "isInitialized (rpc_env e adler rt) = IsInitialized"
  "byteSizeLong (rpc_env e adler rt) m = fst (ByteSizeLong rt m)"
  "serializeToArray (rpc_env e adler rt) = InternalSerialize rt"
  "parseFromArray (rpc_env e adler rt) data =
     (case message_from_array rt data (SharedCtor rt) of Some r \<Rightarrow> r | None \<Rightarrow> None)"
  by (simp_all add: rpc_env_def)

sublocale pb_wire \<subseteq> rpc: message_class "rpc_env e adler rt" "\<lambda>m. plain rt m \<and> IsInitialized m" for e adler
  by unfold_locales (simp_all add: byte_size parse_serialized_message IsInitialized_iff)

section \<open>The wire format as an instance\<close>

text \<open>
  Base-128 varints, least significant group first, read from at most ten bytes and cut to 64
  bits; fixed 64-bit integers, least significant byte first; length-delimited strings. The
  pointer is the list of remaining bytes, \<open>Beyond\<close> after a read past the end, \<open>Stopped\<close> after an
  end-group tag. Unknown fields are kept as the list of their tags and raw contents.
\<close>

fun varint :: "nat \<Rightarrow> byte list" where
  "varint n = (if n < 128 then [of_nat n] else of_nat (n mod 128 + 128) # varint (n div 128))"

declare varint.simps [simp del]

fun read_varint :: "nat \<Rightarrow> byte list \<Rightarrow> (nat \<times> byte list) option" where
  "read_varint k [] = None"
| "read_varint 0 (b # bs) = None"
| "read_varint (Suc k) (b # bs) =
     (if unat b < 128 then Some (unat b, bs)
      else map_option (\<lambda>(v, r). (unat b - 128 + 128 * v, r)) (read_varint k bs))"

datatype wire_ptr = At "byte list" | Beyond | Stopped "32 word" "byte list"

fun wire_left :: "wire_ptr \<Rightarrow> nat" where
  "wire_left (At xs) = length xs"
| "wire_left Beyond = 0"
| "wire_left (Stopped tg xs) = 0"

definition wire_varint :: "wire_ptr \<Rightarrow> (64 word \<times> wire_ptr) option" where
  "wire_varint p =
     (case p of At xs \<Rightarrow> map_option (\<lambda>(v, r). (of_nat v, At r)) (read_varint 10 xs) | _ \<Rightarrow> None)"

definition wire_tag :: "wire_ptr \<Rightarrow> (32 word \<times> wire_ptr) option" where
  "wire_tag p =
     (case p of At xs \<Rightarrow> map_option (\<lambda>(v, r). (of_nat v, At r)) (read_varint 5 xs) | _ \<Rightarrow> None)"

definition wire_load :: "wire_ptr \<Rightarrow> 64 word \<times> wire_ptr" where
  "wire_load p =
     (case p of
        At xs \<Rightarrow> (join_bytes (rev (take 8 xs)), if 8 \<le> length xs then At (drop 8 xs) else Beyond)
      | _ \<Rightarrow> (0, Beyond))"

definition wire_string :: "wire_ptr \<Rightarrow> byte list \<times> wire_ptr option" where
  "wire_string p =
     (case p of
        At xs \<Rightarrow> (case read_varint 10 xs of
            Some (n, r) \<Rightarrow> if n \<le> length r then (take n r, Some (At (drop n r))) else ([], None)
          | None \<Rightarrow> ([], None))
      | _ \<Rightarrow> ([], None))"

definition wire_done :: "wire_ptr \<Rightarrow> wire_ptr option + wire_ptr" where
  "wire_done p =
     (case p of At [] \<Rightarrow> Inl (Some p) | At (x # xs) \<Rightarrow> Inr p | Beyond \<Rightarrow> Inl None | Stopped tg xs \<Rightarrow> Inl (Some p))"

type_synonym wire_unknown = "(32 word \<times> byte list) list"

definition wire_unknown_field ::
  "32 word \<Rightarrow> wire_unknown \<Rightarrow> wire_ptr \<Rightarrow> wire_unknown \<times> wire_ptr option" where
  "wire_unknown_field tg u p =
     (if tg AND 7 = 0 then
        (case wire_varint p of Some (v, p') \<Rightarrow> (u @ [(tg, varint (unat v))], Some p') | None \<Rightarrow> (u, None))
      else if tg AND 7 = 1 then
        (case wire_load p of (v, p') \<Rightarrow>
           if p' = Beyond then (u, None) else (u @ [(tg, rev (bytes64 v))], Some p'))
      else if tg AND 7 = 2 then
        (case wire_string p of
           (s, Some p') \<Rightarrow> (u @ [(tg, varint (length s) @ s)], Some p') | (s, None) \<Rightarrow> (u, None))
      else (u, None))"

definition wire_unknown_bytes :: "wire_unknown \<Rightarrow> byte list" where
  "wire_unknown_bytes u = concat (map (\<lambda>(tg, d). varint (unat tg) @ d) u)"

definition wire_pb :: "(wire_unknown, wire_ptr) pb" where
  "wire_pb =
     \<lparr>no_fields = [], have_unknown_fields = (\<lambda>u. u \<noteq> []), merge_fields = (@),
      WriteVarint = (\<lambda>n v u. u @ [(of_nat (8 * n), varint (unat v))]),
      UnknownFieldParse = wire_unknown_field, UnknownFieldsToArray = wire_unknown_bytes,
      UnknownFieldsSize = (\<lambda>u. size_of (wire_unknown_bytes u)),
      Done = wire_done, ReadTag = wire_tag, SetLastTag = (\<lambda>tg p. Stopped tg (case p of At xs \<Rightarrow> xs | _ \<Rightarrow> [])),
      ReadVarint64 = wire_varint, LoadUint64 = wire_load, ReadString = wire_string,
      WriteEnumToArray = (\<lambda>n v. varint (8 * n) @ varint (unat (scast v :: 64 word))),
      WriteFixed64ToArray = (\<lambda>n w. varint (8 * n + 1) @ rev (bytes64 w)),
      WriteString = (\<lambda>n s. varint (8 * n + 2) @ varint (length s) @ s),
      WriteBytes = (\<lambda>n s. varint (8 * n + 2) @ varint (length s) @ s),
      EnumSize = (\<lambda>v. size_of (varint (unat (scast v :: 64 word)))),
      StringSize = (\<lambda>s. size_of (varint (length s)) + size_of s),
      BytesSize = (\<lambda>s. size_of (varint (length s)) + size_of s),
      parse_begin = At, parse_ended = (\<lambda>p. p = At [])\<rparr>"

lemma read_varint_length: "read_varint k xs = Some (v, r) \<Longrightarrow> length r < length xs"
  by (induction k xs arbitrary: v r rule: read_varint.induct) (fastforce split: if_splits)+

lemma read_varint_write:
  "n < 128 ^ k \<Longrightarrow> 0 < k \<Longrightarrow> read_varint k (varint n @ xs) = Some (n, xs)"
proof (induction k arbitrary: n)
  case (Suc k)
  show ?case
  proof (cases "n < 128")
    case True
    then show ?thesis by (simp add: varint.simps [of n] unat_of_nat)
  next
    case False
    have "n div 128 < 128 ^ k"
      using Suc.prems(1) by (simp add: less_mult_imp_div_less mult.commute)
    moreover have "0 < k"
      using False Suc.prems(1) by (cases k) auto
    ultimately have "read_varint k (varint (n div 128) @ xs) = Some (n div 128, xs)"
      by (rule Suc.IH)
    moreover have "unat (of_nat (n mod 128 + 128) :: byte) = n mod 128 + 128"
      by (subst unat_of_nat) simp
    ultimately show ?thesis
      using False by (simp add: varint.simps [of n] del: of_nat_add)
  qed
qed simp

lemma varint_short [simp]: "n < 128 \<Longrightarrow> varint n = [of_nat n]"
  by (simp add: varint.simps)

lemma length_varint: "n < 128 ^ k \<Longrightarrow> 0 < k \<Longrightarrow> length (varint n) \<le> k"
proof (induction k arbitrary: n)
  case (Suc k)
  show ?case
  proof (cases "n < 128")
    case False
    have "n div 128 < 128 ^ k"
      using Suc.prems(1) by (simp add: less_mult_imp_div_less mult.commute)
    moreover have "0 < k"
      using False Suc.prems(1) by (cases k) auto
    ultimately show ?thesis
      using Suc.IH [of "n div 128"] False by (simp add: varint.simps [of n])
  qed simp
qed simp

lemma length_varint64: "length (varint (unat (w :: 64 word))) \<le> 10"
  using length_varint [of "unat w" 10] unat_lt_size [of w] by simp

lemma length_varint_int: "n < 2 ^ 31 \<Longrightarrow> length (varint n) \<le> 10"
  using length_varint [of n 10] by simp

lemma wire_varint_write: "wire_varint (At (varint (unat w) @ xs)) = Some (w, At xs)"
proof -
  have "unat w < 128 ^ 10"
    using unat_lt_size [of w] by simp
  then show ?thesis
    by (simp add: wire_varint_def read_varint_write)
qed

lemma wire_tag_write: "n < 128 \<Longrightarrow> wire_tag (At (varint n @ xs)) = Some (of_nat n, At xs)"
  using read_varint_write [of n 5 xs] by (simp add: wire_tag_def)

lemma wire_load_write: "wire_load (At (rev (bytes64 w) @ xs)) = (w, At xs)"
  by (simp add: wire_load_def)

lemma wire_string_write:
  assumes "length s < 2 ^ 31"
  shows "wire_string (At (varint (length s) @ s @ xs)) = (s, Some (At xs))"
  using assms read_varint_write [of "length s" 10 "s @ xs"] by (simp add: wire_string_def)

lemma wire_left_le:
  "wire_varint p = Some (v, p') \<Longrightarrow> wire_left p' \<le> wire_left p"
  "wire_load p = (w, p') \<Longrightarrow> wire_left p' \<le> wire_left p"
  "wire_string p = (s, Some p') \<Longrightarrow> wire_left p' \<le> wire_left p"
  by (auto simp: wire_varint_def wire_load_def wire_string_def
      dest!: read_varint_length split: wire_ptr.splits if_splits option.splits)

lemma wire_pb_sel [simp]:
  "no_fields wire_pb = []" "have_unknown_fields wire_pb = (\<lambda>u. u \<noteq> [])" "merge_fields wire_pb = (@)"
  "UnknownFieldParse wire_pb = wire_unknown_field" "Done wire_pb = wire_done" "ReadTag wire_pb = wire_tag"
  "ReadVarint64 wire_pb = wire_varint" "LoadUint64 wire_pb = wire_load" "ReadString wire_pb = wire_string"
  "WriteEnumToArray wire_pb n v = varint (8 * n) @ varint (unat (scast v :: 64 word))"
  "WriteFixed64ToArray wire_pb n w = varint (8 * n + 1) @ rev (bytes64 w)"
  "WriteString wire_pb n s = varint (8 * n + 2) @ varint (length s) @ s"
  "WriteBytes wire_pb n s = varint (8 * n + 2) @ varint (length s) @ s"
  "EnumSize wire_pb v = size_of (varint (unat (scast v :: 64 word)))"
  "StringSize wire_pb s = size_of (varint (length s)) + size_of s"
  "BytesSize wire_pb s = size_of (varint (length s)) + size_of s"
  "parse_begin wire_pb = At" "parse_ended wire_pb p = (p = At [])"
  by (simp_all add: wire_pb_def)

interpretation wire: pb_wire wire_pb wire_left At
proof (unfold_locales, goal_cases)
  case (1 p p')
  then show ?case by (auto simp: wire_done_def split: wire_ptr.splits list.splits)
next
  case (2 p tg p')
  then show ?case by (auto simp: wire_tag_def dest: read_varint_length split: wire_ptr.splits)
next
  case (6 tg u p u' p')
  then show ?case
    by (auto simp: wire_unknown_field_def split: if_splits option.splits prod.splits
        dest!: wire_left_le)
next
  case (12 n w xs)
  then show ?case using wire_tag_write [of "8 * n + 1"] by (auto simp: wire_load_write simp del: varint_short)
next
  case (13 n s xs)
  then show ?case using wire_tag_write [of "8 * n + 2"] by (auto simp: wire_string_write simp del: varint_short)
next
  case (14 n s xs)
  then show ?case using wire_tag_write [of "8 * n + 2"] by (auto simp: wire_string_write simp del: varint_short)
next
  case (11 n v xs)
  then show ?case using wire_tag_write [of "8 * n"] by (auto simp: wire_varint_write simp del: varint_short)
qed (auto simp: wire_left_le wire_done_def size_of_def length_varint64 length_varint_int split: list.splits)

section \<open>What any parse leaves\<close>

text \<open>
  While a message is parsed the presence of the identifier is only in the local word: the
  invariant holds of the message with that word or-ed in.
\<close>

definition with_bits :: "32 word \<Rightarrow> 'u RpcMetaMessage \<Rightarrow> 'u RpcMetaMessage" where
  "with_bits hb m = m\<lparr>has_bits := has_bits m OR hb\<rparr>"

lemma with_bits_put:
  "with_bits hb (put_type v m) = put_type v (with_bits hb m)"
  "with_bits hb (put_error e m) = put_error e (with_bits hb m)"
  "with_bits hb (set_service s m) = set_service s (with_bits hb m)"
  "with_bits hb (set_method s m) = set_method s (with_bits hb m)"
  "with_bits hb (set_request s m) = set_request s (with_bits hb m)"
  "with_bits hb (set_response s m) = set_response s (with_bits hb m)"
  "with_bits hb (m\<lparr>unknown_fields := u\<rparr>) = (with_bits hb m)\<lparr>unknown_fields := u\<rparr>"
  "with_bits (hb OR 0x10) (m\<lparr>id_field := w\<rparr>) = set_id w (with_bits hb m)"
  by (simp_all add: with_bits_def put_type_def put_error_def set_service_def set_method_def
      set_request_def set_response_def set_id_def ac_simps)

lemma put_keeps_ok:
  assumes "msg_ok m"
  shows "MessageType_IsValid v \<Longrightarrow> msg_ok (put_type v m)" "ErrorCode_IsValid e \<Longrightarrow> msg_ok (put_error e m)"
    and "msg_ok (set_service s m)" "msg_ok (set_method s m)" "msg_ok (set_request s m)"
    and "msg_ok (set_response s m)" "msg_ok (set_id w m)"
  using msg_step_refines [OF assms, of rt "SetType v"] msg_step_refines [OF assms, of rt "SetError e"]
    msg_step_refines [OF assms, of rt "SetString FService s"] msg_step_refines [OF assms, of rt "SetString FMethod s"]
    msg_step_refines [OF assms, of rt "SetString FRequest s"] msg_step_refines [OF assms, of rt "SetString FResponse s"]
    msg_step_refines [OF assms, of rt "SetId w"]
  by (simp_all add: set_type_def set_error_def)

lemma unknown_keeps_ok: "msg_ok (m\<lparr>unknown_fields := u\<rparr>) = msg_ok m"
  by (simp add: msg_ok_def presence_bits)

fun flow_ok :: "('u, 'p) parse_flow \<Rightarrow> bool" where
  "flow_ok (Continue p hb m) = msg_ok (with_bits hb m)"
| "flow_ok (MessageDone p hb m) = msg_ok (with_bits hb m)"

lemma parse_field_ok:
  assumes "msg_ok (with_bits hb m)"
  shows "flow_ok (parse_field rt tg p hb m)"
  using assms
  by (simp add: parse_field_def Let_def parse_enum_def parse_string_def handle_unusual_def
      with_bits_put put_keeps_ok unknown_keeps_ok split: prod.split option.split)

lemma parse_loop_ok:
  assumes "parse_loop rt p hb m = Some r" "msg_ok (with_bits hb m)"
  shows "case r of (hb', m', final) \<Rightarrow> msg_ok (with_bits hb' m')"
proof -
  have "msg_ok (with_bits hb m) \<longrightarrow> (case r of (hb', m', final) \<Rightarrow> msg_ok (with_bits hb' m'))"
  proof (rule parse_loop.raw_induct [OF _ assms(1)])
    fix loop rt p hb m r
    assume IH: "\<And>rt p hb m r. loop rt p hb m = Some r \<Longrightarrow>
        msg_ok (with_bits hb m) \<longrightarrow> (case r of (hb', m', final) \<Rightarrow> msg_ok (with_bits hb' m'))"
      and run: "(case Done rt p of Inl final \<Rightarrow> Some (hb, m, final)
        | Inr p1 \<Rightarrow> (case ReadTag rt p1 of None \<Rightarrow> Some (hb, m, None)
          | Some (tg, p2) \<Rightarrow> (case parse_field rt tg p2 hb m of
                Continue p3 hb' m' \<Rightarrow> loop rt p3 hb' m'
              | MessageDone final hb' m' \<Rightarrow> Some (hb', m', final)))) = Some r"
    show "msg_ok (with_bits hb m) \<longrightarrow> (case r of (hb', m', final) \<Rightarrow> msg_ok (with_bits hb' m'))"
    proof
      assume ok: "msg_ok (with_bits hb m)"
      note f = parse_field_ok [OF ok, of rt]
      show "case r of (hb', m', final) \<Rightarrow> msg_ok (with_bits hb' m')"
      proof (cases "Done rt p")
        case (Inl final)
        with run ok show ?thesis by auto
      next
        case (Inr p1)
        show ?thesis
        proof (cases "ReadTag rt p1")
          case None
          with run ok Inr show ?thesis by auto
        next
          case (Some tp)
          obtain tg p2 where tp: "tp = (tg, p2)" by fastforce
          show ?thesis
            using run Inr Some tp f [of tg p2] IH
            by (cases "parse_field rt tg p2 hb m") auto
        qed
      qed
    qed
  qed
  with assms(2) show ?thesis by simp
qed

lemma parsed_ok:
  assumes "message_from_array rt data m0 = Some (Some m)" "msg_ok m0"
  shows "msg_ok m \<and> IsInitialized m"
proof -
  have "msg_ok (with_bits 0 (Clear rt m0))"
    using Clear_ok [OF assms(2), of rt] by (simp add: with_bits_def)
  with assms(1) show ?thesis
    by (auto simp: message_from_array_def InternalParse_def with_bits_def dest!: parse_loop_ok
        split: option.splits if_splits prod.splits)
qed

section \<open>Properties\<close>

definition sample_msg :: "wire_unknown RpcMetaMessage" where
  "sample_msg = set_request [1, 2] (set_method [77] (set_id 7 (put_type REQUEST (SharedCtor wire_pb))))"

lemma sample_msg_plain: "plain wire_pb sample_msg" "IsInitialized sample_msg"
  by (simp_all add: plain_def sample_msg_def put_keeps_ok SharedCtor_ok IsInitialized_iff presence_bits)
    (simp_all add: set_request_def set_method_def set_id_def put_type_def SharedCtor_def)

text \<open>C12:
  Round trip of a message: over any protobuf library whose writers and readers agree, parsing the
  bytes \<^verbatim>\<open>_InternalSerialize\<close> wrote gives back exactly the message, field by field and presence by
  presence, when both required fields are set, and is refused when one is missing.
\<close>

theorem message_roundtrip:
  assumes "pb_wire rt left pos" "plain rt m"
  shows "message_from_array rt (InternalSerialize rt m) (SharedCtor rt)
    = Some (if has_type m \<and> has_id m then Some m else None)"
  by (rule pb_wire.parse_serialized_message [OF assms])

lemma message_roundtrip_witness:
  "message_from_array wire_pb (InternalSerialize wire_pb sample_msg) (SharedCtor wire_pb)
    = Some (Some sample_msg)"
  using message_roundtrip [OF wire.pb_wire_axioms sample_msg_plain(1)] sample_msg_plain(2)
  by (simp add: IsInitialized_iff)

text \<open>C13:
  \<^verbatim>\<open>ByteSizeLong\<close> announces the number of bytes \<^verbatim>\<open>_InternalSerialize\<close> writes, modulo the range of
  \<^verbatim>\<open>size_t\<close>, whether or not the required fields are present.
\<close>

theorem message_size_exact:
  assumes "pb_wire rt left pos" "plain rt m"
  shows "fst (ByteSizeLong rt m) = size_of (InternalSerialize rt m)"
  by (rule pb_wire.byte_size [OF assms])

lemma message_size_exact_witness:
  "fst (ByteSizeLong wire_pb sample_msg) = size_of (InternalSerialize wire_pb sample_msg)"
  by (rule message_size_exact [OF wire.pb_wire_axioms sample_msg_plain(1)])

text \<open>C14:
  Parsing ends on every input: over a library whose readers move forward, the parsing loop of
  \<^verbatim>\<open>_InternalParse\<close> returns on any bytes a peer may send, into any message.
\<close>

theorem message_parse_terminates:
  assumes "pb_progress rt left"
  shows "\<exists>r. message_from_array rt data m = Some r"
  by (rule pb_progress.message_total [OF assms])

lemma message_parse_terminates_witness:
  "\<exists>r. message_from_array wire_pb [8, 255, 255, 255] (SharedCtor wire_pb) = Some r"
  by (rule message_parse_terminates [OF wire.pb_progress_axioms])

text \<open>C15:
  Hostile bytes cannot break a message: whatever is parsed successfully has only known presence
  bits, valid enumerators, defaults in the absent fields, and both required fields.
\<close>

theorem parsed_message_ok:
  assumes "message_from_array rt data m0 = Some (Some m)" "msg_ok m0"
  shows "msg_ok m \<and> IsInitialized m"
  by (rule parsed_ok [OF assms])

lemma parsed_message_ok_witness: "msg_ok sample_msg \<and> IsInitialized sample_msg"
proof -
  have "message_from_array wire_pb (InternalSerialize wire_pb sample_msg) (SharedCtor wire_pb)
      = Some (Some sample_msg)"
    using wire.parse_serialized_message [OF sample_msg_plain(1)] sample_msg_plain(2)
    by (simp add: IsInitialized_iff)
  then show ?thesis
    by (rule parsed_message_ok [OF _ SharedCtor_ok(1)])
qed

end
