(* ===== verification/RpcChannel.thy ===== *)
theory RpcChannel
  imports WireFormat "HOL-Library.AList"
begin

text \<open>
  \<^verbatim>\<open>rpc/RpcChannel.h\<close> and \<^verbatim>\<open>rpc/RpcChannel.cc\<close>: one channel per TCP connection. As a client it numbers
  the calls, remembers for each the response object and the completion closure, and completes
  the call when the response arrives; as a server it finds service and method, runs the
  method and sends the response or an error. The user's messages, services and closures are the
  record \<open>rpc_lib\<close>. Message objects and closures live in an explicit store, so that a use after
  \<^verbatim>\<open>delete\<close> or a second \<^verbatim>\<open>delete\<close> is a fault. What the channel hands to \<^verbatim>\<open>TcpConnection::send\<close> is
  collected in \<open>sent\<close>.
\<close>

section \<open>State\<close>

record OutstandingCall =
  oc_response :: "nat option"
  oc_done :: "nat option"

text \<open>
  \<open>conn_set\<close> and \<open>services_set\<close> say whether \<^verbatim>\<open>_conn\<close> and \<^verbatim>\<open>_services\<close> are non-null; the services
  themselves are the server's, shared by all its channels. \<open>objects\<close> and \<open>closures\<close> are the
  live objects, \<open>fresh\<close> the next address \<^verbatim>\<open>new\<close> returns. The user's own state is the
  extension of the record. The map \<^verbatim>\<open>_outstandings\<close> is an association list with distinct keys.
\<close>

record 'v rpc_channel =
  conn_set :: bool
  call_id :: "64 word"
  outstandings :: "(64 word \<times> OutstandingCall) list"
  services_set :: bool
  objects :: "nat \<Rightarrow> 'v option"
  closures :: "nat set"
  fresh :: nat
  sent :: "byte list list"

text \<open>
  The user's side. \<open>msg_parse\<close> parses into an existing message: what the message then holds, and
  whether it succeeded. \<open>call_method\<close> is \<^verbatim>\<open>service->CallMethod\<close> with the request, the response
  object and the identifier that the channel binds into the completion closure; the service may
  complete the call (\<open>doneCallback\<close>) before it returns or later. \<open>run_done\<close> is \<^verbatim>\<open>done->Run()\<close> of a
  client's closure, which may use the channel again.
\<close>

record ('v, 'sv, 'md, 's) rpc_lib =
  msg_serialize :: "'v \<Rightarrow> byte list"
  msg_parse :: "'v \<Rightarrow> byte list \<Rightarrow> 'v \<times> bool"
  find_method :: "'sv \<Rightarrow> byte list \<Rightarrow> 'md option"
  request_new :: "'sv \<Rightarrow> 'md \<Rightarrow> 'v"
  response_new :: "'sv \<Rightarrow> 'md \<Rightarrow> 'v"
  call_method :: "'sv \<Rightarrow> 'md \<Rightarrow> 'v \<Rightarrow> nat \<Rightarrow> 64 word \<Rightarrow> 's \<Rightarrow> 's result"
  run_done :: "nat \<Rightarrow> 's \<Rightarrow> 's result"

text \<open>
  The two constructors. The first zeroes the call counter; the second, which \<^verbatim>\<open>RpcServer\<close> uses, does
  not initialise it, so that it starts with what is in memory (\<open>junk\<close>).
\<close>

definition RpcChannel_default :: "'v rpc_channel" where
  "RpcChannel_default = \<lparr>conn_set = False, call_id = 0, outstandings = [], services_set = False,
     objects = (\<lambda>a. None), closures = {}, fresh = 0, sent = []\<rparr>"

definition RpcChannel_conn :: "64 word \<Rightarrow> 'v rpc_channel" where
  "RpcChannel_conn junk = \<lparr>conn_set = True, call_id = junk, outstandings = [],
     services_set = False, objects = (\<lambda>a. None), closures = {}, fresh = 0, sent = []\<rparr>"

definition setConnection :: "('v, 'z) rpc_channel_scheme \<Rightarrow> ('v, 'z) rpc_channel_scheme" where
  "setConnection s = s\<lparr>conn_set := True\<rparr>"

definition setServices :: "('v, 'z) rpc_channel_scheme \<Rightarrow> ('v, 'z) rpc_channel_scheme" where
  "setServices s = s\<lparr>services_set := True\<rparr>"

section \<open>Objects\<close>

definition new_object :: "'v \<Rightarrow> ('v, 'z) rpc_channel_scheme \<Rightarrow> nat \<times> ('v, 'z) rpc_channel_scheme" where
  "new_object v s = (fresh s, s\<lparr>objects := (objects s)(fresh s := Some v), fresh := Suc (fresh s)\<rparr>)"

definition read_object :: "nat \<Rightarrow> ('v, 'z) rpc_channel_scheme \<Rightarrow> 'v result" where
  "read_object a s = (case objects s a of Some v \<Rightarrow> Inr v | None \<Rightarrow> Inl UseAfterFree)"

definition write_object ::
  "nat \<Rightarrow> 'v \<Rightarrow> ('v, 'z) rpc_channel_scheme \<Rightarrow> ('v, 'z) rpc_channel_scheme result" where
  "write_object a v s =
     (case objects s a of
        Some _ \<Rightarrow> Inr (s\<lparr>objects := (objects s)(a := Some v)\<rparr>) | None \<Rightarrow> Inl UseAfterFree)"

definition delete_object :: "nat \<Rightarrow> ('v, 'z) rpc_channel_scheme \<Rightarrow> ('v, 'z) rpc_channel_scheme result" where
  "delete_object a s =
     (case objects s a of
        Some _ \<Rightarrow> Inr (s\<lparr>objects := (objects s)(a := None)\<rparr>) | None \<Rightarrow> Inl UseAfterFree)"

definition delete_closure :: "nat \<Rightarrow> ('v, 'z) rpc_channel_scheme \<Rightarrow> ('v, 'z) rpc_channel_scheme result" where
  "delete_closure a s =
     (if a \<in> closures s then Inr (s\<lparr>closures := closures s - {a}\<rparr>) else Inl UseAfterFree)"

text \<open>\<^verbatim>\<open>delete\<close> of a pointer that may be null, which does nothing then.\<close>

definition delete_opt ::
  "(nat \<Rightarrow> 's \<Rightarrow> 's result) \<Rightarrow> nat option \<Rightarrow> 's \<Rightarrow> 's result" where
  "delete_opt del p s = (case p of None \<Rightarrow> Inr s | Some a \<Rightarrow> del a s)"

text \<open>
  \<^verbatim>\<open>done->Run()\<close>: the closures made by \<^verbatim>\<open>google::protobuf::NewCallback\<close> delete themselves after they
  ran.
\<close>

definition run_closure ::
  "('v, 'sv, 'md, ('v, 'z) rpc_channel_scheme) rpc_lib \<Rightarrow> nat
    \<Rightarrow> ('v, 'z) rpc_channel_scheme \<Rightarrow> ('v, 'z) rpc_channel_scheme result" where
  "run_closure lib a s =
     (if a \<in> closures s then andThen (run_done lib a s) (delete_closure a) else Inl UseAfterFree)"

section \<open>Sending\<close>

text \<open>The channel's codec as far as \<^verbatim>\<open>send\<close> uses it: its tag.\<close>

definition send_codec :: "(unit, 'u RpcMetaMessage) codec" where
  "send_codec = ProtobufCodecLite rpc_tag (\<lambda>s m. Inr s)"

definition channel_send ::
  "'u RpcMetaMessage codec_env \<Rightarrow> 'u RpcMetaMessage
    \<Rightarrow> ('v, 'z) rpc_channel_scheme \<Rightarrow> ('v, 'z) rpc_channel_scheme result" where
  "channel_send env message s =
     andThen (codec_send env send_codec message)
       (\<lambda>msg. if conn_set s then Inr (s\<lparr>sent := sent s @ [msg]\<rparr>) else Inl NullDeref)"

section \<open>The client: starting a call\<close>

definition incrementAndGet ::
  "('v, 'z) rpc_channel_scheme \<Rightarrow> 64 word \<times> ('v, 'z) rpc_channel_scheme" where
  "incrementAndGet s = (call_id s + 1, s\<lparr>call_id := call_id s + 1\<rparr>)"

record rpc_method =
  service_full_name :: "byte list"
  method_name :: "byte list"

definition CallMethod ::
  "'u RpcMetaMessage codec_env \<Rightarrow> ('u, 'p) pb
    \<Rightarrow> ('v, 'sv, 'md, ('v, 'z) rpc_channel_scheme) rpc_lib
    \<Rightarrow> rpc_method \<Rightarrow> 'v \<Rightarrow> nat option \<Rightarrow> nat option
    \<Rightarrow> ('v, 'z) rpc_channel_scheme \<Rightarrow> ('v, 'z) rpc_channel_scheme result" where
  "CallMethod env rt lib method request response done_ptr s =
     andThen (set_type REQUEST (SharedCtor rt))
       (\<lambda>message.
          let (id, s1) = incrementAndGet s;
              message = set_id id message;
              message = set_service (service_full_name method) message;
              message = set_method (method_name method) message;
              message = set_request (msg_serialize lib request) message;
              out = \<lparr>oc_response = response, oc_done = done_ptr\<rparr>;
              s2 = s1\<lparr>outstandings := AList.update id out (outstandings s1)\<rparr>
          in channel_send env message s2)"

section \<open>Both sides: a message arrived\<close>

definition doneCallback ::
  "'u RpcMetaMessage codec_env \<Rightarrow> ('u, 'p) pb
    \<Rightarrow> ('v, 'sv, 'md, ('v, 'z) rpc_channel_scheme) rpc_lib
    \<Rightarrow> nat \<Rightarrow> 64 word \<Rightarrow> ('v, 'z) rpc_channel_scheme \<Rightarrow> ('v, 'z) rpc_channel_scheme result" where
  "doneCallback env rt lib response msg_id s =
     andThen (set_type RESPONSE (SharedCtor rt))
       (\<lambda>message. andThen (read_object response s)
       (\<lambda>v. let message = set_response (msg_serialize lib v) (set_id msg_id message)
            in andThen (channel_send env message s) (delete_object response)))"

definition on_response ::
  "('v, 'sv, 'md, ('v, 'z) rpc_channel_scheme) rpc_lib \<Rightarrow> 'u RpcMetaMessage
    \<Rightarrow> ('v, 'z) rpc_channel_scheme \<Rightarrow> ('v, 'z) rpc_channel_scheme result" where
  "on_response lib message s =
     (let id = get_id message;
          (out, s1) = (case map_of (outstandings s) id of
              Some oc \<Rightarrow> (oc, s\<lparr>outstandings := AList.delete id (outstandings s)\<rparr>)
            | None \<Rightarrow> (\<lparr>oc_response = None, oc_done = None\<rparr>, s))
      in case oc_response out of
           None \<Rightarrow> Inr s1
         | Some r \<Rightarrow>
             andThen (if has_response message
                      then andThen (read_object r s1)
                             (\<lambda>v. write_object r (fst (msg_parse lib v (get_response message))) s1)
                      else Inr s1)
               (\<lambda>s2. andThen (case oc_done out of Some d \<Rightarrow> run_closure lib d s2 | None \<Rightarrow> Inr s2)
               (delete_object r)))"

text \<open>
  A request: the error code the code computes, and the state after the service was called. An
  error is answered with a message of type \<^verbatim>\<open>RESPONSE\<close>.
\<close>

definition dispatch_request ::
  "('v, 'sv, 'md, ('v, 'z) rpc_channel_scheme) rpc_lib \<Rightarrow> (byte list \<Rightarrow> 'sv option option)
    \<Rightarrow> 'u RpcMetaMessage \<Rightarrow> ('v, 'z) rpc_channel_scheme
    \<Rightarrow> (int32 \<times> ('v, 'z) rpc_channel_scheme) result" where
  "dispatch_request lib services message s =
     (if services_set s then
        (case services (get_service message) of
           None \<Rightarrow> Inr (NO_SERVICE, s)
         | Some None \<Rightarrow> Inl Aborted
         | Some (Some service) \<Rightarrow>
             (case find_method lib service (get_method message) of
                None \<Rightarrow> Inr (NO_METHOD, s)
              | Some method \<Rightarrow>
                  (case msg_parse lib (request_new lib service method) (get_request message) of
                     (request, False) \<Rightarrow> Inr (INVALID_REQUEST, s)
                   | (request, True) \<Rightarrow>
                       let (response, s1) = new_object (response_new lib service method) s;
                           id = get_id message
                       in andThen (call_method lib service method request response id s1)
                            (\<lambda>s2. Inr (NO_ERROR, s2)))))
      else Inr (NO_SERVICE, s))"

definition send_error ::
  "'u RpcMetaMessage codec_env \<Rightarrow> ('u, 'p) pb \<Rightarrow> 64 word \<Rightarrow> int32
    \<Rightarrow> ('v, 'z) rpc_channel_scheme \<Rightarrow> ('v, 'z) rpc_channel_scheme result" where
  "send_error env rt msg_id err s =
     andThen (set_type RESPONSE (SharedCtor rt))
       (\<lambda>response. andThen (set_error err (set_id msg_id response))
       (\<lambda>response. channel_send env response s))"

definition onRpcMessage ::
  "'u RpcMetaMessage codec_env \<Rightarrow> ('u, 'p) pb
    \<Rightarrow> ('v, 'sv, 'md, ('v, 'z) rpc_channel_scheme) rpc_lib \<Rightarrow> (byte list \<Rightarrow> 'sv option option)
    \<Rightarrow> ('v, 'z) rpc_channel_scheme \<Rightarrow> 'u RpcMetaMessage \<Rightarrow> ('v, 'z) rpc_channel_scheme result" where
  "onRpcMessage env rt lib services s message =
     (if get_type message = RESPONSE then on_response lib message s
      else if get_type message = REQUEST then
        andThen (dispatch_request lib services message s)
          (\<lambda>(err, s'). if err \<noteq> NO_ERROR then send_error env rt (get_id message) err s' else Inr s')
      else if get_type message = ERROR then Inr s
      else Inr s)"

text \<open>The channel's codec, and \<^verbatim>\<open>RpcChannel::onMessage\<close>, which hands the buffer to it.\<close>

definition channel_codec ::
  "'u RpcMetaMessage codec_env \<Rightarrow> ('u, 'p) pb
    \<Rightarrow> ('v, 'sv, 'md, ('v, 'z) rpc_channel_scheme) rpc_lib \<Rightarrow> (byte list \<Rightarrow> 'sv option option)
    \<Rightarrow> (('v, 'z) rpc_channel_scheme, 'u RpcMetaMessage) codec" where
  "channel_codec env rt lib services = ProtobufCodecLite rpc_tag (onRpcMessage env rt lib services)"

definition channel_onMessage ::
  "'u RpcMetaMessage codec_env \<Rightarrow> ('u, 'p) pb
    \<Rightarrow> ('v, 'sv, 'md, ('v, 'z) rpc_channel_scheme) rpc_lib \<Rightarrow> (byte list \<Rightarrow> 'sv option option)
    \<Rightarrow> ('v, 'z) rpc_channel_scheme \<Rightarrow> buffer \<Rightarrow> (('v, 'z) rpc_channel_scheme \<times> buffer) result" where
  "channel_onMessage env rt lib services s buf =
     onMessage env (channel_codec env rt lib services) s buf"

section \<open>Destruction\<close>

text \<open>
  The destructor deletes what the calls still outstanding hold, by increasing identifier (the key
  of the \<^verbatim>\<open>std::map\<close> is a signed integer).
\<close>

fun delete_outstandings ::
  "OutstandingCall list \<Rightarrow> ('v, 'z) rpc_channel_scheme \<Rightarrow> ('v, 'z) rpc_channel_scheme result" where
  "delete_outstandings [] s = Inr s"
| "delete_outstandings (out # outs) s =
     andThen (delete_opt delete_object (oc_response out) s)
       (\<lambda>s1. andThen (delete_opt delete_closure (oc_done out) s1) (delete_outstandings outs))"

definition RpcChannel_dtor ::
  "('v, 'z) rpc_channel_scheme \<Rightarrow> ('v, 'z) rpc_channel_scheme result" where
  "RpcChannel_dtor s =
     delete_outstandings (map snd (sort_key (\<lambda>e. sint (fst e)) (outstandings s))) s"

section \<open>The messages the channel builds\<close>

definition request_msg ::
  "('u, 'p) pb \<Rightarrow> 64 word \<Rightarrow> rpc_method \<Rightarrow> byte list \<Rightarrow> 'u RpcMetaMessage" where
  "request_msg rt i method req =
     set_request req (set_method (method_name method) (set_service (service_full_name method)
       (set_id i (put_type REQUEST (SharedCtor rt)))))"

definition response_msg :: "('u, 'p) pb \<Rightarrow> 64 word \<Rightarrow> byte list \<Rightarrow> 'u RpcMetaMessage" where
  "response_msg rt i res = set_response res (set_id i (put_type RESPONSE (SharedCtor rt)))"

definition error_msg :: "('u, 'p) pb \<Rightarrow> 64 word \<Rightarrow> int32 \<Rightarrow> 'u RpcMetaMessage" where
  "error_msg rt i err = put_error err (set_id i (put_type RESPONSE (SharedCtor rt)))"

lemmas built_msg_defs = request_msg_def response_msg_def error_msg_def

lemma built_msg_sel [simp]:
  "get_type (request_msg rt i mt req) = REQUEST" "get_type (response_msg rt i res) = RESPONSE"
  "get_type (error_msg rt i err) = RESPONSE" "get_id (request_msg rt i mt req) = i"
  "get_id (response_msg rt i res) = i" "get_id (error_msg rt i err) = i"
  "get_service (request_msg rt i mt req) = service_full_name mt"
  "get_method (request_msg rt i mt req) = method_name mt" "get_request (request_msg rt i mt req) = req"
  "get_response (response_msg rt i res) = res" "has_response (response_msg rt i res)"
  "\<not> has_response (error_msg rt i err)" "has_error (error_msg rt i err)"
  "get_error (error_msg rt i err) = err" "\<not> has_error (response_msg rt i res)"
  by (simp_all add: built_msg_defs string_defs scalar_defs presence_bits SharedCtor_def)

lemma built_msg_ok [simp]:
  "msg_ok (request_msg rt i mt req)" "msg_ok (response_msg rt i res)"
  "ErrorCode_IsValid err \<Longrightarrow> msg_ok (error_msg rt i err)"
  "IsInitialized (request_msg rt i mt req)" "IsInitialized (response_msg rt i res)"
  "IsInitialized (error_msg rt i err)"
  by (simp_all add: built_msg_defs put_keeps_ok SharedCtor_ok)
    (simp_all add: IsInitialized_iff presence_bits string_defs scalar_defs)

text \<open>What bounds the size of a message the channel sends.\<close>

definition sendable :: "('u, 'p) pb \<Rightarrow> 'u RpcMetaMessage \<Rightarrow> bool" where
  "sendable rt m \<longleftrightarrow> plain rt m \<and> IsInitialized m
     \<and> int (length (InternalSerialize rt m) + 8) \<le> kMaxMessageLen"

lemma plain_built:
  "length (service_full_name mt) < 2 ^ 31 \<Longrightarrow> length (method_name mt) < 2 ^ 31 \<Longrightarrow> length req < 2 ^ 31
     \<Longrightarrow> plain rt (request_msg rt i mt req)"
  "length res < 2 ^ 31 \<Longrightarrow> plain rt (response_msg rt i res)"
  "ErrorCode_IsValid err \<Longrightarrow> plain rt (error_msg rt i err)"
  by (simp_all add: plain_def) (simp_all add: built_msg_defs string_defs scalar_defs SharedCtor_def)

lemma set_type_enums [simp]:
  "set_type REQUEST m = Inr (put_type REQUEST m)" "set_type RESPONSE m = Inr (put_type RESPONSE m)"
  by (simp_all add: set_type_def)

lemma tag_send_codec [simp]: "tag send_codec = rpc_tag" "tag (channel_codec env rt lib sv) = rpc_tag"
  "messageCallback (channel_codec env rt lib sv) = onRpcMessage env rt lib sv"
  by (simp_all add: send_codec_def channel_codec_def ProtobufCodecLite_def)

definition started ::
  "nat option \<Rightarrow> nat option \<Rightarrow> ('v, 'z) rpc_channel_scheme \<Rightarrow> ('v, 'z) rpc_channel_scheme" where
  "started response done_ptr s =
     s\<lparr>call_id := call_id s + 1,
       outstandings := AList.update (call_id s + 1) \<lparr>oc_response = response, oc_done = done_ptr\<rparr> (outstandings s)\<rparr>"

lemma CallMethod_sends:
  "CallMethod env rt lib mt req response done_ptr s =
     channel_send env (request_msg rt (call_id s + 1) mt (msg_serialize lib req)) (started response done_ptr s)"
  by (simp add: CallMethod_def incrementAndGet_def Let_def request_msg_def started_def)

lemma doneCallback_sends:
  "doneCallback env rt lib a i s =
     andThen (read_object a s) (\<lambda>v. andThen (channel_send env (response_msg rt i (msg_serialize lib v)) s)
       (delete_object a))"
  by (simp add: doneCallback_def Let_def response_msg_def)

lemma send_error_sends:
  "ErrorCode_IsValid err \<Longrightarrow> send_error env rt i err s = channel_send env (error_msg rt i err) s"
  by (simp add: send_error_def set_error_def error_msg_def)

context pb_wire begin

lemma channel_send_ok:
  assumes "sendable rt m"
  shows "channel_send (rpc_env e adler rt) m s =
     (if conn_set s then Inr (s\<lparr>sent := sent s @ [frame (rpc_env e adler rt) rpc_tag m]\<rparr>) else Inl NullDeref)"
  using assms rpc.send_frame [where m = m and cd = send_codec and e = e and adler = adler]
  by (simp add: channel_send_def sendable_def rpc.short_def)

lemma channel_receives:
  assumes "buffer_ok b" "content b = concat (map (frame (rpc_env e adler rt) rpc_tag) ms)"
    and "\<forall>m \<in> set ms. sendable rt m"
  shows "\<exists>b'. buffer_ok b' \<and> content b' = [] \<and> (\<forall>s.
      channel_onMessage (rpc_env e adler rt) rt lib services s b
      = andThen (deliver (onRpcMessage (rpc_env e adler rt) rt lib services) s ms) (\<lambda>s'. Inr (s', b')))"
  using rpc.receive_frames [of b "channel_codec (rpc_env e adler rt) rt lib services" e adler ms] assms
  by (simp add: channel_onMessage_def sendable_def rpc.short_def add.commute)

end

section \<open>Serving requests\<close>

text \<open>The error a request is answered with, read off the message and the registered services.\<close>

definition request_error ::
  "('v, 'sv, 'md, ('v, 'z) rpc_channel_scheme) rpc_lib \<Rightarrow> (byte list \<Rightarrow> 'sv option option)
    \<Rightarrow> ('v, 'z) rpc_channel_scheme \<Rightarrow> 'u RpcMetaMessage \<Rightarrow> int32 option" where
  "request_error lib services s m =
     (if \<not> services_set s then Some NO_SERVICE
      else case services (get_service m) of
             None \<Rightarrow> Some NO_SERVICE
           | Some None \<Rightarrow> None
           | Some (Some sv) \<Rightarrow>
               (case find_method lib sv (get_method m) of
                  None \<Rightarrow> Some NO_METHOD
                | Some md \<Rightarrow>
                    if snd (msg_parse lib (request_new lib sv md) (get_request m)) then None
                    else Some INVALID_REQUEST))"

lemma request_error_valid:
  "request_error lib services s m = Some err \<Longrightarrow> ErrorCode_IsValid err \<and> err \<noteq> NO_ERROR"
  by (auto simp: request_error_def ErrorCode_IsValid_def enum_defs split: if_splits option.splits)

lemma dispatch_error:
  "request_error lib services s m = Some err \<Longrightarrow> dispatch_request lib services m s = Inr (err, s)"
  by (auto simp: request_error_def dispatch_request_def split: if_splits option.splits prod.splits bool.splits)

lemma type_distinct [simp]: "REQUEST \<noteq> RESPONSE" "RESPONSE \<noteq> REQUEST" "ERROR \<noteq> REQUEST" "ERROR \<noteq> RESPONSE"
  by (simp_all add: enum_defs)

definition serve_result ::
  "('v, 'sv, 'md, ('v, 'z) rpc_channel_scheme) rpc_lib \<Rightarrow> ('sv \<Rightarrow> 'md \<Rightarrow> 'v \<Rightarrow> 'v)
    \<Rightarrow> 'sv \<Rightarrow> 'md \<Rightarrow> byte list \<Rightarrow> byte list" where
  "serve_result lib handler sv md req =
     msg_serialize lib (handler sv md (fst (msg_parse lib (request_new lib sv md) req)))"

text \<open>Strings of altogether at most 32 MiB keep a message below the receiver's limit of 64 MiB.\<close>

definition string_bytes :: "'u RpcMetaMessage \<Rightarrow> nat" where
  "string_bytes m = length (service_field m) + length (method_field m) + length (request_field m)
     + length (response_field m)"

lemma string_bytes_built [simp]:
  "string_bytes (request_msg rt i mt req)
     = length (service_full_name mt) + length (method_name mt) + length req"
  "string_bytes (response_msg rt i res) = length res" "string_bytes (error_msg rt i err) = 0"
  by (simp_all add: string_bytes_def built_msg_defs string_defs scalar_defs SharedCtor_def)

context pb_wire begin

lemma sendable_built:
  "length (service_full_name mt) + length (method_name mt) + length req \<le> 2 ^ 25
     \<Longrightarrow> sendable rt (request_msg rt i mt req)"
  "length res \<le> 2 ^ 25 \<Longrightarrow> sendable rt (response_msg rt i res)"
  "ErrorCode_IsValid err \<Longrightarrow> sendable rt (error_msg rt i err)"
proof -
  have *: "sendable rt m" if "plain rt m" "IsInitialized m" "string_bytes m \<le> 2 ^ 25" for m
    using serialize_length [OF that(1)] that by (simp add: sendable_def string_bytes_def kMaxMessageLen_def)
  show "length (service_full_name mt) + length (method_name mt) + length req \<le> 2 ^ 25
     \<Longrightarrow> sendable rt (request_msg rt i mt req)"
    "length res \<le> 2 ^ 25 \<Longrightarrow> sendable rt (response_msg rt i res)"
    "ErrorCode_IsValid err \<Longrightarrow> sendable rt (error_msg rt i err)"
    by (rule *; simp add: plain_built)+
qed

end

text \<open>
  A service that computes its response from the request and completes the call before it
  returns.
\<close>

locale serving = pb_wire rt left pos
  for rt :: "('u, 'p) pb" and left :: "'p \<Rightarrow> nat" and pos :: "byte list \<Rightarrow> 'p" +
  fixes e :: endian
    and adler :: "64 word \<Rightarrow> byte list \<Rightarrow> 64 word"
    and lib :: "('v, 'sv, 'md, ('v, 'z) rpc_channel_scheme) rpc_lib"
    and handler :: "'sv \<Rightarrow> 'md \<Rightarrow> 'v \<Rightarrow> 'v"
  assumes call_law: "objects s a = Some v \<Longrightarrow>
      call_method lib sv md req a i s = doneCallback (rpc_env e adler rt) rt lib a i
        (s\<lparr>objects := (objects s)(a := Some (handler sv md req))\<rparr>)"
begin

abbreviation "env \<equiv> rpc_env e adler rt"

lemma answer_error:
  assumes "get_type m = REQUEST" "request_error lib services s m = Some err" "conn_set s"
  shows "onRpcMessage env rt lib services s m
    = Inr (s\<lparr>sent := sent s @ [frame env rpc_tag (error_msg rt (get_id m) err)]\<rparr>)"
proof -
  have v: "ErrorCode_IsValid err" "err \<noteq> NO_ERROR"
    using request_error_valid [OF assms(2)] by simp_all
  show ?thesis
    using assms(1,3) v
    by (simp add: onRpcMessage_def dispatch_error [OF assms(2)] send_error_sends channel_send_ok sendable_built)
qed

lemma answer_request:
  assumes "get_type m = REQUEST" "services_set s" "services (get_service m) = Some (Some sv)"
    and "find_method lib sv (get_method m) = Some md"
    and "snd (msg_parse lib (request_new lib sv md) (get_request m))"
    and "conn_set s" "length (serve_result lib handler sv md (get_request m)) \<le> 2 ^ 25"
  shows "onRpcMessage env rt lib services s m
    = Inr (s\<lparr>objects := (objects s)(fresh s := None), fresh := Suc (fresh s),
        sent := sent s @ [frame env rpc_tag (response_msg rt (get_id m) (serve_result lib handler sv md (get_request m)))]\<rparr>)"
proof -
  obtain req where req: "msg_parse lib (request_new lib sv md) (get_request m) = (req, True)"
    using assms(5) by (metis prod.collapse)
  define s1 where "s1 = s\<lparr>objects := (objects s)(fresh s := Some (response_new lib sv md)), fresh := Suc (fresh s)\<rparr>"
  have "call_method lib sv md req (fresh s) (get_id m) s1
      = doneCallback env rt lib (fresh s) (get_id m)
          (s1\<lparr>objects := (objects s1)(fresh s := Some (handler sv md req))\<rparr>)"
    by (rule call_law) (simp add: s1_def)
  moreover have "sendable rt (response_msg rt (get_id m) (msg_serialize lib (handler sv md req)))"
    using assms(7) by (intro sendable_built) (simp add: serve_result_def req)
  ultimately show ?thesis
    using assms(1-4,6) req
    by (simp add: onRpcMessage_def dispatch_request_def new_object_def Let_def doneCallback_sends
        read_object_def channel_send_ok delete_object_def serve_result_def s1_def)
qed

end

section \<open>Completing calls\<close>

text \<open>
  What a response does to a call that is outstanding with a response object and a closure, both
  alive: the entry is removed, the payload parsed into the object, the closure run and deleted,
  the object deleted.
\<close>

definition completed ::
  "('v, 'sv, 'md, ('v, 'z) rpc_channel_scheme) rpc_lib \<Rightarrow> 64 word \<Rightarrow> nat \<Rightarrow> nat \<Rightarrow> 'v
    \<Rightarrow> ('v, 'z) rpc_channel_scheme \<Rightarrow> ('v, 'z) rpc_channel_scheme result" where
  "completed lib i r d v s =
     andThen (run_done lib d (s\<lparr>outstandings := AList.delete i (outstandings s), objects := (objects s)(r := Some v)\<rparr>))
       (\<lambda>s1. andThen (delete_closure d s1) (delete_object r))"

lemma on_response_known:
  assumes "map_of (outstandings s) (get_id m) = Some \<lparr>oc_response = Some r, oc_done = Some d\<rparr>"
    and "objects s r = Some v" "d \<in> closures s"
  shows "on_response lib m s = completed lib (get_id m) r d
      (if has_response m then fst (msg_parse lib v (get_response m)) else v) s"
  using assms
  by (auto simp: on_response_def completed_def Let_def read_object_def write_object_def run_closure_def
      andThen_assoc fun_upd_idem)

lemma on_response_unknown: "map_of (outstandings s) (get_id m) = None \<Longrightarrow> on_response lib m s = Inr s"
  by (simp add: on_response_def)

section \<open>Ownership of response objects and closures\<close>

text \<open>
  How a client starts a call: it allocates the response object and the closure and passes both
  to \<^verbatim>\<open>CallMethod\<close>, which takes them over.
\<close>

definition new_closure :: "('v, 'z) rpc_channel_scheme \<Rightarrow> nat \<times> ('v, 'z) rpc_channel_scheme" where
  "new_closure s = (fresh s, s\<lparr>closures := insert (fresh s) (closures s), fresh := Suc (fresh s)\<rparr>)"

definition start_call ::
  "'u RpcMetaMessage codec_env \<Rightarrow> ('u, 'p) pb
    \<Rightarrow> ('v, 'sv, 'md, ('v, 'z) rpc_channel_scheme) rpc_lib
    \<Rightarrow> rpc_method \<Rightarrow> 'v \<Rightarrow> 'v \<Rightarrow> ('v, 'z) rpc_channel_scheme \<Rightarrow> ('v, 'z) rpc_channel_scheme result" where
  "start_call env rt lib mt req res s =
     (let (r, s1) = new_object res s; (d, s2) = new_closure s1
      in CallMethod env rt lib mt req (Some r) (Some d) s2)"

text \<open>What a client, in particular a completion closure, may do with the channel: start calls.\<close>

inductive client_steps ::
  "'u RpcMetaMessage codec_env \<Rightarrow> ('u, 'p) pb
    \<Rightarrow> ('v, 'sv, 'md, ('v, 'z) rpc_channel_scheme) rpc_lib
    \<Rightarrow> ('v, 'z) rpc_channel_scheme \<Rightarrow> ('v, 'z) rpc_channel_scheme \<Rightarrow> bool"
  for env rt lib s where
  stay: "client_steps env rt lib s s"
| call: "client_steps env rt lib s s1 \<Longrightarrow> start_call env rt lib mt req res s1 = Inr s2
    \<Longrightarrow> client_steps env rt lib s s2"
| own: "client_steps env rt lib s s1 \<Longrightarrow> client_steps env rt lib s (rpc_channel.more_update f s1)"

text \<open>
  The channel owns, for each outstanding call, one live object and one live closure, no two calls
  sharing one.
\<close>

definition owned :: "('v, 'z) rpc_channel_scheme \<Rightarrow> 64 word \<Rightarrow> (nat \<times> nat) option" where
  "owned s i =
     (case map_of (outstandings s) i of
        Some oc \<Rightarrow> (case (oc_response oc, oc_done oc) of (Some r, Some d) \<Rightarrow> Some (r, d) | _ \<Rightarrow> None)
      | None \<Rightarrow> None)"

definition chan_inv :: "('v, 'z) rpc_channel_scheme \<Rightarrow> bool" where
  "chan_inv s \<longleftrightarrow> distinct (map fst (outstandings s))
     \<and> (\<forall>i. map_of (outstandings s) i \<noteq> None \<longrightarrow> owned s i \<noteq> None)
     \<and> (\<forall>i r d. owned s i = Some (r, d) \<longrightarrow> objects s r \<noteq> None \<and> d \<in> closures s)
     \<and> (\<forall>i j r d r' d'. owned s i = Some (r, d) \<longrightarrow> owned s j = Some (r', d') \<longrightarrow> i \<noteq> j
          \<longrightarrow> r \<noteq> r' \<and> d \<noteq> d')
     \<and> (\<forall>r. objects s r \<noteq> None \<longrightarrow> r < fresh s) \<and> (\<forall>d \<in> closures s. d < fresh s)"

text \<open>An object, a closure that is alive and belongs to no outstanding call.\<close>

definition free_object :: "('v, 'z) rpc_channel_scheme \<Rightarrow> nat \<Rightarrow> bool" where
  "free_object s r \<longleftrightarrow> objects s r \<noteq> None \<and> (\<forall>i r' d. owned s i = Some (r', d) \<longrightarrow> r' \<noteq> r)"

definition free_closure :: "('v, 'z) rpc_channel_scheme \<Rightarrow> nat \<Rightarrow> bool" where
  "free_closure s d \<longleftrightarrow> d \<in> closures s \<and> (\<forall>i r d'. owned s i = Some (r, d') \<longrightarrow> d' \<noteq> d)"

lemma channel_send_state:
  "channel_send env m s = Inr s' \<Longrightarrow> \<exists>msg. s' = s\<lparr>sent := sent s @ [msg]\<rparr>"
  by (auto simp: channel_send_def andThen_eq_Inr split: if_splits)

lemma start_call_state:
  assumes "start_call env rt lib mt req res s = Inr s'"
  shows "\<exists>msg. s' = s\<lparr>objects := (objects s)(fresh s := Some res),
      closures := insert (Suc (fresh s)) (closures s), fresh := Suc (Suc (fresh s)), call_id := call_id s + 1,
      outstandings := AList.update (call_id s + 1)
        \<lparr>oc_response = Some (fresh s), oc_done = Some (Suc (fresh s))\<rparr> (outstandings s),
      sent := sent s @ [msg]\<rparr>"
  using assms
  by (auto simp: start_call_def Let_def new_object_def new_closure_def CallMethod_sends started_def
      dest!: channel_send_state)

lemma owned_update:
  "owned (s\<lparr>outstandings := AList.update i \<lparr>oc_response = Some r, oc_done = Some d\<rparr> (outstandings s)\<rparr>)
    = (owned s)(i := Some (r, d))"
  by (rule ext) (simp add: owned_def update_conv')

lemma owned_delete:
  "owned (s\<lparr>outstandings := AList.delete i (outstandings s)\<rparr>) = (owned s)(i := None)"
  by (rule ext) (simp add: owned_def delete_conv')

lemma owned_irrelevant [simp]:
  "owned (s\<lparr>objects := ob\<rparr>) = owned s" "owned (s\<lparr>closures := cl\<rparr>) = owned s" "owned (s\<lparr>fresh := n\<rparr>) = owned s"
  "owned (s\<lparr>call_id := ci\<rparr>) = owned s" "owned (s\<lparr>sent := se\<rparr>) = owned s"
  "owned (rpc_channel.more_update f s) = owned s"
  by (rule ext, simp add: owned_def)+

lemma start_call_keeps:
  assumes "start_call env rt lib mt req res s = Inr s'" "chan_inv s"
  shows "chan_inv s'" "free_object s r \<Longrightarrow> free_object s' r" "free_closure s d \<Longrightarrow> free_closure s' d"
proof -
  obtain msg where s': "s' = s\<lparr>objects := (objects s)(fresh s := Some res),
      closures := insert (Suc (fresh s)) (closures s), fresh := Suc (Suc (fresh s)), call_id := call_id s + 1,
      outstandings := AList.update (call_id s + 1)
        \<lparr>oc_response = Some (fresh s), oc_done = Some (Suc (fresh s))\<rparr> (outstandings s),
      sent := sent s @ [msg]\<rparr>"
    using start_call_state [OF assms(1)] by blast
  have ow: "owned s' = (owned s)(call_id s + 1 := Some (fresh s, Suc (fresh s)))"
    by (rule ext) (simp add: s' owned_def update_conv')
  have inv: "distinct (map fst (outstandings s))"
      "\<And>i. map_of (outstandings s) i \<noteq> None \<Longrightarrow> owned s i \<noteq> None"
      "\<And>i r d. owned s i = Some (r, d) \<Longrightarrow> objects s r \<noteq> None \<and> d \<in> closures s"
      "\<And>i j r d r' d'. owned s i = Some (r, d) \<Longrightarrow> owned s j = Some (r', d') \<Longrightarrow> i \<noteq> j \<Longrightarrow> r \<noteq> r' \<and> d \<noteq> d'"
      "\<And>r. objects s r \<noteq> None \<Longrightarrow> r < fresh s" "\<And>d. d \<in> closures s \<Longrightarrow> d < fresh s"
    using assms(2) unfolding chan_inv_def by blast+
  have new: "objects s (fresh s) = None" "Suc (fresh s) \<notin> closures s"
    using inv(5) [of "fresh s"] inv(6) [of "Suc (fresh s)"] by (cases "objects s (fresh s)"; force)+
  have lt: "owned s i = Some (r, d) \<Longrightarrow> r < fresh s \<and> d < fresh s" for i r d
    using inv(3) inv(5,6) by blast
  show "chan_inv s'"
    unfolding chan_inv_def ow
  proof (intro conjI allI impI ballI)
    show "distinct (map fst (outstandings s'))"
      using inv(1) by (simp add: s' distinct_update)
    fix i
    show "((owned s)(call_id s + 1 \<mapsto> (fresh s, Suc (fresh s)))) i \<noteq> None" if "map_of (outstandings s') i \<noteq> None"
      using that inv(2) by (auto simp: s' update_conv' split: if_splits)
    fix r d
    assume i: "((owned s)(call_id s + 1 \<mapsto> (fresh s, Suc (fresh s)))) i = Some (r, d)"
    then show "objects s' r \<noteq> None" "d \<in> closures s'"
      using inv(3) by (auto simp: s' split: if_splits)
    fix j r' d'
    assume j: "((owned s)(call_id s + 1 \<mapsto> (fresh s, Suc (fresh s)))) j = Some (r', d')" "i \<noteq> j"
    from i j show "r \<noteq> r'" "d \<noteq> d'"
      using inv(4) [of i r d j r' d'] lt [of i r d] lt [of j r' d'] by (auto split: if_splits)
  next
    fix r assume "objects s' r \<noteq> None"
    then show "r < fresh s'"
      using inv(5) [of r] by (auto simp: s' split: if_splits)
  next
    fix d assume "d \<in> closures s'"
    then show "d < fresh s'"
      using inv(6) [of d] by (auto simp: s')
  qed
  show "free_object s r \<Longrightarrow> free_object s' r"
    using new inv(5) [of r] unfolding free_object_def ow by (auto simp: s')
  show "free_closure s d \<Longrightarrow> free_closure s' d"
    using new inv(6) [of d] unfolding free_closure_def ow by (auto simp: s')
qed

lemma own_keeps [simp]:
  "chan_inv (rpc_channel.more_update f s) = chan_inv s"
  "free_object (rpc_channel.more_update f s) r = free_object s r"
  "free_closure (rpc_channel.more_update f s) d = free_closure s d"
  by (simp_all add: chan_inv_def free_object_def free_closure_def)

lemma client_steps_keep:
  assumes "client_steps env rt lib s s'" "chan_inv s"
  shows "chan_inv s' \<and> (\<forall>r. free_object s r \<longrightarrow> free_object s' r) \<and> (\<forall>d. free_closure s d \<longrightarrow> free_closure s' d)"
  using assms(1)
proof induction
  case stay
  with assms(2) show ?case by simp
next
  case (call s1 mt req res s2)
  then show ?case using start_call_keeps [OF call.hyps(2)] by blast
next
  case (own s1 f)
  then show ?case by simp
qed

lemma remove_call_keeps:
  assumes "chan_inv s" "owned s i = Some (r, d)"
  defines "s1 \<equiv> s\<lparr>outstandings := AList.delete i (outstandings s)\<rparr>"
  shows "chan_inv s1" "free_object s1 r" "free_closure s1 d"
proof -
  have ow: "owned s1 = (owned s)(i := None)"
    by (rule ext) (simp add: s1_def owned_def delete_conv')
  have inv: "distinct (map fst (outstandings s))"
      "\<And>i. map_of (outstandings s) i \<noteq> None \<Longrightarrow> owned s i \<noteq> None"
      "\<And>i r d. owned s i = Some (r, d) \<Longrightarrow> objects s r \<noteq> None \<and> d \<in> closures s"
      "\<And>i j r d r' d'. owned s i = Some (r, d) \<Longrightarrow> owned s j = Some (r', d') \<Longrightarrow> i \<noteq> j \<Longrightarrow> r \<noteq> r' \<and> d \<noteq> d'"
      "\<And>r. objects s r \<noteq> None \<Longrightarrow> r < fresh s" "\<And>d. d \<in> closures s \<Longrightarrow> d < fresh s"
    using assms(1) unfolding chan_inv_def by blast+
  show "chan_inv s1"
    unfolding chan_inv_def ow
  proof (intro conjI allI impI ballI)
    show "distinct (map fst (outstandings s1))"
      using inv(1) by (simp add: s1_def distinct_delete)
    fix j
    show "((owned s)(i := None)) j \<noteq> None" if "map_of (outstandings s1) j \<noteq> None"
      using that inv(2) by (auto simp: s1_def delete_conv' split: if_splits)
    fix r d assume j: "((owned s)(i := None)) j = Some (r, d)"
    then show "objects s1 r \<noteq> None" "d \<in> closures s1"
      using inv(3) by (auto simp: s1_def split: if_splits)
    fix k r' d' assume "((owned s)(i := None)) k = Some (r', d')" "j \<noteq> k"
    with j show "r \<noteq> r'" "d \<noteq> d'"
      using inv(4) [of j r d k r' d'] by (auto split: if_splits)
  qed (use inv(5,6) in \<open>auto simp: s1_def\<close>)
  show "free_object s1 r"
    using inv(3) [OF assms(2)] inv(4) [OF assms(2)]
    unfolding free_object_def ow by (auto simp: s1_def)
  show "free_closure s1 d"
    using inv(3) [OF assms(2)] inv(4) [OF assms(2)]
    unfolding free_closure_def ow by (auto simp: s1_def)
qed

lemma delete_free_keeps:
  assumes "chan_inv s"
  shows "free_object s r \<Longrightarrow> \<exists>s'. delete_object r s = Inr s' \<and> chan_inv s'
      \<and> (\<forall>d. free_closure s d \<longrightarrow> free_closure s' d)"
    and "free_closure s d \<Longrightarrow> \<exists>s'. delete_closure d s = Inr s' \<and> chan_inv s'
      \<and> (\<forall>r. free_object s r \<longrightarrow> free_object s' r)"
  using assms
  by (auto simp: delete_object_def delete_closure_def free_object_def free_closure_def chan_inv_def)


text \<open>
  The contract of a client's closures: they only start calls and change the client's own state,
  and do not use dead objects themselves.
\<close>

locale rpc_client =
  fixes env :: "'u RpcMetaMessage codec_env"
    and rt :: "('u, 'p) pb"
    and lib :: "('v, 'sv, 'md, ('v, 'z) rpc_channel_scheme) rpc_lib"
  assumes run_law: "run_done lib d s = Inr s' \<Longrightarrow> client_steps env rt lib s s'"
    and run_safe: "run_done lib d s \<noteq> Inl UseAfterFree"
begin

lemma write_keeps:
  assumes "chan_inv s" "free_object s r" "free_closure s d"
  shows "\<exists>v s'. read_object r s = Inr v \<and> write_object r v' s = Inr s' \<and> chan_inv s'
    \<and> free_object s' r \<and> free_closure s' d"
  using assms
  by (auto simp: read_object_def write_object_def free_object_def free_closure_def chan_inv_def
      split: option.split)

lemma response_keeps:
  assumes "chan_inv s"
  shows "on_response lib m s \<noteq> Inl UseAfterFree \<and> (\<forall>s'. on_response lib m s = Inr s' \<longrightarrow> chan_inv s')"
proof (cases "owned s (get_id m)")
  case None
  then have "map_of (outstandings s) (get_id m) = None"
    using assms unfolding chan_inv_def by blast
  then show ?thesis
    using assms by (simp add: on_response_unknown)
next
  case (Some rd)
  obtain r d where rd: "rd = (r, d)" by fastforce
  then have out: "map_of (outstandings s) (get_id m) = Some \<lparr>oc_response = Some r, oc_done = Some d\<rparr>"
    using Some by (auto simp: owned_def split: option.splits)
  obtain v where alive: "objects s r = Some v" "d \<in> closures s"
    using assms Some rd unfolding chan_inv_def by blast
  define s1 where "s1 = s\<lparr>outstandings := AList.delete (get_id m) (outstandings s)\<rparr>"
  note k = remove_call_keeps [OF assms Some [unfolded rd], folded s1_def]
  define v' where "v' = (if has_response m then fst (msg_parse lib v (get_response m)) else v)"
  define s2 where "s2 = s1\<lparr>objects := (objects s1)(r := Some v')\<rparr>"
  have s2: "chan_inv s2" "free_object s2 r" "free_closure s2 d"
    using k by (auto simp: s2_def chan_inv_def free_object_def free_closure_def)
  have run: "on_response lib m s = andThen (run_done lib d s2) (\<lambda>s1. andThen (delete_closure d s1) (delete_object r))"
    using on_response_known [of s m r d v lib] out alive
    by (simp add: completed_def s2_def s1_def v'_def)
  show ?thesis
  proof (cases "run_done lib d s2")
    case (Inl f)
    with run run_safe [of d s2] show ?thesis by auto
  next
    case (Inr s3)
    from client_steps_keep [OF run_law [OF Inr] s2(1)] s2
    have s3: "chan_inv s3" "free_object s3 r" "free_closure s3 d" by auto
    obtain s4 where s4: "delete_closure d s3 = Inr s4" "chan_inv s4" "free_object s4 r"
      using delete_free_keeps(2) [OF s3(1,3)] s3(2) by blast
    obtain s5 where "delete_object r s4 = Inr s5" "chan_inv s5"
      using delete_free_keeps(1) [OF s4(2,3)] by blast
    with run Inr s4 show ?thesis by simp
  qed
qed

end

lemma delete_outstandings_ok:
  assumes "distinct (map oc_response outs)" "distinct (map oc_done outs)"
    and "\<forall>oc \<in> set outs. \<exists>r d. oc = \<lparr>oc_response = Some r, oc_done = Some d\<rparr> \<and> objects s r \<noteq> None \<and> d \<in> closures s"
  shows "\<exists>s'. delete_outstandings outs s = Inr s'
    \<and> (\<forall>oc \<in> set outs. \<forall>r d. oc = \<lparr>oc_response = Some r, oc_done = Some d\<rparr> \<longrightarrow> objects s' r = None \<and> d \<notin> closures s')
    \<and> (\<forall>a. objects s a = None \<longrightarrow> objects s' a = None) \<and> closures s' \<subseteq> closures s"
  using assms
proof (induction outs arbitrary: s)
  case Nil
  then show ?case by simp
next
  case (Cons oc outs)
  then obtain r d where oc: "oc = \<lparr>oc_response = Some r, oc_done = Some d\<rparr>" "objects s r \<noteq> None" "d \<in> closures s"
    by auto
  define s1 where "s1 = s\<lparr>objects := (objects s)(r := None), closures := closures s - {d}\<rparr>"
  have step: "delete_outstandings (oc # outs) s = delete_outstandings outs s1"
    using oc by (auto simp: delete_opt_def delete_object_def delete_closure_def s1_def)
  have "\<forall>oc \<in> set outs. \<exists>r d. oc = \<lparr>oc_response = Some r, oc_done = Some d\<rparr> \<and> objects s1 r \<noteq> None \<and> d \<in> closures s1"
  proof
    fix oc' assume oc': "oc' \<in> set outs"
    with Cons.prems(3) obtain r' d' where rd: "oc' = \<lparr>oc_response = Some r', oc_done = Some d'\<rparr>"
        "objects s r' \<noteq> None" "d' \<in> closures s"
      by auto
    have "oc_response oc' \<noteq> oc_response oc" "oc_done oc' \<noteq> oc_done oc"
      using Cons.prems(1,2) oc' by (auto simp: image_iff)
    with rd oc(1) show "\<exists>r d. oc' = \<lparr>oc_response = Some r, oc_done = Some d\<rparr> \<and> objects s1 r \<noteq> None \<and> d \<in> closures s1"
      by (auto simp: s1_def)
  qed
  with Cons.IH [of s1] Cons.prems(1,2) obtain s' where s': "delete_outstandings outs s1 = Inr s'"
      "\<forall>oc \<in> set outs. \<forall>r d. oc = \<lparr>oc_response = Some r, oc_done = Some d\<rparr> \<longrightarrow> objects s' r = None \<and> d \<notin> closures s'"
      "\<forall>a. objects s1 a = None \<longrightarrow> objects s' a = None" "closures s' \<subseteq> closures s1"
    by auto
  then show ?case
    unfolding step using oc(1) by (auto simp: s1_def)
qed

lemma dtor_ok:
  assumes "chan_inv s"
  shows "\<exists>s'. RpcChannel_dtor s = Inr s' \<and> (\<forall>i r d. owned s i = Some (r, d) \<longrightarrow> objects s' r = None \<and> d \<notin> closures s')"
proof -
  define es where "es = sort_key (\<lambda>e. sint (fst e)) (outstandings s)"
  have set_es: "set es = set (outstandings s)" by (simp add: es_def)
  have dist: "distinct (map fst (outstandings s))"
    using assms by (simp add: chan_inv_def)
  then have "distinct (outstandings s)" by (simp add: distinct_map)
  then have des: "distinct es" by (simp add: es_def)
  have mem: "(i, oc) \<in> set es \<longleftrightarrow> map_of (outstandings s) i = Some oc" for i oc
    using dist by (simp add: set_es)
  have own: "\<exists>r d. oc = \<lparr>oc_response = Some r, oc_done = Some d\<rparr> \<and> owned s i = Some (r, d)
      \<and> objects s r \<noteq> None \<and> d \<in> closures s" if "(i, oc) \<in> set es" for i oc
  proof -
    from that have m: "map_of (outstandings s) i = Some oc" by (simp add: mem)
    with assms obtain r d where o: "owned s i = Some (r, d)"
      unfolding chan_inv_def by fastforce
    moreover have "oc = \<lparr>oc_response = Some r, oc_done = Some d\<rparr>"
      using m o by (cases oc) (auto simp: owned_def split: option.splits)
    ultimately show ?thesis
      using assms unfolding chan_inv_def by blast
  qed
  have inj: "inj_on (oc_response \<circ> snd) (set es)" "inj_on (oc_done \<circ> snd) (set es)"
  proof -
    have "i = j" if "(i, oc) \<in> set es" "(j, oc') \<in> set es"
      "oc_response oc = oc_response oc' \<or> oc_done oc = oc_done oc'" for i j oc oc'
    proof (rule ccontr)
      assume "i \<noteq> j"
      note o = own [OF that(1)] own [OF that(2)]
      from o obtain r d r' d' where "oc = \<lparr>oc_response = Some r, oc_done = Some d\<rparr>" "owned s i = Some (r, d)"
          "oc' = \<lparr>oc_response = Some r', oc_done = Some d'\<rparr>" "owned s j = Some (r', d')"
        by blast
      with assms that(3) \<open>i \<noteq> j\<close> show False
        unfolding chan_inv_def by fastforce
    qed
    then show "inj_on (oc_response \<circ> snd) (set es)" "inj_on (oc_done \<circ> snd) (set es)"
      using mem by (force intro!: inj_onI)+
  qed
  have d: "distinct (map oc_response (map snd es))" "distinct (map oc_done (map snd es))"
    by (simp_all only: list.map_comp distinct_map des inj simp_thms)
  have alive: "\<forall>oc \<in> set (map snd es). \<exists>r d. oc = \<lparr>oc_response = Some r, oc_done = Some d\<rparr>
      \<and> objects s r \<noteq> None \<and> d \<in> closures s"
  proof
    fix oc assume "oc \<in> set (map snd es)"
    then obtain i where "(i, oc) \<in> set es" by auto
    from own [OF this] show "\<exists>r d. oc = \<lparr>oc_response = Some r, oc_done = Some d\<rparr>
      \<and> objects s r \<noteq> None \<and> d \<in> closures s"
      by blast
  qed
  obtain s' where s': "delete_outstandings (map snd es) s = Inr s'"
      "\<forall>oc \<in> set (map snd es). \<forall>r d. oc = \<lparr>oc_response = Some r, oc_done = Some d\<rparr> \<longrightarrow> objects s' r = None \<and> d \<notin> closures s'"
    using delete_outstandings_ok [OF d alive] by blast
  have "objects s' r = None \<and> d \<notin> closures s'" if o: "owned s i = Some (r, d)" for i r d
  proof -
    obtain oc where m: "map_of (outstandings s) i = Some oc"
      using o by (auto simp: owned_def split: option.splits)
    then have "oc = \<lparr>oc_response = Some r, oc_done = Some d\<rparr>"
      using o by (cases oc) (auto simp: owned_def split: option.splits)
    moreover have "oc \<in> set (map snd es)"
      using m mem by force
    ultimately show ?thesis using s'(2) by blast
  qed
  with s'(1) show ?thesis
    by (auto simp: RpcChannel_dtor_def es_def)
qed

section \<open>Reachable client channels\<close>

inductive chan_reach ::
  "'u RpcMetaMessage codec_env \<Rightarrow> ('u, 'p) pb
    \<Rightarrow> ('v, 'sv, 'md, ('v, 'z) rpc_channel_scheme) rpc_lib
    \<Rightarrow> ('v, 'z) rpc_channel_scheme \<Rightarrow> bool"
  for env rt lib where
  new: "outstandings s = [] \<Longrightarrow> objects s = (\<lambda>a. None) \<Longrightarrow> closures s = {} \<Longrightarrow> chan_reach env rt lib s"
| calls: "chan_reach env rt lib s \<Longrightarrow> client_steps env rt lib s s' \<Longrightarrow> chan_reach env rt lib s'"
| arrives: "chan_reach env rt lib s \<Longrightarrow> services_set s \<longrightarrow> get_type m \<noteq> REQUEST
    \<Longrightarrow> onRpcMessage env rt lib services s m = Inr s' \<Longrightarrow> chan_reach env rt lib s'"

lemma chan_inv_new:
  "outstandings s = [] \<Longrightarrow> objects s = (\<lambda>a. None) \<Longrightarrow> closures s = {} \<Longrightarrow> chan_inv s"
  by (simp add: chan_inv_def owned_def)

lemma chan_inv_sent [simp]: "chan_inv (s\<lparr>sent := x\<rparr>) = chan_inv s"
  by (simp add: chan_inv_def)

lemma not_response:
  assumes "get_type m \<noteq> RESPONSE" "services_set s \<longrightarrow> get_type m \<noteq> REQUEST"
  shows "onRpcMessage env rt lib services s m =
    (if get_type m = REQUEST then channel_send env (error_msg rt (get_id m) NO_SERVICE) s else Inr s)"
proof -
  have "ErrorCode_IsValid NO_SERVICE" "NO_SERVICE \<noteq> NO_ERROR"
    by (simp_all add: ErrorCode_IsValid_def enum_defs)
  then show ?thesis
    using assms by (simp add: onRpcMessage_def dispatch_request_def send_error_sends)
qed

context rpc_client begin

lemma arrives_keeps:
  assumes "chan_inv s" "services_set s \<longrightarrow> get_type m \<noteq> REQUEST"
    and "onRpcMessage env rt lib services s m = Inr s'"
  shows "chan_inv s'"
proof (cases "get_type m = RESPONSE")
  case True
  then show ?thesis
    using response_keeps [OF assms(1), of m] assms(3) by (simp add: onRpcMessage_def)
next
  case False
  then show ?thesis
    using assms not_response [OF False assms(2), of env rt lib services]
    by (auto split: if_splits dest!: channel_send_state)
qed

lemma reach_inv: "chan_reach env rt lib s \<Longrightarrow> chan_inv s"
proof (induction rule: chan_reach.induct)
  case (new s)
  then show ?case by (rule chan_inv_new)
next
  case (calls s s')
  then show ?case using client_steps_keep by blast
next
  case (arrives s m services s')
  then show ?case using arrives_keeps by blast
qed

end

section \<open>Instances\<close>

text \<open>
  A service with one method, \<^verbatim>\<open>M\<close>, that answers with its request, and a client whose completion
  closures start the next call. Messages are byte strings, parsed from themselves.
\<close>

definition echo_base :: "(byte list, unit, unit, byte list rpc_channel) rpc_lib" where
  "echo_base = \<lparr>msg_serialize = (\<lambda>v. v), msg_parse = (\<lambda>v d. (d, True)),
     find_method = (\<lambda>sv n. if n = [77] then Some () else None), request_new = (\<lambda>sv md. []),
     response_new = (\<lambda>sv md. []), call_method = (\<lambda>sv md req a i s. Inr s), run_done = (\<lambda>d s. Inr s)\<rparr>"

definition echo_lib ::
  "endian \<Rightarrow> (64 word \<Rightarrow> byte list \<Rightarrow> 64 word) \<Rightarrow> ('u, 'p) pb
    \<Rightarrow> (byte list, unit, unit, byte list rpc_channel) rpc_lib" where
  "echo_lib e adler rt = echo_base\<lparr>call_method := \<lambda>sv md req a i s.
     andThen (write_object a req s) (doneCallback (rpc_env e adler rt) rt echo_base a i)\<rparr>"

definition echo_method :: rpc_method where
  "echo_method = \<lparr>service_full_name = [83], method_name = [77]\<rparr>"

definition echo_services :: "byte list \<Rightarrow> unit option option" where
  "echo_services n = (if n = [83] then Some (Some ()) else None)"

definition redial_lib ::
  "endian \<Rightarrow> (64 word \<Rightarrow> byte list \<Rightarrow> 64 word) \<Rightarrow> ('u, 'p) pb
    \<Rightarrow> (byte list, unit, unit, byte list rpc_channel) rpc_lib" where
  "redial_lib e adler rt = echo_base\<lparr>run_done := \<lambda>d s.
     start_call (rpc_env e adler rt) rt echo_base echo_method [1] [] s\<rparr>"

interpretation echo: serving wire_pb wire_left At Little adler32_spec
  "echo_lib Little adler32_spec wire_pb" "\<lambda>sv md req. req"
  by unfold_locales
    (simp add: echo_lib_def write_object_def doneCallback_sends)

interpretation redial: rpc_client "rpc_env Little adler32_spec wire_pb" wire_pb
  "redial_lib Little adler32_spec wire_pb"
proof unfold_locales
  fix d and s s' :: "byte list rpc_channel"
  have same: "start_call (rpc_env Little adler32_spec wire_pb) wire_pb (redial_lib Little adler32_spec wire_pb)
      = start_call (rpc_env Little adler32_spec wire_pb) wire_pb echo_base"
    by (rule ext)+ (simp add: start_call_def CallMethod_sends redial_lib_def)
  show "client_steps (rpc_env Little adler32_spec wire_pb) wire_pb (redial_lib Little adler32_spec wire_pb) s s'"
    if "run_done (redial_lib Little adler32_spec wire_pb) d s = Inr s'"
    using that client_steps.call [OF client_steps.stay, of "rpc_env Little adler32_spec wire_pb" wire_pb
      "redial_lib Little adler32_spec wire_pb" echo_method "[1]" "[]" s s']
    by (simp add: same) (simp add: redial_lib_def)
  have "sendable wire_pb (request_msg wire_pb i echo_method [1])" for i
    by (rule wire.sendable_built) (simp add: echo_method_def)
  then show "run_done (redial_lib Little adler32_spec wire_pb) d s \<noteq> Inl UseAfterFree"
    by (simp add: redial_lib_def start_call_def CallMethod_sends Let_def new_object_def new_closure_def
        wire.channel_send_ok echo_base_def)
qed

section \<open>Properties\<close>

abbreviation "demo_env \<equiv> rpc_env Little adler32_spec wire_pb"
abbreviation "demo_lib \<equiv> echo_lib Little adler32_spec wire_pb"

definition demo_client :: "byte list rpc_channel" where
  "demo_client = \<lparr>conn_set = True, call_id = 6, outstandings = [], services_set = False,
     objects = [0 \<mapsto> []], closures = {1}, fresh = 2, sent = []\<rparr>"

definition demo_server :: "byte list rpc_channel" where
  "demo_server = setServices (RpcChannel_conn 0)"

text \<open>
  \<^verbatim>\<open>CallMethod\<close> gives the call the next identifier, records response object and closure under it
  before anything is sent, and sends exactly one frame: that of a \<^verbatim>\<open>REQUEST\<close> with this
  identifier, the method's service and name and the serialised request. Without a connection
  it dereferences a null pointer.
\<close>

theorem call_sends_request:
  assumes "pb_wire rt left pos"
    and "length (service_full_name mt) + length (method_name mt) + length (msg_serialize lib req) \<le> 2 ^ 25"
  shows "CallMethod (rpc_env e adler rt) rt lib mt req response done_ptr s =
    (if conn_set s then
       Inr (s\<lparr>call_id := call_id s + 1,
         outstandings := AList.update (call_id s + 1) \<lparr>oc_response = response, oc_done = done_ptr\<rparr> (outstandings s),
         sent := sent s @ [frame (rpc_env e adler rt) rpc_tag
           (request_msg rt (call_id s + 1) mt (msg_serialize lib req))]\<rparr>)
     else Inl NullDeref)"
  using pb_wire.channel_send_ok [OF assms(1) pb_wire.sendable_built(1) [OF assms],
      of e adler "call_id s + 1" "started response done_ptr s"]
  by (simp add: CallMethod_sends started_def)

lemma call_sends_request_witness:
  "CallMethod demo_env wire_pb demo_lib echo_method [5] (Some 0) (Some 1) demo_client =
     Inr (demo_client\<lparr>call_id := 7, outstandings := [(7, \<lparr>oc_response = Some 0, oc_done = Some 1\<rparr>)],
       sent := [frame demo_env rpc_tag (request_msg wire_pb 7 echo_method [5])]\<rparr>)"
  using call_sends_request [OF wire.pb_wire_axioms, of echo_method demo_lib "[5]" Little adler32_spec
      "Some 0" "Some 1" demo_client]
  by (simp add: echo_method_def echo_lib_def echo_base_def demo_client_def)

text \<open>C16:
  A request for a registered service and an existing method, whose payload parses, is answered
  with exactly one frame: a \<^verbatim>\<open>RESPONSE\<close> with the identifier of the request and the serialised
  result of the method; the response object is deleted. This holds for every service that
  completes the call with the result of a function of the request.
\<close>

theorem request_answered:
  assumes "serving rt left pos e adler lib handler"
    and "get_type m = REQUEST" "services_set s" "services (get_service m) = Some (Some sv)"
    and "find_method lib sv (get_method m) = Some md"
    and "msg_parse lib (request_new lib sv md) (get_request m) = (req, True)"
    and "conn_set s" "length (msg_serialize lib (handler sv md req)) \<le> 2 ^ 25"
  shows "onRpcMessage (rpc_env e adler rt) rt lib services s m
    = Inr (s\<lparr>objects := (objects s)(fresh s := None), fresh := Suc (fresh s),
        sent := sent s @ [frame (rpc_env e adler rt) rpc_tag
          (response_msg rt (get_id m) (msg_serialize lib (handler sv md req)))]\<rparr>)"
  using serving.answer_request [of rt left pos e adler lib handler m s services sv md] assms
  by (simp add: serve_result_def)

lemma request_answered_witness:
  "onRpcMessage demo_env wire_pb demo_lib echo_services demo_server (request_msg wire_pb 7 echo_method [5])
     = Inr (demo_server\<lparr>fresh := 1, sent := [frame demo_env rpc_tag (response_msg wire_pb 7 [5])]\<rparr>)"
  using request_answered [OF echo.serving_axioms, of "request_msg wire_pb 7 echo_method [5]" demo_server
      echo_services "()" "()" "[5]"]
  by (simp add: echo_method_def echo_services_def echo_lib_def echo_base_def demo_server_def setServices_def
      RpcChannel_conn_def fun_upd_idem)

text \<open>C17:
  Every other request is refused with exactly one frame carrying its identifier and the error
  code of the first check that failed: no service table or no such service (\<^verbatim>\<open>NO_SERVICE\<close>), no
  such method (\<^verbatim>\<open>NO_METHOD\<close>), a payload that does not parse (\<^verbatim>\<open>INVALID_REQUEST\<close>). No service is
  called and no object stays allocated.
\<close>

theorem request_refused:
  assumes "pb_wire rt left pos" "get_type m = REQUEST" "conn_set s"
    and "request_error lib services s m = Some err"
  shows "onRpcMessage (rpc_env e adler rt) rt lib services s m
    = Inr (s\<lparr>sent := sent s @ [frame (rpc_env e adler rt) rpc_tag (error_msg rt (get_id m) err)]\<rparr>)"
  using request_error_valid [OF assms(4)] assms(2,3)
    pb_wire.channel_send_ok [OF assms(1) pb_wire.sendable_built(3) [OF assms(1)], of err e adler "get_id m" s]
  by (simp add: onRpcMessage_def dispatch_error [OF assms(4)] send_error_sends)

lemma request_refused_witness:
  "onRpcMessage demo_env wire_pb demo_lib (\<lambda>n. None) demo_server (request_msg wire_pb 7 echo_method [5])
     = Inr (demo_server\<lparr>sent := [frame demo_env rpc_tag (error_msg wire_pb 7 NO_SERVICE)]\<rparr>)"
  using request_refused [OF wire.pb_wire_axioms, of "request_msg wire_pb 7 echo_method [5]" demo_server
      demo_lib "\<lambda>n. None" NO_SERVICE Little adler32_spec]
  by (simp add: demo_server_def setServices_def RpcChannel_conn_def request_error_def)

text \<open>C18:
  The response to an outstanding call removes the call, parses the payload into the call's
  response object if there is one, runs the closure once while the object is alive, and deletes
  closure and object; a response with an identifier that is not outstanding, in particular a
  second one, changes nothing. An error response takes the first path: the error code is not
  looked at and the closure runs on an untouched object, as after a success.
\<close>

theorem response_completes:
  assumes "get_type m = RESPONSE"
  shows "(map_of (outstandings s) (get_id m) = None \<longrightarrow> onRpcMessage env rt lib services s m = Inr s)
    \<and> (map_of (outstandings s) (get_id m) = Some \<lparr>oc_response = Some r, oc_done = Some d\<rparr>
        \<and> objects s r = Some v \<and> d \<in> closures s \<longrightarrow>
       onRpcMessage env rt lib services s m =
         andThen (run_done lib d
           (s\<lparr>outstandings := AList.delete (get_id m) (outstandings s),
              objects := (objects s)(r := Some (if has_response m then fst (msg_parse lib v (get_response m)) else v))\<rparr>))
         (\<lambda>s1. andThen (delete_closure d s1) (delete_object r)))"
  using on_response_known [of s m r d v lib] on_response_unknown [of s m lib] assms
  by (simp add: onRpcMessage_def completed_def)

lemma response_completes_witness:
  "onRpcMessage demo_env wire_pb demo_lib (\<lambda>n. None)
     (demo_client\<lparr>outstandings := [(7, \<lparr>oc_response = Some 0, oc_done = Some 1\<rparr>)]\<rparr>) (error_msg wire_pb 7 NO_METHOD)
   = Inr (demo_client\<lparr>objects := (\<lambda>a. None), closures := {}\<rparr>)"
  using response_completes [of "error_msg wire_pb 7 NO_METHOD"
      "demo_client\<lparr>outstandings := [(7, \<lparr>oc_response = Some 0, oc_done = Some 1\<rparr>)]\<rparr>" demo_env wire_pb demo_lib
      "\<lambda>n. None" 0 1 "[]"]
  by (simp add: demo_client_def echo_lib_def echo_base_def delete_closure_def delete_object_def fun_upd_idem)

text \<open>
  A remote call end to end: the bytes the client's channel sends for a call, received by a server's
  channel in one buffer, make the server send the bytes that, received by the client's channel,
  complete the call with the result of the server's method on the client's request. Both
  input buffers are empty afterwards.
\<close>

theorem remote_call:
  assumes srv: "serving rt left pos e adler libs handler"
    and small: "length (service_full_name mt) + length (method_name mt) + length (msg_serialize libc req) \<le> 2 ^ 25"
      "length (serve_result libs handler sv md (msg_serialize libc req)) \<le> 2 ^ 25"
    and server: "services_set s" "conn_set s" "services (service_full_name mt) = Some (Some sv)"
      "find_method libs sv (method_name mt) = Some md"
      "snd (msg_parse libs (request_new libs sv md) (msg_serialize libc req))"
    and client: "objects c r = Some v" "d \<in> closures c"
    and called: "CallMethod (rpc_env e adler rt) rt libc mt req (Some r) (Some d) c = Inr c1"
    and arrives: "buffer_ok bs" "content bs = last (sent c1)"
  shows "\<exists>s1 bs1. channel_onMessage (rpc_env e adler rt) rt libs services s bs = Inr (s1, bs1)
    \<and> content bs1 = [] \<and> (\<forall>bc. buffer_ok bc \<and> content bc = last (sent s1) \<longrightarrow>
        (\<exists>bc1. content bc1 = [] \<and> channel_onMessage (rpc_env e adler rt) rt libc none_registered c1 bc =
          andThen (completed libc (call_id c + 1) r d
              (fst (msg_parse libc v (serve_result libs handler sv md (msg_serialize libc req)))) c1)
            (\<lambda>c2. Inr (c2, bc1))))"
proof -
  note wire = serving.axioms(1) [OF srv]
  define i where "i = call_id c + 1"
  define res where "res = serve_result libs handler sv md (msg_serialize libc req)"
  define m where "m = request_msg rt i mt (msg_serialize libc req)"
  note send_m = pb_wire.sendable_built(1) [OF wire small(1), of i, folded m_def]
  have c1: "conn_set c" "c1 = (started (Some r) (Some d) c)\<lparr>sent := sent c @ [frame (rpc_env e adler rt) rpc_tag m]\<rparr>"
    using called pb_wire.channel_send_ok [OF wire send_m, of e adler "started (Some r) (Some d) c"]
    by (auto simp: CallMethod_sends started_def m_def i_def split: if_splits)
  obtain bs1 where b1: "content bs1 = []" "\<And>s. channel_onMessage (rpc_env e adler rt) rt libs services s bs =
      andThen (onRpcMessage (rpc_env e adler rt) rt libs services s m) (\<lambda>s'. Inr (s', bs1))"
    using pb_wire.channel_receives [OF wire arrives(1), of e adler "[m]" libs services] arrives(2) send_m c1(2)
    by (auto simp: andThen_assoc)
  define m' where "m' = response_msg rt i res"
  note send_m' = pb_wire.sendable_built(2) [OF wire small(2), of i, folded res_def, folded m'_def]
  obtain s1 where s1: "onRpcMessage (rpc_env e adler rt) rt libs services s m = Inr s1"
      "last (sent s1) = frame (rpc_env e adler rt) rpc_tag m'"
    using serving.answer_request [OF srv, of m s services sv md] server small(2)
    by (simp add: m_def m'_def res_def i_def)
  have client_side: "\<exists>bc1. content bc1 = [] \<and> channel_onMessage (rpc_env e adler rt) rt libc none_registered c1 bc =
          andThen (completed libc i r d (fst (msg_parse libc v res)) c1) (\<lambda>c2. Inr (c2, bc1))"
    if bc: "buffer_ok bc" "content bc = last (sent s1)" for bc
  proof -
    obtain bc1 where bc1: "content bc1 = []" "\<And>s. channel_onMessage (rpc_env e adler rt) rt libc none_registered s bc =
        andThen (onRpcMessage (rpc_env e adler rt) rt libc none_registered s m') (\<lambda>s'. Inr (s', bc1))"
      using pb_wire.channel_receives [OF wire bc(1), of e adler "[m']" libc none_registered] bc(2) s1(2) send_m'
      by (auto simp: andThen_assoc)
    have "map_of (outstandings c1) i = Some \<lparr>oc_response = Some r, oc_done = Some d\<rparr>"
        "objects c1 r = Some v" "d \<in> closures c1"
      using client by (simp_all add: c1(2) started_def update_conv' i_def)
    then have "onRpcMessage (rpc_env e adler rt) rt libc none_registered c1 m'
        = completed libc i r d (fst (msg_parse libc v res)) c1"
      using on_response_known [of c1 m' r d v libc] by (simp add: onRpcMessage_def m'_def)
    with bc1 show ?thesis by auto
  qed
  show ?thesis
    using b1 s1(1) client_side by (auto simp: i_def res_def)
qed

lemma remote_call_witness:
  "\<exists>bs s1 bs1. channel_onMessage demo_env wire_pb demo_lib echo_services demo_server bs = Inr (s1, bs1)
    \<and> content bs1 = [] \<and> (\<forall>bc. buffer_ok bc \<and> content bc = last (sent s1) \<longrightarrow>
        (\<exists>bc1. content bc1 = [] \<and> channel_onMessage demo_env wire_pb demo_lib (\<lambda>n. None)
           ((started (Some 0) (Some 1) demo_client)\<lparr>sent := [frame demo_env rpc_tag (request_msg wire_pb 7 echo_method [5])]\<rparr>) bc =
          andThen (completed demo_lib 7 0 1 [5]
           ((started (Some 0) (Some 1) demo_client)\<lparr>sent := [frame demo_env rpc_tag (request_msg wire_pb 7 echo_method [5])]\<rparr>))
            (\<lambda>c2. Inr (c2, bc1))))"
proof -
  define c1 where "c1 = (started (Some 0) (Some 1) demo_client)\<lparr>sent := [frame demo_env rpc_tag (request_msg wire_pb 7 echo_method [5])]\<rparr>"
  have send: "sendable wire_pb (request_msg wire_pb 7 echo_method [5])"
    by (rule wire.sendable_built) (simp add: echo_method_def)
  then have "length (frame demo_env rpc_tag (request_msg wire_pb 7 echo_method [5])) \<le> 2 ^ 40"
    by (simp add: sendable_def length_frame length_frame_body kMaxMessageLen_def)
  then obtain bs where bs: "buffer_ok bs" "content bs = last (sent c1)"
    using append_new_buffer [of "frame demo_env rpc_tag (request_msg wire_pb 7 echo_method [5])"]
    by (auto simp: c1_def)
  have "CallMethod demo_env wire_pb demo_lib echo_method [5] (Some 0) (Some 1) demo_client = Inr c1"
    using wire.channel_send_ok [OF send, of Little adler32_spec "started (Some 0) (Some 1) demo_client"]
    by (simp add: CallMethod_sends c1_def) (simp add: started_def demo_client_def echo_lib_def echo_base_def)
  from remote_call [OF echo.serving_axioms _ _ _ _ _ _ _ _ _ this bs, of "()" "()" demo_server echo_services "[]" "\<lambda>n. None"]
  show ?thesis
    unfolding c1_def [symmetric]
    by (auto simp: demo_server_def setServices_def RpcChannel_conn_def echo_services_def echo_method_def
        echo_lib_def echo_base_def demo_client_def serve_result_def)
qed

text \<open>C19:
  No response object or closure is used after its deletion or deleted twice: in every state a
  client channel can reach, whatever calls are started, also by the closures it runs, and whatever
  messages arrive, handling a message is not a use after free, and the destructor deletes every
  outstanding response object and closure exactly once.
\<close>

theorem channel_owns_calls:
  assumes "rpc_client env rt lib" "chan_reach env rt lib s"
  shows "(get_type m = RESPONSE \<longrightarrow> onRpcMessage env rt lib services s m \<noteq> Inl UseAfterFree)
    \<and> (\<exists>s'. RpcChannel_dtor s = Inr s' \<and>
          (\<forall>i r d. owned s i = Some (r, d) \<longrightarrow> objects s' r = None \<and> d \<notin> closures s'))"
  using rpc_client.response_keeps [OF assms(1) rpc_client.reach_inv [OF assms], of m]
    dtor_ok [OF rpc_client.reach_inv [OF assms]]
  by (simp add: onRpcMessage_def)

lemma channel_owns_calls_witness:
  "\<exists>s'. RpcChannel_dtor (setConnection RpcChannel_default :: byte list rpc_channel) = Inr s'"
  using channel_owns_calls [OF redial.rpc_client_axioms chan_reach.new, of "setConnection RpcChannel_default"
      "error_msg wire_pb 0 0" "\<lambda>n. None"]
  by (auto simp: setConnection_def RpcChannel_default_def)

text \<open>The identifier the \<open>n\<close>-th of a series of calls gets.\<close>

fun nth_id :: "nat \<Rightarrow> ('v, 'z) rpc_channel_scheme \<Rightarrow> 64 word" where
  "nth_id 0 s = fst (incrementAndGet s)"
| "nth_id (Suc n) s = nth_id n (snd (incrementAndGet s))"

lemma nth_id_value: "nth_id n s = call_id s + 1 + of_nat n"
  by (induction n arbitrary: s) (simp_all add: incrementAndGet_def algebra_simps)

text \<open>
  Identifiers do not repeat within \<open>2 ^ 64\<close> calls: the identifiers of any two calls started one
  after the other on a channel differ, as long as fewer than \<open>2 ^ 64\<close> calls lie between them.
\<close>

theorem ids_distinct:
  "i < j \<Longrightarrow> j < i + 2 ^ 64 \<Longrightarrow> nth_id i s \<noteq> nth_id j s"
proof
  assume *: "i < j" "j < i + 2 ^ 64" "nth_id i s = nth_id j s"
  then have "(of_nat (j - i) :: 64 word) = 0"
    by (simp add: nth_id_value of_nat_diff)
  then have "unat (of_nat (j - i) :: 64 word) = 0"
    by (simp only: unat_0)
  moreover have "unat (of_nat (j - i) :: 64 word) = j - i"
    using *(2) by (subst unat_of_nat) simp
  ultimately show False using *(1) by simp
qed

lemma ids_distinct_witness:
  "nth_id 0 (RpcChannel_default :: byte list rpc_channel) \<noteq> nth_id 9 (RpcChannel_default :: byte list rpc_channel)"
  by (rule ids_distinct) simp_all

end
