(* ===== verification/RpcServer.thy ===== *)
theory RpcServer
  imports RpcChannel
begin

text \<open>
  \<^verbatim>\<open>rpc/RpcServer.h\<close> and \<^verbatim>\<open>rpc/RpcServer.cc\<close>: the registry of services and one channel per
  connection, kept in the connection's \<^verbatim>\<open>boost::any\<close> context. All channels point to the one
  registry of the server, so that the model passes the current registry to each. The input buffer of
  a connection is \<^verbatim>\<open>TcpConnection\<close>'s; an event \<open>Receive\<close> is one successful read. The lemmas show
  that a service is reachable from every connection once it is registered. What a service changes is in its connection's channel
  record: service objects with a state of their own, shared by all connections, are not expressed (the two services of
  \<^verbatim>\<open>examples/\<close> have none). The end of a connection is no event here, since it leaves the channel as it was; it is one
  in \<open>RpcLoop\<close>.
\<close>

record ('v, 'sv, 'z) rpc_server =
  registry :: "byte list \<Rightarrow> 'sv option option"
  contexts :: "nat \<Rightarrow> ('v, 'z) rpc_channel_scheme option"
  input_buffers :: "nat \<Rightarrow> buffer"

text \<open>
  \<open>full_name\<close> is \<^verbatim>\<open>service->GetDescriptor()->full_name()\<close>; a null service is dereferenced at once.
  Registering a second service under a name replaces the first.
\<close>

definition registerService ::
  "('sv \<Rightarrow> byte list) \<Rightarrow> 'sv option \<Rightarrow> ('v, 'sv, 'z) rpc_server \<Rightarrow> ('v, 'sv, 'z) rpc_server result" where
  "registerService full_name service s =
     (case service of
        None \<Rightarrow> Inl NullDeref
      | Some sv \<Rightarrow> Inr (s\<lparr>registry := (registry s)(full_name sv := Some service)\<rparr>))"

text \<open>
  A new connection gets a channel of its own, which points to the registry. \<open>own\<close> extends the
  channel record with the user's state, \<open>junk\<close> is the uninitialised call counter.
\<close>

definition server_onConnection ::
  "64 word \<Rightarrow> 'z \<Rightarrow> nat \<Rightarrow> ('v, 'sv, 'z) rpc_server \<Rightarrow> ('v, 'sv, 'z) rpc_server" where
  "server_onConnection junk own c s =
     (let channel = setServices (rpc_channel.extend (RpcChannel_conn junk) own)
      in s\<lparr>contexts := (contexts s)(c := Some channel)\<rparr>)"

text \<open>\<^verbatim>\<open>boost::any_cast\<close> of an empty context throws.\<close>

definition server_onMessage ::
  "'u RpcMetaMessage codec_env \<Rightarrow> ('u, 'p) pb
    \<Rightarrow> ('v, 'sv, 'md, ('v, 'z) rpc_channel_scheme) rpc_lib \<Rightarrow> nat \<Rightarrow> buffer
    \<Rightarrow> ('v, 'sv, 'z) rpc_server \<Rightarrow> (('v, 'sv, 'z) rpc_server \<times> buffer) result" where
  "server_onMessage env rt lib c buf s =
     (case contexts s c of
        None \<Rightarrow> Inl NullDeref
      | Some channel \<Rightarrow>
          andThen (channel_onMessage env rt lib (registry s) channel buf)
            (\<lambda>(channel', buf'). Inr (s\<lparr>contexts := (contexts s)(c := Some channel')\<rparr>, buf')))"

section \<open>Runs of a server\<close>

datatype ('sv, 'z) server_event =
    Register "'sv option"
  | Connect nat "64 word" 'z
  | Receive nat "byte list"

fun server_step ::
  "'u RpcMetaMessage codec_env \<Rightarrow> ('u, 'p) pb
    \<Rightarrow> ('v, 'sv, 'md, ('v, 'z) rpc_channel_scheme) rpc_lib \<Rightarrow> ('sv \<Rightarrow> byte list)
    \<Rightarrow> ('sv, 'z) server_event \<Rightarrow> ('v, 'sv, 'z) rpc_server \<Rightarrow> ('v, 'sv, 'z) rpc_server result" where
  "server_step env rt lib full_name (Register sv) s = registerService full_name sv s"
| "server_step env rt lib full_name (Connect c junk own) s =
     Inr (server_onConnection junk own c
       (s\<lparr>input_buffers := (input_buffers s)(c := Buffer_init kInitialSize)\<rparr>))"
| "server_step env rt lib full_name (Receive c d) s =
     andThen (readFd (input_buffers s c) (ReadvData d))
       (\<lambda>r. andThen (server_onMessage env rt lib c (rf_buffer r) s)
       (\<lambda>(s', buf). Inr (s'\<lparr>input_buffers := (input_buffers s')(c := buf)\<rparr>)))"

fun server_run ::
  "'u RpcMetaMessage codec_env \<Rightarrow> ('u, 'p) pb
    \<Rightarrow> ('v, 'sv, 'md, ('v, 'z) rpc_channel_scheme) rpc_lib \<Rightarrow> ('sv \<Rightarrow> byte list)
    \<Rightarrow> ('sv, 'z) server_event list \<Rightarrow> ('v, 'sv, 'z) rpc_server \<Rightarrow> ('v, 'sv, 'z) rpc_server result" where
  "server_run env rt lib full_name [] s = Inr s"
| "server_run env rt lib full_name (ev # evs) s =
     andThen (server_step env rt lib full_name ev s) (server_run env rt lib full_name evs)"

section \<open>Properties\<close>

definition demo_rpc_server :: "(byte list, unit, unit) rpc_server" where
  "demo_rpc_server = \<lparr>registry = (\<lambda>n. None), contexts = (\<lambda>c. None), input_buffers = (\<lambda>c. Buffer_init kInitialSize)\<rparr>"

text \<open>
  Channels see the registry, not a copy: a service registered after a connection was established
  answers the requests that arrive on it; without the registration the same request is refused
  with \<^verbatim>\<open>NO_SERVICE\<close>. The connection's channel is otherwise fresh.
\<close>

theorem registered_later_serves:
  fixes lib :: "('v, 'sv, 'md, ('v, 'z) rpc_channel_scheme) rpc_lib" and own :: 'z
  assumes "serving rt left pos e adler lib handler"
    and "find_method lib sv (method_name mt) = Some md"
    and "msg_parse lib (request_new lib sv md) req = (rq, True)"
    and "length (msg_serialize lib (handler sv md rq)) \<le> 2 ^ 25"
    and "full_name sv = service_full_name mt" "sendable rt (request_msg rt i mt req)"
    and "registry s0 (service_full_name mt) = None"
    and "buffer_ok b" "content b = frame (rpc_env e adler rt) rpc_tag (request_msg rt i mt req)"
  shows "(\<exists>s2 s3 ch b3. registerService full_name (Some sv) (server_onConnection junk own c s0) = Inr s2
      \<and> server_onMessage (rpc_env e adler rt) rt lib c b s2 = Inr (s3, b3) \<and> contexts s3 c = Some ch
      \<and> sent ch = [frame (rpc_env e adler rt) rpc_tag (response_msg rt i (msg_serialize lib (handler sv md rq)))])
    \<and> (\<exists>s3 ch b3. server_onMessage (rpc_env e adler rt) rt lib c b (server_onConnection junk own c s0) = Inr (s3, b3)
      \<and> contexts s3 c = Some ch
      \<and> sent ch = [frame (rpc_env e adler rt) rpc_tag (error_msg rt i NO_SERVICE)])"
proof -
  note wire = serving.axioms(1) [OF assms(1)]
  let ?env = "rpc_env e adler rt" and ?m = "request_msg rt i mt req"
  define ch :: "('v, 'z) rpc_channel_scheme" where "ch = setServices (rpc_channel.extend (RpcChannel_conn junk) own)"
  have ch: "conn_set ch" "services_set ch" "sent ch = []"
    by (simp_all add: ch_def setServices_def rpc_channel.defs RpcChannel_conn_def)
  have receive: "\<exists>b3. \<forall>s. channel_onMessage ?env rt lib services s b
      = andThen (onRpcMessage ?env rt lib services s ?m) (\<lambda>s'. Inr (s', b3))" for services
    using pb_wire.channel_receives [OF wire assms(8), of e adler "[?m]" lib services] assms(6,9)
    by (auto simp: andThen_assoc)
  have served: "\<exists>ch'. onRpcMessage ?env rt lib ((registry s0)(service_full_name mt := Some (Some sv))) ch ?m = Inr ch'
      \<and> sent ch' = [frame ?env rpc_tag (response_msg rt i (msg_serialize lib (handler sv md rq)))]"
    using serving.answer_request [OF assms(1), of ?m ch _ sv md] assms(2-4) ch
    by (simp add: serve_result_def)
  have refused: "\<exists>ch'. onRpcMessage ?env rt lib (registry s0) ch ?m = Inr ch'
      \<and> sent ch' = [frame ?env rpc_tag (error_msg rt i NO_SERVICE)]"
  proof -
    have "request_error lib (registry s0) ch ?m = Some NO_SERVICE"
      using assms(7) by (simp add: request_error_def)
    with serving.answer_error [OF assms(1) _ this] ch show ?thesis by simp
  qed
  obtain b3 b4 where
      "\<forall>s. channel_onMessage ?env rt lib ((registry s0)(service_full_name mt := Some (Some sv))) s b
         = andThen (onRpcMessage ?env rt lib ((registry s0)(service_full_name mt := Some (Some sv))) s ?m)
             (\<lambda>s'. Inr (s', b3))"
      "\<forall>s. channel_onMessage ?env rt lib (registry s0) s b
         = andThen (onRpcMessage ?env rt lib (registry s0) s ?m) (\<lambda>s'. Inr (s', b4))"
    using receive by blast
  with served refused show ?thesis
    by (auto simp: server_onConnection_def server_onMessage_def registerService_def Let_def assms(5)
        simp flip: ch_def)
qed

lemma registered_later_serves_witness:
  "\<exists>b s2 s3 ch b3. registerService (\<lambda>sv. [83]) (Some ()) (server_onConnection 0 () 4 demo_rpc_server) = Inr s2
      \<and> server_onMessage demo_env wire_pb demo_lib 4 b s2 = Inr (s3, b3) \<and> contexts s3 4 = Some ch
      \<and> sent ch = [frame demo_env rpc_tag (response_msg wire_pb 9 [5])]"
proof -
  have send: "sendable wire_pb (request_msg wire_pb 9 echo_method [5])"
    by (rule wire.sendable_built) (simp add: echo_method_def)
  then have "length (frame demo_env rpc_tag (request_msg wire_pb 9 echo_method [5])) \<le> 2 ^ 40"
    by (simp add: sendable_def length_frame length_frame_body kMaxMessageLen_def)
  then obtain b where b: "buffer_ok b" "content b = frame demo_env rpc_tag (request_msg wire_pb 9 echo_method [5])"
    using append_new_buffer by blast
  have "\<exists>s2 s3 ch b3. registerService (\<lambda>sv. [83]) (Some ()) (server_onConnection 0 () 4 demo_rpc_server) = Inr s2
      \<and> server_onMessage demo_env wire_pb demo_lib 4 b s2 = Inr (s3, b3) \<and> contexts s3 4 = Some ch
      \<and> sent ch = [frame demo_env rpc_tag (response_msg wire_pb 9 (msg_serialize demo_lib [5]))]"
    by (rule registered_later_serves [OF echo.serving_axioms _ _ _ _ send _ b, THEN conjunct1])
      (simp_all add: echo_lib_def echo_base_def echo_method_def demo_rpc_server_def)
  then show ?thesis
    unfolding echo_lib_def echo_base_def by auto
qed

end
