(* ===== verification/Channel.thy ===== *)
theory Channel
  imports Endian
begin

text \<open>
  \<^verbatim>\<open>simplifyMuduo/src/Channel.cc\<close>, \<^verbatim>\<open>Channel.h\<close>, \<^verbatim>\<open>Epoll.cc\<close> and the constants of \<^verbatim>\<open>Common.h\<close>: a
  channel is the interest of the loop in one descriptor; \<^verbatim>\<open>Epoll\<close> keeps the kernel's interest list
  in step with it. The interest list is a map from descriptors to an event mask and the
  channel that is told (\<^verbatim>\<open>data.ptr\<close>); \<^verbatim>\<open>epoll_ctl\<close> is modelled as documented (adding an existing
  or a negative descriptor or modifying a missing one fails and changes nothing; the code ignores
  the result). The
  lemmas show that the list always agrees with the channel, and which callbacks an event leads to.
\<close>

section \<open>Constants\<close>

definition kNew :: int where "kNew = -1"
definition kAdded :: int where "kAdded = 1"
definition kDeleted :: int where "kDeleted = 2"

definition MAX_EVENTS :: nat where "MAX_EVENTS = 500"

text \<open>The event bits of \<^verbatim>\<open>sys/epoll.h\<close>.\<close>

abbreviation EPOLLIN :: "32 word" where "EPOLLIN \<equiv> 0x1"
abbreviation EPOLLPRI :: "32 word" where "EPOLLPRI \<equiv> 0x2"
abbreviation EPOLLOUT :: "32 word" where "EPOLLOUT \<equiv> 0x4"
abbreviation EPOLLERR :: "32 word" where "EPOLLERR \<equiv> 0x8"
abbreviation EPOLLHUP :: "32 word" where "EPOLLHUP \<equiv> 0x10"
abbreviation EPOLLRDHUP :: "32 word" where "EPOLLRDHUP \<equiv> 0x2000"

section \<open>State\<close>

text \<open>\<open>ch_id\<close> is the address of the channel object.\<close>

record channel =
  ch_id :: nat
  ch_fd :: int
  events :: "32 word"
  revents :: "32 word"
  index :: int
  has_callback :: bool

type_synonym epoll_set = "int \<Rightarrow> (32 word \<times> nat) option"

definition Channel_init :: "nat \<Rightarrow> int \<Rightarrow> channel" where
  "Channel_init i sockfd =
     \<lparr>ch_id = i, ch_fd = sockfd, events = 0, revents = 0, index = kNew, has_callback = False\<rparr>"

definition setCallback :: "channel \<Rightarrow> channel" where
  "setCallback ch = ch\<lparr>has_callback := True\<rparr>"

definition setRevents :: "32 word \<Rightarrow> channel \<Rightarrow> channel" where
  "setRevents ev ch = ch\<lparr>revents := ev\<rparr>"

definition setIndex :: "int \<Rightarrow> channel \<Rightarrow> channel" where
  "setIndex i ch = ch\<lparr>index := i\<rparr>"

definition isWriting :: "channel \<Rightarrow> bool" where
  "isWriting ch \<longleftrightarrow> events ch AND EPOLLOUT \<noteq> 0"

definition isReading :: "channel \<Rightarrow> bool" where
  "isReading ch \<longleftrightarrow> events ch AND EPOLLIN \<noteq> 0"

section \<open>The interest list\<close>

definition epoll_add :: "int \<Rightarrow> 32 word \<times> nat \<Rightarrow> epoll_set \<Rightarrow> epoll_set" where
  "epoll_add fd ev s = (if fd < 0 then s else case s fd of None \<Rightarrow> s(fd := Some ev) | Some _ \<Rightarrow> s)"

definition epoll_mod :: "int \<Rightarrow> 32 word \<times> nat \<Rightarrow> epoll_set \<Rightarrow> epoll_set" where
  "epoll_mod fd ev s = (case s fd of None \<Rightarrow> s | Some _ \<Rightarrow> s(fd := Some ev))"

definition epoll_del :: "int \<Rightarrow> epoll_set \<Rightarrow> epoll_set" where
  "epoll_del fd s = s(fd := None)"

definition Epoll_update :: "channel \<Rightarrow> epoll_set \<Rightarrow> channel \<times> epoll_set" where
  "Epoll_update ch s =
     (let ev = (events ch, ch_id ch); fd = ch_fd ch
      in if index ch = kNew then (setIndex kAdded ch, epoll_add fd ev s)
         else if index ch = kAdded then (ch, epoll_mod fd ev s)
         else if index ch = kDeleted then (ch, epoll_del fd s)
         else (ch, s))"

definition enableReading :: "channel \<Rightarrow> epoll_set \<Rightarrow> channel \<times> epoll_set" where
  "enableReading ch s = Epoll_update (ch\<lparr>events := events ch OR EPOLLIN\<rparr>) s"

definition disableReading :: "channel \<Rightarrow> epoll_set \<Rightarrow> channel \<times> epoll_set" where
  "disableReading ch s = Epoll_update (ch\<lparr>events := events ch AND NOT EPOLLIN\<rparr>) s"

definition enableWriting :: "channel \<Rightarrow> epoll_set \<Rightarrow> channel \<times> epoll_set" where
  "enableWriting ch s = Epoll_update (ch\<lparr>events := events ch OR EPOLLOUT\<rparr>) s"

definition disableWriting :: "channel \<Rightarrow> epoll_set \<Rightarrow> channel \<times> epoll_set" where
  "disableWriting ch s = Epoll_update (ch\<lparr>events := events ch AND NOT EPOLLOUT\<rparr>) s"

definition disableAll :: "channel \<Rightarrow> epoll_set \<Rightarrow> channel \<times> epoll_set" where
  "disableAll ch s = Epoll_update (ch\<lparr>events := 0\<rparr>) s"

definition operationToString :: "int \<Rightarrow> string" where
  "operationToString op =
     (if op = kNew then ''ADD'' else if op = kDeleted then ''DEL'' else if op = kAdded then ''MOD''
      else ''Unknown Operation'')"

fun digits :: "nat \<Rightarrow> string" where
  "digits n = (if n < 10 then [char_of (48 + n)] else digits (n div 10) @ [char_of (48 + n mod 10)])"

declare digits.simps [simp del]

definition int_to_string :: "int \<Rightarrow> string" where
  "int_to_string i = (if i < 0 then ''-'' @ digits (nat (- i)) else digits (nat i))"

definition eventsToString :: "int \<Rightarrow> 32 word \<Rightarrow> string" where
  "eventsToString fd ev =
     int_to_string fd @ '': ''
     @ (if ev AND EPOLLIN \<noteq> 0 then ''IN '' else '''')
     @ (if ev AND EPOLLPRI \<noteq> 0 then ''PRI '' else '''')
     @ (if ev AND EPOLLOUT \<noteq> 0 then ''OUT '' else '''')
     @ (if ev AND EPOLLHUP \<noteq> 0 then ''HUP '' else '''')
     @ (if ev AND EPOLLRDHUP \<noteq> 0 then ''RDHUP '' else '''')
     @ (if ev AND EPOLLERR \<noteq> 0 then ''ERR '' else '''')
     @ (if ev = 0 then ''NULL'' else '''')"

section \<open>Waiting and dispatching\<close>

text \<open>
  \<^verbatim>\<open>Epoll::poll\<close>: the answer of \<^verbatim>\<open>epoll_wait\<close> is an input (\<open>None\<close> for an error). Each answer is
  stored in its channel; the active channels are returned in the order of the answers.
\<close>

fun poll_events ::
  "(nat \<times> 32 word) list \<Rightarrow> (nat \<Rightarrow> channel option) \<Rightarrow> ((nat \<Rightarrow> channel option) \<times> nat list) result" where
  "poll_events [] chans = Inr (chans, [])"
| "poll_events ((p, ev) # rest) chans =
     (case chans p of
        None \<Rightarrow> Inl UseAfterFree
      | Some ch \<Rightarrow>
          andThen (poll_events rest (chans(p := Some (setRevents ev ch))))
            (\<lambda>(chans', active). Inr (chans', p # active)))"

definition Epoll_poll ::
  "(nat \<times> 32 word) list option \<Rightarrow> (nat \<Rightarrow> channel option) \<Rightarrow> ((nat \<Rightarrow> channel option) \<times> nat list) result" where
  "Epoll_poll answer chans = (case answer of None \<Rightarrow> Inr (chans, []) | Some evs \<Rightarrow> poll_events evs chans)"

text \<open>
  \<^verbatim>\<open>Channel::handleEvent\<close>: the callbacks act on a state in which the channel itself may be
  destroyed; \<open>look\<close> finds the channel in that state. Each of the three conditions reads
  \<^verbatim>\<open>_revents\<close> again.
\<close>

record 's channel_callback =
  cb_close :: "'s \<Rightarrow> 's result"
  cb_read :: "'s \<Rightarrow> 's result"
  cb_write :: "'s \<Rightarrow> 's result"

definition read_channel :: "('s \<Rightarrow> channel option) \<Rightarrow> 's \<Rightarrow> channel result" where
  "read_channel look s = (case look s of None \<Rightarrow> Inl UseAfterFree | Some ch \<Rightarrow> Inr ch)"

definition handleEvent :: "('s \<Rightarrow> channel option) \<Rightarrow> 's channel_callback \<Rightarrow> 's \<Rightarrow> 's result" where
  "handleEvent look cb s =
     andThen (read_channel look s) (\<lambda>ch.
       andThen (if revents ch AND EPOLLHUP \<noteq> 0 \<and> revents ch AND EPOLLIN = 0 \<and> has_callback ch
                then cb_close cb s else Inr s) (\<lambda>s1.
     andThen (read_channel look s1) (\<lambda>ch1.
       andThen (if revents ch1 AND EPOLLIN \<noteq> 0 \<and> has_callback ch1 then cb_read cb s1 else Inr s1) (\<lambda>s2.
     andThen (read_channel look s2) (\<lambda>ch2.
       if revents ch2 AND EPOLLOUT \<noteq> 0 \<and> has_callback ch2 then cb_write cb s2 else Inr s2)))))"

section \<open>The interest list agrees with the channel\<close>

definition in_sync :: "channel \<Rightarrow> epoll_set \<Rightarrow> bool" where
  "in_sync ch s \<longleftrightarrow> 0 \<le> ch_fd ch \<and>
     ((index ch = kAdded \<and> s (ch_fd ch) = Some (events ch, ch_id ch))
     \<or> ((index ch = kNew \<or> index ch = kDeleted) \<and> s (ch_fd ch) = None))"

datatype channel_op =
    EnableReading | DisableReading | EnableWriting | DisableWriting | DisableAll
  | Close

fun channel_step :: "channel_op \<Rightarrow> channel \<times> epoll_set \<Rightarrow> channel \<times> epoll_set" where
  "channel_step EnableReading (ch, s) = enableReading ch s"
| "channel_step DisableReading (ch, s) = disableReading ch s"
| "channel_step EnableWriting (ch, s) = enableWriting ch s"
| "channel_step DisableWriting (ch, s) = disableWriting ch s"
| "channel_step DisableAll (ch, s) = disableAll ch s"
| "channel_step Close (ch, s) = disableAll (setIndex kDeleted ch) s"

lemmas channel_op_defs = enableReading_def disableReading_def enableWriting_def disableWriting_def
  disableAll_def setIndex_def

lemma index_distinct [simp]: "kNew \<noteq> kAdded" "kAdded \<noteq> kNew" "kNew \<noteq> kDeleted" "kDeleted \<noteq> kNew"
    "kAdded \<noteq> kDeleted" "kDeleted \<noteq> kAdded"
  by (simp_all add: kNew_def kAdded_def kDeleted_def)

lemma update_in_sync:
  assumes "in_sync ch s"
  shows "case Epoll_update (ch\<lparr>events := ev\<rparr>) s of (ch', s') \<Rightarrow>
      in_sync ch' s' \<and> ch_fd ch' = ch_fd ch \<and> ch_id ch' = ch_id ch \<and> events ch' = ev
      \<and> (\<forall>fd. fd \<noteq> ch_fd ch \<longrightarrow> s' fd = s fd)"
  using assms
  by (auto simp: in_sync_def Epoll_update_def Let_def setIndex_def epoll_add_def epoll_mod_def
      epoll_del_def split: option.splits)

lemma in_sync_fd: "in_sync ch s \<Longrightarrow> 0 \<le> ch_fd ch"
  by (simp add: in_sync_def)

lemma close_in_sync:
  "0 \<le> ch_fd ch \<Longrightarrow> case channel_step Close (ch, s) of (ch', s') \<Rightarrow>
      in_sync ch' s' \<and> ch_fd ch' = ch_fd ch \<and> ch_id ch' = ch_id ch \<and> events ch' = 0
      \<and> s' (ch_fd ch) = None \<and> (\<forall>fd. fd \<noteq> ch_fd ch \<longrightarrow> s' fd = s fd)"
  by (simp add: in_sync_def channel_op_defs Epoll_update_def Let_def epoll_del_def)

lemma step_in_sync:
  assumes "in_sync ch s"
  shows "case channel_step op (ch, s) of (ch', s') \<Rightarrow>
      in_sync ch' s' \<and> ch_fd ch' = ch_fd ch \<and> ch_id ch' = ch_id ch
      \<and> (\<forall>fd. fd \<noteq> ch_fd ch \<longrightarrow> s' fd = s fd)"
  using update_in_sync [OF assms, of "events ch OR EPOLLIN"] update_in_sync [OF assms, of "events ch AND NOT EPOLLIN"]
    update_in_sync [OF assms, of "events ch OR EPOLLOUT"] update_in_sync [OF assms, of "events ch AND NOT EPOLLOUT"]
    update_in_sync [OF assms, of 0] close_in_sync [of ch s] in_sync_fd [OF assms]
  by (cases op) (auto simp: enableReading_def disableReading_def enableWriting_def disableWriting_def disableAll_def)

fun channel_run :: "channel_op list \<Rightarrow> channel \<times> epoll_set \<Rightarrow> channel \<times> epoll_set" where
  "channel_run [] cs = cs"
| "channel_run (op # ops) cs = channel_run ops (channel_step op cs)"

lemma run_in_sync:
  "in_sync ch s \<Longrightarrow> case channel_run ops (ch, s) of (ch', s') \<Rightarrow>
      in_sync ch' s' \<and> ch_fd ch' = ch_fd ch \<and> ch_id ch' = ch_id ch
      \<and> (\<forall>fd. fd \<noteq> ch_fd ch \<longrightarrow> s' fd = s fd)"
proof (induction ops arbitrary: ch s)
  case Nil
  then show ?case by simp
next
  case (Cons op ops)
  obtain ch1 s1 where step: "channel_step op (ch, s) = (ch1, s1)" by fastforce
  from step_in_sync [OF Cons.prems, of op] step Cons.IH [of ch1 s1] show ?case
    by (auto split: prod.splits)
qed

section \<open>Polling\<close>

lemma poll_events_live:
  assumes "distinct (map fst evs)" "\<forall>p \<in> set (map fst evs). chans p \<noteq> None"
  shows "poll_events evs chans =
    Inr ((\<lambda>p. case map_of evs p of None \<Rightarrow> chans p | Some ev \<Rightarrow> Some (setRevents ev (the (chans p)))), map fst evs)"
  using assms
proof (induction evs chans rule: poll_events.induct)
  case (1 chans)
  then show ?case by simp
next
  case (2 p ev rest chans)
  from "2.prems" obtain ch where ch: "chans p = Some ch" by auto
  have new: "map_of rest p = None"
    using "2.prems" by (simp add: map_of_eq_None_iff)
  have "distinct (map fst rest)" "\<forall>q \<in> set (map fst rest). (chans(p \<mapsto> setRevents ev ch)) q \<noteq> None"
    using "2.prems" by auto
  from "2.IH" [OF ch this] have rest: "poll_events rest (chans(p \<mapsto> setRevents ev ch)) =
      Inr ((\<lambda>q. case map_of rest q of None \<Rightarrow> (chans(p \<mapsto> setRevents ev ch)) q
                 | Some ev' \<Rightarrow> Some (setRevents ev' (the ((chans(p \<mapsto> setRevents ev ch)) q)))), map fst rest)" .
  have "(\<lambda>q. case map_of rest q of None \<Rightarrow> (chans(p \<mapsto> setRevents ev ch)) q
              | Some ev' \<Rightarrow> Some (setRevents ev' (the ((chans(p \<mapsto> setRevents ev ch)) q)))) =
        (\<lambda>q. case map_of ((p, ev) # rest) q of None \<Rightarrow> chans q
              | Some ev' \<Rightarrow> Some (setRevents ev' (the (chans q))))"
    using new ch by (auto simp: fun_eq_iff split: option.splits)
  then show ?case
    by (simp only: poll_events.simps ch option.case rest andThen_Inr prod.case) simp
qed

lemma poll_events_dead:
  assumes "\<exists>p \<in> set (map fst evs). chans p = None"
  shows "poll_events evs chans = Inl UseAfterFree"
  using assms
proof (induction evs chans rule: poll_events.induct)
  case (2 p ev rest chans)
  show ?case
  proof (cases "chans p")
    case (Some ch)
    with "2.prems" have "\<exists>q \<in> set (map fst rest). (chans(p \<mapsto> setRevents ev ch)) q = None" by force
    from "2.IH" [OF Some this] show ?thesis
      by (simp only: poll_events.simps Some option.case andThen_Inl)
  qed simp
qed simp

section \<open>Properties\<close>

text \<open>C26:
  The kernel's interest list never disagrees with a channel: after any sequence of
  enable, disable and close operations on a new channel with a descriptor that is not yet
  registered, the descriptor is registered with exactly the events of the channel, or not at all
  before the first operation and after a close; other descriptors are untouched. After a close no
  operation registers it again.
\<close>

theorem interest_list_in_sync:
  assumes "0 \<le> fd" "s fd = None"
  shows "case channel_run ops (Channel_init i fd, s) of (ch, s') \<Rightarrow>
      (index ch = kAdded \<longrightarrow> s' fd = Some (events ch, i)) \<and> (index ch \<noteq> kAdded \<longrightarrow> s' fd = None)
      \<and> (\<forall>fd'. fd' \<noteq> fd \<longrightarrow> s' fd' = s fd')
      \<and> (Close \<in> set ops \<longrightarrow> s' fd = None)"
proof -
  have deleted: "index (fst (channel_run ops (ch, s))) = kDeleted" if "index ch = kDeleted" for ops ch s
    using that
  proof (induction ops arbitrary: ch s)
    case (Cons op ops)
    have "index (fst (channel_step op (ch, s))) = kDeleted"
      using Cons.prems by (cases op) (simp_all add: channel_op_defs Epoll_update_def Let_def)
    with Cons.IH [of "fst (channel_step op (ch, s))" "snd (channel_step op (ch, s))"] show ?case by simp
  qed simp
  have closed: "Close \<in> set ops \<Longrightarrow> index (fst (channel_run ops (ch, s))) = kDeleted" for ops ch s
  proof (induction ops arbitrary: ch s)
    case (Cons op ops)
    show ?case
    proof (cases "op = Close")
      case True
      have "index (fst (channel_step op (ch, s))) = kDeleted"
        by (simp add: True channel_op_defs Epoll_update_def Let_def)
      with deleted [of "fst (channel_step op (ch, s))" ops "snd (channel_step op (ch, s))"] show ?thesis by simp
    next
      case False
      with Cons.prems Cons.IH [of "fst (channel_step op (ch, s))" "snd (channel_step op (ch, s))"] show ?thesis by simp
    qed
  qed simp
  have "in_sync (Channel_init i fd) s"
    using assms by (simp add: in_sync_def Channel_init_def)
  from run_in_sync [OF this, of ops] closed [of ops "Channel_init i fd" s] show ?thesis
    by (auto simp: in_sync_def Channel_init_def split: prod.splits)
qed

lemma interest_list_in_sync_witness:
  "case channel_run [EnableReading, EnableWriting, Close, EnableReading] (Channel_init 1 5, (\<lambda>fd. None)) of (ch, s') \<Rightarrow>
     s' 5 = None \<and> (\<forall>fd'. fd' \<noteq> 5 \<longrightarrow> s' fd' = None)"
  using interest_list_in_sync [where s = "\<lambda>fd. None" and fd = 5 and i = 1
      and ops = "[EnableReading, EnableWriting, Close, EnableReading]"]
  by (auto split: prod.splits)

text \<open>
  \<^verbatim>\<open>Epoll::poll\<close> hands the loop exactly the channels the kernel reported, in the kernel's order, each
  with exactly the reported events, and touches no other channel; an error of \<^verbatim>\<open>epoll_wait\<close>
  yields no channel. A report for a channel that has been destroyed (its descriptor was
  never deleted) is a write to freed memory.
\<close>

theorem poll_reports_exactly:
  assumes "distinct (map fst evs)"
  shows "Epoll_poll None chans = Inr (chans, [])
    \<and> Epoll_poll (Some evs) chans =
       (if \<exists>p \<in> set (map fst evs). chans p = None then Inl UseAfterFree
        else Inr ((\<lambda>p. case map_of evs p of None \<Rightarrow> chans p | Some ev \<Rightarrow> Some (setRevents ev (the (chans p)))),
                  map fst evs))"
  using poll_events_live [OF assms] poll_events_dead by (force simp: Epoll_poll_def)

lemma poll_reports_exactly_witness:
  "(case Epoll_poll (Some [(3, EPOLLIN)]) ((\<lambda>p. None)(3 := Some (Channel_init 3 7))) of
      Inl e \<Rightarrow> False | Inr (chans, active) \<Rightarrow> active = [3] \<and> map_option revents (chans 3) = Some EPOLLIN)
   \<and> Epoll_poll (Some [(3, EPOLLIN)]) (\<lambda>p. None) = Inl UseAfterFree"
  using poll_reports_exactly [of "[(3, EPOLLIN)]" "(\<lambda>p. None)(3 := Some (Channel_init 3 7))"]
    poll_reports_exactly [of "[(3, EPOLLIN)]" "\<lambda>p. None"]
  by (simp add: setRevents_def)

end
