(* ===== verification/EventLoopThreadPool.thy ===== *)
theory EventLoopThreadPool
  imports Prelude
begin

text \<open>
  \<^verbatim>\<open>simplifyMuduo/src/EventLoopThreadPool.cc\<close>: the pool of I/O loops and the choice of the loop
  for a new connection. A loop is named by a number (its address in the C++); \<open>started\<close> lists
  the loops that \<^verbatim>\<open>EventLoopThread::startLoop\<close> returns, one per thread. The lemmas show that the
  choice is a fair rotation.
\<close>

record loop_pool =
  baseLoop :: nat
  numThreads :: int
  next_index :: int
  loops :: "nat list"

definition EventLoopThreadPool_init :: "nat \<Rightarrow> loop_pool" where
  "EventLoopThreadPool_init base = \<lparr>baseLoop = base, numThreads = 0, next_index = 0, loops = []\<rparr>"

definition setThreadNum :: "int \<Rightarrow> loop_pool \<Rightarrow> loop_pool" where
  "setThreadNum n p = p\<lparr>numThreads := n\<rparr>"

text \<open>The loop of \<^verbatim>\<open>start\<close>, counted down; \<open>started i\<close> is the loop of the i-th thread.\<close>

fun pool_start_loop :: "(nat \<Rightarrow> nat) \<Rightarrow> nat \<Rightarrow> nat \<Rightarrow> loop_pool \<Rightarrow> loop_pool" where
  "pool_start_loop started i 0 p = p"
| "pool_start_loop started i (Suc n) p =
     pool_start_loop started (Suc i) n (p\<lparr>loops := loops p @ [started i]\<rparr>)"

definition pool_start :: "(nat \<Rightarrow> nat) \<Rightarrow> loop_pool \<Rightarrow> loop_pool" where
  "pool_start started p = pool_start_loop started 0 (nat (numThreads p)) p"

definition getNextLoop :: "loop_pool \<Rightarrow> (nat \<times> loop_pool) result" where
  "getNextLoop p =
     (if loops p = [] then Inr (baseLoop p, p)
      else if next_index p < 0 \<or> int (length (loops p)) \<le> next_index p then Inl OutOfBounds
      else let loop = loops p ! nat (next_index p); n = next_index p + 1
           in Inr (loop, p\<lparr>next_index := if int (length (loops p)) \<le> n then 0 else n\<rparr>))"

text \<open>The index stays inside the list of loops.\<close>

definition pool_ok :: "loop_pool \<Rightarrow> bool" where
  "pool_ok p \<longleftrightarrow> 0 \<le> next_index p \<and> (loops p = [] \<or> next_index p < int (length (loops p)))"

fun next_loops :: "nat \<Rightarrow> loop_pool \<Rightarrow> (nat list \<times> loop_pool) result" where
  "next_loops 0 p = Inr ([], p)"
| "next_loops (Suc n) p =
     andThen (getNextLoop p) (\<lambda>(l, p'). andThen (next_loops n p') (\<lambda>(ls, p''). Inr (l # ls, p'')))"

lemma pool_start_loops:
  "loops (pool_start_loop started i n p) = loops p @ map started [i ..< i + n]
     \<and> next_index (pool_start_loop started i n p) = next_index p
     \<and> baseLoop (pool_start_loop started i n p) = baseLoop p"
proof (induction started i n p rule: pool_start_loop.induct)
  case (2 started i n p)
  have "[i ..< i + Suc n] = i # [Suc i ..< Suc i + n]"
    by (simp add: upt_rec)
  with "2.IH" show ?case by simp
qed simp

lemma getNextLoop_ok:
  assumes "pool_ok p"
  shows "\<exists>p'. getNextLoop p =
      Inr (if loops p = [] then baseLoop p else loops p ! nat (next_index p), p')
    \<and> pool_ok p' \<and> loops p' = loops p \<and> baseLoop p' = baseLoop p
    \<and> (loops p \<noteq> [] \<longrightarrow> nat (next_index p') = (nat (next_index p) + 1) mod length (loops p))"
proof (cases "int (length (loops p)) \<le> next_index p + 1 \<and> loops p \<noteq> []")
  case True
  with assms have "nat (next_index p) + 1 = length (loops p)" by (auto simp: pool_ok_def)
  with True assms show ?thesis by (auto simp: getNextLoop_def pool_ok_def Let_def)
next
  case False
  with assms show ?thesis by (auto simp: getNextLoop_def pool_ok_def Let_def nat_add_distrib)
qed

lemma next_loops_rotate:
  assumes "pool_ok p" "loops p \<noteq> []"
  shows "\<exists>p'. next_loops n p =
      Inr (map (\<lambda>i. loops p ! ((nat (next_index p) + i) mod length (loops p))) [0 ..< n], p')"
  using assms
proof (induction n arbitrary: p)
  case (Suc n)
  let ?L = "length (loops p)"
  from getNextLoop_ok [OF Suc.prems(1)] Suc.prems(2) obtain p1 where
    p1: "getNextLoop p = Inr (loops p ! nat (next_index p), p1)" "pool_ok p1" "loops p1 = loops p"
      "nat (next_index p1) = (nat (next_index p) + 1) mod ?L" by auto
  from Suc.IH [of p1] p1 Suc.prems obtain p2 where
    p2: "next_loops n p1 = Inr (map (\<lambda>i. loops p ! ((nat (next_index p1) + i) mod ?L)) [0 ..< n], p2)"
    by auto
  have first: "nat (next_index p) mod ?L = nat (next_index p)"
    using Suc.prems by (auto simp: pool_ok_def)
  have next_one: "((nat (next_index p) + 1) mod ?L + i) mod ?L = (nat (next_index p) + Suc i) mod ?L" for i
    by (metis add.assoc mod_add_left_eq plus_1_eq_Suc)
  have cons: "map f [0 ..< Suc n] = f 0 # map (\<lambda>i. f (Suc i)) [0 ..< n]" for f :: "nat \<Rightarrow> nat"
    by (simp add: map_upt_Suc del: upt_Suc)
  show ?case
    by (simp only: next_loops.simps p1(1) p2 andThen_Inr prod.case p1(4) next_one cons add_0_right first
        sum.inject prod.inject ex_simps simp_thms)
qed simp

section \<open>Properties\<close>

text \<open>C27:
  Connections are spread fairly: a started pool with n threads hands out its loops in rotation, so
  that of any k n successive connections each loop (numbered as it was started) gets exactly k;
  a pool without threads always answers the base loop.
\<close>

theorem loops_shared_fairly:
  assumes "0 < n"
  shows "\<exists>p'. next_loops (k * n) (pool_start started (setThreadNum (int n) (EventLoopThreadPool_init base)))
      = Inr (concat (replicate k (map started [0 ..< n])), p')
    \<and> next_loops m (pool_start started (EventLoopThreadPool_init base))
      = Inr (replicate m base, EventLoopThreadPool_init base)"
proof -
  define p where "p = pool_start started (setThreadNum (int n) (EventLoopThreadPool_init base))"
  have p: "loops p = map started [0 ..< n]" "next_index p = 0" "pool_ok p"
    using assms pool_start_loops [of started 0 n "setThreadNum (int n) (EventLoopThreadPool_init base)"]
    by (simp_all add: p_def pool_start_def setThreadNum_def EventLoopThreadPool_init_def pool_ok_def)
  have rot: "map (\<lambda>i. started (i mod n)) [0 ..< k * n] = concat (replicate k (map started [0 ..< n]))"
  proof (induction k)
    case (Suc k)
    have split: "[0 ..< Suc k * n] = [0 ..< k * n] @ map (\<lambda>i. k * n + i) [0 ..< n]"
      using upt_add_eq_append [of 0 "k * n" n] by (simp add: add.commute map_add_upt)
    have last: "concat (replicate (Suc k) xs) = concat (replicate k xs) @ xs" for xs :: "nat list"
      by (induction k) simp_all
    have "map (\<lambda>i. started (i mod n)) (map (\<lambda>i. k * n + i) [0 ..< n]) = map started [0 ..< n]"
      using assms by simp
    with Suc.IH show ?case by (simp only: split last map_append)
  qed simp
  have "map (\<lambda>i. loops p ! ((nat (next_index p) + i) mod length (loops p))) [0 ..< k * n]
      = map (\<lambda>i. started (i mod n)) [0 ..< k * n]"
    using assms by (simp add: p)
  with next_loops_rotate [OF p(3), of "k * n"] p(1) assms rot
  have "\<exists>p'. next_loops (k * n) (pool_start started (setThreadNum (int n) (EventLoopThreadPool_init base)))
      = Inr (concat (replicate k (map started [0 ..< n])), p')"
    by (simp add: p_def)
  moreover have "next_loops m (pool_start started (EventLoopThreadPool_init base))
      = Inr (replicate m base, EventLoopThreadPool_init base)"
    by (induction m) (simp_all add: pool_start_def EventLoopThreadPool_init_def getNextLoop_def)
  ultimately show ?thesis by blast
qed

lemma loops_shared_fairly_witness:
  "\<exists>p'. next_loops 4 (pool_start Suc (setThreadNum 2 (EventLoopThreadPool_init 0))) = Inr ([1, 2, 1, 2], p')"
  using loops_shared_fairly [of 2 2 Suc 0 0] by (simp add: numeral_2_eq_2 numeral_eq_Suc del: next_loops.simps)

end
