(* ===== verification/TcpConnection.thy ===== *)
theory TcpConnection
  imports Codec Channel EventLoopThreadPool
begin

text \<open>
  \<^verbatim>\<open>simplifyMuduo/src/TcpConnection.cc\<close> with the part of the program around it that its callbacks
  reach: the objects on the heap with the counts of their shared pointers, each loop's kernel
  interest list and queue of functors, the owners (\<^verbatim>\<open>TcpServer::_connections\<close>,
  \<^verbatim>\<open>TcpClient::_connection\<close>), and the user. The answers of \<^verbatim>\<open>::write\<close> are an input, the bytes
  the kernel took are recorded per connection. The user's four callbacks are parameters and may do
  anything to the state. The lemmas show that no byte is lost, doubled or reordered,
  what \<^verbatim>\<open>EPOLLOUT\<close> means, and which paths touch a destroyed object.
\<close>

section \<open>State\<close>

text \<open>The up-layer closures (\<open>bind(&TcpServer::removeConnection, server, _1)\<close> and the client's).\<close>

datatype up_layer = ServerRemove | ClientRemove

text \<open>
  \<open>pUser\<close> says whether a user is set; \<open>refs\<close> counts the shared pointers to the object.
\<close>

record 'x tcp_conn =
  sockfd :: int
  pLoop :: nat
  pUser :: bool
  pSocketChannel :: channel
  closeCallback :: "up_layer option"
  inBuf :: buffer
  outBuf :: buffer
  conn_context :: "'x option"
  refs :: nat

text \<open>
  The functors the network classes queue in a loop. \<open>Established\<close> holds a shared pointer,
  the other two bind the bare \<^verbatim>\<open>this\<close>.
\<close>

datatype loop_call = Established nat | WriteComplate nat | MessageCB nat "byte list"

record ('x, 'u) world =
  conns :: "nat \<Rightarrow> 'x tcp_conn option"
  next_conn :: nat
  epolls :: "nat \<Rightarrow> epoll_set"
  pendingFunctors :: "nat \<Rightarrow> loop_call list"
  write_answers :: "int list"
  wire :: "nat \<Rightarrow> byte list"
  connections :: "int \<Rightarrow> nat option"
  threadPool :: loop_pool
  client_connection :: "nat option"
  usr :: 'u

text \<open>\<^verbatim>\<open>IMuduoUser\<close>; the first argument is the thread (the loop) that calls.\<close>

record ('x, 'u) muduo_user =
  onConnection :: "nat \<Rightarrow> nat \<Rightarrow> ('x, 'u) world \<Rightarrow> ('x, 'u) world result"
  onMessage :: "nat \<Rightarrow> nat \<Rightarrow> ('x, 'u) world \<Rightarrow> ('x, 'u) world result"
  onWriteComplate :: "nat \<Rightarrow> nat \<Rightarrow> ('x, 'u) world \<Rightarrow> ('x, 'u) world result"
  onClose :: "nat \<Rightarrow> nat \<Rightarrow> ('x, 'u) world \<Rightarrow> ('x, 'u) world result"

section \<open>Objects and shared pointers\<close>

definition with_conn :: "nat \<Rightarrow> ('x, 'u) world \<Rightarrow> ('x tcp_conn \<Rightarrow> 'r result) \<Rightarrow> 'r result" where
  "with_conn c w f = (case conns w c of None \<Rightarrow> Inl UseAfterFree | Some k \<Rightarrow> f k)"

definition put_conn :: "nat \<Rightarrow> 'x tcp_conn \<Rightarrow> ('x, 'u) world \<Rightarrow> ('x, 'u) world" where
  "put_conn c k w = w\<lparr>conns := (conns w)(c := Some k)\<rparr>"

definition share :: "nat \<Rightarrow> ('x, 'u) world \<Rightarrow> ('x, 'u) world" where
  "share c w = (case conns w c of None \<Rightarrow> w | Some k \<Rightarrow> put_conn c (k\<lparr>refs := refs k + 1\<rparr>) w)"

text \<open>The last pointer destroys the connection and with it its channel and buffers.\<close>

definition release :: "nat \<Rightarrow> ('x, 'u) world \<Rightarrow> ('x, 'u) world" where
  "release c w =
     (case conns w c of
        None \<Rightarrow> w
      | Some k \<Rightarrow> if refs k \<le> 1 then w\<lparr>conns := (conns w)(c := None)\<rparr>
                  else put_conn c (k\<lparr>refs := refs k - 1\<rparr>) w)"

text \<open>A call that passes \<^verbatim>\<open>shared_from_this()\<close> by value.\<close>

definition with_ref ::
  "(nat \<Rightarrow> ('x, 'u) world \<Rightarrow> ('x, 'u) world result) \<Rightarrow> nat \<Rightarrow> ('x, 'u) world \<Rightarrow> ('x, 'u) world result" where
  "with_ref f c w = andThen (f c (share c w)) (\<lambda>w'. Inr (release c w'))"

definition on_channel ::
  "(channel \<Rightarrow> epoll_set \<Rightarrow> channel \<times> epoll_set) \<Rightarrow> nat \<Rightarrow> 'x tcp_conn \<Rightarrow> ('x, 'u) world \<Rightarrow> ('x, 'u) world" where
  "on_channel op c k w =
     (let (ch, s) = op (pSocketChannel k) (epolls w (pLoop k))
      in put_conn c (k\<lparr>pSocketChannel := ch\<rparr>) (w\<lparr>epolls := (epolls w)(pLoop k := s)\<rparr>))"

definition queue_call :: "nat \<Rightarrow> loop_call \<Rightarrow> ('x, 'u) world \<Rightarrow> ('x, 'u) world" where
  "queue_call l t w = w\<lparr>pendingFunctors := (pendingFunctors w)(l := pendingFunctors w l @ [t])\<rparr>"

text \<open>
  \<^verbatim>\<open>::write\<close>: an error (negative answer, also when no answer is left) or the number of bytes
  taken, at most what was offered.
\<close>

definition sys_write :: "nat \<Rightarrow> byte list \<Rightarrow> ('x, 'u) world \<Rightarrow> int \<times> ('x, 'u) world" where
  "sys_write c d w =
     (case write_answers w of
        [] \<Rightarrow> (-1, w)
      | a # as \<Rightarrow>
          if a < 0 then (-1, w\<lparr>write_answers := as\<rparr>)
          else let n = min (nat a) (length d)
               in (int n, w\<lparr>write_answers := as, wire := (wire w)(c := wire w c @ take n d)\<rparr>))"

text \<open>Narrowing to \<^verbatim>\<open>int\<close>, and \<^verbatim>\<open>std::string::substr\<close>.\<close>

definition to_int :: "int \<Rightarrow> int" where
  "to_int x = sint (word_of_int x :: 32 word)"

definition substr :: "byte list \<Rightarrow> size_t \<Rightarrow> size_t \<Rightarrow> byte list result" where
  "substr s pos n = (if length s < unat pos then Inl OutOfRange else Inr (take (unat n) (drop (unat pos) s)))"

section \<open>The owners of connections\<close>

definition TcpServer_removeConnection :: "nat \<Rightarrow> ('x, 'u) world \<Rightarrow> ('x, 'u) world result" where
  "TcpServer_removeConnection c w =
     with_conn c w (\<lambda>k. Inr (case connections w (sockfd k) of
        None \<Rightarrow> w
      | Some c' \<Rightarrow> release c' (w\<lparr>connections := (connections w)(sockfd k := None)\<rparr>)))"

definition TcpClient_removeConnection :: "nat \<Rightarrow> ('x, 'u) world \<Rightarrow> ('x, 'u) world result" where
  "TcpClient_removeConnection c w =
     Inr (if client_connection w = Some c then release c (w\<lparr>client_connection := None\<rparr>) else w)"

fun up_remove :: "up_layer \<Rightarrow> nat \<Rightarrow> ('x, 'u) world \<Rightarrow> ('x, 'u) world result" where
  "up_remove ServerRemove = TcpServer_removeConnection"
| "up_remove ClientRemove = TcpClient_removeConnection"

section \<open>The connection\<close>

definition TcpConnection_init :: "nat \<Rightarrow> int \<Rightarrow> nat \<Rightarrow> 'x tcp_conn" where
  "TcpConnection_init c fd l =
     \<lparr>sockfd = fd, pLoop = l, pUser = False, pSocketChannel = Channel_init c fd, closeCallback = None,
      inBuf = Buffer_init kInitialSize, outBuf = Buffer_init kInitialSize, conn_context = None, refs = 1\<rparr>"

text \<open>The constructor, called as \<^verbatim>\<open>TcpConnectionPtr conn(new TcpConnection(fd, loop))\<close>.\<close>

definition TcpConnection_new :: "int \<Rightarrow> nat \<Rightarrow> ('x, 'u) world \<Rightarrow> nat \<times> ('x, 'u) world" where
  "TcpConnection_new fd l w =
     (let c = next_conn w; k = TcpConnection_init c fd l;
          k1 = k\<lparr>pSocketChannel := setCallback (pSocketChannel k)\<rparr>
      in (c, on_channel enableReading c k1 (w\<lparr>next_conn := c + 1, wire := (wire w)(c := [])\<rparr>)))"

definition setUser :: "bool \<Rightarrow> 'x tcp_conn \<Rightarrow> 'x tcp_conn" where
  "setUser user k = (if user then k\<lparr>pUser := True\<rparr> else k)"

definition setUpLayerCloseCallback :: "up_layer \<Rightarrow> 'x tcp_conn \<Rightarrow> 'x tcp_conn" where
  "setUpLayerCloseCallback cb k = k\<lparr>closeCallback := Some cb\<rparr>"

definition getFd :: "'x tcp_conn \<Rightarrow> int" where
  "getFd k = sockfd k"

definition setContext :: "'x \<Rightarrow> 'x tcp_conn \<Rightarrow> 'x tcp_conn" where
  "setContext x k = k\<lparr>conn_context := Some x\<rparr>"

definition getContext :: "'x tcp_conn \<Rightarrow> 'x option" where
  "getContext k = conn_context k"

definition connectEstablished ::
  "('x, 'u) muduo_user \<Rightarrow> nat \<Rightarrow> nat \<Rightarrow> ('x, 'u) world \<Rightarrow> ('x, 'u) world result" where
  "connectEstablished user tid c w =
     with_conn c w (\<lambda>k. if pUser k then with_ref (onConnection user tid) c w else Inr w)"

definition onWriteComplateCB ::
  "('x, 'u) muduo_user \<Rightarrow> nat \<Rightarrow> nat \<Rightarrow> ('x, 'u) world \<Rightarrow> ('x, 'u) world result" where
  "onWriteComplateCB user tid c w =
     with_conn c w (\<lambda>k. if pUser k then with_ref (onWriteComplate user tid) c w else Inr w)"

subsection \<open>Sending\<close>

definition sendInLoop :: "nat \<Rightarrow> byte list \<Rightarrow> ('x, 'u) world \<Rightarrow> ('x, 'u) world result" where
  "sendInLoop c message w =
     with_conn c w (\<lambda>k.
       let len = to_int (int (length message));
           (n, w1) =
             (if readableBytes (outBuf k) = 0 then
                let (r, w') = sys_write c message w; n = to_int r
                in if n = len
                   then (n, queue_call (pLoop k) (WriteComplate c)
                              (put_conn c (k\<lparr>outBuf := retrieveAll (outBuf k)\<rparr>) w'))
                   else (n, w')
              else (0, w))
       in if n < len then
            with_conn c w1 (\<lambda>k1.
              andThen (substr message (word_of_int n) (size_of message)) (\<lambda>rest.
              andThen (append_data (outBuf k1) rest) (\<lambda>b.
                let k2 = k1\<lparr>outBuf := b\<rparr>
                in Inr (if \<not> isWriting (pSocketChannel k2) then on_channel enableWriting c k2 w1
                        else put_conn c k2 w1))))
          else Inr w1)"

definition onMessageCB :: "nat \<Rightarrow> byte list \<Rightarrow> ('x, 'u) world \<Rightarrow> ('x, 'u) world result" where
  "onMessageCB c message w = sendInLoop c message w"

text \<open>
  \<open>tid\<close> is the calling thread. From another thread the message is queued: \<^verbatim>\<open>runInLoop\<close> tests the
  thread again and queues.
\<close>

definition TcpConnection_send :: "nat \<Rightarrow> nat \<Rightarrow> byte list \<Rightarrow> ('x, 'u) world \<Rightarrow> ('x, 'u) world result" where
  "TcpConnection_send tid c message w =
     with_conn c w (\<lambda>k.
       if tid = pLoop k then sendInLoop c message w
       else Inr (queue_call (pLoop k) (MessageCB c message) w))"

definition handleWrite :: "nat \<Rightarrow> ('x, 'u) world \<Rightarrow> ('x, 'u) world result" where
  "handleWrite c w =
     with_conn c w (\<lambda>k.
       if isWriting (pSocketChannel k) then
         andThen (peek_read (outBuf k) (unat (readableBytes (outBuf k)))) (\<lambda>d.
           let (r, w1) = sys_write c d w; n = to_int r
           in if 0 < n then
                let b = retrieve (outBuf k) (word_of_int n)
                in if readableBytes b = 0
                   then Inr (queue_call (pLoop k) (WriteComplate c)
                              (on_channel disableWriting c (k\<lparr>outBuf := b\<rparr>) w1))
                   else Inr (put_conn c (k\<lparr>outBuf := b\<rparr>) w1)
              else Inr w1)
       else Inr w)"

subsection \<open>Closing and reading\<close>

definition handleClose ::
  "('x, 'u) muduo_user \<Rightarrow> nat \<Rightarrow> nat \<Rightarrow> ('x, 'u) world \<Rightarrow> ('x, 'u) world result" where
  "handleClose user tid c w =
     with_conn c w (\<lambda>k.
       let w1 = on_channel disableAll c (k\<lparr>pSocketChannel := setIndex kDeleted (pSocketChannel k)\<rparr>) w;
           w2 = share c w1
       in andThen (if pUser k then with_ref (onClose user tid) c w2 else Inr w2) (\<lambda>w3.
          andThen (with_conn c w3 (\<lambda>k3. case closeCallback k3 of
                      None \<Rightarrow> Inr w3
                    | Some up \<Rightarrow> with_ref (up_remove up) c w3)) (\<lambda>w4.
            Inr (release c w4))))"

abbreviation ECONNRESET :: int where "ECONNRESET \<equiv> 104"

definition handleRead ::
  "('x, 'u) muduo_user \<Rightarrow> nat \<Rightarrow> readv_outcome \<Rightarrow> nat \<Rightarrow> ('x, 'u) world \<Rightarrow> ('x, 'u) world result" where
  "handleRead user tid rv c w =
     with_conn c w (\<lambda>k.
       if ch_fd (pSocketChannel k) < 0 then Inr w
       else andThen (readFd (inBuf k) rv) (\<lambda>r.
         let w1 = put_conn c (k\<lparr>inBuf := rf_buffer r\<rparr>) w
         in if 0 < rf_n r then
              (if pUser k then with_ref (onMessage user tid) c w1 else Inl NullDeref)
            else if rf_n r = 0 then handleClose user tid c w1
            else if rf_errno r = Some ECONNRESET then handleClose user tid c w1
            else Inr w1))"

text \<open>
  An event of the connection's channel: the kernel's answer is stored, then
  \<^verbatim>\<open>Channel::handleEvent\<close> runs on the channel, which lives and dies with the connection.
\<close>

definition conn_channel :: "nat \<Rightarrow> ('x, 'u) world \<Rightarrow> channel option" where
  "conn_channel c w = map_option pSocketChannel (conns w c)"

definition conn_event ::
  "('x, 'u) muduo_user \<Rightarrow> nat \<Rightarrow> readv_outcome \<Rightarrow> 32 word \<Rightarrow> nat \<Rightarrow> ('x, 'u) world \<Rightarrow> ('x, 'u) world result" where
  "conn_event user tid rv ev c w =
     with_conn c w (\<lambda>k.
       handleEvent (conn_channel c)
         \<lparr>cb_close = handleClose user tid c, cb_read = handleRead user tid rv c, cb_write = handleWrite c\<rparr>
         (put_conn c (k\<lparr>pSocketChannel := setRevents ev (pSocketChannel k)\<rparr>) w))"

subsection \<open>Queued functors\<close>

fun run_call ::
  "('x, 'u) muduo_user \<Rightarrow> nat \<Rightarrow> loop_call \<Rightarrow> ('x, 'u) world \<Rightarrow> ('x, 'u) world result" where
  "run_call user tid (Established c) w = connectEstablished user tid c w"
| "run_call user tid (WriteComplate c) w = onWriteComplateCB user tid c w"
| "run_call user tid (MessageCB c message) w = onMessageCB c message w"

fun run_calls ::
  "('x, 'u) muduo_user \<Rightarrow> nat \<Rightarrow> loop_call list \<Rightarrow> ('x, 'u) world \<Rightarrow> ('x, 'u) world result" where
  "run_calls user tid [] w = Inr w"
| "run_calls user tid (t # ts) w =
     andThen (run_call user tid t w) (run_calls user tid ts)"

text \<open>The pointers the functors hold are dropped when the swapped-out vector is destroyed.\<close>

fun drop_calls :: "loop_call list \<Rightarrow> ('x, 'u) world \<Rightarrow> ('x, 'u) world" where
  "drop_calls [] w = w"
| "drop_calls (Established c # ts) w = drop_calls ts (release c w)"
| "drop_calls (_ # ts) w = drop_calls ts w"

definition conn_doPendingFunctors ::
  "('x, 'u) muduo_user \<Rightarrow> nat \<Rightarrow> ('x, 'u) world \<Rightarrow> ('x, 'u) world result" where
  "conn_doPendingFunctors user l w =
     (let ts = pendingFunctors w l
      in andThen (run_calls user l ts (w\<lparr>pendingFunctors := (pendingFunctors w)(l := [])\<rparr>))
           (\<lambda>w'. Inr (drop_calls ts w')))"

section \<open>Lemmas about the state\<close>

lemma with_conn_Some [simp]: "conns w c = Some k \<Longrightarrow> with_conn c w f = f k"
  by (simp add: with_conn_def)

lemma with_conn_None [simp]: "conns w c = None \<Longrightarrow> with_conn c w f = Inl UseAfterFree"
  by (simp add: with_conn_def)

lemma to_int_id [simp]: "- (2 ^ 31) \<le> x \<Longrightarrow> x < 2 ^ 31 \<Longrightarrow> to_int x = x"
  by (simp add: to_int_def int_word_sint)

lemma substr_tail: "n \<le> length s \<Longrightarrow> fits (length s) \<Longrightarrow>
    substr s (word_of_int (int n)) (size_of s) = Inr (drop n s)"
  by (simp add: substr_def unat_of_nat_size unat_size_of)

lemma substr_negative: "fits (length s + 1) \<Longrightarrow> substr s (word_of_int (-1)) n = Inl OutOfRange"
  by (simp add: substr_def unsigned_minus_1_eq_mask mask_eq_exp_minus_1)

lemma update_added:
  assumes "in_sync ch s" "index ch = kAdded"
  shows "Epoll_update (ch\<lparr>events := ev\<rparr>) s = (ch\<lparr>events := ev\<rparr>, s(ch_fd ch := Some (ev, ch_id ch)))"
  using assms by (auto simp: in_sync_def Epoll_update_def Let_def epoll_mod_def)

lemma writing_on [simp]: "isWriting (ch\<lparr>events := e OR EPOLLOUT\<rparr>)"
  by (simp add: isWriting_def word_ao_dist)

lemma writing_off [simp]: "\<not> isWriting (ch\<lparr>events := e AND - 5\<rparr>)"
  by (simp add: isWriting_def and.assoc)

lemma retrieve_empty: "buffer_ok b \<Longrightarrow> readableBytes b = 0 \<longleftrightarrow> content b = []"
  by (metis unat_readableBytes length_0_conv unat_eq_zero)

section \<open>The byte stream of one connection\<close>

text \<open>
  An open connection: its channel is registered with the kernel, and it waits for
  \<^verbatim>\<open>EPOLLOUT\<close> exactly while bytes are left over.
\<close>

definition stream_ok :: "'x tcp_conn \<Rightarrow> ('x, 'u) world \<Rightarrow> bool" where
  "stream_ok k w \<longleftrightarrow> buffer_ok (outBuf k) \<and> in_sync (pSocketChannel k) (epolls w (pLoop k))
     \<and> index (pSocketChannel k) = kAdded
     \<and> (isWriting (pSocketChannel k) \<longleftrightarrow> content (outBuf k) \<noteq> [])"

text \<open>
  \<open>advance c w k added n flushed w' k'\<close>: the operation appended \<open>added\<close> to the stream of \<open>c\<close>, the
  kernel took the next \<open>n\<close> bytes, and the user is to be told if \<open>flushed\<close>; nothing else changed.
\<close>

definition advance ::
  "nat \<Rightarrow> ('x, 'u) world \<Rightarrow> 'x tcp_conn \<Rightarrow> byte list \<Rightarrow> nat \<Rightarrow> bool \<Rightarrow> ('x, 'u) world \<Rightarrow> 'x tcp_conn \<Rightarrow> bool" where
  "advance c w k added n flushed w' k' \<longleftrightarrow>
     stream_ok k' w' \<and> grows (outBuf k) (length added) (outBuf k')
     \<and> content (outBuf k') = drop n (content (outBuf k) @ added)
     \<and> wire w' c = wire w c @ take n (content (outBuf k) @ added)
     \<and> k' = k\<lparr>outBuf := outBuf k', pSocketChannel := pSocketChannel k'\<rparr>
     \<and> ch_fd (pSocketChannel k') = ch_fd (pSocketChannel k)
     \<and> pSocketChannel k' = (pSocketChannel k)\<lparr>events := events (pSocketChannel k')\<rparr>
     \<and> conns w' = (conns w)(c := Some k')
     \<and> pendingFunctors w' (pLoop k) = pendingFunctors w (pLoop k) @ (if flushed then [WriteComplate c] else [])
     \<and> (\<forall>l. l \<noteq> pLoop k \<longrightarrow> epolls w' l = epolls w l \<and> pendingFunctors w' l = pendingFunctors w l)
     \<and> (\<forall>fd. fd \<noteq> ch_fd (pSocketChannel k) \<longrightarrow> epolls w' (pLoop k) fd = epolls w (pLoop k) fd)
     \<and> (\<forall>c'. c' \<noteq> c \<longrightarrow> wire w' c' = wire w c')
     \<and> connections w' = connections w \<and> client_connection w' = client_connection w \<and> usr w' = usr w
     \<and> next_conn w' = next_conn w \<and> threadPool w' = threadPool w"

lemmas world_step_defs = put_conn_def queue_call_def on_channel_def enableWriting_def disableWriting_def

lemma stream_okD:
  assumes "stream_ok k w"
  shows "buffer_ok (outBuf k)" "in_sync (pSocketChannel k) (epolls w (pLoop k))"
    "index (pSocketChannel k) = kAdded" "isWriting (pSocketChannel k) \<longleftrightarrow> content (outBuf k) \<noteq> []"
  using assms by (simp_all add: stream_ok_def)

text \<open>Appending what the kernel did not take, with or without switching \<^verbatim>\<open>EPOLLOUT\<close> on.\<close>

lemma append_rest:
  assumes ok: "stream_ok k w" and k: "conns w c = Some k" and r: "room (outBuf k) (length added)"
    and n: "n \<le> length added" "content (outBuf k) \<noteq> [] \<longrightarrow> n = 0" and left: "n < length added"
    and w1: "w1 = w\<lparr>write_answers := as, wire := (wire w)(c := wire w c @ take n added)\<rparr>"
  obtains b where "append_data (outBuf k) (drop n added) = Inr b"
    "advance c w k added n False
       (if \<not> isWriting (pSocketChannel k) then on_channel enableWriting c (k\<lparr>outBuf := b\<rparr>) w1
        else put_conn c (k\<lparr>outBuf := b\<rparr>) w1)
       (k\<lparr>outBuf := b, pSocketChannel :=
           (if isWriting (pSocketChannel k) then pSocketChannel k
            else (pSocketChannel k)\<lparr>events := events (pSocketChannel k) OR EPOLLOUT\<rparr>)\<rparr>)"
proof -
  note b_ok = stream_okD(1) [OF ok] and sync = stream_okD(2) [OF ok] and added = stream_okD(3) [OF ok]
    and wr = stream_okD(4) [OF ok]
  from append_data_ok [OF b_ok room_mono [OF r, of "length (drop n added)"]] obtain b where
    b: "append_data (outBuf k) (drop n added) = Inr b" "grows (outBuf k) (length (drop n added)) b"
       "content b = content (outBuf k) @ drop n added" by auto
  have grown: "grows (outBuf k) (length added) b" "buffer_ok b"
    using b(2) by (auto simp: grows_def)
  have nonempty: "content b \<noteq> []" using b(3) left by auto
  have all: "content b = drop n (content (outBuf k) @ added)" "take n added = take n (content (outBuf k) @ added)"
    using b(3) n by (cases "content (outBuf k) = []"; simp)+
  show thesis
  proof (rule that [OF b(1)], cases "isWriting (pSocketChannel k)")
    case True
    then show "advance c w k added n False
       (if \<not> isWriting (pSocketChannel k) then on_channel enableWriting c (k\<lparr>outBuf := b\<rparr>) w1
        else put_conn c (k\<lparr>outBuf := b\<rparr>) w1)
       (k\<lparr>outBuf := b, pSocketChannel :=
           (if isWriting (pSocketChannel k) then pSocketChannel k
            else (pSocketChannel k)\<lparr>events := events (pSocketChannel k) OR EPOLLOUT\<rparr>)\<rparr>)"
      using grown nonempty sync added all
      by (simp add: advance_def stream_ok_def world_step_defs w1)
  next
    case False
    have "in_sync ((pSocketChannel k)\<lparr>events := events (pSocketChannel k) OR EPOLLOUT\<rparr>)
        ((epolls w (pLoop k))(ch_fd (pSocketChannel k) :=
           Some (events (pSocketChannel k) OR EPOLLOUT, ch_id (pSocketChannel k))))"
      using sync added by (simp add: in_sync_def)
    with False show "advance c w k added n False
       (if \<not> isWriting (pSocketChannel k) then on_channel enableWriting c (k\<lparr>outBuf := b\<rparr>) w1
        else put_conn c (k\<lparr>outBuf := b\<rparr>) w1)
       (k\<lparr>outBuf := b, pSocketChannel :=
           (if isWriting (pSocketChannel k) then pSocketChannel k
            else (pSocketChannel k)\<lparr>events := events (pSocketChannel k) OR EPOLLOUT\<rparr>)\<rparr>)"
      using grown nonempty sync added all
      by (simp add: advance_def stream_ok_def world_step_defs w1 update_added)
  qed
qed

text \<open>\<^verbatim>\<open>sendInLoop\<close>: bytes are waiting already; the kernel takes some or all; it reports an error.\<close>

lemma sendInLoop_blocked:
  assumes k: "conns w c = Some k" and ok: "stream_ok k w" and r: "room (outBuf k) (length m)"
    and small: "length m < 2 ^ 31" and waiting: "content (outBuf k) \<noteq> []"
  shows "\<exists>w' k'. sendInLoop c m w = Inr w' \<and> advance c w k m 0 False w' k'"
proof -
  note b_ok = stream_okD(1) [OF ok]
  have busy: "readableBytes (outBuf k) \<noteq> 0" using waiting retrieve_empty [OF b_ok] by simp
  show ?thesis
  proof (cases "m = []")
    case True
    then have "sendInLoop c m w = Inr w"
      using k busy by (simp add: sendInLoop_def Let_def)
    moreover have "advance c w k m 0 False w k"
      using ok True b_ok k by (simp add: advance_def grows_refl fun_upd_idem)
    ultimately show ?thesis by blast
  next
    case False
    have w: "w = w\<lparr>write_answers := write_answers w, wire := (wire w)(c := wire w c @ take 0 m)\<rparr>" by simp
    from append_rest [OF ok k r _ _ _ w] False obtain b where
      b: "append_data (outBuf k) m = Inr b" and adv: "advance c w k m 0 False
         (if \<not> isWriting (pSocketChannel k) then on_channel enableWriting c (k\<lparr>outBuf := b\<rparr>) w
          else put_conn c (k\<lparr>outBuf := b\<rparr>) w)
         (k\<lparr>outBuf := b, pSocketChannel :=
            (if isWriting (pSocketChannel k) then pSocketChannel k
             else (pSocketChannel k)\<lparr>events := events (pSocketChannel k) OR EPOLLOUT\<rparr>)\<rparr>)" by auto
    have "substr m 0 (size_of m) = Inr m"
      using substr_tail [of 0 m] roomD(2) [OF r] by simp
    then have "sendInLoop c m w = Inr (if \<not> isWriting (pSocketChannel k) then on_channel enableWriting c (k\<lparr>outBuf := b\<rparr>) w
          else put_conn c (k\<lparr>outBuf := b\<rparr>) w)"
      using k busy b small False by (simp add: sendInLoop_def Let_def)
    with adv show ?thesis by blast
  qed
qed

lemma sendInLoop_direct:
  assumes k: "conns w c = Some k" and ok: "stream_ok k w" and r: "room (outBuf k) (length m)"
    and small: "length m < 2 ^ 31" and idle: "content (outBuf k) = []"
    and a: "write_answers w = a # as" "0 \<le> a"
  defines "n \<equiv> min (nat a) (length m)"
  shows "\<exists>w' k'. sendInLoop c m w = Inr w' \<and> advance c w k m n (n = length m) w' k'"
proof -
  note b_ok = stream_okD(1) [OF ok]
  define w1 where "w1 = w\<lparr>write_answers := as, wire := (wire w)(c := wire w c @ take n m)\<rparr>"
  have free: "readableBytes (outBuf k) = 0" using idle retrieve_empty [OF b_ok] by simp
  have n: "n \<le> length m" by (simp add: n_def)
  have wrote: "sys_write c m w = (int n, w1)"
    using a by (simp add: sys_write_def n_def w1_def Let_def)
  have k1: "conns w1 c = Some k" using k by (simp add: w1_def)
  show ?thesis
  proof (cases "n = length m")
    case True
    have "sendInLoop c m w =
        Inr (queue_call (pLoop k) (WriteComplate c) (put_conn c (k\<lparr>outBuf := retrieveAll (outBuf k)\<rparr>) w1))"
      using k free wrote True small by (simp add: sendInLoop_def Let_def)
    moreover have "advance c w k m n True
        (queue_call (pLoop k) (WriteComplate c) (put_conn c (k\<lparr>outBuf := retrieveAll (outBuf k)\<rparr>) w1))
        (k\<lparr>outBuf := retrieveAll (outBuf k)\<rparr>)"
      using retrieveAll_ok [OF b_ok] ok idle True
      by (simp add: advance_def stream_ok_def world_step_defs w1_def grows_def)
    ultimately show ?thesis using True by auto
  next
    case False
    with n have left: "n < length m" by simp
    from append_rest [OF ok k r n _ left w1_def] idle obtain b where
      b: "append_data (outBuf k) (drop n m) = Inr b" and adv: "advance c w k m n False
         (if \<not> isWriting (pSocketChannel k) then on_channel enableWriting c (k\<lparr>outBuf := b\<rparr>) w1
          else put_conn c (k\<lparr>outBuf := b\<rparr>) w1)
         (k\<lparr>outBuf := b, pSocketChannel :=
            (if isWriting (pSocketChannel k) then pSocketChannel k
             else (pSocketChannel k)\<lparr>events := events (pSocketChannel k) OR EPOLLOUT\<rparr>)\<rparr>)" by auto
    have "substr m (word_of_int (int n)) (size_of m) = Inr (drop n m)"
      using substr_tail [OF n] roomD(2) [OF r] by simp
    then have "sendInLoop c m w = Inr (if \<not> isWriting (pSocketChannel k) then on_channel enableWriting c (k\<lparr>outBuf := b\<rparr>) w1
          else put_conn c (k\<lparr>outBuf := b\<rparr>) w1)"
      using k k1 free wrote b small left n by (simp add: sendInLoop_def Let_def)
    with adv have "\<exists>w' k'. sendInLoop c m w = Inr w' \<and> advance c w k m n False w' k'" by blast
    with False show ?thesis by simp
  qed
qed

lemma sendInLoop_error:
  assumes k: "conns w c = Some k" and ok: "buffer_ok (outBuf k)" and small: "length m < 2 ^ 31"
    and idle: "content (outBuf k) = []"
    and a: "case write_answers w of [] \<Rightarrow> True | a # as \<Rightarrow> a < 0"
  shows "sendInLoop c m w = Inl OutOfRange"
proof -
  have free: "readableBytes (outBuf k) = 0" using idle retrieve_empty [OF ok] by simp
  obtain w1 where wrote: "sys_write c m w = (-1, w1)" and k1: "conns w1 c = Some k"
    using a k by (auto simp: sys_write_def split: list.splits)
  have "substr m (word_of_int (-1)) (size_of m) = Inl OutOfRange"
    using small by (intro substr_negative) simp
  with k k1 free wrote small show ?thesis by (simp add: sendInLoop_def Let_def)
qed

text \<open>\<^verbatim>\<open>handleWrite\<close> on an open connection.\<close>

lemma handleWrite_idle:
  "conns w c = Some k \<Longrightarrow> \<not> isWriting (pSocketChannel k) \<Longrightarrow> handleWrite c w = Inr w"
  by (simp add: handleWrite_def)

lemma handleWrite_advances:
  assumes k: "conns w c = Some k" and ok: "stream_ok k w" and small: "length (content (outBuf k)) < 2 ^ 31"
    and waiting: "content (outBuf k) \<noteq> []"
    and a: "write_answers w = a # as"
  defines "n \<equiv> min (nat a) (length (content (outBuf k)))"
  shows "\<exists>w' k'. handleWrite c w = Inr w' \<and> advance c w k [] n (n = length (content (outBuf k))) w' k'
    \<and> write_answers w' = as"
proof -
  note b_ok = stream_okD(1) [OF ok] and sync = stream_okD(2) [OF ok] and added = stream_okD(3) [OF ok]
  have wr: "isWriting (pSocketChannel k)" using stream_okD(4) [OF ok] waiting by simp
  let ?d = "content (outBuf k)"
  let ?b = "retrieve (outBuf k) (word_of_int (int n))"
  have peek: "peek_read (outBuf k) (unat (readableBytes (outBuf k))) = Inr ?d"
    using peek_read_ok [OF b_ok, of "length ?d"] unat_readableBytes [OF b_ok] by simp
  have n: "n \<le> length ?d" "n < 2 ^ 31" using small by (simp_all add: n_def)
  have un: "unat (word_of_int (int n) :: size_t) = n" using n(2) by (simp add: unat_of_nat_size)
  have b: "grows (outBuf k) 0 ?b" "content ?b = drop n ?d" "buffer_ok ?b"
    using retrieve_ok [OF b_ok, of "word_of_int (int n)"] un by (auto simp: grows_def)
  have empty: "readableBytes ?b = 0 \<longleftrightarrow> n = length ?d"
    using retrieve_empty [OF b(3)] b(2) n(1) by auto
  define w1 where "w1 = w\<lparr>write_answers := as, wire := (wire w)(c := wire w c @ take n ?d)\<rparr>"
  show ?thesis
  proof (cases "0 < a")
    case False
    then have n0: "n = 0" by (simp add: n_def)
    have "handleWrite c w = Inr (w\<lparr>write_answers := as\<rparr>)"
      using k wr peek a False n0 by (auto simp: handleWrite_def sys_write_def Let_def)
    moreover have "advance c w k [] n False (w\<lparr>write_answers := as\<rparr>) k"
      using ok b_ok k n0 by (simp add: advance_def stream_ok_def grows_refl fun_upd_idem)
    ultimately show ?thesis using n0 waiting by auto
  next
    case True
    then have n1: "0 < n" using waiting by (simp add: n_def)
    have wrote: "sys_write c ?d w = (int n, w1)"
      using a True by (simp add: sys_write_def n_def w1_def Let_def)
    show ?thesis
    proof (cases "n = length ?d")
      case True
      have "handleWrite c w = Inr (queue_call (pLoop k) (WriteComplate c)
                              (on_channel disableWriting c (k\<lparr>outBuf := ?b\<rparr>) w1))"
        using k wr peek wrote n1 n empty True by (simp add: handleWrite_def Let_def)
      moreover have "in_sync ((pSocketChannel k)\<lparr>events := events (pSocketChannel k) AND NOT EPOLLOUT\<rparr>)
        ((epolls w (pLoop k))(ch_fd (pSocketChannel k) :=
           Some (events (pSocketChannel k) AND NOT EPOLLOUT, ch_id (pSocketChannel k))))"
        using sync added by (simp add: in_sync_def)
      then have "advance c w k [] n True (queue_call (pLoop k) (WriteComplate c)
                              (on_channel disableWriting c (k\<lparr>outBuf := ?b\<rparr>) w1))
          (k\<lparr>outBuf := ?b, pSocketChannel := (pSocketChannel k)\<lparr>events := events (pSocketChannel k) AND NOT EPOLLOUT\<rparr>\<rparr>)"
        using sync added b True
        by (simp add: advance_def stream_ok_def world_step_defs w1_def update_added)
      ultimately show ?thesis using True by (auto simp: world_step_defs w1_def split: prod.splits)
    next
      case False
      have "handleWrite c w = Inr (put_conn c (k\<lparr>outBuf := ?b\<rparr>) w1)"
        using k wr peek wrote n1 n empty False by (simp add: handleWrite_def Let_def)
      moreover have "advance c w k [] n False (put_conn c (k\<lparr>outBuf := ?b\<rparr>) w1) (k\<lparr>outBuf := ?b\<rparr>)"
        using sync added b False wr n(1)
        by (simp add: advance_def stream_ok_def world_step_defs w1_def)
      ultimately show ?thesis using False by (auto simp: world_step_defs w1_def)
    qed
  qed
qed

section \<open>Histories of one connection\<close>

text \<open>
  \<open>same_stream c w w'\<close>: a step that is not the output of \<open>c\<close> (a read, a callback's own work, another
  connection or loop) leaves the output buffer, the wire and the registration of \<open>c\<close>.
\<close>

definition same_stream :: "nat \<Rightarrow> ('x, 'u) world \<Rightarrow> ('x, 'u) world \<Rightarrow> bool" where
  "same_stream c w w' \<longleftrightarrow> wire w' c = wire w c \<and>
     (\<forall>k. conns w c = Some k \<longrightarrow> (\<exists>k'. conns w' c = Some k' \<and> outBuf k' = outBuf k \<and> pLoop k' = pLoop k
        \<and> ch_fd (pSocketChannel k') = ch_fd (pSocketChannel k) \<and> ch_id (pSocketChannel k') = ch_id (pSocketChannel k)
        \<and> events (pSocketChannel k') = events (pSocketChannel k) \<and> index (pSocketChannel k') = index (pSocketChannel k)
        \<and> epolls w' (pLoop k) (ch_fd (pSocketChannel k)) = epolls w (pLoop k) (ch_fd (pSocketChannel k))))"

text \<open>\<open>conn_steps c w ms w'\<close>: from \<open>w\<close>, the messages \<open>ms\<close> were sent on \<open>c\<close>, in this order, up to \<open>w'\<close>.\<close>

inductive conn_steps :: "nat \<Rightarrow> ('x, 'u) world \<Rightarrow> byte list list \<Rightarrow> ('x, 'u) world \<Rightarrow> bool" for c w where
  steps_start: "conn_steps c w [] w"
| steps_send: "conn_steps c w ms w1 \<Longrightarrow> sendInLoop c m w1 = Inr w2 \<Longrightarrow> conn_steps c w (ms @ [m]) w2"
| steps_writable: "conn_steps c w ms w1 \<Longrightarrow> handleWrite c w1 = Inr w2 \<Longrightarrow> conn_steps c w ms w2"
| steps_other: "conn_steps c w ms w1 \<Longrightarrow> same_stream c w1 w2 \<Longrightarrow> conn_steps c w ms w2"

definition stream_at :: "nat \<Rightarrow> byte list \<Rightarrow> nat \<Rightarrow> ('x, 'u) world \<Rightarrow> bool" where
  "stream_at c bytes cap w \<longleftrightarrow> (\<exists>k. conns w c = Some k \<and> stream_ok k w
     \<and> wire w c @ content (outBuf k) = bytes \<and> length (vec (outBuf k)) \<le> cap)"

lemma stream_atE:
  assumes "stream_at c bytes cap w"
  obtains k where "conns w c = Some k" "stream_ok k w" "wire w c @ content (outBuf k) = bytes"
    "length (vec (outBuf k)) \<le> cap"
  using assms by (auto simp: stream_at_def)

lemma advance_stream_at:
  assumes "conns w c = Some k" "wire w c @ content (outBuf k) = bytes" "length (vec (outBuf k)) \<le> cap"
    and adv: "advance c w k m n fl w' k'"
  shows "stream_at c (bytes @ m) (cap + length m) w'"
proof -
  have "wire w' c @ content (outBuf k') = wire w c @ content (outBuf k) @ m"
    using adv by (simp only: advance_def append_assoc append_take_drop_id)
  moreover have "length (vec (outBuf k')) \<le> length (vec (outBuf k)) + length m" "stream_ok k' w'" "conns w' c = Some k'"
    using adv by (simp_all add: advance_def grows_def)
  ultimately show ?thesis
    using assms(2,3) by (auto simp: stream_at_def)
qed

lemma send_stream_at:
  assumes at: "stream_at c bytes cap w" and r: "fits (cap + length m + 8)" and small: "length m < 2 ^ 31"
    and run: "sendInLoop c m w = Inr w'"
  shows "stream_at c (bytes @ m) (cap + length m) w'"
proof -
  from at obtain k where k: "conns w c = Some k" "stream_ok k w" "wire w c @ content (outBuf k) = bytes"
    "length (vec (outBuf k)) \<le> cap" by (rule stream_atE)
  have room: "room (outBuf k) (length m)" using r k(4) by (simp add: room_def)
  have "\<exists>n fl k'. advance c w k m n fl w' k'"
  proof (cases "content (outBuf k) = []")
    case False
    from sendInLoop_blocked [OF k(1,2) room small False] run show ?thesis by force
  next
    case True
    show ?thesis
    proof (cases "case write_answers w of [] \<Rightarrow> True | a # as \<Rightarrow> a < 0")
      case error: True
      from sendInLoop_error [OF k(1) stream_okD(1) [OF k(2)] small True error] run show ?thesis by simp
    next
      case False
      then obtain a as where "write_answers w = a # as" "0 \<le> a" by (auto split: list.splits)
      from sendInLoop_direct [OF k(1,2) room small True this] run show ?thesis by force
    qed
  qed
  with k(1,3,4) show ?thesis by (blast intro: advance_stream_at)
qed

lemma writable_stream_at:
  assumes at: "stream_at c bytes cap w" and small: "length bytes < 2 ^ 31"
    and run: "handleWrite c w = Inr w'"
  shows "stream_at c bytes cap w'"
proof -
  from at obtain k where k: "conns w c = Some k" "stream_ok k w" "wire w c @ content (outBuf k) = bytes"
    "length (vec (outBuf k)) \<le> cap" by (rule stream_atE)
  have len: "length (content (outBuf k)) < 2 ^ 31" using small k(3) by auto
  show ?thesis
  proof (cases "content (outBuf k) = []")
    case True
    with k(2) have "\<not> isWriting (pSocketChannel k)" by (simp add: stream_ok_def)
    from handleWrite_idle [OF k(1) this] run at show ?thesis by simp
  next
    case False
    show ?thesis
    proof (cases "write_answers w")
      case Nil
      have "handleWrite c w = Inr w"
        using k False Nil peek_read_ok [OF stream_okD(1) [OF k(2)], of "length (content (outBuf k))"]
          unat_readableBytes [OF stream_okD(1) [OF k(2)]]
        by (simp add: handleWrite_def sys_write_def stream_okD(4))
      with run at show ?thesis by simp
    next
      case (Cons a as)
      from handleWrite_advances [OF k(1,2) len False Cons] run obtain n fl k' where
        "advance c w k [] n fl w' k'" by force
      from advance_stream_at [OF k(1,3,4) this] show ?thesis by simp
    qed
  qed
qed

lemma other_stream_at:
  assumes at: "stream_at c bytes cap w" and same: "same_stream c w w'"
  shows "stream_at c bytes cap w'"
proof -
  from at obtain k where k: "conns w c = Some k" "stream_ok k w" "wire w c @ content (outBuf k) = bytes"
    "length (vec (outBuf k)) \<le> cap" by (rule stream_atE)
  with same show ?thesis
    by (fastforce simp: stream_at_def same_stream_def stream_ok_def in_sync_def isWriting_def)
qed

lemma conn_steps_stream:
  assumes "conn_steps c w ms w'" "stream_at c bytes cap w"
    and "length (bytes @ concat ms) < 2 ^ 31" "fits (cap + length (concat ms) + 8)"
  shows "stream_at c (bytes @ concat ms) (cap + length (concat ms)) w'"
  using assms
proof (induction rule: conn_steps.induct)
  case steps_start
  then show ?case by simp
next
  case (steps_send ms w1 m w2)
  then have "stream_at c (bytes @ concat ms) (cap + length (concat ms)) w1" by simp
  from send_stream_at [OF this _ _ steps_send.hyps(2)] steps_send.prems show ?case by (simp add: add.assoc)
next
  case (steps_writable ms w1 w2)
  then show ?case by (blast intro: writable_stream_at)
next
  case (steps_other ms w1 w2)
  then show ?case by (blast intro: other_stream_at)
qed

text \<open>A connection that has sent nothing yet, and the contract its stream keeps from there on.\<close>

definition opened_conn :: "nat \<Rightarrow> ('x, 'u) world \<Rightarrow> bool" where
  "opened_conn c w \<longleftrightarrow> wire w c = [] \<and> (\<exists>k. conns w c = Some k \<and> stream_ok k w
     \<and> content (outBuf k) = [] \<and> length (vec (outBuf k)) < 2 ^ 62)"

definition unsent_bytes :: "nat \<Rightarrow> ('x, 'u) world \<Rightarrow> byte list" where
  "unsent_bytes c w = (case conns w c of None \<Rightarrow> [] | Some k \<Rightarrow> content (outBuf k))"

interpretation tcp: byte_stream "opened_conn c" "conn_steps c" "\<lambda>w. wire w c" "unsent_bytes c" for c
proof
  fix w w' :: "('x, 'u) world" and frames
  assume "opened_conn c w" and steps: "conn_steps c w frames w'" and small: "length (concat frames) < 2 ^ 31"
  then obtain k where "conns w c = Some k" "wire w c = []" "stream_ok k w" "content (outBuf k) = []"
    and small_buf: "length (vec (outBuf k)) < 2 ^ 62"
    unfolding opened_conn_def by blast
  then have at: "stream_at c [] (length (vec (outBuf k))) w"
    by (simp add: stream_at_def)
  from conn_steps_stream [OF steps at] small_buf small
  have "stream_at c (concat frames) (length (vec (outBuf k)) + length (concat frames)) w'" by simp
  then show "wire w' c @ unsent_bytes c w' = concat frames"
    by (auto simp: stream_at_def unsent_bytes_def)
qed

lemma new_buffer_length: "length (vec (Buffer_init kInitialSize)) = 1032"
  by (simp add: Buffer_init_def kInitialSize_def kCheapPrepend_def)

text \<open>Any descriptor: a negative one is not registered with the kernel.\<close>

definition new_conn :: "nat \<Rightarrow> int \<Rightarrow> nat \<Rightarrow> 'x tcp_conn" where
  "new_conn c fd l = (TcpConnection_init c fd l)\<lparr>pSocketChannel :=
      \<lparr>ch_id = c, ch_fd = fd, events = EPOLLIN, revents = 0, index = kAdded, has_callback = True\<rparr>\<rparr>"

lemma new_conn_simps [simp]:
  "refs (new_conn c fd l) = 1" "pLoop (new_conn c fd l) = l" "sockfd (new_conn c fd l) = fd"
  by (simp_all add: new_conn_def TcpConnection_init_def)

lemma TcpConnection_new_any:
  "TcpConnection_new fd l w = (next_conn w, w\<lparr>next_conn := next_conn w + 1,
      wire := (wire w)(next_conn w := []),
      epolls := (epolls w)(l := epoll_add fd (EPOLLIN, next_conn w) (epolls w l)),
      conns := (conns w)(next_conn w := Some (new_conn (next_conn w) fd l))\<rparr>)"
  by (simp add: TcpConnection_new_def TcpConnection_init_def new_conn_def Let_def on_channel_def enableReading_def
      setCallback_def Channel_init_def Epoll_update_def setIndex_def put_conn_def)

lemma new_connection_open:
  assumes "0 \<le> fd" "epolls w l fd = None"
  shows "stream_at (next_conn w) [] 1032 (snd (TcpConnection_new fd l w))"
proof -
  have "buffer_ok (Buffer_init kInitialSize)" "content (Buffer_init kInitialSize) = []"
    using Buffer_init_ok [of kInitialSize] by (simp_all add: kInitialSize_def)
  then show ?thesis
    using assms new_buffer_length
    by (simp add: TcpConnection_new_any stream_at_def stream_ok_def in_sync_def isWriting_def epoll_add_def
        new_conn_def TcpConnection_init_def)
qed

text \<open>Channel events that read and the work of other connections are such other steps.\<close>

lemma sent_elsewhere:
  assumes adv: "advance c' w k' m n fl w' k''" and "c \<noteq> c'"
    and apart: "\<And>k. conns w c = Some k \<Longrightarrow>
      pLoop k \<noteq> pLoop k' \<or> ch_fd (pSocketChannel k) \<noteq> ch_fd (pSocketChannel k')"
  shows "same_stream c w w'"
proof -
  have conns: "conns w' c = conns w c" and wire: "wire w' c = wire w c"
    and loops: "l \<noteq> pLoop k' \<Longrightarrow> epolls w' l = epolls w l"
    and fds: "fd \<noteq> ch_fd (pSocketChannel k') \<Longrightarrow> epolls w' (pLoop k') fd = epolls w (pLoop k') fd" for l fd
    using adv \<open>c \<noteq> c'\<close> by (simp_all add: advance_def)
  have "epolls w' (pLoop k) (ch_fd (pSocketChannel k)) = epolls w (pLoop k) (ch_fd (pSocketChannel k))"
    if "conns w c = Some k" for k
    using apart [OF that] loops fds by metis
  with conns wire show ?thesis by (simp add: same_stream_def)
qed

lemma reading_elsewhere:
  "conns w c = Some k \<Longrightarrow> same_stream c w (put_conn c (k\<lparr>inBuf := b\<rparr>) w)"
  by (simp add: same_stream_def put_conn_def)

section \<open>Draining, queued sends, closing\<close>

fun writable_events :: "nat \<Rightarrow> nat \<Rightarrow> ('x, 'u) world \<Rightarrow> ('x, 'u) world result" where
  "writable_events c 0 w = Inr w"
| "writable_events c (Suc n) w = andThen (handleWrite c w) (writable_events c n)"

lemma writable_idle:
  "conns w c = Some k \<Longrightarrow> \<not> isWriting (pSocketChannel k) \<Longrightarrow> writable_events c n w = Inr w"
  by (induction n) (simp_all add: handleWrite_idle)

lemma writable_drains:
  assumes "conns w c = Some k" "stream_ok k w" "length (content (outBuf k)) < 2 ^ 31"
    and "length (content (outBuf k)) \<le> n" "n \<le> length (write_answers w)" "\<forall>a \<in> set (write_answers w). 0 < a"
  shows "\<exists>w' k'. writable_events c n w = Inr w' \<and> conns w' c = Some k' \<and> stream_ok k' w'
    \<and> content (outBuf k') = [] \<and> wire w' c = wire w c @ content (outBuf k)
    \<and> pendingFunctors w' (pLoop k) = pendingFunctors w (pLoop k)
        @ (if content (outBuf k) = [] then [] else [WriteComplate c])"
  using assms
proof (induction n arbitrary: w k)
  case 0
  then show ?case by simp
next
  case (Suc n)
  show ?case
  proof (cases "content (outBuf k) = []")
    case True
    then have "\<not> isWriting (pSocketChannel k)" using Suc.prems(2) by (simp add: stream_ok_def)
    from writable_idle [OF Suc.prems(1) this, of "Suc n"] True Suc.prems show ?thesis
      by (simp del: writable_events.simps)
  next
    case False
    let ?d = "content (outBuf k)"
    from Suc.prems(5) obtain a as where a: "write_answers w = a # as" by (cases "write_answers w") auto
    with Suc.prems(6) have "0 < a" by simp
    define m where "m = min (nat a) (length ?d)"
    from handleWrite_advances [OF Suc.prems(1-3) False a] obtain w1 k1 where
      run: "handleWrite c w = Inr w1" and adv: "advance c w k [] m (m = length ?d) w1 k1"
      and as: "write_answers w1 = as" by (auto simp: m_def)
    have m: "0 < m" "m \<le> length ?d" using \<open>0 < a\<close> False by (simp_all add: m_def)
    have k1: "conns w1 c = Some k1" "stream_ok k1 w1" "content (outBuf k1) = drop m ?d"
      "wire w1 c = wire w c @ take m ?d" "pLoop k1 = pLoop k"
      "pendingFunctors w1 (pLoop k) = pendingFunctors w (pLoop k) @ (if m = length ?d then [WriteComplate c] else [])"
      using adv by (simp_all add: advance_def) (metis tcp_conn.select_convs(2) tcp_conn.surjective tcp_conn.update_convs)
    have "length (content (outBuf k1)) < 2 ^ 31" "length (content (outBuf k1)) \<le> n" "n \<le> length (write_answers w1)"
      "\<forall>a \<in> set (write_answers w1). 0 < a"
      using Suc.prems(3-6) k1(3) m a as by auto
    from Suc.IH [OF k1(1,2) this] run k1 m show ?thesis by auto
  qed
qed

text \<open>What the loop does with the messages other threads queued.\<close>

fun send_all :: "nat \<Rightarrow> byte list list \<Rightarrow> ('x, 'u) world \<Rightarrow> ('x, 'u) world result" where
  "send_all c [] w = Inr w"
| "send_all c (m # ms) w = andThen (sendInLoop c m w) (send_all c ms)"

fun threaded_sends :: "nat \<Rightarrow> nat \<Rightarrow> byte list list \<Rightarrow> ('x, 'u) world \<Rightarrow> ('x, 'u) world result" where
  "threaded_sends tid c [] w = Inr w"
| "threaded_sends tid c (m # ms) w = andThen (TcpConnection_send tid c m w) (threaded_sends tid c ms)"

lemma threaded_sends_queue:
  "conns w c = Some k \<Longrightarrow> tid \<noteq> pLoop k \<Longrightarrow> threaded_sends tid c ms w =
     Inr (w\<lparr>pendingFunctors := (pendingFunctors w)(pLoop k := pendingFunctors w (pLoop k) @ map (MessageCB c) ms)\<rparr>)"
proof (induction ms arbitrary: w)
  case (Cons m ms)
  have "conns (queue_call (pLoop k) (MessageCB c m) w) c = Some k"
    using Cons.prems by (simp add: queue_call_def)
  from Cons.IH [OF this Cons.prems(2)] Cons.prems show ?case
    by (simp add: TcpConnection_send_def queue_call_def del: fun_upd_apply) simp
qed simp

lemma run_calls_sends: "run_calls user l (map (MessageCB c) ms) w = send_all c ms w"
  by (induction ms arbitrary: w) (simp_all add: onMessageCB_def, metis)

lemma drop_sends [simp]: "drop_calls (map (MessageCB c) ms) w = w"
  by (induction ms) simp_all

lemma threaded_sends_run:
  assumes "conns w c = Some k" "tid \<noteq> pLoop k" "pendingFunctors w (pLoop k) = []"
  shows "andThen (threaded_sends tid c ms w) (conn_doPendingFunctors user (pLoop k)) = send_all c ms w"
proof -
  have "w\<lparr>pendingFunctors := (pendingFunctors w)(pLoop k := [])\<rparr> = w"
    using assms(3) by (simp add: fun_upd_idem)
  moreover have "andThen r (\<lambda>w'. Inr w') = r" for r :: "('a, 'b) world result" by (cases r) simp_all
  ultimately show ?thesis
    using assms by (simp add: threaded_sends_queue conn_doPendingFunctors_def Let_def run_calls_sends)
qed

text \<open>
  The owner a connection was given to: it has a pointer to it and is told of the close.
\<close>

definition owned :: "nat \<Rightarrow> 'x tcp_conn \<Rightarrow> ('x, 'u) world \<Rightarrow> bool" where
  "owned c k w \<longleftrightarrow>
     (case closeCallback k of
        None \<Rightarrow> False
      | Some ServerRemove \<Rightarrow> connections w (sockfd k) = Some c
      | Some ClientRemove \<Rightarrow> client_connection w = Some c)"

definition disown :: "'x tcp_conn \<Rightarrow> ('x, 'u) world \<Rightarrow> ('x, 'u) world" where
  "disown k w =
     (case closeCallback k of
        None \<Rightarrow> w
      | Some ServerRemove \<Rightarrow> w\<lparr>connections := (connections w)(sockfd k := None)\<rparr>
      | Some ClientRemove \<Rightarrow> w\<lparr>client_connection := None\<rparr>)"

text \<open>The state a close leaves: \<open>n\<close> pointers remain.\<close>

definition closed_world :: "nat \<Rightarrow> 'x tcp_conn \<Rightarrow> nat \<Rightarrow> 'u \<Rightarrow> ('x, 'u) world \<Rightarrow> ('x, 'u) world" where
  "closed_world c k n u w =
     (disown k (w\<lparr>epolls := (epolls w)(pLoop k := (epolls w (pLoop k))(ch_fd (pSocketChannel k) := None)),
                   usr := u\<rparr>))
       \<lparr>conns := (conns w)(c := if n = 0 then None
          else Some (k\<lparr>pSocketChannel := (pSocketChannel k)\<lparr>index := kDeleted, events := 0\<rparr>, refs := n\<rparr>))\<rparr>"

lemmas pointer_defs = with_ref_def share_def release_def put_conn_def

lemma handleClose_owned:
  assumes k: "conns w c = Some k" "refs k = Suc n" "owned c k w" "pUser k"
    and user: "onClose user = (\<lambda>tid c w. Inr (w\<lparr>usr := f c (usr w)\<rparr>))"
  shows "handleClose user tid c w = Inr (closed_world c k n (f c (usr w)) w)"
proof (cases "closeCallback k")
  case None
  with k(3) show ?thesis by (simp add: owned_def)
next
  case (Some up)
  have ch: "disableAll (setIndex kDeleted (pSocketChannel k)) s =
      ((pSocketChannel k)\<lparr>index := kDeleted, events := 0\<rparr>, s(ch_fd (pSocketChannel k) := None))" for s
    by (simp add: disableAll_def setIndex_def Epoll_update_def Let_def epoll_del_def)
  show ?thesis
  proof (cases up)
    case ServerRemove
    with Some k ch user show ?thesis
      by (simp add: handleClose_def Let_def on_channel_def pointer_defs owned_def disown_def closed_world_def
          TcpServer_removeConnection_def with_conn_def)
  next
    case ClientRemove
    with Some k ch user show ?thesis
      by (simp add: handleClose_def Let_def on_channel_def pointer_defs owned_def disown_def closed_world_def
          TcpClient_removeConnection_def with_conn_def)
  qed
qed

lemma closed_world_conns [simp]: "conns (closed_world c k n u w) c =
    (if n = 0 then None else Some (k\<lparr>pSocketChannel := (pSocketChannel k)\<lparr>index := kDeleted, events := 0\<rparr>, refs := n\<rparr>))"
  by (simp add: closed_world_def)

text \<open>The peer has closed: the channel reports readable data and the read returns nothing.\<close>

lemma conn_event_eof:
  assumes k: "conns w c = Some k" "refs k = Suc n" "owned c k w" "pUser k"
    and ch: "has_callback (pSocketChannel k)" "0 \<le> ch_fd (pSocketChannel k)" "ev AND EPOLLIN \<noteq> 0"
    and buf: "buffer_ok (inBuf k)" "room (inBuf k) 0"
    and user: "onClose user = (\<lambda>tid c w. Inr (w\<lparr>usr := f c (usr w)\<rparr>))"
  shows "\<exists>b. content b = content (inBuf k) \<and> conn_event user tid (ReadvData []) ev c w =
    (if n = 0 then Inl UseAfterFree
     else Inr (closed_world c (k\<lparr>pSocketChannel := setRevents ev (pSocketChannel k), inBuf := b\<rparr>) n (f c (usr w)) w))"
proof -
  let ?k1 = "k\<lparr>pSocketChannel := setRevents ev (pSocketChannel k)\<rparr>"
  let ?w1 = "put_conn c ?k1 w"
  have k1: "conns ?w1 c = Some ?k1" by (simp add: put_conn_def)
  from readFd_data_ok [OF buf(1), of "[]"] buf(2) obtain b where
    b: "readFd (inBuf k) (ReadvData []) = Inr \<lparr>rf_buffer = b, rf_n = 0, rf_errno = None\<rparr>" "content b = content (inBuf k)"
    by auto
  let ?k2 = "?k1\<lparr>inBuf := b\<rparr>"
  let ?w2 = "put_conn c ?k2 w"
  have k2: "conns ?w2 c = Some ?k2" "refs ?k2 = Suc n" "owned c ?k2 ?w2" "pUser ?k2"
    using k by (auto simp: put_conn_def owned_def split: option.splits up_layer.splits)
  have w2: "put_conn c ?k2 ?w1 = ?w2" by (simp add: put_conn_def)
  have "handleRead user tid (ReadvData []) c ?w1 = handleClose user tid c ?w2"
    using k1 b ch w2 by (simp add: handleRead_def setRevents_def Let_def)
  also have "\<dots> = Inr (closed_world c ?k2 n (f c (usr w)) ?w2)"
    using handleClose_owned [OF k2 user, of tid] by (simp add: put_conn_def)
  finally have close: "handleRead user tid (ReadvData []) c ?w1 = Inr (closed_world c ?k2 n (f c (usr w)) w)"
    by (simp add: closed_world_def disown_def put_conn_def split: option.splits up_layer.splits)
  define w1 where "w1 = ?w1"
  define w3 where "w3 = closed_world c ?k2 n (f c (usr w)) w"
  have start: "put_conn c ?k1 w = w1" and close1: "handleRead user tid (ReadvData []) c w1 = Inr w3"
    using close by (simp_all only: w1_def w3_def)
  define ch1 where "ch1 = setRevents ev (pSocketChannel k)"
  have chan: "conn_channel c w1 = Some ch1" "revents ch1 = ev" "has_callback ch1"
    using ch(1) by (simp_all add: conn_channel_def put_conn_def w1_def ch1_def setRevents_def)
  have after: "conn_channel c w3 = (if n = 0 then None else Some (ch1\<lparr>index := kDeleted, events := 0\<rparr>))"
    by (simp add: conn_channel_def w3_def ch1_def)
  have idle: "handleWrite c w3 = Inr w3" if "n \<noteq> 0"
    using that by (simp add: handleWrite_def isWriting_def w3_def)
  define cb where "cb = \<lparr>cb_close = handleClose user tid c, cb_read = handleRead user tid (ReadvData []) c,
    cb_write = handleWrite c\<rparr>"
  have read: "cb_read cb w1 = Inr w3" and wrote: "cb_write cb w3 = handleWrite c w3"
    using close1 by (simp_all add: cb_def)
  have "conn_event user tid (ReadvData []) ev c w = handleEvent (conn_channel c) cb w1"
    using k(1) start by (simp add: conn_event_def cb_def)
  also have "\<dots> = (if n = 0 then Inl UseAfterFree else Inr w3)"
    using chan after idle ch(3) read wrote by (cases "n = 0") (simp_all add: handleEvent_def read_channel_def)
  finally have "conn_event user tid (ReadvData []) ev c w = (if n = 0 then Inl UseAfterFree else Inr w3)" .
  then show ?thesis using b(2) unfolding w3_def by (intro exI [of _ b] conjI)
qed

section \<open>A small instance\<close>

text \<open>One connection with descriptor 5 in loop 0 of an otherwise empty program; the user counts closes.\<close>

definition quiet_world :: "int list \<Rightarrow> (unit, nat) world" where
  "quiet_world answers =
     \<lparr>conns = (\<lambda>c. None), next_conn = 0, epolls = (\<lambda>l fd. None), pendingFunctors = (\<lambda>l. []),
      write_answers = answers, wire = (\<lambda>c. []), connections = (\<lambda>fd. None),
      threadPool = EventLoopThreadPool_init 0, client_connection = None, usr = 0\<rparr>"

definition counting_user :: "(unit, nat) muduo_user" where
  "counting_user =
     \<lparr>onConnection = (\<lambda>tid c w. Inr w), onMessage = (\<lambda>tid c w. Inr w), onWriteComplate = (\<lambda>tid c w. Inr w),
      onClose = (\<lambda>tid c w. Inr (w\<lparr>usr := Suc (usr w)\<rparr>))\<rparr>"

definition greeting_user :: "(unit, nat) muduo_user" where
  "greeting_user = counting_user\<lparr>onConnection := (\<lambda>tid c w. Inr (w\<lparr>usr := (\<lambda>tid c u. u + 10) tid c (usr w)\<rparr>))\<rparr>"

definition demo_conn :: "nat \<Rightarrow> unit tcp_conn" where
  "demo_conn r = (TcpConnection_init 0 5 0)\<lparr>pUser := True,
     pSocketChannel := \<lparr>ch_id = 0, ch_fd = 5, events = EPOLLIN, revents = 0, index = kAdded, has_callback = True\<rparr>,
     closeCallback := Some ServerRemove, refs := r\<rparr>"

definition demo_world :: "int list \<Rightarrow> nat \<Rightarrow> (unit, nat) world" where
  "demo_world answers r = (quiet_world answers)\<lparr>next_conn := 1,
     epolls := (\<lambda>l. if l = 0 then (\<lambda>fd. if fd = 5 then Some (EPOLLIN, 0) else None) else (\<lambda>fd. None)),
     conns := (\<lambda>c. if c = 0 then Some (demo_conn r) else None),
     connections := (\<lambda>fd. if fd = 5 then Some 0 else None)\<rparr>"

lemma demo_world_ok:
  "conns (demo_world as r) 0 = Some (demo_conn r)" "stream_ok (demo_conn r) (demo_world as r)"
  "owned 0 (demo_conn r) (demo_world as r)" "write_answers (demo_world as r) = as" "wire (demo_world as r) 0 = []"
  using Buffer_init_ok [of kInitialSize]
  by (simp_all add: demo_world_def demo_conn_def quiet_world_def stream_ok_def in_sync_def isWriting_def
      TcpConnection_init_def owned_def kInitialSize_def)

lemma demo_conn_ok:
  "content (outBuf (demo_conn r)) = []" "length (vec (outBuf (demo_conn r))) = 1032"
  "buffer_ok (inBuf (demo_conn r))" "length (vec (inBuf (demo_conn r))) = 1032"
  "refs (demo_conn r) = r" "pUser (demo_conn r)" "has_callback (pSocketChannel (demo_conn r))"
  "ch_fd (pSocketChannel (demo_conn r)) = 5" "pLoop (demo_conn r) = 0"
  using Buffer_init_ok [of kInitialSize] new_buffer_length
  by (simp_all add: demo_conn_def TcpConnection_init_def kInitialSize_def)

section \<open>Properties\<close>

text \<open>C22:
  No byte is lost, doubled or reordered: whatever the kernel's writes take and however sends,
  writable events and everything else interleave, the bytes on the wire followed by the bytes in the
  output buffer are the bytes of the messages in the order they were sent. At every point the
  kernel watches the descriptor for exactly the channel's events, and for \<^verbatim>\<open>EPOLLOUT\<close> exactly
  while bytes are left.
\<close>

theorem bytes_sent_in_order:
  assumes "conns w c = Some k" "stream_ok k w" "conn_steps c w ms w'"
    and "length (wire w c @ content (outBuf k) @ concat ms) < 2 ^ 31" "length (vec (outBuf k)) < 2 ^ 62"
  shows "\<exists>k'. conns w' c = Some k'
    \<and> wire w' c @ content (outBuf k') = wire w c @ content (outBuf k) @ concat ms
    \<and> (isWriting (pSocketChannel k') \<longleftrightarrow> content (outBuf k') \<noteq> [])
    \<and> epolls w' (pLoop k') (ch_fd (pSocketChannel k'))
        = Some (events (pSocketChannel k'), ch_id (pSocketChannel k'))"
proof -
  have "stream_at c (wire w c @ content (outBuf k)) (length (vec (outBuf k))) w"
    using assms(1,2) by (simp add: stream_at_def)
  from conn_steps_stream [OF assms(3) this] assms(4,5)
  have "stream_at c (wire w c @ content (outBuf k) @ concat ms) (length (vec (outBuf k)) + length (concat ms)) w'"
    by simp
  then show ?thesis
    by (rule stream_atE) (auto simp: stream_ok_def in_sync_def)
qed

lemma bytes_sent_in_order_witness:
  "\<exists>w1 k1. sendInLoop 0 [1, 2, 3] (demo_world [2] 1) = Inr w1 \<and> conns w1 0 = Some k1
     \<and> wire w1 0 @ content (outBuf k1) = [1, 2, 3]"
proof -
  note d = demo_world_ok [where r = 1 and as = "[2]"]
  have room: "room (outBuf (demo_conn 1)) (length [1, 2, 3 :: byte])" by (simp add: room_def demo_conn_ok)
  from sendInLoop_direct [OF d(1,2) room _ demo_conn_ok(1) d(4)] obtain w1 where
    w1: "sendInLoop 0 [1, 2, 3] (demo_world [2] 1) = Inr w1" by auto
  have "conn_steps 0 (demo_world [2] 1) ([] @ [[1, 2, 3]]) w1"
    by (rule steps_send [OF steps_start w1])
  from bytes_sent_in_order [OF d(1,2) this] d(5) w1 show ?thesis by (auto simp: demo_conn_ok)
qed

text \<open>C23:
  Left-over bytes get out: if each write takes at least one byte, then after as many writable events
  as there are bytes the kernel has exactly them, the descriptor is no longer watched for
  \<^verbatim>\<open>EPOLLOUT\<close>, and the write-complete callback has been queued exactly once (never, if
  nothing was left over).
\<close>

theorem left_over_bytes_drain:
  assumes "conns w c = Some k" "stream_ok k w" "length (content (outBuf k)) < 2 ^ 31"
    and "length (content (outBuf k)) \<le> n" "n \<le> length (write_answers w)" "\<forall>a \<in> set (write_answers w). 0 < a"
  shows "\<exists>w' k'. writable_events c n w = Inr w' \<and> conns w' c = Some k'
    \<and> content (outBuf k') = [] \<and> wire w' c = wire w c @ content (outBuf k)
    \<and> \<not> isWriting (pSocketChannel k')
    \<and> pendingFunctors w' (pLoop k) = pendingFunctors w (pLoop k)
        @ (if content (outBuf k) = [] then [] else [WriteComplate c])"
  using writable_drains [OF assms] by (fastforce simp: stream_ok_def)

text \<open>The state after a send of which the kernel took one byte.\<close>

definition blocked_conn :: "unit tcp_conn" where
  "blocked_conn = (demo_conn 1)\<lparr>
     outBuf := \<lparr>vec = replicate 8 0 @ [2, 3] @ replicate 1022 0, readerIndex = 8, writerIndex = 10\<rparr>,
     pSocketChannel := (pSocketChannel (demo_conn 1))\<lparr>events := EPOLLIN OR EPOLLOUT\<rparr>\<rparr>"

definition blocked_world :: "(unit, nat) world" where
  "blocked_world = (demo_world [1, 7] 1)\<lparr>conns := (\<lambda>c. if c = 0 then Some blocked_conn else None),
     epolls := (\<lambda>l fd. if l = 0 \<and> fd = 5 then Some (EPOLLIN OR EPOLLOUT, 0) else None), wire := (\<lambda>c. [1])\<rparr>"

lemma blocked_world_ok:
  "conns blocked_world 0 = Some blocked_conn" "content (outBuf blocked_conn) = [2, 3]"
  "stream_ok blocked_conn blocked_world" "write_answers blocked_world = [1, 7]" "wire blocked_world 0 = [1]"
proof -
  show "conns blocked_world 0 = Some blocked_conn" "write_answers blocked_world = [1, 7]" "wire blocked_world 0 = [1]"
    by (simp_all add: blocked_world_def demo_world_def quiet_world_def)
  show c: "content (outBuf blocked_conn) = [2, 3]"
    by (simp add: blocked_conn_def content_def)
  show "stream_ok blocked_conn blocked_world"
    unfolding stream_ok_def c
    by (simp add: blocked_world_def blocked_conn_def buffer_ok_def demo_conn_def TcpConnection_init_def
        in_sync_def isWriting_def)
qed

lemma left_over_bytes_drain_witness:
  "\<exists>w' k'. writable_events 0 2 blocked_world = Inr w' \<and> conns w' 0 = Some k'
     \<and> wire w' 0 = [1, 2, 3] \<and> content (outBuf k') = []"
  using left_over_bytes_drain [OF blocked_world_ok(1,3), of 2] by (auto simp: blocked_world_ok simp del: writable_events.simps)

text \<open>C20:
  A \<^verbatim>\<open>write\<close> that fails, even only because the socket's buffer is full, while the
  output buffer is empty makes \<^verbatim>\<open>sendInLoop\<close> throw: the error value -1 is used as the
  position of \<^verbatim>\<open>substr\<close> (a list of answers that is used up counts as -1). In every other case the send succeeds: what the kernel
  took of the message is on the wire, and the rest waits in the output buffer, all of it if others are waiting there already.
\<close>

theorem write_error_throws:
  assumes "conns w c = Some k" "stream_ok k w" "length m < 2 ^ 31" "room (outBuf k) (length m)"
  shows "(sendInLoop c m w = Inl OutOfRange \<longleftrightarrow>
        content (outBuf k) = [] \<and> (write_answers w = [] \<or> hd (write_answers w) < 0))
    \<and> (\<forall>a as. content (outBuf k) = [] \<and> write_answers w = a # as \<and> 0 \<le> a \<longrightarrow>
        (\<exists>w' k'. sendInLoop c m w = Inr w' \<and> conns w' c = Some k'
          \<and> wire w' c = wire w c @ take (nat a) m \<and> content (outBuf k') = drop (nat a) m))
    \<and> (content (outBuf k) \<noteq> [] \<longrightarrow>
        (\<exists>w' k'. sendInLoop c m w = Inr w' \<and> conns w' c = Some k' \<and> wire w' c = wire w c
          \<and> content (outBuf k') = content (outBuf k) @ m))"
proof -
  have queued: "\<exists>w' k'. sendInLoop c m w = Inr w' \<and> conns w' c = Some k' \<and> wire w' c = wire w c
      \<and> content (outBuf k') = content (outBuf k) @ m" if busy: "content (outBuf k) \<noteq> []"
  proof -
    from sendInLoop_blocked [OF assms(1,2,4,3) busy] obtain w' k' where
      "sendInLoop c m w = Inr w'" "advance c w k m 0 False w' k'" by blast
    then show ?thesis by (auto simp: advance_def)
  qed
  have direct: "\<exists>w' k'. sendInLoop c m w = Inr w' \<and> conns w' c = Some k'
        \<and> wire w' c = wire w c @ take (nat a) m \<and> content (outBuf k') = drop (nat a) m"
    if idle: "content (outBuf k) = []" and a: "write_answers w = a # as" "0 \<le> a" for a as
  proof -
    let ?n = "min (nat a) (length m)"
    from sendInLoop_direct [OF assms(1,2,4,3) idle a] obtain w' k' where
      "sendInLoop c m w = Inr w'" "advance c w k m ?n (?n = length m) w' k'" by blast
    then show ?thesis using idle by (cases "nat a \<le> length m") (auto simp: advance_def min_def)
  qed
  note failed = sendInLoop_error [OF assms(1) stream_okD(1) [OF assms(2)] assms(3)]
  have "sendInLoop c m w = Inl OutOfRange \<longleftrightarrow>
      content (outBuf k) = [] \<and> (write_answers w = [] \<or> hd (write_answers w) < 0)"
  proof (cases "content (outBuf k) = []")
    case False
    with queued [OF False] show ?thesis by auto
  next
    case idle: True
    show ?thesis
    proof (cases "case write_answers w of [] \<Rightarrow> True | a # as \<Rightarrow> a < 0")
      case True
      with failed [OF idle True] idle show ?thesis by (auto split: list.splits)
    next
      case False
      then obtain a as where a: "write_answers w = a # as" "0 \<le> a" by (auto split: list.splits)
      from direct [OF idle a] a show ?thesis by auto
    qed
  qed
  with direct queued show ?thesis by blast
qed

lemma write_error_throws_witness:
  "sendInLoop 0 [1, 2, 3] (demo_world [-1] 1) = Inl OutOfRange"
  using write_error_throws [OF demo_world_ok(1,2) [where r = 1 and as = "[-1]"], of "[1, 2, 3]"]
  by (simp add: room_def demo_conn_ok demo_world_ok)

text \<open>
  Sends from another thread: nothing is written until the connection's loop runs its queue, and then
  the effect is that of sending the same messages in the loop, in the order they were queued.
\<close>

theorem threaded_sends_like_local:
  assumes "conns w c = Some k" "tid \<noteq> pLoop k" "pendingFunctors w (pLoop k) = []"
  shows "\<exists>w1. threaded_sends tid c ms w = Inr w1 \<and> wire w1 = wire w \<and> conns w1 = conns w
    \<and> conn_doPendingFunctors user (pLoop k) w1 = send_all c ms w"
  using threaded_sends_run [OF assms, of ms user] threaded_sends_queue [OF assms(1,2), of ms] by simp

lemma threaded_sends_like_local_witness:
  "\<exists>w1. threaded_sends 7 0 [[1], [2]] (demo_world [] 1) = Inr w1 \<and> wire w1 0 = []"
  using threaded_sends_like_local [OF demo_world_ok(1) [where r = 1 and as = "[]"], of 7 "[[1], [2]]" counting_user]
  by (auto simp: demo_conn_ok demo_world_def quiet_world_def simp del: threaded_sends.simps)

text \<open>C24:
  When the peer closes, the connection is deregistered from the kernel and from its owner and the user
  is told once; but if the owner's pointer was the last one, the object dies inside its own
  channel's \<^verbatim>\<open>handleEvent\<close>, which then reads the destroyed channel. It is safe only while the
  user (or an RPC channel) holds another pointer.
\<close>

theorem peer_close:
  assumes "conns w c = Some k" "refs k = Suc n" "owned c k w" "pUser k"
    and "has_callback (pSocketChannel k)" "0 \<le> ch_fd (pSocketChannel k)" "ev AND EPOLLIN \<noteq> 0"
    and "buffer_ok (inBuf k)" "room (inBuf k) 0"
    and "onClose user = (\<lambda>tid c w. Inr (w\<lparr>usr := f c (usr w)\<rparr>))"
  shows "if n = 0 then conn_event user tid (ReadvData []) ev c w = Inl UseAfterFree
    else \<exists>w' k'. conn_event user tid (ReadvData []) ev c w = Inr w'
      \<and> conns w' c = Some k' \<and> refs k' = n \<and> usr w' = f c (usr w)
      \<and> epolls w' (pLoop k) (ch_fd (pSocketChannel k)) = None
      \<and> connections w' = (if closeCallback k = Some ServerRemove then (connections w)(sockfd k := None) else connections w)
      \<and> client_connection w' = (if closeCallback k = Some ClientRemove then None else client_connection w)"
proof -
  from conn_event_eof [OF assms, of tid] obtain b where
    "conn_event user tid (ReadvData []) ev c w = (if n = 0 then Inl UseAfterFree
     else Inr (closed_world c (k\<lparr>pSocketChannel := setRevents ev (pSocketChannel k), inBuf := b\<rparr>) n (f c (usr w)) w))"
    by blast
  with assms(3) show ?thesis
    by (auto simp: closed_world_def disown_def owned_def setRevents_def split: option.splits up_layer.splits)
qed

lemma peer_close_witness:
  "conn_event counting_user 0 (ReadvData []) EPOLLIN 0 (demo_world [] 1) = Inl UseAfterFree
   \<and> (\<exists>w'. conn_event counting_user 0 (ReadvData []) EPOLLIN 0 (demo_world [] 2) = Inr w'
        \<and> connections w' 5 = None \<and> epolls w' 0 5 = None \<and> usr w' = 1)"
proof -
  have user: "onClose counting_user = (\<lambda>tid c w. Inr (w\<lparr>usr := (\<lambda>c u. Suc u) c (usr w)\<rparr>))"
    by (simp add: counting_user_def)
  note d = demo_world_ok [where as = "[]"]
  have r: "room (inBuf (demo_conn r)) 0" for r by (simp add: room_def demo_conn_ok)
  have fd: "0 \<le> ch_fd (pSocketChannel (demo_conn r))" for r by (simp add: demo_conn_ok)
  have in_on: "EPOLLIN AND EPOLLIN \<noteq> 0" by simp
  from peer_close [OF d(1) demo_conn_ok(5) [of "Suc 0"] d(3) demo_conn_ok(6,7) fd in_on demo_conn_ok(3) r user, of 0]
    peer_close [OF d(1) demo_conn_ok(5) [of "Suc 1"] d(3) demo_conn_ok(6,7) fd in_on demo_conn_ok(3) r user, of 0]
  show ?thesis by (auto simp: demo_conn_ok demo_world_def quiet_world_def demo_conn_def TcpConnection_init_def numeral_2_eq_2)
qed

end
