(* ===== verification/TcpServer.thy ===== *)
theory TcpServer
  imports TcpConnection
begin

text \<open>
  \<^verbatim>\<open>simplifyMuduo/src/Acceptor.cc\<close> and \<^verbatim>\<open>TcpServer.cc\<close>: listening, accepting, and what the server does with a
  new connection. The answers of the socket calls are inputs; \<^verbatim>\<open>removeConnection\<close> is in
  \<^verbatim>\<open>TcpConnection\<close>, whose closures call it. The lemmas show how a new connection reaches its loop
  and its user, and what a failed \<^verbatim>\<open>accept\<close> leads to.
\<close>

section \<open>Addresses\<close>

text \<open>
  \<^verbatim>\<open>inet_pton\<close> is a parameter: the address in network order, or nothing if the string is no
  IPv4 address; then the code prints a message and keeps the zeroed address.
\<close>

record net_address =
  sin_addr :: "32 word"
  sin_port :: "16 word"

definition NetAddress_init :: "endian \<Rightarrow> (string \<Rightarrow> 32 word option) \<Rightarrow> string \<Rightarrow> 16 word \<Rightarrow> net_address" where
  "NetAddress_init host inet_pton ip port =
     \<lparr>sin_addr = (case inet_pton ip of None \<Rightarrow> 0 | Some a \<Rightarrow> a), sin_port = hostToNetwork16 host port\<rparr>"

definition setIpv4Addr :: "net_address \<Rightarrow> net_address \<Rightarrow> net_address" where
  "setIpv4Addr a b = a"

section \<open>The acceptor\<close>

record acceptor =
  listenfd :: int
  acceptChannel :: channel
  acceptor_callback :: bool

text \<open>The answers of \<^verbatim>\<open>socket\<close>, \<^verbatim>\<open>bind\<close> and \<^verbatim>\<open>listen\<close> are inputs.\<close>

definition createAndListen :: "int \<Rightarrow> int \<Rightarrow> int \<Rightarrow> int result" where
  "createAndListen fd bind_answer listen_answer =
     (if bind_answer = -1 then Inl ProcessExit
      else if listen_answer = -1 then Inl ProcessExit else Inr fd)"

definition Acceptor_init :: "nat \<Rightarrow> int \<Rightarrow> int \<Rightarrow> int \<Rightarrow> acceptor result" where
  "Acceptor_init p fd bind_answer listen_answer =
     andThen (createAndListen fd bind_answer listen_answer)
       (\<lambda>fd. Inr \<lparr>listenfd = fd, acceptChannel = Channel_init p fd, acceptor_callback = False\<rparr>)"

definition Acceptor_setCallback :: "acceptor \<Rightarrow> acceptor" where
  "Acceptor_setCallback a = a\<lparr>acceptor_callback := True\<rparr>"

definition Acceptor_start :: "acceptor \<Rightarrow> epoll_set \<Rightarrow> acceptor \<times> epoll_set" where
  "Acceptor_start a s =
     (let (ch, s') = enableReading (setCallback (acceptChannel a)) s in (a\<lparr>acceptChannel := ch\<rparr>, s'))"

text \<open>\<open>connfd\<close> is the answer of \<^verbatim>\<open>accept\<close>; the callback is called whatever it is.\<close>

definition Acceptor_handleRead :: "(int \<Rightarrow> 's \<Rightarrow> 's result) \<Rightarrow> acceptor \<Rightarrow> int \<Rightarrow> 's \<Rightarrow> 's result" where
  "Acceptor_handleRead newConnection a connfd s =
     (if acceptor_callback a then newConnection connfd s else Inl NullDeref)"

section \<open>The server\<close>

text \<open>
  The server's map of connections and its pool of loops are part of the world; here are the acceptor
  and whether a user is set. \<open>srv_loop\<close> is the base loop, in which the acceptor runs.
\<close>

record tcp_server =
  srv_acceptor :: acceptor
  srv_loop :: nat
  srv_user :: bool

definition TcpServer_init :: "acceptor \<Rightarrow> nat \<Rightarrow> ('x, 'u) world \<Rightarrow> tcp_server \<times> ('x, 'u) world" where
  "TcpServer_init a l w =
     (\<lparr>srv_acceptor = a, srv_loop = l, srv_user = False\<rparr>, w\<lparr>threadPool := EventLoopThreadPool_init l\<rparr>)"

definition TcpServer_setCallback :: "bool \<Rightarrow> tcp_server \<Rightarrow> tcp_server" where
  "TcpServer_setCallback user srv = srv\<lparr>srv_user := user\<rparr>"

definition TcpServer_setThreadNum :: "int \<Rightarrow> ('x, 'u) world \<Rightarrow> ('x, 'u) world" where
  "TcpServer_setThreadNum n w = (if 0 \<le> n then w\<lparr>threadPool := setThreadNum n (threadPool w)\<rparr> else w)"

definition TcpServer_start ::
  "(nat \<Rightarrow> nat) \<Rightarrow> tcp_server \<Rightarrow> ('x, 'u) world \<Rightarrow> tcp_server \<times> ('x, 'u) world" where
  "TcpServer_start started srv w =
     (let (a, s) = Acceptor_start (Acceptor_setCallback (srv_acceptor srv)) (epolls w (srv_loop srv))
      in (srv\<lparr>srv_acceptor := a\<rparr>,
          w\<lparr>epolls := (epolls w)(srv_loop srv := s), threadPool := pool_start started (threadPool w)\<rparr>))"

text \<open>\<^verbatim>\<open>_connections[fd] = conn\<close>: the pointer stored before, if any, is released.\<close>

definition assign_connection :: "int \<Rightarrow> nat \<Rightarrow> ('x, 'u) world \<Rightarrow> ('x, 'u) world" where
  "assign_connection fd c w =
     (let w1 = share c (w\<lparr>connections := (connections w)(fd := Some c)\<rparr>)
      in case connections w fd of None \<Rightarrow> w1 | Some c0 \<Rightarrow> release c0 w1)"

text \<open>
  \<^verbatim>\<open>newConnection\<close>, run by the thread \<open>tid\<close>. The functor passed to \<^verbatim>\<open>runInLoop\<close> holds a shared pointer;
  the last \<open>release\<close> is the end of the local \<^verbatim>\<open>conn\<close>.
\<close>

definition TcpServer_newConnection ::
  "tcp_server \<Rightarrow> ('x, 'u) muduo_user \<Rightarrow> nat \<Rightarrow> int \<Rightarrow> ('x, 'u) world \<Rightarrow> ('x, 'u) world result" where
  "TcpServer_newConnection srv user tid fd w =
     andThen (getNextLoop (threadPool w)) (\<lambda>(l, p).
       let (c, w1) = TcpConnection_new fd l (w\<lparr>threadPool := p\<rparr>);
           w2 = assign_connection fd c w1
       in andThen (with_conn c w2 (\<lambda>k.
              Inr (put_conn c (setUpLayerCloseCallback ServerRemove (setUser (srv_user srv) k)) w2))) (\<lambda>w3.
          andThen (if tid = l then with_ref (connectEstablished user tid) c w3
                   else Inr (queue_call l (Established c) (share c w3))) (\<lambda>w4.
            Inr (release c w4))))"

section \<open>Lemmas\<close>

text \<open>
  The state after the connection has been made, registered and configured, before the user is told:
  the map and the local variable hold it.
\<close>

definition accepted_world :: "nat \<Rightarrow> loop_pool \<Rightarrow> int \<Rightarrow> ('x, 'u) world \<Rightarrow> ('x, 'u) world" where
  "accepted_world l p fd w = w\<lparr>threadPool := p, next_conn := next_conn w + 1,
      wire := (wire w)(next_conn w := []),
      epolls := (epolls w)(l := epoll_add fd (EPOLLIN, next_conn w) (epolls w l)),
      connections := (connections w)(fd := Some (next_conn w)),
      conns := (conns w)(next_conn w := Some ((new_conn (next_conn w) fd l)
        \<lparr>refs := 2, pUser := True, closeCallback := Some ServerRemove\<rparr>))\<rparr>"

lemma newConnection_start:
  assumes "getNextLoop (threadPool w) = Inr (l, p)" "connections w fd = None" "srv_user srv"
  shows "TcpServer_newConnection srv user tid fd w =
    (let c = next_conn w; w3 = accepted_world l p fd w
     in andThen (if tid = l then with_ref (connectEstablished user tid) c w3
                 else Inr (queue_call l (Established c) (share c w3))) (\<lambda>w4. Inr (release c w4)))"
  using assms
  by (simp add: TcpServer_newConnection_def TcpConnection_new_any Let_def assign_connection_def share_def
        put_conn_def setUser_def setUpLayerCloseCallback_def accepted_world_def numeral_2_eq_2)

text \<open>The user's own state changes by \<open>f\<close> when it is told of a connection.\<close>

lemma newConnection_result:
  assumes pool: "getNextLoop (threadPool w) = Inr (l, p)" and free: "connections w fd = None" and srv: "srv_user srv"
    and user: "onConnection user = (\<lambda>tid c w. Inr (w\<lparr>usr := f tid c (usr w)\<rparr>))"
  defines "c \<equiv> next_conn w"
  shows "TcpServer_newConnection srv user tid fd w = Inr
    (if tid = l then (accepted_world l p fd w)\<lparr>usr := f l c (usr w), conns := (conns w)(c := Some ((new_conn c fd l)
        \<lparr>pUser := True, closeCallback := Some ServerRemove, refs := 1\<rparr>))\<rparr>
     else (accepted_world l p fd w)\<lparr>pendingFunctors :=
        (pendingFunctors w)(l := pendingFunctors w l @ [Established c]), conns := (conns w)(c := Some ((new_conn c fd l)
        \<lparr>pUser := True, closeCallback := Some ServerRemove, refs := 2\<rparr>))\<rparr>)"
proof -
  note start = newConnection_start [OF pool free srv, of user tid]
  show ?thesis
  proof (cases "tid = l")
    case True
    show ?thesis
      unfolding start using True user
      by (simp add: Let_def with_ref_def connectEstablished_def share_def put_conn_def release_def
          accepted_world_def c_def)
  next
    case False
    show ?thesis
      unfolding start using False
      by (simp add: Let_def share_def put_conn_def release_def queue_call_def accepted_world_def c_def)
  qed
qed

section \<open>Properties\<close>

text \<open>C31:
  A new connection is given to the next loop of the pool and watched there, kept in the server's map under its
  descriptor, and announced to the user exactly once, in its own loop: at once if that is the accepting
  loop, otherwise when that loop runs its queue, until when the queued functor keeps it alive too.
\<close>

theorem connection_established:
  assumes "getNextLoop (threadPool w) = Inr (l, p)" "0 \<le> fd" "epolls w l fd = None" "connections w fd = None"
    and "srv_user srv" "pendingFunctors w l = []"
    and "onConnection user = (\<lambda>tid c w. Inr (w\<lparr>usr := f tid c (usr w)\<rparr>))"
  shows "\<exists>w1 w2 k. TcpServer_newConnection srv user tid fd w = Inr w1
    \<and> connections w1 fd = Some (next_conn w) \<and> epolls w1 l fd = Some (EPOLLIN, next_conn w)
    \<and> usr w1 = (if tid = l then f l (next_conn w) (usr w) else usr w)
    \<and> map_option refs (conns w1 (next_conn w)) = Some (if tid = l then 1 else 2)
    \<and> conn_doPendingFunctors user l w1 = Inr w2 \<and> usr w2 = f l (next_conn w) (usr w)
    \<and> conns w2 (next_conn w) = Some k \<and> refs k = 1 \<and> pLoop k = l
    \<and> closeCallback k = Some ServerRemove \<and> connections w2 fd = Some (next_conn w)
    \<and> pendingFunctors w2 l = [] \<and> stream_at (next_conn w) [] 1032 w2"
proof -
  note result = newConnection_result [OF assms(1,4,5,7), of tid]
  have b: "buffer_ok (Buffer_init kInitialSize)" "content (Buffer_init kInitialSize) = []"
    using Buffer_init_ok [of kInitialSize] by (simp_all add: kInitialSize_def)
  note details = conn_doPendingFunctors_def accepted_world_def epoll_add_def stream_at_def stream_ok_def
    new_conn_def TcpConnection_init_def in_sync_def isWriting_def
  show ?thesis
  proof (cases "tid = l")
    case True
    then show ?thesis
      unfolding result using assms(2,3,6) b new_buffer_length by (simp add: details Let_def)
  next
    case False
    then show ?thesis
      unfolding result using assms(2,3,6,7) b new_buffer_length
      by (simp add: details Let_def connectEstablished_def with_ref_def share_def put_conn_def release_def)
  qed
qed

definition demo_server :: tcp_server where
  "demo_server = \<lparr>srv_acceptor = \<lparr>listenfd = 3, acceptChannel = Channel_init 9 3, acceptor_callback = True\<rparr>,
     srv_loop = 0, srv_user = True\<rparr>"

definition two_loops :: "(unit, nat) world" where
  "two_loops = snd (TcpServer_start Suc demo_server (TcpServer_setThreadNum 2 (quiet_world [])))"

lemma two_loops_ok:
  "\<exists>p. getNextLoop (threadPool two_loops) = Inr (1, p)" "epolls two_loops 1 7 = None"
  "connections two_loops fd = None" "pendingFunctors two_loops 1 = []" "usr two_loops = 0" "next_conn two_loops = 0"
  by (simp_all add: two_loops_def TcpServer_start_def TcpServer_setThreadNum_def quiet_world_def Let_def
      split_beta getNextLoop_def pool_start_def setThreadNum_def EventLoopThreadPool_init_def numeral_2_eq_2 demo_server_def)

lemma connection_established_witness:
  "\<exists>w1 w2. TcpServer_newConnection demo_server greeting_user 0 7 two_loops = Inr w1 \<and> usr w1 = 0
     \<and> conn_doPendingFunctors greeting_user 1 w1 = Inr w2 \<and> usr w2 = 10"
proof -
  from two_loops_ok(1) obtain p where p: "getNextLoop (threadPool two_loops) = Inr (1, p)" by blast
  have user: "onConnection greeting_user = (\<lambda>tid c w. Inr (w\<lparr>usr := (\<lambda>tid c u. u + 10) tid c (usr w)\<rparr>))"
    by (simp add: greeting_user_def)
  have srv: "srv_user demo_server" by (simp add: demo_server_def)
  from connection_established [OF p _ two_loops_ok(2,3) srv two_loops_ok(4) user, of 0] two_loops_ok(5)
  show ?thesis by auto
qed

text \<open>
  A failed \<^verbatim>\<open>accept\<close> is handed on like a connection: the server makes a connection object with descriptor
  -1 in the next loop, stores it in its map, and tells the user of it; the kernel watches nothing, so that no
  event will ever close it.
\<close>

theorem accept_error_accepted:
  assumes "getNextLoop (threadPool w) = Inr (tid, p)" "acceptor_callback (srv_acceptor srv)"
    and "connections w (-1) = None" "srv_user srv"
    and "onConnection user = (\<lambda>tid c w. Inr (w\<lparr>usr := f tid c (usr w)\<rparr>))"
  shows "\<exists>w' k. Acceptor_handleRead (TcpServer_newConnection srv user tid) (srv_acceptor srv) (-1) w = Inr w'
    \<and> connections w' (-1) = Some (next_conn w) \<and> conns w' (next_conn w) = Some k \<and> sockfd k = -1 \<and> refs k = 1
    \<and> usr w' = f tid (next_conn w) (usr w) \<and> epolls w' = epolls w"
  using newConnection_result [OF assms(1,3,4,5), of tid] assms(2)
  by (simp add: Acceptor_handleRead_def accepted_world_def epoll_add_def)

lemma accept_error_accepted_witness:
  "\<exists>w'. Acceptor_handleRead (TcpServer_newConnection demo_server greeting_user 1) (srv_acceptor demo_server) (-1) two_loops
     = Inr w' \<and> usr w' = 10 \<and> connections w' (-1) = Some 0"
proof -
  from two_loops_ok(1) obtain p where p: "getNextLoop (threadPool two_loops) = Inr (1, p)" by blast
  have user: "onConnection greeting_user = (\<lambda>tid c w. Inr (w\<lparr>usr := (\<lambda>tid c u. u + 10) tid c (usr w)\<rparr>))"
    by (simp add: greeting_user_def)
  have srv: "srv_user demo_server" "acceptor_callback (srv_acceptor demo_server)" by (simp_all add: demo_server_def)
  from accept_error_accepted [OF p srv(2) two_loops_ok(3) srv(1) user] two_loops_ok(5,6)
  show ?thesis by auto
qed

end
