(* ===== verification/TcpClient.thy ===== *)
theory TcpClient
  imports TcpConnection
begin

text \<open>
  \<^verbatim>\<open>simplifyMuduo/src/Connector.cc\<close> and \<^verbatim>\<open>TcpClient.cc\<close>: the non-blocking connect, the channel
  that waits for it, and the client's single connection. The answers of the socket calls are
  inputs; \<^verbatim>\<open>TcpClient::removeConnection\<close> is in \<^verbatim>\<open>TcpConnection\<close>, whose closures call it.
\<close>

section \<open>The connector\<close>

text \<open>
  \<open>ct_chan\<close> is \<^verbatim>\<open>_pSockChan\<close>, \<open>ct_addr\<close> the address of the next channel object, \<open>ct_resets\<close> counts
  the \<^verbatim>\<open>resetChannel\<close> functors waiting in the loop's queue, \<open>ct_closed\<close> lists the descriptors given to
  \<^verbatim>\<open>::close\<close>.
\<close>

record connector =
  ct_loop :: nat
  ct_sockFd :: int
  ct_callback :: bool
  ct_chan :: "channel option"
  ct_addr :: nat
  ct_resets :: nat
  ct_starts :: nat
  ct_closed :: "int list"

definition Connector_init :: "nat \<Rightarrow> nat \<Rightarrow> connector" where
  "Connector_init l addr =
     \<lparr>ct_loop = l, ct_sockFd = -1, ct_callback = False, ct_chan = None, ct_addr = addr, ct_resets = 0,
      ct_starts = 0, ct_closed = []\<rparr>"

definition Connector_setCallback :: "connector \<Rightarrow> connector" where
  "Connector_setCallback t = t\<lparr>ct_callback := True\<rparr>"

abbreviation EINTR :: int where "EINTR \<equiv> 4"
abbreviation EAGAIN :: int where "EAGAIN \<equiv> 11"
abbreviation EADDRINUSE :: int where "EADDRINUSE \<equiv> 98"
abbreviation EADDRNOTAVAIL :: int where "EADDRNOTAVAIL \<equiv> 99"
abbreviation ENETUNREACH :: int where "ENETUNREACH \<equiv> 101"
abbreviation EISCONN :: int where "EISCONN \<equiv> 106"
abbreviation ECONNREFUSED :: int where "ECONNREFUSED \<equiv> 111"
abbreviation EINPROGRESS :: int where "EINPROGRESS \<equiv> 115"

text \<open>
  \<open>fd\<close> is the answer of \<^verbatim>\<open>socket\<close>, \<open>ret\<close> and \<open>err\<close> the answer of \<^verbatim>\<open>connect\<close> and \<^verbatim>\<open>errno\<close>. The
  last two groups of cases both close the descriptor.
\<close>

definition Connector_connect :: "int \<Rightarrow> int \<Rightarrow> int \<Rightarrow> connector \<Rightarrow> epoll_set \<Rightarrow> connector \<times> epoll_set" where
  "Connector_connect fd ret err t s =
     (let t1 = t\<lparr>ct_sockFd := fd\<rparr>; savedErrno = (if ret = 0 then 0 else err)
      in if savedErrno \<in> {0, EINPROGRESS, EINTR, EISCONN} then
           let (ch, s') = enableWriting (setCallback (Channel_init (ct_addr t) fd)) s
           in (t1\<lparr>ct_chan := Some ch, ct_addr := ct_addr t + 1\<rparr>, s')
         else if savedErrno \<in> {EAGAIN, EADDRINUSE, EADDRNOTAVAIL, ECONNREFUSED, ENETUNREACH} then (t1, s)
         else (t1\<lparr>ct_closed := ct_closed t @ [fd]\<rparr>, s))"

definition resetChannel :: "connector \<Rightarrow> connector" where
  "resetChannel t = t\<lparr>ct_chan := None\<rparr>"

text \<open>\<open>tid\<close> is the calling thread; \<open>ct_starts\<close> counts queued \<^verbatim>\<open>connect\<close> functors.\<close>

definition Connector_start ::
  "nat \<Rightarrow> int \<Rightarrow> int \<Rightarrow> int \<Rightarrow> connector \<Rightarrow> epoll_set \<Rightarrow> connector \<times> epoll_set" where
  "Connector_start tid fd ret err t s =
     (if tid = ct_loop t then Connector_connect fd ret err t s else (t\<lparr>ct_starts := ct_starts t + 1\<rparr>, s))"

definition Connector_stop :: "connector \<Rightarrow> connector" where
  "Connector_stop t = t\<lparr>ct_resets := ct_resets t + 1\<rparr>"

text \<open>
  The socket has become writable. \<open>ret\<close> and \<open>optval\<close> are the answer of \<^verbatim>\<open>getsockopt(SO_ERROR)\<close>; the code looks
  only at \<open>ret\<close>. \<open>newConnection\<close> is the callback.
\<close>

definition Connector_handleWrite ::
  "(int \<Rightarrow> ('x, 'u) world \<Rightarrow> ('x, 'u) world result) \<Rightarrow> int \<times> int \<Rightarrow> connector \<Rightarrow> ('x, 'u) world
    \<Rightarrow> (connector \<times> ('x, 'u) world) result" where
  "Connector_handleWrite newConnection answer t w =
     (let (ret, optval) = answer
      in if ret < 0 then Inr (t, w)
         else (case ct_chan t of
             None \<Rightarrow> Inl NullDeref
           | Some ch \<Rightarrow>
               let (ch', s) = disableAll (setIndex kDeleted ch) (epolls w (ct_loop t));
                   t1 = t\<lparr>ct_chan := Some ch', ct_resets := ct_resets t + 1\<rparr>;
                   w1 = w\<lparr>epolls := (epolls w)(ct_loop t := s)\<rparr>
               in if ct_callback t then andThen (newConnection (ct_sockFd t) w1) (\<lambda>w2. Inr (t1, w2))
                  else Inl NullDeref))"

definition run_resets :: "connector \<Rightarrow> connector" where
  "run_resets t = (if ct_resets t = 0 then t else (resetChannel t)\<lparr>ct_resets := 0\<rparr>)"

section \<open>The client\<close>

record tcp_client =
  cl_loop :: nat
  cl_user :: bool
  cl_connector :: connector

definition TcpClient_init :: "nat \<Rightarrow> nat \<Rightarrow> ('x, 'u) world \<Rightarrow> tcp_client \<times> ('x, 'u) world" where
  "TcpClient_init l addr w =
     (\<lparr>cl_loop = l, cl_user = False, cl_connector = Connector_init l addr\<rparr>, w\<lparr>client_connection := None\<rparr>)"

definition TcpClient_setCallback :: "bool \<Rightarrow> tcp_client \<Rightarrow> tcp_client" where
  "TcpClient_setCallback user cl = cl\<lparr>cl_user := user\<rparr>"

definition TcpClient_connect ::
  "nat \<Rightarrow> int \<Rightarrow> int \<Rightarrow> int \<Rightarrow> tcp_client \<Rightarrow> ('x, 'u) world \<Rightarrow> tcp_client \<times> ('x, 'u) world" where
  "TcpClient_connect tid fd ret err cl w =
     (let (t, s) = Connector_start tid fd ret err (Connector_setCallback (cl_connector cl)) (epolls w (cl_loop cl))
      in (cl\<lparr>cl_connector := t\<rparr>, w\<lparr>epolls := (epolls w)(cl_loop cl := s)\<rparr>))"

text \<open>\<^verbatim>\<open>_connection = conn\<close> releases the pointer kept before.\<close>

definition assign_client :: "nat \<Rightarrow> ('x, 'u) world \<Rightarrow> ('x, 'u) world" where
  "assign_client c w =
     (let w1 = share c (w\<lparr>client_connection := Some c\<rparr>)
      in case client_connection w of None \<Rightarrow> w1 | Some c0 \<Rightarrow> release c0 w1)"

definition TcpClient_newConnection ::
  "tcp_client \<Rightarrow> ('x, 'u) muduo_user \<Rightarrow> nat \<Rightarrow> int \<Rightarrow> ('x, 'u) world \<Rightarrow> ('x, 'u) world result" where
  "TcpClient_newConnection cl user tid fd w =
     (let (c, w1) = TcpConnection_new fd (cl_loop cl) w
      in andThen (with_conn c w1 (\<lambda>k. Inr (put_conn c (setUser (cl_user cl) k) w1))) (\<lambda>w2.
         andThen (connectEstablished user tid c w2) (\<lambda>w3.
         andThen (with_conn c w3 (\<lambda>k. Inr (put_conn c (setUpLayerCloseCallback ClientRemove k) w3))) (\<lambda>w4.
           Inr (release c (assign_client c w4))))))"

section \<open>Properties\<close>

text \<open>C32:
  Connecting: when the non-blocking \<^verbatim>\<open>connect\<close> is under way or done, the socket is watched for
  \<^verbatim>\<open>EPOLLOUT\<close>. When it becomes writable the watching ends, a connection for it is made, watched for input,
  kept as the client's and announced to the user. This happens even if \<^verbatim>\<open>SO_ERROR\<close> says that the
  attempt failed: \<open>optval\<close> is arbitrary.
\<close>

theorem client_connected:
  assumes "ret = 0 \<or> err \<in> {EINPROGRESS, EINTR, EISCONN}" "0 \<le> fd" "epolls w l fd = None"
    and "cl_loop cl = l" "ct_loop (cl_connector cl) = l" "cl_user cl" "client_connection w = None"
    and "onConnection user = (\<lambda>tid c w. Inr (w\<lparr>usr := f tid c (usr w)\<rparr>))" "0 \<le> ok"
  shows "\<exists>cl1 w1 t w2 k. TcpClient_connect l fd ret err cl w = (cl1, w1)
    \<and> epolls w1 l fd = Some (EPOLLOUT, ct_addr (cl_connector cl))
    \<and> Connector_handleWrite (TcpClient_newConnection cl1 user l) (ok, optval) (cl_connector cl1) w1 = Inr (t, w2)
    \<and> ct_chan (run_resets t) = None
    \<and> epolls w2 l fd = Some (EPOLLIN, next_conn w) \<and> client_connection w2 = Some (next_conn w)
    \<and> conns w2 (next_conn w) = Some k \<and> refs k = 1 \<and> sockfd k = fd \<and> closeCallback k = Some ClientRemove
    \<and> usr w2 = f l (next_conn w) (usr w) \<and> stream_at (next_conn w) [] 1032 w2"
proof -
  have new_buffer: "buffer_ok (Buffer_init kInitialSize)" "content (Buffer_init kInitialSize) = []"
      "length (vec (Buffer_init kInitialSize)) = 1032"
    using Buffer_init_ok [of kInitialSize] new_buffer_length by (simp_all add: kInitialSize_def)
  define ch where "ch = \<lparr>ch_id = ct_addr (cl_connector cl), ch_fd = fd, events = EPOLLOUT, revents = 0, index = kAdded,
                     has_callback = True\<rparr>"
  define t1 where "t1 = (cl_connector cl)\<lparr>ct_callback := True, ct_sockFd := fd, ct_chan := Some ch,
    ct_addr := ct_addr (cl_connector cl) + 1\<rparr>"
  define w1 where "w1 = w\<lparr>epolls := (epolls w)(l := (epolls w l)(fd := Some (EPOLLOUT, ct_addr (cl_connector cl))))\<rparr>"
  have good: "(if ret = 0 then 0 else err) \<in> {0, EINPROGRESS, EINTR, EISCONN}" using assms(1) by auto
  have enable: "enableWriting (setCallback (Channel_init (ct_addr (cl_connector cl)) fd)) (epolls w l) =
      (ch, (epolls w l)(fd := Some (EPOLLOUT, ct_addr (cl_connector cl))))"
    using assms(2,3)
    by (simp add: enableWriting_def setCallback_def Channel_init_def Epoll_update_def setIndex_def epoll_add_def ch_def)
  have watch: "TcpClient_connect l fd ret err cl w = (cl\<lparr>cl_connector := t1\<rparr>, w1)"
    unfolding TcpClient_connect_def Connector_start_def Connector_connect_def Connector_setCallback_def
    using good assms(4,5) enable by (simp add: t1_def w1_def Let_def)
  define w2 where "w2 = w1\<lparr>epolls := (epolls w)(l := (epolls w l)(fd := None))\<rparr>"
  have free: "disableAll (setIndex kDeleted ch) (epolls w1 l) = (ch\<lparr>index := kDeleted, events := 0\<rparr>, (epolls w l)(fd := None))"
    by (simp add: disableAll_def setIndex_def Epoll_update_def epoll_del_def ch_def w1_def)
  have t1: "ct_chan t1 = Some ch" "ct_loop t1 = l" "ct_callback t1" "ct_sockFd t1 = fd"
    using assms(5) by (simp_all add: t1_def)
  have told: "Connector_handleWrite (TcpClient_newConnection cl' user l) (ok, optval) t1 w1 =
      andThen (TcpClient_newConnection cl' user l fd w2)
        (\<lambda>w3. Inr (t1\<lparr>ct_chan := Some (ch\<lparr>index := kDeleted, events := 0\<rparr>), ct_resets := ct_resets t1 + 1\<rparr>, w3))" for cl'
    using t1 free assms(9) by (simp add: Connector_handleWrite_def w2_def w1_def)
  have made: "\<exists>w3 k. TcpClient_newConnection (cl\<lparr>cl_connector := t1\<rparr>) user l fd w2 = Inr w3
    \<and> epolls w3 l fd = Some (EPOLLIN, next_conn w) \<and> client_connection w3 = Some (next_conn w)
    \<and> conns w3 (next_conn w) = Some k \<and> refs k = 1 \<and> sockfd k = fd \<and> closeCallback k = Some ClientRemove
    \<and> usr w3 = f l (next_conn w) (usr w) \<and> stream_at (next_conn w) [] 1032 w3"
    using assms(2,3,4,6,7,8) new_buffer
    by (simp add: TcpClient_newConnection_def TcpConnection_new_any Let_def put_conn_def setUser_def connectEstablished_def
        with_ref_def share_def release_def setUpLayerCloseCallback_def assign_client_def w2_def w1_def epoll_add_def
        stream_at_def stream_ok_def in_sync_def isWriting_def new_conn_def TcpConnection_init_def)
  have reset: "ct_chan (run_resets (t1\<lparr>ct_chan := x, ct_resets := ct_resets t1 + 1\<rparr>)) = None" for x
    by (simp add: run_resets_def resetChannel_def)
  have watched: "epolls w1 l fd = Some (EPOLLOUT, ct_addr (cl_connector cl))" by (simp add: w1_def)
  from made obtain w3 k where w3: "TcpClient_newConnection (cl\<lparr>cl_connector := t1\<rparr>) user l fd w2 = Inr w3"
    "epolls w3 l fd = Some (EPOLLIN, next_conn w) \<and> client_connection w3 = Some (next_conn w)
    \<and> conns w3 (next_conn w) = Some k \<and> refs k = 1 \<and> sockfd k = fd \<and> closeCallback k = Some ClientRemove
    \<and> usr w3 = f l (next_conn w) (usr w) \<and> stream_at (next_conn w) [] 1032 w3" by blast
  from told w3(1) have "Connector_handleWrite (TcpClient_newConnection (cl\<lparr>cl_connector := t1\<rparr>) user l) (ok, optval)
      (cl_connector (cl\<lparr>cl_connector := t1\<rparr>)) w1 =
      Inr (t1\<lparr>ct_chan := Some (ch\<lparr>index := kDeleted, events := 0\<rparr>), ct_resets := ct_resets t1 + 1\<rparr>, w3)" by simp
  with watch watched reset w3(2) show ?thesis by blast
qed

definition demo_client :: tcp_client where
  "demo_client = \<lparr>cl_loop = 0, cl_user = True, cl_connector = Connector_init 0 77\<rparr>"

lemma client_connected_witness:
  "\<exists>cl1 w1 t w2. TcpClient_connect 0 5 (-1) EINPROGRESS demo_client (quiet_world []) = (cl1, w1)
    \<and> Connector_handleWrite (TcpClient_newConnection cl1 greeting_user 0) (0, ECONNREFUSED) (cl_connector cl1) w1 = Inr (t, w2)
    \<and> usr w2 = 10 \<and> epolls w2 0 5 = Some (EPOLLIN, 0)"
proof -
  have user: "onConnection greeting_user = (\<lambda>tid c w. Inr (w\<lparr>usr := (\<lambda>tid c u. u + 10) tid c (usr w)\<rparr>))"
    by (simp add: greeting_user_def)
  have cl: "cl_loop demo_client = 0" "ct_loop (cl_connector demo_client) = 0" "cl_user demo_client"
    by (simp_all add: demo_client_def Connector_init_def)
  have w: "epolls (quiet_world []) 0 5 = None" "client_connection (quiet_world []) = None" "next_conn (quiet_world []) = 0"
    "usr (quiet_world []) = 0" by (simp_all add: quiet_world_def)
  from client_connected [OF _ _ w(1) cl w(2) user, of "-1" EINPROGRESS 0 ECONNREFUSED] w(3,4)
  show ?thesis by (auto simp del: One_nat_def)
qed

end
