(* ===== verification/Timestamps.thy ===== *)
theory Timestamps
  imports Complex_Main Channel "HOL-Library.Signed_Division"
begin

text \<open>
  \<^verbatim>\<open>simplifyMuduo/src/Timestamp.cc\<close> and \<^verbatim>\<open>Timestamp.h\<close>: time stamps in microseconds. The answers of \<^verbatim>\<open>gettimeofday\<close> are an
  input; a \<^verbatim>\<open>double\<close> is a rational and every floating-point operation is the exact one followed by the rounding
  \<open>rnd\<close> of IEEE arithmetic, a parameter.
\<close>

section \<open>Time stamps\<close>

datatype timestamp = Timestamp (microSecondsSinceEpoch: int64)

definition kMicroSecondsPerSecond :: int where
  "kMicroSecondsPerSecond = 1000 * 1000"

definition timestamp_valid :: "timestamp \<Rightarrow> bool" where
  "timestamp_valid t \<longleftrightarrow> 0 < sint (microSecondsSinceEpoch t)"

text \<open>\<^verbatim>\<open>operator<\<close> compares the signed counts; with it time stamps are linearly ordered.\<close>

definition timestamp_less :: "timestamp \<Rightarrow> timestamp \<Rightarrow> bool" where
  "timestamp_less l r \<longleftrightarrow> sint (microSecondsSinceEpoch l) < sint (microSecondsSinceEpoch r)"

definition timestamp_eq :: "timestamp \<Rightarrow> timestamp \<Rightarrow> bool" where
  "timestamp_eq l r \<longleftrightarrow> microSecondsSinceEpoch l = microSecondsSinceEpoch r"

lemma timestamp_eq_iff [simp]: "timestamp_eq l r \<longleftrightarrow> l = r"
  by (cases l; cases r) (simp add: timestamp_eq_def)

instantiation timestamp :: linorder
begin

definition less_timestamp :: "timestamp \<Rightarrow> timestamp \<Rightarrow> bool" where
  less_timestamp_is: "less_timestamp = timestamp_less"

definition less_eq_timestamp :: "timestamp \<Rightarrow> timestamp \<Rightarrow> bool" where
  "less_eq_timestamp l r \<longleftrightarrow> sint (microSecondsSinceEpoch l) \<le> sint (microSecondsSinceEpoch r)"

instance
  by standard (auto simp: less_timestamp_is timestamp_less_def less_eq_timestamp_def, metis signed_word_eqI timestamp.expand)

end

lemmas less_timestamp_def = less_timestamp_is timestamp_less_def

type_synonym double = rat

text \<open>Conversion to \<^verbatim>\<open>int64_t\<close> cuts off the fraction.\<close>

definition double_to_int64 :: "double \<Rightarrow> int64" where
  "double_to_int64 d = word_of_int (if 0 \<le> d then \<lfloor>d\<rfloor> else \<lceil>d\<rceil>)"

type_synonym timeval = "int \<times> int"

definition nowMicroSeconds :: "(double \<Rightarrow> double) \<Rightarrow> timeval \<Rightarrow> double" where
  "nowMicroSeconds rnd tv = rnd (of_int (fst tv * kMicroSecondsPerSecond + snd tv))"

definition Timestamp_now :: "(double \<Rightarrow> double) \<Rightarrow> timeval \<Rightarrow> timestamp" where
  "Timestamp_now rnd tv = Timestamp (double_to_int64 (nowMicroSeconds rnd tv))"

definition nowAfter :: "(double \<Rightarrow> double) \<Rightarrow> timeval \<Rightarrow> double \<Rightarrow> timestamp" where
  "nowAfter rnd tv seconds =
     Timestamp (double_to_int64
       (rnd (nowMicroSeconds rnd tv + rnd (of_int kMicroSecondsPerSecond * seconds))))"

definition timeDifference :: "(double \<Rightarrow> double) \<Rightarrow> timestamp \<Rightarrow> timestamp \<Rightarrow> double" where
  "timeDifference rnd high low =
     (let diff = microSecondsSinceEpoch high - microSecondsSinceEpoch low
      in rnd (rnd (of_int (sint diff)) / of_int kMicroSecondsPerSecond))"

text \<open>The conversion \<^verbatim>\<open>%06ld\<close> pads with zeros behind the sign.\<close>

definition pad6 :: "int \<Rightarrow> string" where
  "pad6 i = (let ds = digits (nat \<bar>i\<bar>); sign = (if i < 0 then ''-'' else '''')
             in sign @ replicate (6 - length sign - length ds) CHR ''0'' @ ds)"

definition timestamp_toString :: "timestamp \<Rightarrow> string" where
  "timestamp_toString t =
     (let us = sint (microSecondsSinceEpoch t); seconds = us sdiv kMicroSecondsPerSecond;
          microseconds = us smod kMicroSecondsPerSecond
      in take 30 (int_to_string seconds @ ''.'' @ pad6 microseconds))"

end
