(* ===== verification/TimerQueue.thy ===== *)
theory TimerQueue
  imports Timestamps "HOL-Library.Product_Lexorder"
begin

text \<open>
  \<^verbatim>\<open>simplifyMuduo/include/Timer.h\<close> and \<^verbatim>\<open>src/TimerQueue.cc\<close>: timers and the queue of pending timers, a
  \<^verbatim>\<open>std::set\<close> ordered by stamp and address, kept here as a sorted list. Timer objects live on a heap, so that a use after \<^verbatim>\<open>delete\<close> shows. The lemmas say which timers fire, in which
  order, which are pending afterwards, and for when the timer descriptor is armed.
\<close>

section \<open>Timers\<close>

text \<open>\<open>'c\<close> is the type of callbacks; \<open>None\<close> is an empty \<^verbatim>\<open>std::function\<close>.\<close>

type_synonym ptr = "64 word"

record 'c timer =
  tm_callback :: "'c option"
  tm_stamp :: timestamp
  tm_interval :: double
  tm_sequence :: "64 word"

record timer_id =
  id_timer :: ptr
  id_sequence :: "64 word"

datatype timer_call = AddTimerInLoop ptr | CancelInLoop timer_id

record timespec =
  tv_sec :: int
  tv_nsec :: int

type_synonym entry = "timestamp \<times> ptr"

text \<open>
  \<open>armed\<close> is what the last \<^verbatim>\<open>timerfd_settime\<close> was given, and for which stamp; \<open>sequeue\<close> is the static
  counter of \<^verbatim>\<open>Timer.h\<close>; \<open>env\<close> is the state the callbacks work on.
\<close>

record ('c, 's) timer_queue =
  pTimers :: "entry list"
  timer_heap :: "ptr \<Rightarrow> 'c timer option"
  clock :: "timeval list"
  armed :: "(timestamp \<times> timespec) option"
  sequeue :: "64 word"
  tq_pending :: "timer_call list"
  env :: 's

definition gettimeofday :: "('c, 's) timer_queue \<Rightarrow> timeval \<times> ('c, 's) timer_queue" where
  "gettimeofday q = (case clock q of [] \<Rightarrow> ((0, 0), q) | tv # tvs \<Rightarrow> (tv, q\<lparr>clock := tvs\<rparr>))"

definition deref_timer :: "('c, 's) timer_queue \<Rightarrow> ptr \<Rightarrow> 'c timer result" where
  "deref_timer q p = (case timer_heap q p of None \<Rightarrow> Inl UseAfterFree | Some t \<Rightarrow> Inr t)"

definition Timer_incrementAndGet :: "('c, 's) timer_queue \<Rightarrow> 64 word \<times> ('c, 's) timer_queue" where
  "Timer_incrementAndGet q = (let n = sequeue q + 1 in (n, q\<lparr>sequeue := n\<rparr>))"

definition Timer_init :: "'c option \<Rightarrow> timestamp \<Rightarrow> double \<Rightarrow> 64 word \<Rightarrow> 'c timer" where
  "Timer_init cb stamp interval s =
     \<lparr>tm_callback = cb, tm_stamp = stamp, tm_interval = interval, tm_sequence = s\<rparr>"

definition isRepeat :: "'c timer \<Rightarrow> bool" where
  "isRepeat t \<longleftrightarrow> 0 < tm_interval t"

definition timer_timeout ::
  "('c \<Rightarrow> ('c, 's) timer_queue \<Rightarrow> ('c, 's) timer_queue result) \<Rightarrow> 'c timer
    \<Rightarrow> ('c, 's) timer_queue \<Rightarrow> ('c, 's) timer_queue result" where
  "timer_timeout call t q = (case tm_callback t of None \<Rightarrow> Inr q | Some cb \<Rightarrow> call cb q)"

definition restart ::
  "(double \<Rightarrow> double) \<Rightarrow> ptr \<Rightarrow> 'c timer \<Rightarrow> ('c, 's) timer_queue \<Rightarrow> ('c, 's) timer_queue" where
  "restart rnd p t q =
     (let (tv, q1) = gettimeofday q
      in q1\<lparr>timer_heap := (timer_heap q1)(p := Some (t\<lparr>tm_stamp := nowAfter rnd tv (tm_interval t)\<rparr>))\<rparr>)"

section \<open>The queue\<close>

definition howMuchTimeFromNow :: "timestamp \<Rightarrow> timestamp \<Rightarrow> timespec" where
  "howMuchTimeFromNow now when =
     (let microseconds = sint (microSecondsSinceEpoch when - microSecondsSinceEpoch now);
          microseconds = (if microseconds < 100 then 100 else microseconds)
      in \<lparr>tv_sec = microseconds sdiv kMicroSecondsPerSecond,
          tv_nsec = (microseconds smod kMicroSecondsPerSecond) * 1000\<rparr>)"

definition resetTimerfd ::
  "(double \<Rightarrow> double) \<Rightarrow> timestamp \<Rightarrow> ('c, 's) timer_queue \<Rightarrow> ('c, 's) timer_queue" where
  "resetTimerfd rnd stamp q =
     (let (tv, q1) = gettimeofday q
      in q1\<lparr>armed := Some (stamp, howMuchTimeFromNow (Timestamp_now rnd tv) stamp)\<rparr>)"

definition timer_insert :: "ptr \<Rightarrow> ('c, 's) timer_queue \<Rightarrow> (bool \<times> ('c, 's) timer_queue) result" where
  "timer_insert p q =
     andThen (deref_timer q p) (\<lambda>t.
       let when = tm_stamp t;
           earliestChanged = (case pTimers q of [] \<Rightarrow> True | e # _ \<Rightarrow> when < fst e)
       in Inr (earliestChanged, q\<lparr>pTimers := insort_insert (when, p) (pTimers q)\<rparr>))"

definition addTimerInLoop ::
  "(double \<Rightarrow> double) \<Rightarrow> ptr \<Rightarrow> ('c, 's) timer_queue \<Rightarrow> ('c, 's) timer_queue result" where
  "addTimerInLoop rnd p q =
     andThen (timer_insert p q) (\<lambda>(earliestChanged, q1).
       if earliestChanged then andThen (deref_timer q1 p) (\<lambda>t. Inr (resetTimerfd rnd (tm_stamp t) q1))
       else Inr q1)"

text \<open>
  \<^verbatim>\<open>cancelInLoop\<close> looks for the timer's current stamp and address. After \<^verbatim>\<open>erase(it)\<close> the iterator is
  invalid and \<^verbatim>\<open>it->second\<close> reads the freed node.
\<close>

definition cancelInLoop :: "timer_id \<Rightarrow> ('c, 's) timer_queue \<Rightarrow> ('c, 's) timer_queue result" where
  "cancelInLoop timerId q =
     andThen (deref_timer q (id_timer timerId)) (\<lambda>t.
       if (tm_stamp t, id_timer timerId) \<in> set (pTimers q) then Inl UseAfterFree else Inr q)"

text \<open>
  \<open>p\<close> is the address \<^verbatim>\<open>new Timer\<close> returns, \<open>in_loop\<close> whether the caller is the loop's thread;
  otherwise the functor is queued.
\<close>

definition addTimer ::
  "(double \<Rightarrow> double) \<Rightarrow> bool \<Rightarrow> ptr \<Rightarrow> 'c option \<Rightarrow> timestamp \<Rightarrow> double
    \<Rightarrow> ('c, 's) timer_queue \<Rightarrow> (timer_id \<times> ('c, 's) timer_queue) result" where
  "addTimer rnd in_loop p cb when interval q =
     (let (s, q1) = Timer_incrementAndGet q;
          q2 = q1\<lparr>timer_heap := (timer_heap q1)(p := Some (Timer_init cb when interval s))\<rparr>
      in andThen (if in_loop then addTimerInLoop rnd p q2
                  else Inr (q2\<lparr>tq_pending := tq_pending q2 @ [AddTimerInLoop p]\<rparr>)) (\<lambda>q3.
         andThen (deref_timer q3 p) (\<lambda>t. Inr (\<lparr>id_timer = p, id_sequence = tm_sequence t\<rparr>, q3))))"

definition cancelTimer ::
  "bool \<Rightarrow> timer_id \<Rightarrow> ('c, 's) timer_queue \<Rightarrow> ('c, 's) timer_queue result" where
  "cancelTimer in_loop timerId q =
     (if in_loop then cancelInLoop timerId q
      else Inr (q\<lparr>tq_pending := tq_pending q @ [CancelInLoop timerId]\<rparr>))"

fun run_timer_calls ::
  "(double \<Rightarrow> double) \<Rightarrow> timer_call list \<Rightarrow> ('c, 's) timer_queue \<Rightarrow> ('c, 's) timer_queue result" where
  "run_timer_calls rnd [] q = Inr q"
| "run_timer_calls rnd (AddTimerInLoop p # cs) q = andThen (addTimerInLoop rnd p q) (run_timer_calls rnd cs)"
| "run_timer_calls rnd (CancelInLoop i # cs) q = andThen (cancelInLoop i q) (run_timer_calls rnd cs)"

text \<open>The \<^verbatim>\<open>lower_bound\<close> of \<open>(now, UINTPTR_MAX)\<close> splits the set.\<close>

definition getExpired :: "timestamp \<Rightarrow> ('c, 's) timer_queue \<Rightarrow> entry list \<times> ('c, 's) timer_queue" where
  "getExpired now q =
     (let sentry = (now, - 1 :: ptr); expired = takeWhile (\<lambda>e. e < sentry) (pTimers q)
      in (expired, q\<lparr>pTimers := dropWhile (\<lambda>e. e < sentry) (pTimers q)\<rparr>))"

fun run_expired ::
  "('c \<Rightarrow> ('c, 's) timer_queue \<Rightarrow> ('c, 's) timer_queue result) \<Rightarrow> entry list
    \<Rightarrow> ('c, 's) timer_queue \<Rightarrow> ('c, 's) timer_queue result" where
  "run_expired call [] q = Inr q"
| "run_expired call ((_, p) # es) q =
     andThen (deref_timer q p) (\<lambda>t. andThen (timer_timeout call t q) (run_expired call es))"

fun reset_expired ::
  "(double \<Rightarrow> double) \<Rightarrow> entry list \<Rightarrow> ('c, 's) timer_queue \<Rightarrow> ('c, 's) timer_queue result" where
  "reset_expired rnd [] q = Inr q"
| "reset_expired rnd ((_, p) # es) q =
     andThen (deref_timer q p) (\<lambda>t.
       andThen (if isRepeat t then andThen (timer_insert p (restart rnd p t q)) (\<lambda>(_, q1). Inr q1)
                else Inr (q\<lparr>timer_heap := (timer_heap q)(p := None)\<rparr>))
         (reset_expired rnd es))"

definition timer_reset ::
  "(double \<Rightarrow> double) \<Rightarrow> entry list \<Rightarrow> ('c, 's) timer_queue \<Rightarrow> ('c, 's) timer_queue result" where
  "timer_reset rnd expired q =
     andThen (reset_expired rnd expired q) (\<lambda>q1.
     andThen (case pTimers q1 of [] \<Rightarrow> Inr (Timestamp 0)
              | e # _ \<Rightarrow> andThen (deref_timer q1 (snd e)) (\<lambda>t. Inr (tm_stamp t))) (\<lambda>nextExpire.
       Inr (if timestamp_valid nextExpire then resetTimerfd rnd nextExpire q1 else q1)))"

definition timer_handleRead ::
  "(double \<Rightarrow> double) \<Rightarrow> ('c \<Rightarrow> ('c, 's) timer_queue \<Rightarrow> ('c, 's) timer_queue result)
    \<Rightarrow> ('c, 's) timer_queue \<Rightarrow> ('c, 's) timer_queue result" where
  "timer_handleRead rnd call q =
     (let (tv, q1) = gettimeofday q; now = Timestamp_now rnd tv; (expired, q2) = getExpired now q1
      in andThen (run_expired call expired q2) (timer_reset rnd expired))"

text \<open>The destructor: the timer channel leaves the loop, every pending timer is deleted.\<close>

fun delete_timers :: "entry list \<Rightarrow> (ptr \<Rightarrow> 'c timer option) \<Rightarrow> (ptr \<Rightarrow> 'c timer option) result" where
  "delete_timers [] h = Inr h"
| "delete_timers ((_, p) # es) h =
     (case h p of None \<Rightarrow> Inl UseAfterFree | Some _ \<Rightarrow> delete_timers es (h(p := None)))"

definition TimerQueue_dtor ::
  "channel \<Rightarrow> epoll_set \<Rightarrow> ('c, 's) timer_queue \<Rightarrow> (epoll_set \<times> ('c, 's) timer_queue) result" where
  "TimerQueue_dtor ch s q =
     andThen (delete_timers (pTimers q) (timer_heap q)) (\<lambda>h.
       Inr (snd (disableAll (setIndex kDeleted ch) s), q\<lparr>timer_heap := h, pTimers := []\<rparr>))"

text \<open>The timer interface of \<^verbatim>\<open>EventLoop\<close>.\<close>

definition runAt ::
  "(double \<Rightarrow> double) \<Rightarrow> bool \<Rightarrow> ptr \<Rightarrow> timestamp \<Rightarrow> 'c option
    \<Rightarrow> ('c, 's) timer_queue \<Rightarrow> (timer_id \<times> ('c, 's) timer_queue) result" where
  "runAt rnd in_loop p when cb q = addTimer rnd in_loop p cb when 0 q"

definition runAfter ::
  "(double \<Rightarrow> double) \<Rightarrow> bool \<Rightarrow> ptr \<Rightarrow> double \<Rightarrow> 'c option
    \<Rightarrow> ('c, 's) timer_queue \<Rightarrow> (timer_id \<times> ('c, 's) timer_queue) result" where
  "runAfter rnd in_loop p delay cb q =
     (let (tv, q1) = gettimeofday q in addTimer rnd in_loop p cb (nowAfter rnd tv delay) 0 q1)"

definition runEvery ::
  "(double \<Rightarrow> double) \<Rightarrow> bool \<Rightarrow> ptr \<Rightarrow> double \<Rightarrow> 'c option
    \<Rightarrow> ('c, 's) timer_queue \<Rightarrow> (timer_id \<times> ('c, 's) timer_queue) result" where
  "runEvery rnd in_loop p interval cb q =
     (let (tv, q1) = gettimeofday q in addTimer rnd in_loop p cb (nowAfter rnd tv interval) interval q1)"

section \<open>The order of the set\<close>

lemma before_sentry: "p \<noteq> - 1 \<Longrightarrow> (s :: timestamp, p) < (now, - 1 :: ptr) \<longleftrightarrow> s \<le> now"
  using word_n1_ge [of p] by (auto simp: order.not_eq_order_implies_strict intro: less_imp_le)

lemma takeWhile_sorted:
  fixes b :: "'a::linorder"
  assumes "sorted xs"
  shows "takeWhile (\<lambda>x. x < b) xs = filter (\<lambda>x. x < b) xs"
    and "dropWhile (\<lambda>x. x < b) xs = filter (\<lambda>x. \<not> x < b) xs"
proof -
  have "takeWhile (\<lambda>x. x < b) xs = filter (\<lambda>x. x < b) xs \<and> dropWhile (\<lambda>x. x < b) xs = filter (\<lambda>x. \<not> x < b) xs"
    using assms
  proof (induction xs)
    case (Cons a xs)
    show ?case
    proof (cases "a < b")
      case False
      then have "\<forall>x \<in> set xs. \<not> x < b" using Cons.prems by (auto simp: not_less intro: order_trans)
      with False show ?thesis by (simp add: filter_empty_conv)
    qed (use Cons in simp)
  qed simp
  then show "takeWhile (\<lambda>x. x < b) xs = filter (\<lambda>x. x < b) xs"
    and "dropWhile (\<lambda>x. x < b) xs = filter (\<lambda>x. \<not> x < b) xs" by simp_all
qed

text \<open>
  Every pending entry points to a live timer with the same stamp; the entries are sorted and no
  timer is pending twice. No object lies at the last address.
\<close>

definition entry_ok :: "('c, 's) timer_queue \<Rightarrow> entry \<Rightarrow> bool" where
  "entry_ok q e \<longleftrightarrow> snd e \<noteq> - 1 \<and> (\<exists>t. timer_heap q (snd e) = Some t \<and> tm_stamp t = fst e)"

definition queue_ok :: "('c, 's) timer_queue \<Rightarrow> bool" where
  "queue_ok q \<longleftrightarrow> sorted (pTimers q) \<and> distinct (map snd (pTimers q)) \<and> (\<forall>e \<in> set (pTimers q). entry_ok q e)"

lemma getExpired_exact:
  assumes "queue_ok q"
  shows "getExpired now q = (filter (\<lambda>e. fst e \<le> now) (pTimers q),
    q\<lparr>pTimers := filter (\<lambda>e. now < fst e) (pTimers q)\<rparr>)"
proof -
  have sentry: "e < (now, - 1) \<longleftrightarrow> fst e \<le> now" if "e \<in> set (pTimers q)" for e
    using assms that before_sentry [of "snd e" "fst e" now] by (auto simp: queue_ok_def entry_ok_def)
  show ?thesis
    using assms sentry
    by (simp add: getExpired_def Let_def takeWhile_sorted queue_ok_def not_le cong: filter_cong)
qed

lemma distinct_map_insort:
  "distinct (map snd xs) \<Longrightarrow> p \<notin> snd ` set xs \<Longrightarrow> distinct (map snd (insort (s, p) xs))"
  by (induction xs) (auto simp: set_insort_key)

lemma insort_insert_ok:
  assumes "queue_ok q" "timer_heap q p = Some t" "p \<noteq> - 1" "p \<notin> snd ` set (pTimers q)"
  shows "queue_ok (q\<lparr>pTimers := insort_insert (tm_stamp t, p) (pTimers q)\<rparr>)"
    and "set (insort_insert (tm_stamp t, p) (pTimers q)) = insert (tm_stamp t, p) (set (pTimers q))"
proof -
  have new: "(tm_stamp t, p) \<notin> set (pTimers q)" using assms(4) by force
  then have ins: "insort_insert (tm_stamp t, p) (pTimers q) = insort (tm_stamp t, p) (pTimers q)"
    by (simp add: insort_insert_key_def)
  show "set (insort_insert (tm_stamp t, p) (pTimers q)) = insert (tm_stamp t, p) (set (pTimers q))"
    by (simp add: set_insort_insert)
  have "distinct (map snd (insort (tm_stamp t, p) (pTimers q)))"
    using assms(1,4) by (simp add: queue_ok_def distinct_map_insort)
  with assms ins show "queue_ok (q\<lparr>pTimers := insort_insert (tm_stamp t, p) (pTimers q)\<rparr>)"
    by (auto simp: queue_ok_def entry_ok_def set_insort_key sorted_insort)
qed

section \<open>Adding, firing, re-arming\<close>

text \<open>The descriptor is armed for a moment not after the earliest pending timer.\<close>

definition armed_ok :: "('c, 's) timer_queue \<Rightarrow> bool" where
  "armed_ok q \<longleftrightarrow> (case pTimers q of [] \<Rightarrow> True | e # _ \<Rightarrow> \<exists>s ts. armed q = Some (s, ts) \<and> s \<le> fst e)"

lemma gettimeofday_fields [simp]:
  "pTimers (snd (gettimeofday q)) = pTimers q" "timer_heap (snd (gettimeofday q)) = timer_heap q"
  "env (snd (gettimeofday q)) = env q" "tq_pending (snd (gettimeofday q)) = tq_pending q"
  "armed (snd (gettimeofday q)) = armed q" "sequeue (snd (gettimeofday q)) = sequeue q"
  by (simp_all add: gettimeofday_def split: list.splits)

lemma resetTimerfd_fields [simp]:
  "pTimers (resetTimerfd rnd s q) = pTimers q" "timer_heap (resetTimerfd rnd s q) = timer_heap q"
  "env (resetTimerfd rnd s q) = env q" "tq_pending (resetTimerfd rnd s q) = tq_pending q"
  "\<exists>ts. armed (resetTimerfd rnd s q) = Some (s, ts)"
  by (simp_all add: resetTimerfd_def Let_def split_beta)

lemma queue_ok_cong: "pTimers q' = pTimers q \<Longrightarrow> timer_heap q' = timer_heap q \<Longrightarrow> queue_ok q' = queue_ok q"
  by (simp add: queue_ok_def entry_ok_def)

lemma addTimerInLoop_ok:
  assumes ok: "queue_ok q" "armed_ok q" and t: "timer_heap q p = Some t" "p \<noteq> - 1" "p \<notin> snd ` set (pTimers q)"
  shows "\<exists>q'. addTimerInLoop rnd p q = Inr q' \<and> queue_ok q' \<and> armed_ok q'
    \<and> set (pTimers q') = insert (tm_stamp t, p) (set (pTimers q)) \<and> timer_heap q' = timer_heap q
    \<and> env q' = env q \<and> tq_pending q' = tq_pending q"
proof -
  let ?x = "(tm_stamp t, p)"
  define q1 where "q1 = q\<lparr>pTimers := insort_insert ?x (pTimers q)\<rparr>"
  have q1: "queue_ok q1" "set (pTimers q1) = insert ?x (set (pTimers q))"
    using insort_insert_ok [OF ok(1) t] by (simp_all add: q1_def)
  have new: "?x \<notin> set (pTimers q)" using t(3) by force
  then have list: "pTimers q1 = insort ?x (pTimers q)" by (simp add: q1_def insort_insert_key_def)
  show ?thesis
  proof (cases "case pTimers q of [] \<Rightarrow> True | e # _ \<Rightarrow> tm_stamp t < fst e")
    case True
    then have "addTimerInLoop rnd p q = Inr (resetTimerfd rnd (tm_stamp t) q1)"
      using t(1) by (simp add: addTimerInLoop_def timer_insert_def deref_timer_def q1_def Let_def)
    moreover obtain ts where "armed (resetTimerfd rnd (tm_stamp t) q1) = Some (tm_stamp t, ts)"
      using resetTimerfd_fields(5) by blast
    then have "armed_ok (resetTimerfd rnd (tm_stamp t) q1)"
      using True list by (auto simp: armed_ok_def split: list.splits)
    ultimately show ?thesis
      using q1 by (auto simp: queue_ok_cong [of "resetTimerfd rnd (tm_stamp t) q1" q1]) (auto simp: q1_def)
  next
    case False
    then obtain e es where e: "pTimers q = e # es" "\<not> tm_stamp t < fst e" by (auto split: list.splits)
    then have "addTimerInLoop rnd p q = Inr q1"
      using t(1) by (simp add: addTimerInLoop_def timer_insert_def deref_timer_def q1_def Let_def)
    moreover have "armed_ok q1"
      using ok(2) e list by (cases e) (auto simp: armed_ok_def q1_def)
    ultimately show ?thesis using q1 by (auto simp: q1_def)
  qed
qed

text \<open>
  What a callback may do to the queue: add timers, whose objects are new, and work on its own state. (To cancel a timer in the loop
  faults or does nothing, theorem \<open>cancel_faults_or_ignores\<close>.)
\<close>

definition adds_timers :: "('c, 's) timer_queue \<Rightarrow> ('c, 's) timer_queue \<Rightarrow> bool" where
  "adds_timers q q' \<longleftrightarrow> queue_ok q' \<and> set (pTimers q) \<subseteq> set (pTimers q')
     \<and> (\<forall>p. timer_heap q p \<noteq> None \<longrightarrow> timer_heap q' p = timer_heap q p)
     \<and> (\<forall>e \<in> set (pTimers q') - set (pTimers q). timer_heap q (snd e) = None)"

definition calls_add :: "('c \<Rightarrow> ('c, 's) timer_queue \<Rightarrow> ('c, 's) timer_queue result) \<Rightarrow> bool" where
  "calls_add call \<longleftrightarrow> (\<forall>cb q. queue_ok q \<longrightarrow> (\<exists>q'. call cb q = Inr q' \<and> adds_timers q q'))"

fun call_all ::
  "('c \<Rightarrow> ('c, 's) timer_queue \<Rightarrow> ('c, 's) timer_queue result) \<Rightarrow> 'c option list
    \<Rightarrow> ('c, 's) timer_queue \<Rightarrow> ('c, 's) timer_queue result" where
  "call_all call [] q = Inr q"
| "call_all call (None # cbs) q = call_all call cbs q"
| "call_all call (Some cb # cbs) q = andThen (call cb q) (call_all call cbs)"

definition callback_of :: "('c, 's) timer_queue \<Rightarrow> entry \<Rightarrow> 'c option" where
  "callback_of q e = tm_callback (the (timer_heap q (snd e)))"

lemma adds_timers_refl: "queue_ok q \<Longrightarrow> adds_timers q q"
  by (simp add: adds_timers_def)

lemma adds_timers_trans: "adds_timers q q1 \<Longrightarrow> adds_timers q1 q2 \<Longrightarrow> adds_timers q q2"
proof -
  assume 1: "adds_timers q q1" and 2: "adds_timers q1 q2"
  have heap: "timer_heap q1 p = timer_heap q p" if "timer_heap q p \<noteq> None" for p
    using 1 that by (simp add: adds_timers_def)
  then have heap2: "timer_heap q2 p = timer_heap q p" if "timer_heap q p \<noteq> None" for p
    using 2 that by (simp add: adds_timers_def)
  have "timer_heap q (snd e) = None" if "e \<in> set (pTimers q2)" "e \<notin> set (pTimers q)" for e
  proof (cases "e \<in> set (pTimers q1)")
    case True
    with 1 that(2) show ?thesis by (simp add: adds_timers_def)
  next
    case False
    with 2 that(1) have "timer_heap q1 (snd e) = None" by (simp add: adds_timers_def)
    with heap show ?thesis by metis
  qed
  with 1 2 heap2 show ?thesis unfolding adds_timers_def by blast
qed

lemma addTimerInLoop_adds:
  assumes ok: "queue_ok q" and t: "timer_heap q p = Some t" "p \<noteq> - 1" "p \<notin> snd ` set (pTimers q)"
  shows "\<exists>q'. addTimerInLoop rnd p q = Inr q' \<and> queue_ok q' \<and> set (pTimers q') = insert (tm_stamp t, p) (set (pTimers q))
    \<and> timer_heap q' = timer_heap q \<and> env q' = env q"
proof -
  define q1 where "q1 = q\<lparr>pTimers := insort_insert (tm_stamp t, p) (pTimers q)\<rparr>"
  have q1: "queue_ok q1" "set (pTimers q1) = insert (tm_stamp t, p) (set (pTimers q))" "timer_heap q1 = timer_heap q" "env q1 = env q"
    using insort_insert_ok [OF ok t] by (simp_all add: q1_def)
  have "addTimerInLoop rnd p q = Inr q1 \<or> addTimerInLoop rnd p q = Inr (resetTimerfd rnd (tm_stamp t) q1)"
    using t(1) by (simp add: addTimerInLoop_def timer_insert_def deref_timer_def q1_def Let_def)
  moreover have "queue_ok (resetTimerfd rnd (tm_stamp t) q1)" using q1(1) by (simp add: queue_ok_cong [of "resetTimerfd rnd (tm_stamp t) q1" q1])
  ultimately show ?thesis using q1 by (elim disjE) simp_all
qed

lemma addTimer_adds:
  assumes ok: "queue_ok q" and new: "timer_heap q p = None" "p \<noteq> - 1"
  shows "\<exists>i q'. addTimer rnd True p cb when interval q = Inr (i, q') \<and> adds_timers q q'
    \<and> set (pTimers q') = insert (when, p) (set (pTimers q)) \<and> env q' = env q"
proof -
  define t where "t = Timer_init cb when interval (sequeue q + 1)"
  define q0 where "q0 = q\<lparr>sequeue := sequeue q + 1, timer_heap := (timer_heap q)(p := Some t)\<rparr>"
  have stamp: "tm_stamp t = when" by (simp add: t_def Timer_init_def)
  have fields: "pTimers q0 = pTimers q" "timer_heap q0 = (timer_heap q)(p := Some t)" "env q0 = env q" by (simp_all add: q0_def)
  have fresh: "p \<notin> snd ` set (pTimers q)" using ok new(1) by (force simp: queue_ok_def entry_ok_def)
  have "queue_ok q0" using ok fresh by (force simp: queue_ok_def entry_ok_def fields)
  moreover have "timer_heap q0 p = Some t" "p \<notin> snd ` set (pTimers q0)" using fresh by (simp_all add: fields)
  ultimately obtain q' where q': "addTimerInLoop rnd p q0 = Inr q'" "queue_ok q'"
    "set (pTimers q') = insert (when, p) (set (pTimers q))" "timer_heap q' = (timer_heap q)(p := Some t)" "env q' = env q"
    using addTimerInLoop_adds [of q0 p t rnd] new(2) by (auto simp: stamp fields)
  have "addTimer rnd True p cb when interval q = Inr (\<lparr>id_timer = p, id_sequence = tm_sequence t\<rparr>, q')"
    using q'(1,4) by (simp add: addTimer_def Timer_incrementAndGet_def Let_def deref_timer_def q0_def t_def)
  moreover have "adds_timers q q'" using q' new(1) by (auto simp: adds_timers_def)
  ultimately show ?thesis using q' by blast
qed

lemma run_expired_calls:
  assumes "calls_add call" "queue_ok q" "\<forall>e \<in> set es. timer_heap q (snd e) \<noteq> None"
  shows "\<exists>q'. run_expired call es q = Inr q' \<and> call_all call (map (callback_of q) es) q = Inr q' \<and> adds_timers q q'"
  using assms(2,3)
proof (induction es arbitrary: q)
  case Nil
  then show ?case by (simp add: adds_timers_refl)
next
  case (Cons e es)
  obtain s p where e: "e = (s, p)" by fastforce
  from Cons.prems obtain t where t: "timer_heap q p = Some t" by (auto simp: e)
  show ?case
  proof (cases "tm_callback t")
    case None
    with Cons t e show ?thesis by (simp add: deref_timer_def timer_timeout_def callback_of_def)
  next
    case (Some cb)
    from assms(1) Cons.prems(1) obtain q1 where q1: "call cb q = Inr q1" "adds_timers q q1"
      unfolding calls_add_def by blast
    then have same: "timer_heap q1 (snd e) = timer_heap q (snd e)" if "e \<in> set es" for e
      using Cons.prems(2) that by (simp add: adds_timers_def)
    have "queue_ok q1" "\<forall>e \<in> set es. timer_heap q1 (snd e) \<noteq> None"
      using q1(2) same Cons.prems(2) by (simp_all add: adds_timers_def)
    from Cons.IH [OF this] obtain q' where q': "run_expired call es q1 = Inr q'"
      "call_all call (map (callback_of q1) es) q1 = Inr q'" "adds_timers q1 q'" by blast
    moreover have "map (callback_of q1) es = map (callback_of q) es"
      using same by (simp add: callback_of_def)
    moreover have "callback_of q e = Some cb" using Some t by (simp add: callback_of_def e)
    ultimately show ?thesis using Some t e q1 adds_timers_trans [OF q1(2) q'(3)]
      by (simp add: deref_timer_def timer_timeout_def)
  qed
qed

text \<open>
  What becomes of an expired timer: a repeating one gets a new stamp, an interval after some reading
  of the clock, a one-shot timer is deleted.
\<close>

definition renewed :: "(double \<Rightarrow> double) \<Rightarrow> 'c timer \<Rightarrow> 'c timer option \<Rightarrow> bool" where
  "renewed rnd t t' \<longleftrightarrow>
     (if isRepeat t then \<exists>tv. t' = Some (t\<lparr>tm_stamp := nowAfter rnd tv (tm_interval t)\<rparr>) else t' = None)"

lemma reset_expired_ok:
  assumes "queue_ok q" "distinct (map snd es)" "\<forall>e \<in> set es. snd e \<noteq> - 1 \<and> timer_heap q (snd e) \<noteq> None"
    and "snd ` set es \<inter> snd ` set (pTimers q) = {}"
  shows "\<exists>q'. reset_expired rnd es q = Inr q' \<and> queue_ok q' \<and> env q' = env q \<and> tq_pending q' = tq_pending q
    \<and> snd ` set (pTimers q') = snd ` set (pTimers q) \<union> {p \<in> snd ` set es. isRepeat (the (timer_heap q p))}
    \<and> (\<forall>p. if p \<in> snd ` set es then renewed rnd (the (timer_heap q p)) (timer_heap q' p)
           else timer_heap q' p = timer_heap q p)"
  using assms
proof (induction es arbitrary: q)
  case Nil
  then show ?case by simp
next
  case (Cons e es)
  obtain s p where e: "e = (s, p)" by fastforce
  from Cons.prems obtain t where t: "timer_heap q p = Some t" "p \<noteq> - 1" by (auto simp: e)
  have p: "p \<notin> snd ` set es" "p \<notin> snd ` set (pTimers q)" using Cons.prems by (auto simp: e)
  have "\<exists>q1. andThen (if isRepeat t then andThen (timer_insert p (restart rnd p t q)) (\<lambda>(_, q1). Inr q1)
                else Inr (q\<lparr>timer_heap := (timer_heap q)(p := None)\<rparr>)) Inr = Inr q1
    \<and> queue_ok q1 \<and> env q1 = env q \<and> tq_pending q1 = tq_pending q
    \<and> snd ` set (pTimers q1) = snd ` set (pTimers q) \<union> (if isRepeat t then {p} else {})
    \<and> timer_heap q1 = (timer_heap q)(p := timer_heap q1 p) \<and> renewed rnd t (timer_heap q1 p)"
  proof (cases "isRepeat t")
    case False
    have "queue_ok (q\<lparr>timer_heap := (timer_heap q)(p := None)\<rparr>)"
      using Cons.prems(1) p(2) by (force simp: queue_ok_def entry_ok_def)
    with False show ?thesis by (simp add: renewed_def)
  next
    case True
    define t1 where "t1 = t\<lparr>tm_stamp := nowAfter rnd (fst (gettimeofday q)) (tm_interval t)\<rparr>"
    define qr where "qr = restart rnd p t q"
    have qr: "timer_heap qr = (timer_heap q)(p := Some t1)" "pTimers qr = pTimers q" "env qr = env q"
      "tq_pending qr = tq_pending q"
      by (simp_all add: qr_def restart_def t1_def Let_def split_beta)
    have "queue_ok qr" "p \<notin> snd ` set (pTimers qr)" "timer_heap qr p = Some t1"
      using Cons.prems(1) p(2) by (force simp: queue_ok_def entry_ok_def qr)+
    note ins = insort_insert_ok [OF this(1,3) t(2) this(2)]
    have "timer_insert p qr = Inr (case pTimers qr of [] \<Rightarrow> True | e # _ \<Rightarrow> tm_stamp t1 < fst e,
        qr\<lparr>pTimers := insort_insert (tm_stamp t1, p) (pTimers qr)\<rparr>)"
      by (simp add: timer_insert_def deref_timer_def qr Let_def)
    moreover have "renewed rnd t (Some t1)"
      using True by (auto simp: renewed_def t1_def simp del: split_paired_Ex)
    ultimately show ?thesis
      using True ins by (simp add: qr flip: qr_def)
  qed
  then obtain q1 where q1: "(if isRepeat t then andThen (timer_insert p (restart rnd p t q)) (\<lambda>(_, q1). Inr q1)
                else Inr (q\<lparr>timer_heap := (timer_heap q)(p := None)\<rparr>)) = Inr q1"
    "queue_ok q1" "env q1 = env q" "tq_pending q1 = tq_pending q"
    "snd ` set (pTimers q1) = snd ` set (pTimers q) \<union> (if isRepeat t then {p} else {})"
    and heap: "timer_heap q1 = (timer_heap q)(p := timer_heap q1 p)" and renew: "renewed rnd t (timer_heap q1 p)"
    by (auto simp: andThen_eq_Inr)
  have other: "timer_heap q1 r = timer_heap q r" if "r \<noteq> p" for r using heap that by (metis fun_upd_other)
  have tail: "timer_heap q1 (snd x) = timer_heap q (snd x)" if "x \<in> set es" for x
    using other [of "snd x"] p(1) that by (metis imageI)
  have "distinct (map snd es)" "\<forall>e \<in> set es. snd e \<noteq> - 1 \<and> timer_heap q1 (snd e) \<noteq> None"
    "snd ` set es \<inter> snd ` set (pTimers q1) = {}"
    using Cons.prems p q1(5) tail by (auto simp: e split: if_splits)
  from Cons.IH [OF q1(2) this] obtain q' where q': "reset_expired rnd es q1 = Inr q'" "queue_ok q'"
    "env q' = env q1" "tq_pending q' = tq_pending q1"
    "snd ` set (pTimers q') = snd ` set (pTimers q1) \<union> {p \<in> snd ` set es. isRepeat (the (timer_heap q1 p))}"
    "\<forall>p. if p \<in> snd ` set es then renewed rnd (the (timer_heap q1 p)) (timer_heap q' p)
           else timer_heap q' p = timer_heap q1 p" by blast
  have run: "reset_expired rnd (e # es) q = Inr q'"
    using q1(1) q'(1) t(1) by (simp add: e deref_timer_def)
  have same: "{r \<in> snd ` set es. isRepeat (the (timer_heap q1 r))} = {r \<in> snd ` set es. isRepeat (the (timer_heap q r))}"
    using other p(1) by (metis (no_types, lifting))
  have "snd ` set (pTimers q') = snd ` set (pTimers q) \<union> {r \<in> snd ` set (e # es). isRepeat (the (timer_heap q r))}"
    unfolding q'(5) same q1(5) using t(1) by (auto simp: e)
  moreover have "if r \<in> snd ` set (e # es) then renewed rnd (the (timer_heap q r)) (timer_heap q' r)
           else timer_heap q' r = timer_heap q r" for r
    using q'(6) [rule_format, of r] renew other [of r] p(1) t(1) by (cases "r = p"; cases "r \<in> snd ` set es") (simp_all add: e)
  ultimately show ?case using run q' q1 by auto
qed

lemma expired_facts:
  fixes q :: "('c, 's) timer_queue" and now :: timestamp
  assumes "queue_ok q"
  defines "es \<equiv> filter (\<lambda>e. fst e \<le> now) (pTimers q)" and "rest \<equiv> filter (\<lambda>e. now < fst e) (pTimers q)"
  shows "distinct (map snd es)" "\<forall>e \<in> set es. snd e \<noteq> - 1 \<and> timer_heap q (snd e) \<noteq> None"
    "snd ` set es \<inter> snd ` set rest = {}" "sorted rest" "distinct (map snd rest)" "\<forall>e \<in> set rest. entry_ok q e"
proof -
  note ok = assms(1) [unfolded queue_ok_def]
  show "distinct (map snd es)" "distinct (map snd rest)" "sorted rest" "\<forall>e \<in> set rest. entry_ok q e"
    "\<forall>e \<in> set es. snd e \<noteq> - 1 \<and> timer_heap q (snd e) \<noteq> None"
    using ok by (auto simp: es_def rest_def distinct_map_filter entry_ok_def intro: sorted_wrt_filter)
  have "e = e'" if "e \<in> set es" "e' \<in> set rest" "snd e = snd e'" for e e'
    using ok that by (auto simp: es_def rest_def distinct_map inj_on_def)
  then show "snd ` set es \<inter> snd ` set rest = {}"
    by (fastforce simp: es_def rest_def)
qed

lemma timer_reset_arms:
  assumes run: "reset_expired rnd es q = Inr q1" and ok: "queue_ok q1"
  shows "\<exists>q'. timer_reset rnd es q = Inr q' \<and> pTimers q' = pTimers q1 \<and> timer_heap q' = timer_heap q1
    \<and> env q' = env q1 \<and> tq_pending q' = tq_pending q1
    \<and> (\<forall>e rest. pTimers q' = e # rest \<and> timestamp_valid (fst e) \<longrightarrow> (\<exists>ts. armed q' = Some (fst e, ts)))"
proof (cases "pTimers q1")
  case Nil
  then have "timer_reset rnd es q = Inr q1"
    using run by (simp add: timer_reset_def timestamp_valid_def)
  with Nil show ?thesis by simp
next
  case (Cons e rest)
  with ok obtain t where t: "timer_heap q1 (snd e) = Some t" "tm_stamp t = fst e"
    by (auto simp: queue_ok_def entry_ok_def)
  have "timer_reset rnd es q = Inr (if timestamp_valid (fst e) then resetTimerfd rnd (fst e) q1 else q1)"
    using run Cons t by (simp add: timer_reset_def deref_timer_def)
  moreover obtain ts where "armed (resetTimerfd rnd (fst e) q1) = Some (fst e, ts)"
    using resetTimerfd_fields(5) by blast
  ultimately show ?thesis using Cons by auto
qed

lemma delete_timers_ok:
  assumes "distinct (map snd es)" "\<forall>e \<in> set es. h (snd e) \<noteq> None"
  shows "delete_timers es h = Inr (\<lambda>p. if p \<in> snd ` set es then None else h p)"
  using assms
proof (induction es h rule: delete_timers.induct)
  case (2 s p es h)
  then obtain t where t: "h p = Some t" by auto
  have "distinct (map snd es)" "\<forall>e \<in> set es. (h(p := None)) (snd e) \<noteq> None"
    using "2.prems" by auto
  from "2.IH" [OF t this]
  have "delete_timers ((s, p) # es) h = Inr (\<lambda>r. if r \<in> snd ` set es then None else (h(p := None)) r)"
    by (simp only: delete_timers.simps t option.case)
  also have "(\<lambda>r. if r \<in> snd ` set es then None else (h(p := None)) r) = (\<lambda>r. if r \<in> snd ` set ((s, p) # es) then None else h r)"
    by (auto simp: fun_eq_iff)
  finally show ?case .
qed simp

section \<open>Properties\<close>

text \<open>C30:
  When the timer descriptor becomes readable, exactly the timers whose stamp has been reached fire: the callbacks they had at that
  moment are called, each once, ordered by stamp and then by address, on the queue without them. The callbacks may add timers and work on
  their own state (\<open>calls_add\<close>); callbacks that cancel timers or fault are left out. Afterwards exactly the later timers, the
  repeating expired ones and those the callbacks added are pending, the repeating ones with a new stamp, the expired one-shot
  timers are deleted, every other timer is as the callbacks left it, and the descriptor is armed for the earliest pending timer.
\<close>

theorem due_timers_fire:
  fixes q :: "('c, 's) timer_queue" and rnd :: "double \<Rightarrow> double" and tv :: timeval
  assumes "queue_ok q" "calls_add call" "gettimeofday q = (tv, q0)"
  defines "due \<equiv> filter (\<lambda>e. fst e \<le> Timestamp_now rnd tv) (pTimers q)"
    and "later \<equiv> filter (\<lambda>e. Timestamp_now rnd tv < fst e) (pTimers q)"
  shows "\<exists>q3 q'. call_all call (map (callback_of q) due) (q0\<lparr>pTimers := later\<rparr>) = Inr q3
    \<and> adds_timers (q0\<lparr>pTimers := later\<rparr>) q3
    \<and> timer_handleRead rnd call q = Inr q' \<and> queue_ok q' \<and> env q' = env q3
    \<and> snd ` set (pTimers q') = snd ` set (pTimers q3) \<union> {p \<in> snd ` set due. isRepeat (the (timer_heap q p))}
    \<and> (\<forall>p. if p \<in> snd ` set due then renewed rnd (the (timer_heap q p)) (timer_heap q' p)
           else timer_heap q' p = timer_heap q3 p)
    \<and> (\<forall>e rest. pTimers q' = e # rest \<and> timestamp_valid (fst e) \<longrightarrow> (\<exists>ts. armed q' = Some (fst e, ts)))"
proof -
  let ?now = "Timestamp_now rnd tv"
  note facts = expired_facts [OF assms(1), of ?now, folded due_def later_def]
  have q0: "q0 = snd (gettimeofday q)" using assms(3) by simp
  then have fields: "pTimers q0 = pTimers q" "timer_heap q0 = timer_heap q" by simp_all
  with assms(1) have "queue_ok q0" by (simp add: queue_ok_cong [of q0 q])
  define q2 where "q2 = q0\<lparr>pTimers := later\<rparr>"
  have q2: "pTimers q2 = later" "timer_heap q2 = timer_heap q" by (simp_all add: q2_def fields)
  then have ok2: "queue_ok q2" using facts(4-6) by (simp add: queue_ok_def entry_ok_def)
  have "getExpired ?now q0 = (due, q2)"
    using getExpired_exact [OF \<open>queue_ok q0\<close>] by (simp add: fields due_def later_def q2_def)
  moreover have alive: "\<forall>e \<in> set due. timer_heap q2 (snd e) \<noteq> None" using facts(2) by (simp add: q2)
  from run_expired_calls [OF assms(2) ok2 alive] obtain q3 where
    q3: "run_expired call due q2 = Inr q3" "call_all call (map (callback_of q2) due) q2 = Inr q3" "adds_timers q2 q3" by blast
  ultimately have handle: "timer_handleRead rnd call q = timer_reset rnd due q3"
    using assms(3) by (simp add: timer_handleRead_def)
  have same: "timer_heap q3 p = timer_heap q p" if "p \<in> snd ` set due" for p
    using q3(3) facts(2) that by (auto simp: adds_timers_def q2)
  then have due3: "\<forall>e \<in> set due. snd e \<noteq> - 1 \<and> timer_heap q3 (snd e) \<noteq> None" using facts(2) by simp
  have apart: "snd ` set due \<inter> snd ` set (pTimers q3) = {}"
  proof -
    have "snd e \<notin> snd ` set (pTimers q3)" if "e \<in> set due" for e
    proof
      assume "snd e \<in> snd ` set (pTimers q3)"
      then obtain x where x: "x \<in> set (pTimers q3)" "snd x = snd e" by fastforce
      with that facts(3) have "x \<notin> set later" by (auto simp: disjoint_iff)
      moreover have "\<forall>e \<in> set (pTimers q3) - set later. timer_heap q (snd e) = None"
        using q3(3) by (simp add: adds_timers_def q2)
      ultimately have "timer_heap q (snd x) = None" using x(1) by blast
      with x(2) have "timer_heap q (snd e) = None" by simp
      with facts(2) that show False by blast
    qed
    then show ?thesis by blast
  qed
  have ok3: "queue_ok q3" using q3(3) by (simp add: adds_timers_def)
  from reset_expired_ok [OF ok3 facts(1) due3 apart, of rnd] obtain q4 where
    q4: "reset_expired rnd due q3 = Inr q4" "queue_ok q4" "env q4 = env q3"
      "snd ` set (pTimers q4) = snd ` set (pTimers q3) \<union> {p \<in> snd ` set due. isRepeat (the (timer_heap q3 p))}"
      "\<forall>p. if p \<in> snd ` set due then renewed rnd (the (timer_heap q3 p)) (timer_heap q4 p)
           else timer_heap q4 p = timer_heap q3 p" by blast
  from timer_reset_arms [OF q4(1,2)] obtain q' where q': "timer_reset rnd due q3 = Inr q'"
    "pTimers q' = pTimers q4" "timer_heap q' = timer_heap q4" "env q' = env q4"
    "\<forall>e rest. pTimers q' = e # rest \<and> timestamp_valid (fst e) \<longrightarrow> (\<exists>ts. armed q' = Some (fst e, ts))" by blast
  have repeats: "{p \<in> snd ` set due. isRepeat (the (timer_heap q3 p))} = {p \<in> snd ` set due. isRepeat (the (timer_heap q p))}"
    using same by (intro Collect_cong) (simp cong: conj_cong)
  have calls: "call_all call (map (callback_of q) due) q2 = Inr q3"
    using q3(2) by (simp add: callback_of_def [abs_def] q2)
  show ?thesis
  proof (rule exI [of _ q3], rule exI [of _ q'], intro conjI)
    show "queue_ok q'" using q4(2) q'(2,3) by (simp add: queue_ok_cong [of q' q4])
    show "env q' = env q3" using q'(4) q4(3) by simp
    show "snd ` set (pTimers q') = snd ` set (pTimers q3) \<union> {p \<in> snd ` set due. isRepeat (the (timer_heap q p))}"
      using q4(4) by (simp only: q'(2) repeats)
    show "\<forall>p. if p \<in> snd ` set due then renewed rnd (the (timer_heap q p)) (timer_heap q' p)
           else timer_heap q' p = timer_heap q3 p" using q4(5) same by (simp only: q'(3)) metis
  qed (use handle q' q3(3) calls in \<open>simp_all add: q2_def\<close>)
qed

lemma armed_ok_cong: "pTimers q' = pTimers q \<Longrightarrow> armed q' = armed q \<Longrightarrow> armed_ok q' = armed_ok q"
  unfolding armed_ok_def by (simp only:)

text \<open>
  Three timers, of which the first is a one-shot and two are due; each callback logs its number, and the second adds a timer.
\<close>

definition demo_timers :: "(nat, nat list) timer_queue" where
  "demo_timers =
     \<lparr>pTimers = [(Timestamp 5, 1), (Timestamp 6, 2), (Timestamp 90, 3)],
      timer_heap = (\<lambda>p. if p = 1 then Some (Timer_init (Some 11) (Timestamp 5) 0 1)
                        else if p = 2 then Some (Timer_init (Some 22) (Timestamp 6) 3 2)
                        else if p = 3 then Some (Timer_init (Some 33) (Timestamp 90) 0 3) else None),
      clock = [(0, 7)], armed = None, sequeue = 3, tq_pending = [], env = []\<rparr>"

definition log_call :: "nat \<Rightarrow> (nat, nat list) timer_queue \<Rightarrow> (nat, nat list) timer_queue result" where
  "log_call cb q =
     (let q1 = q\<lparr>env := env q @ [cb]\<rparr>
      in if cb = 22 \<and> timer_heap q1 4 = None
         then andThen (addTimer (\<lambda>x. x) True 4 (Some 44) (Timestamp 50) 0 q1) (\<lambda>(i, q2). Inr q2) else Inr q1)"

lemma log_call_adds:
  assumes ok: "queue_ok q"
  shows "\<exists>q'. log_call cb q = Inr q' \<and> adds_timers q q' \<and> env q' = env q @ [cb]
    \<and> set (pTimers q') = (if cb = 22 \<and> timer_heap q 4 = None then {(Timestamp 50, 4)} else {}) \<union> set (pTimers q)"
proof -
  let ?q1 = "q\<lparr>env := env q @ [cb]\<rparr>"
  have ok1: "queue_ok ?q1" using ok by (simp add: queue_ok_cong [of ?q1 q])
  show ?thesis
  proof (cases "cb = 22 \<and> timer_heap q 4 = None")
    case True
    then have "timer_heap ?q1 4 = None" "(4 :: ptr) \<noteq> - 1" by simp_all
    from addTimer_adds [OF ok1 this, of "\<lambda>x. x" "Some 44" "Timestamp 50" 0] obtain i q' where
      "addTimer (\<lambda>x. x) True 4 (Some 44) (Timestamp 50) 0 ?q1 = Inr (i, q')" "adds_timers ?q1 q'"
      "set (pTimers q') = insert (Timestamp 50, 4) (set (pTimers ?q1))" "env q' = env ?q1" by blast
    with True show ?thesis by (auto simp: log_call_def adds_timers_def)
  next
    case False
    with ok ok1 show ?thesis by (auto simp: log_call_def Let_def adds_timers_def)
  qed
qed

lemma demo_timers_ok: "queue_ok demo_timers" "calls_add log_call"
  "Timestamp_now (\<lambda>x. x) (0, 7) = Timestamp 7"
proof -
  show "calls_add log_call" unfolding calls_add_def using log_call_adds by blast
qed (simp_all add: demo_timers_def queue_ok_def entry_ok_def Timer_init_def
      less_timestamp_def less_eq_timestamp_def Timestamp_now_def nowMicroSeconds_def double_to_int64_def)

lemma due_timers_fire_witness:
  "\<exists>q'. timer_handleRead (\<lambda>x. x) log_call demo_timers = Inr q' \<and> env q' = [11, 22]
     \<and> snd ` set (pTimers q') = {2, 3, 4} \<and> timer_heap q' 1 = None"
proof -
  have tv: "gettimeofday demo_timers = ((0, 7), demo_timers\<lparr>clock := []\<rparr>)"
    by (simp add: gettimeofday_def demo_timers_def)
  define due where "due = filter (\<lambda>e. fst e \<le> Timestamp 7) (pTimers demo_timers)"
  define later where "later = filter (\<lambda>e. Timestamp 7 < fst e) (pTimers demo_timers)"
  define q2 where "q2 = demo_timers\<lparr>clock := [], pTimers := later\<rparr>"
  have due: "due = [(Timestamp 5, 1), (Timestamp 6, 2)]" and later: "later = [(Timestamp 90, 3)]"
    by (simp_all add: due_def later_def demo_timers_def less_eq_timestamp_def less_timestamp_def)
  have cbs: "map (callback_of demo_timers) due = [Some 11, Some 22]"
    by (simp add: due callback_of_def demo_timers_def Timer_init_def)
  have repeats: "{p \<in> snd ` set due. isRepeat (the (timer_heap demo_timers p))} = {2}"
    by (auto simp: due demo_timers_def isRepeat_def Timer_init_def)
  have gone: "renewed (\<lambda>x. x) (the (timer_heap demo_timers 1)) t \<longleftrightarrow> t = None" for t
    by (simp add: renewed_def demo_timers_def isRepeat_def Timer_init_def)
  from due_timers_fire [OF demo_timers_ok(1,2) tv, of "\<lambda>x. x", unfolded demo_timers_ok(3), folded due_def later_def,
      unfolded repeats cbs] obtain q3 q' where
    calls: "call_all log_call [Some 11, Some 22] q2 = Inr q3"
    and q': "timer_handleRead (\<lambda>x. x) log_call demo_timers = Inr q'" "env q' = env q3"
      "snd ` set (pTimers q') = snd ` set (pTimers q3) \<union> {2}"
    and heap: "\<forall>p. if p \<in> snd ` set due then renewed (\<lambda>x. x) (the (timer_heap demo_timers p)) (timer_heap q' p)
           else timer_heap q' p = timer_heap q3 p" by (auto simp: q2_def)
  have ok2: "queue_ok q2" by (simp add: q2_def later queue_ok_def entry_ok_def demo_timers_def Timer_init_def)
  from log_call_adds [OF ok2, of 11] obtain qa where qa: "log_call 11 q2 = Inr qa" "adds_timers q2 qa" "env qa = [11]"
    "set (pTimers qa) = {(Timestamp 90, 3)}" by (auto simp: q2_def later demo_timers_def)
  have "log_call 11 q2 = Inr (q2\<lparr>env := [11]\<rparr>)" by (simp add: log_call_def q2_def demo_timers_def)
  with qa(1) have "timer_heap qa 4 = None" by (auto simp: q2_def demo_timers_def)
  then obtain qb where qb: "log_call 22 qa = Inr qb" "env qb = [11, 22]" "set (pTimers qb) = {(Timestamp 50, 4)} \<union> set (pTimers qa)"
    using log_call_adds [of qa 22] qa(2,3) unfolding adds_timers_def by auto
  have "q3 = qb" using calls qa(1) qb(1) by simp
  moreover have "timer_heap q' 1 = None"
    using heap [rule_format, of 1] gone by (simp add: due)
  moreover have "snd ` set (pTimers q') = {2, 3, 4}"
    unfolding q'(3) \<open>q3 = qb\<close> qb(3) qa(4) by auto
  ultimately show ?thesis using q'(1,2) qb(2) by auto
qed

text \<open>
  A timer added in the loop is pending under its stamp with everything that was, and the descriptor stays armed for
  a moment not after the earliest timer; added from another thread it is only queued, and gets pending when
  the loop runs the queue. The identifier returned carries the next sequence number.
\<close>

theorem timer_added:
  assumes "queue_ok q" "armed_ok q" "timer_heap q p = None" "p \<noteq> - 1" "tq_pending q = []"
  shows "(\<exists>q'. addTimer rnd True p cb when interval q = Inr (\<lparr>id_timer = p, id_sequence = sequeue q + 1\<rparr>, q')
      \<and> queue_ok q' \<and> armed_ok q' \<and> set (pTimers q') = insert (when, p) (set (pTimers q)))
    \<and> (\<exists>q1 q2. addTimer rnd False p cb when interval q = Inr (\<lparr>id_timer = p, id_sequence = sequeue q + 1\<rparr>, q1)
      \<and> pTimers q1 = pTimers q \<and> run_timer_calls rnd (tq_pending q1) q1 = Inr q2
      \<and> queue_ok q2 \<and> armed_ok q2 \<and> set (pTimers q2) = insert (when, p) (set (pTimers q)))"
proof -
  define t where "t = Timer_init cb when interval (sequeue q + 1)"
  define q0 where "q0 = q\<lparr>sequeue := sequeue q + 1, timer_heap := (timer_heap q)(p := Some t)\<rparr>"
  have t: "tm_stamp t = when" "tm_sequence t = sequeue q + 1" by (simp_all add: t_def Timer_init_def)
  have new: "p \<notin> snd ` set (pTimers q)" using assms(1,3) by (force simp: queue_ok_def entry_ok_def)
  have fields: "pTimers q0 = pTimers q" "armed q0 = armed q" "timer_heap q0 p = Some t" by (simp_all add: q0_def)
  have "entry_ok q0 e" if "e \<in> set (pTimers q)" for e
  proof -
    have "snd e \<noteq> p" using new that by blast
    with assms(1) that show ?thesis by (simp add: queue_ok_def entry_ok_def q0_def)
  qed
  then have q0: "queue_ok q0" "armed_ok q0" "timer_heap q0 p = Some t" "p \<notin> snd ` set (pTimers q0)"
    using assms(1) new armed_ok_cong [OF fields(1,2)] assms(2) unfolding queue_ok_def fields by blast+
  have local_call: "addTimer rnd True p cb when interval q =
      andThen (addTimerInLoop rnd p q0) (\<lambda>q3. andThen (deref_timer q3 p) (\<lambda>t. Inr (\<lparr>id_timer = p, id_sequence = tm_sequence t\<rparr>, q3)))"
    by (simp add: addTimer_def Timer_incrementAndGet_def Let_def q0_def t_def)
  from addTimerInLoop_ok [OF q0(1-3) assms(4) q0(4), of rnd] obtain q' where q':
    "addTimerInLoop rnd p q0 = Inr q'" "queue_ok q'" "armed_ok q'" "set (pTimers q') = insert (when, p) (set (pTimers q))"
    "timer_heap q' = timer_heap q0" by (auto simp: t q0_def)
  have one: "addTimer rnd True p cb when interval q = Inr (\<lparr>id_timer = p, id_sequence = sequeue q + 1\<rparr>, q')"
    using q' q0(3) t by (simp add: local_call deref_timer_def)
  define q1 where "q1 = q0\<lparr>tq_pending := [AddTimerInLoop p]\<rparr>"
  have two: "addTimer rnd False p cb when interval q = Inr (\<lparr>id_timer = p, id_sequence = sequeue q + 1\<rparr>, q1)"
    using assms(5) t by (simp add: addTimer_def Timer_incrementAndGet_def Let_def q0_def q1_def t_def[symmetric] deref_timer_def)
  have q1: "queue_ok q1" "armed_ok q1" "timer_heap q1 p = Some t" "p \<notin> snd ` set (pTimers q1)" "pTimers q1 = pTimers q"
    using q0 queue_ok_cong [of q1 q0] armed_ok_cong [of q1 q0] by (simp_all add: q1_def) (simp add: q0_def)
  from addTimerInLoop_ok [OF q1(1-3) assms(4) q1(4), of rnd] obtain q2 where
    "addTimerInLoop rnd p q1 = Inr q2" "queue_ok q2" "armed_ok q2" "set (pTimers q2) = insert (when, p) (set (pTimers q))"
    by (auto simp: t q1(5))
  then have three: "run_timer_calls rnd (tq_pending q1) q1 = Inr q2 \<and> queue_ok q2 \<and> armed_ok q2
      \<and> set (pTimers q2) = insert (when, p) (set (pTimers q))"
    by (simp add: q1_def)
  from one two three q1(5) q'(2-4) show ?thesis by blast
qed

lemma timer_added_witness:
  "\<exists>q'. addTimer (\<lambda>x. x) True 8 (Some 44) (Timestamp 70) 0 (demo_timers\<lparr>pTimers := []\<rparr>)
     = Inr (\<lparr>id_timer = 8, id_sequence = 4\<rparr>, q') \<and> set (pTimers q') = {(Timestamp 70, 8)}"
proof -
  have "queue_ok (demo_timers\<lparr>pTimers := []\<rparr>)" "armed_ok (demo_timers\<lparr>pTimers := []\<rparr>)"
    "timer_heap (demo_timers\<lparr>pTimers := []\<rparr>) 8 = None" "(8 :: ptr) \<noteq> - 1" "tq_pending (demo_timers\<lparr>pTimers := []\<rparr>) = []"
    by (simp_all add: queue_ok_def armed_ok_def demo_timers_def)
  from timer_added [OF this, of "\<lambda>x. x" "Some 44" "Timestamp 70" 0] show ?thesis
    by (auto simp: demo_timers_def)
qed

text \<open>
  Cancelling never works as meant: if the timer is pending, it is taken out of the set but then the freed set
  node is read; if its object is gone (a one-shot timer that has fired), the object is read after its
  deletion; and if it is just firing, nothing happens, so that a repeating timer goes on.
\<close>

theorem cancel_faults_or_ignores:
  assumes "queue_ok q"
  shows "cancelInLoop i q =
    (if id_timer i \<in> snd ` set (pTimers q) \<or> timer_heap q (id_timer i) = None then Inl UseAfterFree else Inr q)"
proof -
  have "id_timer i \<in> snd ` set (pTimers q) \<longleftrightarrow> (tm_stamp t, id_timer i) \<in> set (pTimers q)"
    if "timer_heap q (id_timer i) = Some t" for t
    using assms that by (force simp: queue_ok_def entry_ok_def)
  then show ?thesis
    by (simp add: cancelInLoop_def deref_timer_def split: option.splits)
qed

lemma cancel_faults_or_ignores_witness:
  "cancelInLoop \<lparr>id_timer = 3, id_sequence = 3\<rparr> demo_timers = Inl UseAfterFree
   \<and> cancelInLoop \<lparr>id_timer = 3, id_sequence = 3\<rparr> (demo_timers\<lparr>pTimers := []\<rparr>) = Inr (demo_timers\<lparr>pTimers := []\<rparr>)"
proof -
  have "queue_ok (demo_timers\<lparr>pTimers := []\<rparr>)" by (simp add: queue_ok_def)
  from cancel_faults_or_ignores [OF this] cancel_faults_or_ignores [OF demo_timers_ok(1)] show ?thesis
    by (simp add: demo_timers_def)
qed

text \<open>
  The descriptor is never disarmed by mistake: the relative time it is armed with is the distance to the
  stamp in microseconds, at least 100 of them, as a well-formed \<^verbatim>\<open>timespec\<close>, provided the distance fits
  the signed 64-bit difference the code computes.
\<close>

theorem armed_time_bounds:
  assumes "\<bar>sint (microSecondsSinceEpoch stamp) - sint (microSecondsSinceEpoch now)\<bar> < 2 ^ 63"
  shows "let us = max 100 (sint (microSecondsSinceEpoch stamp) - sint (microSecondsSinceEpoch now));
             ts = howMuchTimeFromNow now stamp
    in tv_sec ts * 1000000000 + tv_nsec ts = us * 1000 \<and> 0 \<le> tv_sec ts
       \<and> 0 \<le> tv_nsec ts \<and> tv_nsec ts < 1000000000 \<and> tv_nsec ts mod 1000 = 0"
proof -
  define d where "d = sint (microSecondsSinceEpoch stamp) - sint (microSecondsSinceEpoch now)"
  have d: "sint (microSecondsSinceEpoch stamp - microSecondsSinceEpoch now) = d"
    using assms by (simp add: d_def sint_word_ariths signed_take_bit_int_eq_self)
  define us where "us = max 100 d"
  have us: "(if d < 100 then 100 else d) = us" "0 \<le> us" by (auto simp: us_def)
  have "howMuchTimeFromNow now stamp = \<lparr>tv_sec = us div 1000000, tv_nsec = (us mod 1000000) * 1000\<rparr>"
    using us by (simp add: howMuchTimeFromNow_def d Let_def kMicroSecondsPerSecond_def signed_divide_int_def signed_modulo_int_def
      sgn_if minus_div_mult_eq_mod)
  moreover have "us div 1000000 * 1000000000 + us mod 1000000 * 1000 = us * 1000"
    using div_mult_mod_eq [of us 1000000] by linarith
  moreover have "0 \<le> us div 1000000" "0 \<le> us mod 1000000" "us mod 1000000 < 1000000"
    using us(2) by (simp_all add: pos_imp_zdiv_nonneg_iff)
  ultimately show ?thesis
    unfolding d_def [symmetric] us_def [symmetric] by (simp add: Let_def)
qed

lemma armed_time_bounds_witness:
  "howMuchTimeFromNow (Timestamp 5) (Timestamp 2500005) = \<lparr>tv_sec = 2, tv_nsec = 500000000\<rparr>"
proof -
  define ts where "ts = howMuchTimeFromNow (Timestamp 5) (Timestamp 2500005)"
  have "tv_sec ts * 1000000000 + tv_nsec ts = 2500000000" "0 \<le> tv_nsec ts" "tv_nsec ts < 1000000000"
    using armed_time_bounds [of "Timestamp 2500005" "Timestamp 5"] by (simp_all add: Let_def ts_def)
  moreover define a b where "a = tv_sec ts" and "b = tv_nsec ts"
  ultimately have "a * 1000000000 + b = 2500000000" "0 \<le> b" "b < 1000000000" by simp_all
  then have "a = 2" by linarith
  with \<open>a * 1000000000 + b = 2500000000\<close> have "tv_sec ts = 2" "tv_nsec ts = 500000000"
    by (simp_all add: a_def b_def)
  then have "ts = \<lparr>tv_sec = 2, tv_nsec = 500000000\<rparr>" by (cases ts) simp
  then show ?thesis by (simp only: ts_def)
qed

end
