(* ===== verification/EventLoop.thy ===== *)
theory EventLoop
  imports Prelude
begin

text \<open>
  \<^verbatim>\<open>simplifyMuduo/src/EventLoop.cc\<close>: the loop, the queue of functors other threads hand to it, and the
  \<^verbatim>\<open>eventfd\<close> that wakes it. The operations are functions on the loop's data members; the
  threads are a step relation over them, in which the critical section of \<^verbatim>\<open>queueInLoop\<close> and the
  \<^verbatim>\<open>wakeup\<close> behind it are separate steps of the calling thread. What a functor or an I/O handler
  does to the loop is a list of actions, a parameter. The lemmas show that no wakeup is lost and that every
  functor runs once, in the order of the queue. The loop's interest list is in \<^verbatim>\<open>Channel\<close>, its timers
  are in \<^verbatim>\<open>TimerQueue\<close>.
\<close>

section \<open>State and operations\<close>

datatype 'f action = QueueAction 'f | QuitAction

text \<open>
  \<open>eventfd_count\<close> is the kernel's counter behind \<^verbatim>\<open>_eventfd\<close>. \<open>queued\<close> and \<open>executed\<close> record
  every functor put into the queue and every one called.
\<close>

record 'f event_loop =
  quit_flag :: bool
  callingPendingFunctors :: bool
  eventfd_count :: nat
  pending_functors :: "'f list"
  queued :: "'f list"
  executed :: "'f list"

definition EventLoop_init :: "'f event_loop" where
  "EventLoop_init = \<lparr>quit_flag = False, callingPendingFunctors = False, eventfd_count = 0, pending_functors = [],
     queued = [], executed = []\<rparr>"

text \<open>A write to an eventfd fails when the counter would pass \<open>2^64 - 2\<close>; the code only prints.\<close>

definition wakeup :: "'f event_loop \<Rightarrow> 'f event_loop" where
  "wakeup s = (if eventfd_count s + 1 < 2 ^ 64 - 1 then s\<lparr>eventfd_count := eventfd_count s + 1\<rparr> else s)"

text \<open>A read of an eventfd takes the whole count; of an empty one it fails.\<close>

definition EventLoop_handleRead :: "'f event_loop \<Rightarrow> 'f event_loop" where
  "EventLoop_handleRead s = s\<lparr>eventfd_count := 0\<rparr>"

definition push_functor :: "'f \<Rightarrow> 'f event_loop \<Rightarrow> 'f event_loop" where
  "push_functor f s = s\<lparr>pending_functors := pending_functors s @ [f], queued := queued s @ [f]\<rparr>"

text \<open>\<open>in_loop\<close> is \<^verbatim>\<open>isInLoopThread()\<close>.\<close>

definition queueInLoop :: "bool \<Rightarrow> 'f \<Rightarrow> 'f event_loop \<Rightarrow> 'f event_loop" where
  "queueInLoop in_loop f s =
     (let s1 = push_functor f s in if \<not> in_loop \<or> callingPendingFunctors s1 then wakeup s1 else s1)"

definition EventLoop_quit :: "bool \<Rightarrow> 'f event_loop \<Rightarrow> 'f event_loop" where
  "EventLoop_quit in_loop s = (let s1 = s\<lparr>quit_flag := True\<rparr> in if \<not> in_loop then wakeup s1 else s1)"

fun loop_action :: "'f action \<Rightarrow> 'f event_loop \<Rightarrow> 'f event_loop" where
  "loop_action (QueueAction f) s = queueInLoop True f s"
| "loop_action QuitAction s = EventLoop_quit True s"

fun loop_actions :: "'f action list \<Rightarrow> 'f event_loop \<Rightarrow> 'f event_loop" where
  "loop_actions [] s = s"
| "loop_actions (a # as) s = loop_actions as (loop_action a s)"

definition call_functor :: "('f \<Rightarrow> 'f action list) \<Rightarrow> 'f \<Rightarrow> 'f event_loop \<Rightarrow> 'f event_loop" where
  "call_functor body f s = loop_actions (body f) (s\<lparr>executed := executed s @ [f]\<rparr>)"

text \<open>\<open>None\<close> is an empty function; in the loop's thread it is called at once.\<close>

definition runInLoop ::
  "('f \<Rightarrow> 'f action list) \<Rightarrow> bool \<Rightarrow> 'f option \<Rightarrow> 'f event_loop \<Rightarrow> 'f event_loop result" where
  "runInLoop body in_loop cb s =
     (if in_loop then Inr (case cb of None \<Rightarrow> s | Some f \<Rightarrow> loop_actions (body f) s)
      else case cb of None \<Rightarrow> Inl NullDeref | Some f \<Rightarrow> Inr (queueInLoop False f s))"

definition swap_functors :: "'f event_loop \<Rightarrow> 'f list \<times> 'f event_loop" where
  "swap_functors s = (pending_functors s, s\<lparr>callingPendingFunctors := True, pending_functors := []\<rparr>)"

fun call_functors :: "('f \<Rightarrow> 'f action list) \<Rightarrow> 'f list \<Rightarrow> 'f event_loop \<Rightarrow> 'f event_loop" where
  "call_functors body [] s = s"
| "call_functors body (f # fs) s = call_functors body fs (call_functor body f s)"

definition doPendingFunctors :: "('f \<Rightarrow> 'f action list) \<Rightarrow> 'f event_loop \<Rightarrow> 'f event_loop" where
  "doPendingFunctors body s =
     (let (tempRuns, s1) = swap_functors s
      in (call_functors body tempRuns s1)\<lparr>callingPendingFunctors := False\<rparr>)"

section \<open>The threads\<close>

text \<open>Where the loop's thread is in \<^verbatim>\<open>loop()\<close>.\<close>

datatype 'f position =
    AtTest
  | AtPoll
  | AtRead "'f action list"
  | AtHandle "'f action list"
  | AtPending
  | AtCalls "'f list"
  | Stopped

text \<open>\<open>wakers\<close> counts the other threads that have queued a functor or set the flag and are about to write.\<close>

record 'f system =
  ev :: "'f event_loop"
  at :: "'f position"
  wakers :: nat

text \<open>
  One step of the loop's thread; \<open>io\<close> is what the handlers of the other active channels do. The return of
  \<^verbatim>\<open>epoll_wait\<close> and the read of the eventfd are two steps, and another thread may write to it in between. \<open>None\<close>: the
  thread is blocked in \<^verbatim>\<open>epoll_wait\<close>, or has left the loop.
\<close>

fun loop_step :: "('f \<Rightarrow> 'f action list) \<Rightarrow> 'f action list \<Rightarrow> 'f system \<Rightarrow> 'f system option" where
  "loop_step body io s =
     (case at s of
        AtTest \<Rightarrow> Some (s\<lparr>at := if quit_flag (ev s) then Stopped else AtPoll\<rparr>)
      | AtPoll \<Rightarrow>
          if eventfd_count (ev s) = 0 \<and> io = [] then None
          else Some (s\<lparr>at := if eventfd_count (ev s) = 0 then AtHandle io else AtRead io\<rparr>)
      | AtRead as \<Rightarrow> Some (s\<lparr>ev := EventLoop_handleRead (ev s), at := AtHandle as\<rparr>)
      | AtHandle (a # as) \<Rightarrow> Some (s\<lparr>ev := loop_action a (ev s), at := AtHandle as\<rparr>)
      | AtHandle [] \<Rightarrow> Some (s\<lparr>at := AtPending\<rparr>)
      | AtPending \<Rightarrow> (let (fs, l) = swap_functors (ev s) in Some (s\<lparr>ev := l, at := AtCalls fs\<rparr>))
      | AtCalls (f # fs) \<Rightarrow> Some (s\<lparr>ev := call_functor body f (ev s), at := AtCalls fs\<rparr>)
      | AtCalls [] \<Rightarrow> Some (s\<lparr>ev := (ev s)\<lparr>callingPendingFunctors := False\<rparr>, at := AtTest\<rparr>)
      | Stopped \<Rightarrow> None)"

declare loop_step.simps [simp del]

inductive system_step :: "('f \<Rightarrow> 'f action list) \<Rightarrow> 'f system \<Rightarrow> 'f system \<Rightarrow> bool" for body where
  by_loop: "loop_step body io s = Some s' \<Longrightarrow> system_step body s s'"
| by_other_queue: "system_step body s (s\<lparr>ev := push_functor f (ev s), wakers := wakers s + 1\<rparr>)"
| by_other_quit: "system_step body s (s\<lparr>ev := (ev s)\<lparr>quit_flag := True\<rparr>, wakers := wakers s + 1\<rparr>)"
| by_other_wakeup: "0 < wakers s \<Longrightarrow> system_step body s (s\<lparr>ev := wakeup (ev s), wakers := wakers s - 1\<rparr>)"

inductive_cases system_stepE: "system_step body s s'"

inductive system_reach :: "('f \<Rightarrow> 'f action list) \<Rightarrow> 'f system \<Rightarrow> 'f system \<Rightarrow> bool" for body s where
  reach_start: "system_reach body s s"
| reach_step: "system_reach body s s1 \<Longrightarrow> system_step body s1 s2 \<Longrightarrow> system_reach body s s2"

text \<open>The loop's thread enters \<^verbatim>\<open>loop()\<close>.\<close>

definition loop_start :: "'f event_loop \<Rightarrow> 'f system" where
  "loop_start l = \<lparr>ev = l, at = AtTest, wakers = 0\<rparr>"

section \<open>The invariant\<close>

text \<open>
  \<open>awake\<close>: the eventfd is readable or will be. A functor in the queue keeps the loop awake wherever
  it could go to sleep without having swapped it out; so does the quit flag once it is past the test.
\<close>

abbreviation awake :: "'f system \<Rightarrow> bool" where
  "awake s \<equiv> 0 < eventfd_count (ev s) \<or> 0 < wakers s"

definition system_inv :: "'f system \<Rightarrow> bool" where
  "system_inv s \<longleftrightarrow>
     queued (ev s) = executed (ev s) @ (case at s of AtCalls fs \<Rightarrow> fs | _ \<Rightarrow> []) @ pending_functors (ev s)
     \<and> (callingPendingFunctors (ev s) \<longleftrightarrow> (\<exists>fs. at s = AtCalls fs))
     \<and> (pending_functors (ev s) \<noteq> [] \<and> (at s = AtTest \<or> at s = AtPoll \<or> (\<exists>fs. at s = AtCalls fs)) \<longrightarrow> awake s)
     \<and> (quit_flag (ev s) \<and> at s = AtPoll \<longrightarrow> awake s)"

lemma wakeup_fields [simp]:
  "quit_flag (wakeup s) = quit_flag s" "callingPendingFunctors (wakeup s) = callingPendingFunctors s"
  "pending_functors (wakeup s) = pending_functors s" "queued (wakeup s) = queued s" "executed (wakeup s) = executed s"
  by (simp_all add: wakeup_def)

lemma wakeup_counts [simp]: "0 < eventfd_count (wakeup s)"
  by (simp add: wakeup_def)

lemma push_fields [simp]:
  "quit_flag (push_functor f s) = quit_flag s" "callingPendingFunctors (push_functor f s) = callingPendingFunctors s"
  "pending_functors (push_functor f s) = pending_functors s @ [f]" "queued (push_functor f s) = queued s @ [f]"
  "executed (push_functor f s) = executed s" "eventfd_count (push_functor f s) = eventfd_count s"
  by (simp_all add: push_functor_def)

text \<open>Actions of the loop's own thread.\<close>

lemma loop_action_keeps:
  "callingPendingFunctors (loop_action a s) = callingPendingFunctors s"
  "executed (loop_action a s) = executed s"
  "\<exists>fs. pending_functors (loop_action a s) = pending_functors s @ fs \<and> queued (loop_action a s) = queued s @ fs
     \<and> (callingPendingFunctors s \<longrightarrow> fs = [] \<or> 0 < eventfd_count (loop_action a s))"
  "eventfd_count s \<le> eventfd_count (loop_action a s)"
  by (cases a; auto simp: queueInLoop_def Let_def EventLoop_quit_def wakeup_def)+

lemma loop_actions_keep:
  "callingPendingFunctors (loop_actions as s) = callingPendingFunctors s
   \<and> executed (loop_actions as s) = executed s
   \<and> (\<exists>fs. pending_functors (loop_actions as s) = pending_functors s @ fs \<and> queued (loop_actions as s) = queued s @ fs
     \<and> (callingPendingFunctors s \<longrightarrow> fs = [] \<or> 0 < eventfd_count (loop_actions as s)))
   \<and> eventfd_count s \<le> eventfd_count (loop_actions as s)"
proof (induction as arbitrary: s)
  case (Cons a as)
  obtain fs where fs: "pending_functors (loop_action a s) = pending_functors s @ fs" "queued (loop_action a s) = queued s @ fs"
    "callingPendingFunctors s \<longrightarrow> fs = [] \<or> 0 < eventfd_count (loop_action a s)" using loop_action_keeps(3) by blast
  from Cons.IH [of "loop_action a s"] obtain gs where
    "pending_functors (loop_actions as (loop_action a s)) = pending_functors s @ fs @ gs"
    "queued (loop_actions as (loop_action a s)) = queued s @ fs @ gs"
    "callingPendingFunctors s \<longrightarrow> gs = [] \<or> 0 < eventfd_count (loop_actions as (loop_action a s))"
    "eventfd_count (loop_action a s) \<le> eventfd_count (loop_actions as (loop_action a s))"
    using fs by (auto simp: loop_action_keeps)
  with Cons.IH [of "loop_action a s"] fs loop_action_keeps(4) [where a = a and s = s] show ?case
    by (fastforce simp: loop_action_keeps(1,2))
qed simp

lemma loop_step_inv:
  assumes "system_inv s" "loop_step body io s = Some s'"
  shows "system_inv s'"
proof (cases "at s")
  case (AtHandle as)
  show ?thesis
  proof (cases as)
    case Nil
    with assms AtHandle show ?thesis by (auto simp: loop_step.simps system_inv_def)
  next
    case (Cons a as')
    with assms AtHandle loop_action_keeps [where a = a and s = "ev s"] show ?thesis
      by (auto simp: loop_step.simps system_inv_def)
  qed
next
  case (AtCalls fs)
  show ?thesis
  proof (cases fs)
    case Nil
    with assms AtCalls show ?thesis by (auto simp: loop_step.simps system_inv_def)
  next
    case (Cons f fs')
    with assms AtCalls loop_actions_keep [of "body f" "(ev s)\<lparr>executed := executed (ev s) @ [f]\<rparr>"] show ?thesis
      by (auto simp: loop_step.simps system_inv_def call_functor_def)
  qed
qed (use assms in \<open>auto simp: loop_step.simps system_inv_def EventLoop_handleRead_def swap_functors_def split: if_splits\<close>)

lemma system_step_inv: "system_inv s \<Longrightarrow> system_step body s s' \<Longrightarrow> system_inv s'"
  by (erule system_stepE) (auto simp: loop_step_inv, (auto simp: system_inv_def split: position.splits)[3])

lemma system_reach_inv:
  assumes "system_reach body s s'" "system_inv s"
  shows "system_inv s'"
  using assms by (induction rule: system_reach.induct) (auto intro: system_step_inv)

section \<open>Rounds of the loop\<close>

text \<open>\<open>loop_steps body n s\<close>: the loop's thread alone makes \<open>n\<close> steps, with no other I/O.\<close>

fun loop_steps :: "('f \<Rightarrow> 'f action list) \<Rightarrow> nat \<Rightarrow> 'f system \<Rightarrow> 'f system option" where
  "loop_steps body 0 s = Some s"
| "loop_steps body (Suc n) s = (case loop_step body [] s of None \<Rightarrow> None | Some s' \<Rightarrow> loop_steps body n s')"

lemma call_functors_executed:
  "executed (call_functors body fs s) = executed s @ fs"
  by (induction fs arbitrary: s) (simp_all add: call_functor_def loop_actions_keep)

lemma calls_steps:
  "at s = AtCalls fs \<Longrightarrow> loop_steps body (Suc (length fs)) s =
     Some (s\<lparr>ev := (call_functors body fs (ev s))\<lparr>callingPendingFunctors := False\<rparr>, at := AtTest\<rparr>)"
proof (induction fs arbitrary: s)
  case Nil
  then show ?case by (simp add: loop_step.simps)
next
  case (Cons f fs)
  let ?s1 = "s\<lparr>ev := call_functor body f (ev s), at := AtCalls fs\<rparr>"
  have "loop_step body [] s = Some ?s1" using Cons.prems by (simp add: loop_step.simps)
  with Cons.IH [of ?s1] show ?case by simp
qed

lemma pending_steps:
  "at s = AtPending \<Longrightarrow> loop_steps body (Suc (Suc (length (pending_functors (ev s))))) s =
     Some (s\<lparr>ev := doPendingFunctors body (ev s), at := AtTest\<rparr>)"
proof -
  assume at: "at s = AtPending"
  let ?s1 = "s\<lparr>ev := snd (swap_functors (ev s)), at := AtCalls (pending_functors (ev s))\<rparr>"
  have "loop_step body [] s = Some ?s1" using at by (simp add: loop_step.simps swap_functors_def)
  with calls_steps [of ?s1 "pending_functors (ev s)" body] show ?thesis
    by (simp add: doPendingFunctors_def swap_functors_def)
qed

lemma poll_steps:
  assumes "at s = AtPoll" "0 < eventfd_count (ev s)"
  shows "loop_steps body (5 + length (pending_functors (ev s))) s =
     Some (s\<lparr>ev := doPendingFunctors body (EventLoop_handleRead (ev s)), at := AtTest\<rparr>)"
proof -
  let ?s0 = "s\<lparr>at := AtRead []\<rparr>"
  let ?s1 = "s\<lparr>ev := EventLoop_handleRead (ev s), at := AtHandle []\<rparr>"
  let ?s2 = "s\<lparr>ev := EventLoop_handleRead (ev s), at := AtPending\<rparr>"
  have "loop_step body [] s = Some ?s0" "loop_step body [] ?s0 = Some ?s1" "loop_step body [] ?s1 = Some ?s2"
    using assms by (simp_all add: loop_step.simps)
  with pending_steps [of ?s2 body] show ?thesis
    by (simp add: EventLoop_handleRead_def numeral_eq_Suc)
qed

lemma doPendingFunctors_executed:
  "executed (doPendingFunctors body l) = executed l @ pending_functors l"
  by (simp add: doPendingFunctors_def swap_functors_def call_functors_executed)

section \<open>Properties\<close>

text \<open>C28:
  No wakeup is lost: in every interleaving of the loop with any number of threads that queue functors or quit, if the
  loop is blocked in \<^verbatim>\<open>epoll_wait\<close> and no thread is still between its change and its
  \<^verbatim>\<open>wakeup\<close>, then no functor is waiting and nobody has asked the loop to quit. The functors in the
  queue when \<^verbatim>\<open>loop()\<close> is entered must be none.
\<close>

theorem no_lost_wakeup:
  assumes "system_reach body (loop_start l) s"
    and "pending_functors l = []" "\<not> callingPendingFunctors l" "queued l = executed l"
    and "at s = AtPoll" "loop_step body [] s = None" "wakers s = 0"
  shows "pending_functors (ev s) = [] \<and> \<not> quit_flag (ev s)"
proof -
  have "system_inv (loop_start l)"
    using assms(2-4) by (simp add: system_inv_def loop_start_def)
  with assms(1) have "system_inv s" by (rule system_reach_inv)
  with assms(5-7) show ?thesis by (auto simp: system_inv_def loop_step.simps split: if_splits)
qed

lemma no_lost_wakeup_witness:
  "\<exists>s. loop_steps (\<lambda>f. []) 1 (loop_start (EventLoop_init :: nat event_loop)) = Some s
     \<and> loop_step (\<lambda>f. []) [] s = None \<and> pending_functors (ev s) = []"
proof -
  let ?l = "EventLoop_init :: nat event_loop"
  let ?s = "(loop_start ?l)\<lparr>at := AtPoll\<rparr>"
  have step: "loop_step (\<lambda>f. []) [] (loop_start ?l) = Some ?s"
    by (simp add: loop_step.simps loop_start_def EventLoop_init_def)
  then have "system_reach (\<lambda>f. []) (loop_start ?l) ?s"
    by (blast intro: system_reach.intros by_loop)
  moreover have "loop_step (\<lambda>f. []) [] ?s = None"
    by (simp add: loop_step.simps loop_start_def EventLoop_init_def)
  ultimately have "pending_functors (ev ?s) = []"
    using no_lost_wakeup [of "\<lambda>f. []" ?l ?s] by (simp add: EventLoop_init_def loop_start_def)
  with step \<open>loop_step (\<lambda>f. []) [] ?s = None\<close> show ?thesis by (intro exI [of _ ?s]) simp
qed

text \<open>C29:
  Functors are neither lost, doubled nor reordered: at every moment the functors queued so far are those already
  called, then those of the running batch, then those in the queue. When the loop waits and no other thread
  is in the middle of a call, its next round calls exactly all that are queued, without anybody's help.
\<close>

theorem functors_run_in_order:
  assumes "system_reach body (loop_start l) s"
    and "pending_functors l = []" "\<not> callingPendingFunctors l" "queued l = executed l"
  shows "queued (ev s) = executed (ev s) @ (case at s of AtCalls fs \<Rightarrow> fs | _ \<Rightarrow> []) @ pending_functors (ev s)
    \<and> (at s = AtPoll \<and> wakers s = 0 \<and> pending_functors (ev s) \<noteq> [] \<longrightarrow>
        (\<exists>s'. loop_steps body (5 + length (pending_functors (ev s))) s = Some s'
          \<and> executed (ev s') = queued (ev s) \<and> at s' = AtTest))"
proof -
  have "system_inv (loop_start l)"
    using assms(2-4) by (simp add: system_inv_def loop_start_def)
  with assms(1) have inv: "system_inv s" by (rule system_reach_inv)
  have "\<exists>s'. loop_steps body (5 + length (pending_functors (ev s))) s = Some s'
          \<and> executed (ev s') = queued (ev s) \<and> at s' = AtTest"
    if at: "at s = AtPoll" "wakers s = 0" "pending_functors (ev s) \<noteq> []"
  proof -
    have "0 < eventfd_count (ev s)" using inv at by (simp add: system_inv_def)
    from poll_steps [OF at(1) this, of body] show ?thesis
      using inv at(1) by (simp add: doPendingFunctors_executed EventLoop_handleRead_def system_inv_def)
  qed
  with inv show ?thesis by (simp add: system_inv_def)
qed

lemma functors_run_in_order_witness:
  "\<exists>s s'. system_reach (\<lambda>f. []) (loop_start (EventLoop_init :: nat event_loop)) s \<and> at s = AtPoll
     \<and> loop_steps (\<lambda>f. []) 6 s = Some s' \<and> executed (ev s') = [7]"
proof -
  let ?b = "\<lambda>f :: nat. [] :: nat action list" and ?l = "EventLoop_init :: nat event_loop"
  let ?s1 = "(loop_start ?l)\<lparr>at := AtPoll\<rparr>"
  let ?s2 = "?s1\<lparr>ev := push_functor 7 (ev ?s1), wakers := wakers ?s1 + 1\<rparr>"
  let ?s3 = "?s2\<lparr>ev := wakeup (ev ?s2), wakers := wakers ?s2 - 1\<rparr>"
  have "loop_step ?b [] (loop_start ?l) = Some ?s1"
    by (simp add: loop_step.simps loop_start_def EventLoop_init_def)
  then have "system_reach ?b (loop_start ?l) ?s1" by (blast intro: system_reach.intros by_loop)
  then have "system_reach ?b (loop_start ?l) ?s2" by (rule reach_step) (rule by_other_queue)
  then have reach: "system_reach ?b (loop_start ?l) ?s3" by (rule reach_step) (rule by_other_wakeup, simp)
  define s3 where "s3 = ?s3"
  have fields: "at s3 = AtPoll" "wakers s3 = 0" "pending_functors (ev s3) = [7]" "queued (ev s3) = [7]"
    by (simp_all add: s3_def loop_start_def EventLoop_init_def)
  have start: "pending_functors ?l = []" "\<not> callingPendingFunctors ?l" "queued ?l = executed ?l"
    by (simp_all add: EventLoop_init_def)
  note reach = reach [folded s3_def]
  have "\<exists>s'. loop_steps ?b (5 + length (pending_functors (ev s3))) s3 = Some s' \<and> executed (ev s') = queued (ev s3)"
    using functors_run_in_order [OF reach start] fields by auto
  then have "\<exists>s'. loop_steps ?b 6 s3 = Some s' \<and> executed (ev s') = [7]" using fields by simp
  with reach fields(1) show ?thesis by blast
qed

text \<open>
  A functor that the loop's own thread queues before it calls \<^verbatim>\<open>loop()\<close> writes no wakeup: the loop goes
  to sleep with the functor in its queue, until some other event comes.
\<close>

theorem queued_before_loop_sleeps:
  "\<exists>s. loop_steps body 1 (loop_start (queueInLoop True f EventLoop_init)) = Some s
     \<and> at s = AtPoll \<and> loop_step body [] s = None \<and> pending_functors (ev s) = [f]"
  by (simp add: loop_step.simps loop_start_def EventLoop_init_def queueInLoop_def Let_def push_functor_def)

section \<open>Quitting\<close>

lemma loop_action_quits: "quit_flag s \<Longrightarrow> quit_flag (loop_action a s)"
  by (cases a) (simp_all add: queueInLoop_def Let_def EventLoop_quit_def)

lemma loop_actions_quit: "quit_flag s \<Longrightarrow> quit_flag (loop_actions as s)"
  by (induction as arbitrary: s) (simp_all add: loop_action_quits)

lemma call_functors_quit: "quit_flag s \<Longrightarrow> quit_flag (call_functors body fs s)"
  by (induction fs arbitrary: s) (simp_all add: call_functor_def loop_actions_quit)

lemma doPendingFunctors_quit: "quit_flag s \<Longrightarrow> quit_flag (doPendingFunctors body s)"
  by (simp add: doPendingFunctors_def swap_functors_def call_functors_quit)

lemma loop_steps_add:
  "loop_steps body (m + n) s = (case loop_steps body m s of None \<Rightarrow> None | Some s' \<Rightarrow> loop_steps body n s')"
  by (induction m arbitrary: s) (auto split: option.split)

lemma loop_steps_then:
  "loop_steps body m s = Some s1 \<Longrightarrow> loop_steps body n s1 = Some s2 \<Longrightarrow> loop_steps body (m + n) s = Some s2"
  by (simp add: loop_steps_add)

lemma quit_at_test: "at s = AtTest \<Longrightarrow> quit_flag (ev s) \<Longrightarrow> loop_steps body 1 s = Some (s\<lparr>at := Stopped\<rparr>)"
  by (simp add: loop_step.simps)

lemma quit_at_pending:
  assumes "at s = AtPending" "quit_flag (ev s)"
  shows "\<exists>n s'. loop_steps body n s = Some s' \<and> at s' = Stopped"
  using loop_steps_then [OF pending_steps [OF assms(1)] quit_at_test] assms(2)
  by (fastforce simp: doPendingFunctors_quit)

lemma handle_steps:
  "at s = AtHandle as \<Longrightarrow> loop_steps body (Suc (length as)) s = Some (s\<lparr>ev := loop_actions as (ev s), at := AtPending\<rparr>)"
proof (induction as arbitrary: s)
  case Nil
  then show ?case by (simp add: loop_step.simps)
next
  case (Cons a as)
  let ?s1 = "s\<lparr>ev := loop_action a (ev s), at := AtHandle as\<rparr>"
  have "loop_step body [] s = Some ?s1" using Cons.prems by (simp add: loop_step.simps)
  with Cons.IH [of ?s1] show ?case by simp
qed

lemma quit_at_handle:
  assumes "at s = AtHandle as" "quit_flag (ev s)"
  shows "\<exists>n s'. loop_steps body n s = Some s' \<and> at s' = Stopped"
proof -
  let ?s1 = "s\<lparr>ev := loop_actions as (ev s), at := AtPending\<rparr>"
  have "\<exists>n s'. loop_steps body n ?s1 = Some s' \<and> at s' = Stopped"
    using assms by (intro quit_at_pending) (simp_all add: loop_actions_quit)
  with loop_steps_then [OF handle_steps [OF assms(1)]] show ?thesis by blast
qed

lemma quit_at_read:
  assumes "at s = AtRead as" "quit_flag (ev s)"
  shows "\<exists>n s'. loop_steps body n s = Some s' \<and> at s' = Stopped"
proof -
  let ?s1 = "s\<lparr>ev := EventLoop_handleRead (ev s), at := AtHandle as\<rparr>"
  have "\<exists>n s'. loop_steps body n ?s1 = Some s' \<and> at s' = Stopped"
    using assms(2) by (intro quit_at_handle) (simp_all add: EventLoop_handleRead_def)
  moreover have "loop_steps body 1 s = Some ?s1" using assms(1) by (simp add: loop_step.simps)
  ultimately show ?thesis using loop_steps_then by blast
qed

lemma quit_at_calls:
  assumes "at s = AtCalls fs" "quit_flag (ev s)"
  shows "\<exists>n s'. loop_steps body n s = Some s' \<and> at s' = Stopped"
  using loop_steps_then [OF calls_steps [OF assms(1)] quit_at_test] assms(2)
  by (fastforce simp: call_functors_quit)

lemma quit_at_poll:
  assumes "at s = AtPoll" "quit_flag (ev s)" "0 < eventfd_count (ev s)"
  shows "\<exists>n s'. loop_steps body n s = Some s' \<and> at s' = Stopped"
  using loop_steps_then [OF poll_steps [OF assms(1,3)] quit_at_test] assms(2)
  by (fastforce simp: doPendingFunctors_quit EventLoop_handleRead_def)

text \<open>A loop that is not in \<^verbatim>\<open>epoll_wait\<close> when the flag is set needs no wakeup.\<close>

lemma quit_stops_awake:
  assumes "quit_flag (ev s)" "at s \<noteq> AtPoll"
  shows "\<exists>n s'. loop_steps body n s = Some s' \<and> at s' = Stopped"
proof (cases "at s")
  case AtTest
  with quit_at_test assms(1) show ?thesis by fastforce
next
  case Stopped
  then show ?thesis by (intro exI [of _ 0]) simp
qed (use assms quit_at_read quit_at_handle quit_at_pending quit_at_calls in blast)+

lemma quit_stops:
  assumes "system_inv s" "quit_flag (ev s)" "wakers s = 0"
  shows "\<exists>n s'. loop_steps body n s = Some s' \<and> at s' = Stopped"
proof (cases "at s = AtPoll")
  case True
  with assms have "0 < eventfd_count (ev s)" by (simp add: system_inv_def)
  with True assms(2) show ?thesis by (intro quit_at_poll)
qed (use assms(2) quit_stops_awake in blast)

text \<open>
  \<^verbatim>\<open>quit()\<close> ends the loop, whichever thread calls it and wherever the loop is: once the flag is set and the caller is through
  with its \<^verbatim>\<open>wakeup\<close>, the loop's thread leaves \<^verbatim>\<open>loop()\<close> after finitely many steps of its own, without any other event.
\<close>

theorem quit_stops_loop:
  assumes "system_reach body (loop_start l) s"
    and "pending_functors l = []" "\<not> callingPendingFunctors l" "queued l = executed l"
    and "quit_flag (ev s)" "wakers s = 0"
  shows "\<exists>n s'. loop_steps body n s = Some s' \<and> at s' = Stopped"
proof -
  have "system_inv (loop_start l)"
    using assms(2-4) by (simp add: system_inv_def loop_start_def)
  with assms(1) have "system_inv s" by (rule system_reach_inv)
  with assms(5,6) show ?thesis by (intro quit_stops)
qed

lemma quit_stops_loop_witness:
  "\<exists>s n s'. loop_steps (\<lambda>f. []) 1 (loop_start (EventLoop_init :: nat event_loop)) = Some s \<and> loop_step (\<lambda>f. []) [] s = None
    \<and> loop_steps (\<lambda>f. []) n (s\<lparr>ev := EventLoop_quit False (ev s)\<rparr>) = Some s' \<and> at s' = Stopped"
proof -
  let ?b = "\<lambda>f :: nat. [] :: nat action list" and ?l = "EventLoop_init :: nat event_loop"
  let ?s = "(loop_start ?l)\<lparr>at := AtPoll\<rparr>"
  let ?s1 = "?s\<lparr>ev := (ev ?s)\<lparr>quit_flag := True\<rparr>, wakers := wakers ?s + 1\<rparr>"
  let ?s2 = "?s1\<lparr>ev := wakeup (ev ?s1), wakers := wakers ?s1 - 1\<rparr>"
  have step: "loop_step ?b [] (loop_start ?l) = Some ?s" "loop_step ?b [] ?s = None"
    by (simp_all add: loop_step.simps loop_start_def EventLoop_init_def)
  then have "system_reach ?b (loop_start ?l) ?s" by (blast intro: system_reach.intros by_loop)
  then have "system_reach ?b (loop_start ?l) ?s1" by (rule reach_step) (rule by_other_quit)
  then have reach: "system_reach ?b (loop_start ?l) ?s2" by (rule reach_step) (rule by_other_wakeup, simp)
  have "?s2 = ?s\<lparr>ev := EventLoop_quit False (ev ?s)\<rparr>"
    by (simp add: EventLoop_quit_def Let_def loop_start_def)
  moreover have "\<exists>n s'. loop_steps ?b n ?s2 = Some s' \<and> at s' = Stopped"
    using quit_stops_loop [OF reach] by (simp add: EventLoop_init_def loop_start_def)
  ultimately show ?thesis using step by (intro exI [of _ ?s]) simp
qed

end
