(* ===== verification/Threads.thy ===== *)
theory Threads
  imports Channel
begin

text \<open>
  \<^verbatim>\<open>simplifyMuduo/src/Thread.cc\<close>, \<^verbatim>\<open>include/CurrentThread.h\<close>, \<^verbatim>\<open>BlockingQueue.h\<close> and \<^verbatim>\<open>ThreadPool.h\<close>.
  A critical section under \<^verbatim>\<open>MutexLockGuard\<close> is one step; \<^verbatim>\<open>Condition::wait\<close>
  splits it into the step that releases the mutex and sleeps and the step that resumes. A condition variable
  is the number of its sleepers and of those that have been signalled and not yet resumed; spurious
  wakeups are steps too. The lemmas show that no element and no signal is lost.
\<close>

section \<open>Threads\<close>

definition CurrentThread_tid :: "int \<Rightarrow> int \<Rightarrow> int \<times> int" where
  "CurrentThread_tid gettid t_cachedTid =
     (let cached = (if t_cachedTid = 0 then gettid else t_cachedTid) in (cached, cached))"

text \<open>\<open>pthread_calls\<close> lists the calls that dispose of the thread.\<close>

datatype pthread_call = PthreadJoin int | PthreadDetach int

record thread =
  th_started :: bool
  th_joined :: bool
  th_autoDelete :: bool
  th_name :: string
  th_pthreadId :: int
  pthread_calls :: "pthread_call list"

definition setDefaultName :: "int \<Rightarrow> thread \<Rightarrow> thread" where
  "setDefaultName gettid t =
     (if th_name t = '''' then t\<lparr>th_name := take 31 (''Thread_'' @ int_to_string gettid)\<rparr> else t)"

definition Thread_init :: "string \<Rightarrow> int \<Rightarrow> thread" where
  "Thread_init name gettid = setDefaultName gettid
     \<lparr>th_started = False, th_joined = False, th_autoDelete = False, th_name = name, th_pthreadId = 0, pthread_calls = []\<rparr>"

definition setAutoDelete :: "bool \<Rightarrow> thread \<Rightarrow> thread" where
  "setAutoDelete b t = t\<lparr>th_autoDelete := b\<rparr>"

text \<open>The answer of \<^verbatim>\<open>pthread_create\<close> is an input: the identifier of the new thread or nothing.\<close>

definition Thread_start :: "int option \<Rightarrow> thread \<Rightarrow> thread" where
  "Thread_start created t =
     (let t1 = t\<lparr>th_started := True\<rparr>
      in case created of None \<Rightarrow> t1\<lparr>th_started := False\<rparr> | Some i \<Rightarrow> t1\<lparr>th_pthreadId := i\<rparr>)"

definition Thread_join :: "thread \<Rightarrow> thread" where
  "Thread_join t = t\<lparr>th_joined := True, pthread_calls := pthread_calls t @ [PthreadJoin (th_pthreadId t)]\<rparr>"

definition Thread_dtor :: "thread \<Rightarrow> pthread_call list" where
  "Thread_dtor t =
     (if th_started t \<and> \<not> th_joined t then pthread_calls t @ [PthreadDetach (th_pthreadId t)] else pthread_calls t)"

text \<open>\<open>run\<close> is the thread's function on the state; the result says whether the thread deletes its object.\<close>

definition ThreadRoutine :: "('s \<Rightarrow> 's result) \<Rightarrow> thread \<Rightarrow> 's \<Rightarrow> ('s \<times> bool) result" where
  "ThreadRoutine run t s = andThen (run s) (\<lambda>s'. Inr (s', th_autoDelete t))"

text \<open>A thread that was created is disposed of exactly once, whether it was joined or not.\<close>

lemma thread_disposed_once:
  "Thread_dtor (Thread_join (Thread_start (Some i) (Thread_init n g))) = [PthreadJoin i]"
  "Thread_dtor (Thread_start (Some i) (Thread_init n g)) = [PthreadDetach i]"
  "Thread_dtor (Thread_start None (Thread_init n g)) = []"
  by (simp_all add: Thread_dtor_def Thread_join_def Thread_start_def Thread_init_def setDefaultName_def Let_def)

section \<open>BlockingQueue\<close>

record 'a blocking_queue =
  bq_queue :: "'a list"
  bq_waiting :: nat
  bq_signalled :: nat

definition BlockingQueue_init :: "'a blocking_queue" where
  "BlockingQueue_init = \<lparr>bq_queue = [], bq_waiting = 0, bq_signalled = 0\<rparr>"

text \<open>\<^verbatim>\<open>Condition::notify\<close> wakes one sleeper, if there is one.\<close>

definition bq_notify :: "'a blocking_queue \<Rightarrow> 'a blocking_queue" where
  "bq_notify q = (if bq_waiting q = 0 then q
     else q\<lparr>bq_waiting := bq_waiting q - 1, bq_signalled := bq_signalled q + 1\<rparr>)"

definition bq_put :: "'a \<Rightarrow> 'a blocking_queue \<Rightarrow> 'a blocking_queue" where
  "bq_put x q = bq_notify (q\<lparr>bq_queue := bq_queue q @ [x]\<rparr>)"

text \<open>\<^verbatim>\<open>take\<close> with the mutex held: the test of the loop, then the element or \<^verbatim>\<open>wait\<close>.\<close>

definition bq_take_locked :: "'a blocking_queue \<Rightarrow> 'a option \<times> 'a blocking_queue" where
  "bq_take_locked q = (case bq_queue q of
      [] \<Rightarrow> (None, q\<lparr>bq_waiting := bq_waiting q + 1\<rparr>)
    | x # xs \<Rightarrow> (Some x, q\<lparr>bq_queue := xs\<rparr>))"

text \<open>The return from \<^verbatim>\<open>wait\<close>: the mutex is held again, and the loop tests again.\<close>

definition bq_resume :: "'a blocking_queue \<Rightarrow> ('a option \<times> 'a blocking_queue) option" where
  "bq_resume q = (if bq_signalled q = 0 then None
     else Some (bq_take_locked (q\<lparr>bq_signalled := bq_signalled q - 1\<rparr>)))"

definition getCurrenTaskSize :: "'a blocking_queue \<Rightarrow> nat" where
  "getCurrenTaskSize q = length (bq_queue q)"

text \<open>\<open>bq_runs q put taken\<close>: from an empty queue, \<open>put\<close> were put and \<open>taken\<close> were taken, in this order.\<close>

inductive bq_runs :: "'a blocking_queue \<Rightarrow> 'a list \<Rightarrow> 'a list \<Rightarrow> bool" where
  bq_start: "bq_runs BlockingQueue_init [] []"
| bq_puts: "bq_runs q ins outs \<Longrightarrow> bq_runs (bq_put x q) (ins @ [x]) outs"
| bq_enters: "bq_runs q ins outs \<Longrightarrow> bq_take_locked q = (r, q') \<Longrightarrow>
    bq_runs q' ins (case r of None \<Rightarrow> outs | Some x \<Rightarrow> outs @ [x])"
| bq_resumes: "bq_runs q ins outs \<Longrightarrow> bq_resume q = Some (r, q') \<Longrightarrow>
    bq_runs q' ins (case r of None \<Rightarrow> outs | Some x \<Rightarrow> outs @ [x])"
| bq_spurious: "bq_runs q ins outs \<Longrightarrow> 0 < bq_waiting q \<Longrightarrow>
    bq_runs (q\<lparr>bq_waiting := bq_waiting q - 1, bq_signalled := bq_signalled q + 1\<rparr>) ins outs"

text \<open>While threads sleep, there are at least as many signalled ones as elements.\<close>

lemma bq_runs_inv:
  "bq_runs q ins outs \<Longrightarrow> ins = outs @ bq_queue q \<and> (0 < bq_waiting q \<longrightarrow> length (bq_queue q) \<le> bq_signalled q)"
proof (induction rule: bq_runs.induct)
  case bq_start
  then show ?case by (simp add: BlockingQueue_init_def)
next
  case (bq_puts q ins outs x)
  then show ?case by (auto simp: bq_put_def bq_notify_def)
next
  case (bq_enters q ins outs r q')
  then show ?case by (auto simp: bq_take_locked_def split: list.splits)
next
  case (bq_resumes q ins outs r q')
  then show ?case by (auto simp: bq_resume_def bq_take_locked_def split: list.splits if_splits)
next
  case (bq_spurious q ins outs)
  then show ?case by auto
qed

section \<open>ThreadPool\<close>

record 'f thread_pool =
  tp_name :: string
  tp_threads :: "thread list"
  tp_tasks :: "'f blocking_queue"

definition ThreadPool_init :: "string \<Rightarrow> 'f thread_pool" where
  "ThreadPool_init name = \<lparr>tp_name = name, tp_threads = [], tp_tasks = BlockingQueue_init\<rparr>"

text \<open>\<open>created i\<close> is the answer of the i-th \<^verbatim>\<open>pthread_create\<close>.\<close>

fun pool_threads_loop :: "(nat \<Rightarrow> int option) \<Rightarrow> int \<Rightarrow> nat \<Rightarrow> nat \<Rightarrow> 'f thread_pool \<Rightarrow> 'f thread_pool" where
  "pool_threads_loop created gettid i 0 p = p"
| "pool_threads_loop created gettid i (Suc n) p =
     (let t = Thread_init (tp_name p @ int_to_string (int i + 1)) gettid
      in pool_threads_loop created gettid (Suc i) n
           (p\<lparr>tp_threads := tp_threads p @ [Thread_start (created i) t]\<rparr>))"

definition ThreadPool_start :: "(nat \<Rightarrow> int option) \<Rightarrow> int \<Rightarrow> int \<Rightarrow> 'f thread_pool \<Rightarrow> 'f thread_pool" where
  "ThreadPool_start created gettid numThreads p = pool_threads_loop created gettid 0 (nat numThreads) p"

text \<open>\<open>addTask\<close> runs the task at once if the pool has no thread; \<open>run\<close> is the effect of a task.\<close>

definition addTask :: "('f \<Rightarrow> 's \<Rightarrow> 's result) \<Rightarrow> 'f \<Rightarrow> 'f thread_pool \<Rightarrow> 's \<Rightarrow> ('f thread_pool \<times> 's) result" where
  "addTask run cb p s =
     (if tp_threads p = [] then andThen (run cb s) (\<lambda>s'. Inr (p, s'))
      else Inr (p\<lparr>tp_tasks := bq_put cb (tp_tasks p)\<rparr>, s))"

text \<open>One turn of \<^verbatim>\<open>runInThread\<close> that does not sleep: the task is taken and called (an empty one is not).\<close>

definition runInThread :: "('f \<Rightarrow> 's \<Rightarrow> 's result) \<Rightarrow> 'f option thread_pool \<Rightarrow> 's \<Rightarrow> ('f option thread_pool \<times> 's) result" where
  "runInThread run p s =
     (let (r, q) = bq_take_locked (tp_tasks p); p' = p\<lparr>tp_tasks := q\<rparr>
      in case r of
           Some (Some cb) \<Rightarrow> andThen (run cb s) (\<lambda>s'. Inr (p', s'))
         | _ \<Rightarrow> Inr (p', s))"

section \<open>Properties\<close>

text \<open>
  The blocking queue, under any interleaving of producers and consumers and with spurious wakeups, hands out what was
  put, each element once and in order; and no consumer is stranded: while an element is in the queue and a consumer
  sleeps, another one is signalled and will take it.
\<close>

theorem blocking_queue_fifo:
  assumes "bq_runs q ins outs"
  shows "ins = outs @ bq_queue q \<and> (bq_queue q \<noteq> [] \<and> 0 < bq_waiting q \<longrightarrow> bq_resume q \<noteq> None)"
  using bq_runs_inv [OF assms] by (auto simp: bq_resume_def)

lemma blocking_queue_fifo_witness:
  "\<exists>q q'. bq_take_locked (BlockingQueue_init :: nat blocking_queue) = (None, q) \<and> bq_resume (bq_put 5 q) = Some (Some 5, q')
     \<and> bq_queue q' = []"
proof -
  let ?q1 = "\<lparr>bq_queue = [], bq_waiting = 1, bq_signalled = 0\<rparr> :: nat blocking_queue"
  have take: "bq_take_locked (BlockingQueue_init :: nat blocking_queue) = (None, ?q1)"
    by (simp add: bq_take_locked_def BlockingQueue_init_def)
  from bq_puts [OF bq_enters [OF bq_start take], of 5] have runs: "bq_runs (bq_put 5 ?q1) [5] []" by simp
  have resume: "bq_resume (bq_put 5 ?q1) = Some (Some 5, \<lparr>bq_queue = [], bq_waiting = 0, bq_signalled = 0\<rparr>)"
    by (simp add: bq_resume_def bq_take_locked_def bq_put_def bq_notify_def)
  from bq_resumes [OF runs resume] have "bq_runs \<lparr>bq_queue = [], bq_waiting = 0, bq_signalled = 0\<rparr> [5 :: nat] [5]" by simp
  from blocking_queue_fifo [OF this] take resume show ?thesis by auto
qed

end
