(* ===== verification/Sync.thy ===== *)
theory Sync
  imports Threads "HOL-Library.Multiset"
begin

text \<open>
  \<^verbatim>\<open>simplifyMuduo/include/Mutex.h\<close>, \<^verbatim>\<open>Condition.h\<close> and \<^verbatim>\<open>BlockingQueue.h\<close> statement by statement: a mutex is
  the thread that holds it, a condition variable the threads that sleep on it and those that are notified and
  have yet to take the mutex again; the threads interleave between any two statements of \<^verbatim>\<open>put\<close> and
  \<^verbatim>\<open>take\<close>. The lemmas show mutual exclusion, once for every class whose operations are guarded by a
  \<^verbatim>\<open>MutexLockGuard\<close>, and that the threads implement the queue of \<^verbatim>\<open>Threads\<close>, whose critical
  sections are single steps. \<^verbatim>\<open>MutexTest.cc\<close> is the other program under such a guard.
\<close>

section \<open>Mutexes and conditions\<close>

type_synonym mutex = "nat option"

definition MutexLock_init :: mutex where
  "MutexLock_init = None"

text \<open>\<open>None\<close> is the caller that blocks: the mutex is held, also when it is held by the caller itself.\<close>

definition MutexLock_lock :: "nat \<Rightarrow> mutex \<Rightarrow> mutex option" where
  "MutexLock_lock t m = (case m of None \<Rightarrow> Some (Some t) | Some h \<Rightarrow> None)"

definition MutexLock_unlock :: "nat \<Rightarrow> mutex \<Rightarrow> mutex result" where
  "MutexLock_unlock t m = (if m = Some t then Inr None else Inl MutexMisuse)"

definition MutexLock_dtor :: "mutex \<Rightarrow> unit result" where
  "MutexLock_dtor m = (if m = None then Inr () else Inl MutexMisuse)"

record condition =
  asleep :: "nat list"
  notified :: "nat list"

definition Condition_init :: condition where
  "Condition_init = \<lparr>asleep = [], notified = []\<rparr>"

text \<open>\<^verbatim>\<open>wait\<close>: first the mutex is released and the thread sleeps, in one step; it goes on in \<open>Condition_resume\<close>.\<close>

definition Condition_wait :: "nat \<Rightarrow> mutex \<Rightarrow> condition \<Rightarrow> (mutex \<times> condition) result" where
  "Condition_wait t m c = andThen (MutexLock_unlock t m) (\<lambda>m'. Inr (m', c\<lparr>asleep := asleep c @ [t]\<rparr>))"

definition Condition_wake :: "nat \<Rightarrow> condition \<Rightarrow> condition" where
  "Condition_wake t c = c\<lparr>asleep := remove1 t (asleep c), notified := t # notified c\<rparr>"

text \<open>Which sleeper \<^verbatim>\<open>notify\<close> wakes is the choice \<open>k\<close> of the scheduler.\<close>

definition Condition_notify :: "nat \<Rightarrow> condition \<Rightarrow> condition" where
  "Condition_notify k c =
     (if asleep c = [] then c else Condition_wake (asleep c ! (k mod length (asleep c))) c)"

definition Condition_notifyAll :: "condition \<Rightarrow> condition" where
  "Condition_notifyAll c = c\<lparr>asleep := [], notified := notified c @ asleep c\<rparr>"

definition Condition_resume :: "nat \<Rightarrow> mutex \<Rightarrow> condition \<Rightarrow> (mutex \<times> condition) option" where
  "Condition_resume t m c =
     (if t \<in> set (notified c)
      then map_option (\<lambda>m'. (m', c\<lparr>notified := remove1 t (notified c)\<rparr>)) (MutexLock_lock t m)
      else None)"

text \<open>A condition variable may be destroyed when no thread is blocked on it.\<close>

definition Condition_dtor :: "condition \<Rightarrow> unit result" where
  "Condition_dtor c = (if asleep c = [] \<and> notified c = [] then Inr () else Inl MutexMisuse)"

lemma lock_eq [simp]: "MutexLock_lock t m = Some m' \<longleftrightarrow> m = None \<and> m' = Some t"
  "MutexLock_lock t m = None \<longleftrightarrow> m \<noteq> None"
  by (auto simp: MutexLock_lock_def split: option.splits)

lemma unlock_eq [simp]: "MutexLock_unlock t m = Inr m' \<longleftrightarrow> m = Some t \<and> m' = None"
  "MutexLock_unlock t m = Inl f \<longleftrightarrow> m \<noteq> Some t \<and> f = MutexMisuse"
  by (auto simp: MutexLock_unlock_def)

lemma lock_free [simp]: "MutexLock_lock t None = Some (Some t)"
  by simp

lemma unlock_own [simp]: "MutexLock_unlock t (Some t) = Inr None"
  by simp

text \<open>\<^verbatim>\<open>notifyAll\<close> is a \<^verbatim>\<open>notify\<close> for every sleeper, whatever the scheduler chooses: the same threads are asleep and awake.\<close>

fun notify_times :: "(nat \<Rightarrow> nat) \<Rightarrow> nat \<Rightarrow> condition \<Rightarrow> condition" where
  "notify_times ks 0 c = c"
| "notify_times ks (Suc n) c = notify_times ks n (Condition_notify (ks n) c)"

lemma notify_moves:
  assumes "asleep c \<noteq> []"
  obtains t where "t \<in> set (asleep c)" "Condition_notify k c = Condition_wake t c"
proof (rule that)
  show "asleep c ! (k mod length (asleep c)) \<in> set (asleep c)" using assms by simp
qed (use assms in \<open>simp add: Condition_notify_def\<close>)

lemma notifyAll_is_notifies:
  "mset (notified (notify_times ks (length (asleep c)) c)) = mset (notified (Condition_notifyAll c))
   \<and> asleep (notify_times ks (length (asleep c)) c) = []"
proof (induction "length (asleep c)" arbitrary: c)
  case 0
  then show ?case by (simp add: Condition_notifyAll_def)
next
  case (Suc n)
  then have "asleep c \<noteq> []" by auto
  then obtain t where t: "t \<in> set (asleep c)" "Condition_notify (ks n) c = Condition_wake t c" by (rule notify_moves)
  with Suc(2) have len: "n = length (asleep (Condition_notify (ks n) c))" by (simp add: Condition_wake_def length_remove1)
  from Suc(1) [OF len] len Suc(2) [symmetric] t show ?case
    by (simp add: Condition_wake_def Condition_notifyAll_def)
qed

section \<open>Critical sections\<close>

text \<open>
  What \<^verbatim>\<open>MutexLockGuard\<close> promises a class: a thread enters the section by taking the free mutex, leaves it by
  giving the mutex back, and changes nobody else's place.
\<close>

locale guarded_section =
  fixes holder :: "'s \<Rightarrow> mutex"
    and critical :: "'s \<Rightarrow> nat \<Rightarrow> bool"
    and step :: "nat \<Rightarrow> 's \<Rightarrow> 's \<Rightarrow> bool"
    and start :: "'s \<Rightarrow> bool"
  assumes starts_free: "start s \<Longrightarrow> holder s = None" "start s \<Longrightarrow> \<not> critical s t"
    and keeps_others: "step t s s' \<Longrightarrow> u \<noteq> t \<Longrightarrow> critical s' u \<longleftrightarrow> critical s u"
    and discipline: "step t s s' \<Longrightarrow>
      holder s' = holder s \<and> (critical s' t \<longleftrightarrow> critical s t)
      \<or> MutexLock_lock t (holder s) = Some (holder s') \<and> critical s' t
      \<or> critical s t \<and> MutexLock_unlock t (holder s) = Inr (holder s') \<and> \<not> critical s' t"
begin

definition reachable :: "'s \<Rightarrow> bool" where
  "reachable s \<longleftrightarrow> (\<exists>s0. start s0 \<and> (\<lambda>s s'. \<exists>t. step t s s')\<^sup>*\<^sup>* s0 s)"

lemma reachable_start: "start s \<Longrightarrow> reachable s"
  by (auto simp: reachable_def)

lemma reachable_step: "reachable s \<Longrightarrow> step t s s' \<Longrightarrow> reachable s'"
  unfolding reachable_def by (metis (mono_tags, lifting) rtranclp.rtrancl_into_rtrancl)

lemma critical_holds:
  assumes "reachable s"
  shows "critical s t \<longleftrightarrow> holder s = Some t"
proof -
  obtain s0 where s0: "start s0" and run: "(\<lambda>s s'. \<exists>t. step t s s')\<^sup>*\<^sup>* s0 s"
    using assms by (auto simp: reachable_def)
  from run show ?thesis
  proof (induction arbitrary: t rule: rtranclp_induct)
    case base
    with starts_free [OF s0] show ?case by simp
  next
    case (step s1 s2)
    then obtain u where u: "step u s1 s2" by blast
    from discipline [OF u] keeps_others [OF u] step.IH show ?case
      by (cases "t = u") auto
  qed
qed

lemma mutual_exclusion: "reachable s \<Longrightarrow> critical s t \<Longrightarrow> critical s u \<Longrightarrow> t = u"
  by (simp add: critical_holds)

lemma never_misused: "reachable s \<Longrightarrow> critical s t \<Longrightarrow> MutexLock_unlock t (holder s) = Inr None"
  by (simp add: critical_holds)

end

section \<open>The blocking queue and its threads\<close>

text \<open>
  Where a thread is in \<^verbatim>\<open>put\<close> and \<^verbatim>\<open>take\<close>: before the constructor of the guard, at each statement behind it, at
  its destructor. The boolean says that the thread has slept before. An element that has been moved from is
  \<open>None\<close>.
\<close>

datatype 'a place =
    Outside
  | PutLock 'a | PutPush 'a | PutNotify 'a | PutUnlock
  | TakeLock | TakeTest bool | TakeWait bool | Asleep | TakeMove bool | TakePop bool "'a option" | TakeUnlock "'a option"

record 'a queue_threads =
  mx :: mutex
  cnd :: condition
  deque :: "'a option list"
  place :: "nat \<Rightarrow> 'a place"

definition BlockingQueue_new :: "'a queue_threads" where
  "BlockingQueue_new = \<lparr>mx = MutexLock_init, cnd = Condition_init, deque = [], place = (\<lambda>t. Outside)\<rparr>"

definition goto :: "nat \<Rightarrow> 'a place \<Rightarrow> 'a queue_threads \<Rightarrow> 'a queue_threads" where
  "goto t p s = s\<lparr>place := (place s)(t := p)\<rparr>"

text \<open>\<^verbatim>\<open>front()\<close> and \<^verbatim>\<open>pop_front()\<close> of an empty deque are undefined.\<close>

definition deque_move_front :: "'a option list \<Rightarrow> ('a option \<times> 'a option list) result" where
  "deque_move_front q = (case q of [] \<Rightarrow> Inl OutOfBounds | x # xs \<Rightarrow> Inr (x, None # xs))"

definition deque_pop_front :: "'a option list \<Rightarrow> 'a option list result" where
  "deque_pop_front q = (case q of [] \<Rightarrow> Inl OutOfBounds | x # xs \<Rightarrow> Inr xs)"

text \<open>The next statement of thread \<open>t\<close>; \<open>None\<close>: it is blocked, or not in the queue.\<close>

definition put_step :: "nat \<Rightarrow> nat \<Rightarrow> 'a queue_threads \<Rightarrow> 'a queue_threads result option" where
  "put_step t k s =
     (case place s t of
        PutLock x \<Rightarrow> map_option (\<lambda>m. Inr (goto t (PutPush x) (s\<lparr>mx := m\<rparr>))) (MutexLock_lock t (mx s))
      | PutPush x \<Rightarrow> Some (Inr (goto t (PutNotify x) (s\<lparr>deque := deque s @ [Some x]\<rparr>)))
      | PutNotify x \<Rightarrow> Some (Inr (goto t PutUnlock (s\<lparr>cnd := Condition_notify k (cnd s)\<rparr>)))
      | PutUnlock \<Rightarrow> Some (andThen (MutexLock_unlock t (mx s)) (\<lambda>m. Inr (goto t Outside (s\<lparr>mx := m\<rparr>))))
      | _ \<Rightarrow> None)"

definition take_step :: "nat \<Rightarrow> 'a queue_threads \<Rightarrow> 'a queue_threads result option" where
  "take_step t s =
     (case place s t of
        TakeLock \<Rightarrow> map_option (\<lambda>m. Inr (goto t (TakeTest False) (s\<lparr>mx := m\<rparr>))) (MutexLock_lock t (mx s))
      | TakeTest w \<Rightarrow> Some (Inr (goto t (if deque s = [] then TakeWait w else TakeMove w) s))
      | TakeWait w \<Rightarrow> Some (andThen (Condition_wait t (mx s) (cnd s)) (\<lambda>(m, c). Inr (goto t Asleep (s\<lparr>mx := m, cnd := c\<rparr>))))
      | Asleep \<Rightarrow> map_option (\<lambda>(m, c). Inr (goto t (TakeTest True) (s\<lparr>mx := m, cnd := c\<rparr>))) (Condition_resume t (mx s) (cnd s))
      | TakeMove w \<Rightarrow> Some (andThen (deque_move_front (deque s)) (\<lambda>(x, q). Inr (goto t (TakePop w x) (s\<lparr>deque := q\<rparr>))))
      | TakePop w x \<Rightarrow> Some (andThen (deque_pop_front (deque s)) (\<lambda>q. Inr (goto t (TakeUnlock x) (s\<lparr>deque := q\<rparr>))))
      | TakeUnlock x \<Rightarrow> Some (andThen (MutexLock_unlock t (mx s)) (\<lambda>m. Inr (goto t Outside (s\<lparr>mx := m\<rparr>))))
      | _ \<Rightarrow> None)"

definition thread_step :: "nat \<Rightarrow> nat \<Rightarrow> 'a queue_threads \<Rightarrow> 'a queue_threads result option" where
  "thread_step t k s = (case put_step t k s of None \<Rightarrow> take_step t s | Some r \<Rightarrow> Some r)"

text \<open>
  The steps of thread \<open>t\<close>: it calls \<^verbatim>\<open>put\<close> or \<^verbatim>\<open>take\<close>, runs its next statement, or wakes up without a
  notification.
\<close>

inductive queue_step :: "nat \<Rightarrow> 'a queue_threads \<Rightarrow> 'a queue_threads \<Rightarrow> bool" for t where
  calls_put: "place s t = Outside \<Longrightarrow> queue_step t s (goto t (PutLock x) s)"
| calls_take: "place s t = Outside \<Longrightarrow> queue_step t s (goto t TakeLock s)"
| runs: "thread_step t k s = Some (Inr s') \<Longrightarrow> queue_step t s s'"
| wakes: "t \<in> set (asleep (cnd s)) \<Longrightarrow> queue_step t s (s\<lparr>cnd := Condition_wake t (cnd s)\<rparr>)"

inductive_cases queue_stepE: "queue_step t s s'"

definition critical_place :: "'a place \<Rightarrow> bool" where
  "critical_place p = (case p of Outside \<Rightarrow> False | PutLock x \<Rightarrow> False | TakeLock \<Rightarrow> False | Asleep \<Rightarrow> False | _ \<Rightarrow> True)"

lemma goto_simps [simp]:
  "place (goto t p s) t = p" "u \<noteq> t \<Longrightarrow> place (goto t p s) u = place s u" "mx (goto t p s) = mx s"
  "cnd (goto t p s) = cnd s" "deque (goto t p s) = deque s"
  by (simp_all add: goto_def)

lemmas thread_step_defs = thread_step_def put_step_def take_step_def critical_place_def Condition_wait_def Condition_resume_def
  deque_move_front_def deque_pop_front_def

lemma thread_step_cases [consumes 1, case_names put_lock push notify put_unlock take_lock test wait resume move pop take_unlock]:
  assumes "thread_step t k s = Some (Inr s')"
  obtains
    (put_lock) x where "place s t = PutLock x" "mx s = None" "s' = goto t (PutPush x) (s\<lparr>mx := Some t\<rparr>)"
  | (push) x where "place s t = PutPush x" "s' = goto t (PutNotify x) (s\<lparr>deque := deque s @ [Some x]\<rparr>)"
  | (notify) x where "place s t = PutNotify x" "s' = goto t PutUnlock (s\<lparr>cnd := Condition_notify k (cnd s)\<rparr>)"
  | (put_unlock) "place s t = PutUnlock" "mx s = Some t" "s' = goto t Outside (s\<lparr>mx := None\<rparr>)"
  | (take_lock) "place s t = TakeLock" "mx s = None" "s' = goto t (TakeTest False) (s\<lparr>mx := Some t\<rparr>)"
  | (test) w where "place s t = TakeTest w" "s' = goto t (if deque s = [] then TakeWait w else TakeMove w) s"
  | (wait) w where "place s t = TakeWait w" "mx s = Some t"
      "s' = goto t Asleep (s\<lparr>mx := None, cnd := (cnd s)\<lparr>asleep := asleep (cnd s) @ [t]\<rparr>\<rparr>)"
  | (resume) "place s t = Asleep" "t \<in> set (notified (cnd s))" "mx s = None"
      "s' = goto t (TakeTest True) (s\<lparr>mx := Some t, cnd := (cnd s)\<lparr>notified := remove1 t (notified (cnd s))\<rparr>\<rparr>)"
  | (move) w x xs where "place s t = TakeMove w" "deque s = x # xs" "s' = goto t (TakePop w x) (s\<lparr>deque := None # xs\<rparr>)"
  | (pop) w v x xs where "place s t = TakePop w v" "deque s = x # xs" "s' = goto t (TakeUnlock v) (s\<lparr>deque := xs\<rparr>)"
  | (take_unlock) v where "place s t = TakeUnlock v" "mx s = Some t" "s' = goto t Outside (s\<lparr>mx := None\<rparr>)"
proof (cases "place s t")
  case Outside
  with assms show ?thesis by (simp add: thread_step_defs)
next
  case (PutLock x)
  with assms show ?thesis by (auto simp: thread_step_defs andThen_eq_Inr split: list.splits if_splits option.splits intro: put_lock)
next
  case (PutPush x)
  with assms show ?thesis by (auto simp: thread_step_defs andThen_eq_Inr split: list.splits if_splits intro: push)
next
  case (PutNotify x)
  with assms show ?thesis by (auto simp: thread_step_defs andThen_eq_Inr split: list.splits if_splits intro: notify)
next
  case PutUnlock
  with assms show ?thesis by (auto simp: thread_step_defs andThen_eq_Inr split: list.splits if_splits intro: put_unlock)
next
  case TakeLock
  with assms show ?thesis by (auto simp: thread_step_defs andThen_eq_Inr split: list.splits if_splits intro: take_lock)
next
  case (TakeTest w)
  with assms show ?thesis by (auto simp: thread_step_defs andThen_eq_Inr split: list.splits if_splits intro: test)
next
  case (TakeWait w)
  with assms show ?thesis by (auto simp: thread_step_defs andThen_eq_Inr split: list.splits if_splits intro: wait)
next
  case Asleep
  with assms show ?thesis by (auto simp: thread_step_defs andThen_eq_Inr split: list.splits if_splits intro: resume)
next
  case (TakeMove w)
  with assms show ?thesis by (auto simp: thread_step_defs andThen_eq_Inr split: list.splits if_splits intro: move)
next
  case (TakePop w v)
  with assms show ?thesis by (auto simp: thread_step_defs andThen_eq_Inr split: list.splits if_splits intro: pop)
next
  case (TakeUnlock v)
  with assms show ?thesis by (auto simp: thread_step_defs andThen_eq_Inr split: list.splits if_splits intro: take_unlock)
qed

lemma queue_step_discipline:
  assumes "queue_step t s s'"
  shows "mx s' = mx s \<and> (critical_place (place s' t) \<longleftrightarrow> critical_place (place s t))
      \<or> MutexLock_lock t (mx s) = Some (mx s') \<and> critical_place (place s' t)
      \<or> critical_place (place s t) \<and> MutexLock_unlock t (mx s) = Inr (mx s') \<and> \<not> critical_place (place s' t)"
  using assms
proof (cases rule: queue_step.cases)
  case (runs k)
  then show ?thesis by (cases rule: thread_step_cases) (simp_all add: critical_place_def)
qed (simp_all add: critical_place_def)

lemma queue_step_others:
  assumes "queue_step t s s'" "u \<noteq> t"
  shows "place s' u = place s u"
  using assms(1)
proof (cases rule: queue_step.cases)
  case (runs k)
  then show ?thesis by (cases rule: thread_step_cases) (simp_all add: assms(2))
qed (simp_all add: assms(2))

interpretation queue_section: guarded_section "mx :: 'a queue_threads \<Rightarrow> mutex" "\<lambda>s t. critical_place (place s t)"
  queue_step "\<lambda>s. s = BlockingQueue_new"
  by unfold_locales
    (erule queue_step_discipline | simp add: queue_step_others BlockingQueue_new_def MutexLock_init_def critical_place_def)+

section \<open>The threads implement the queue\<close>

text \<open>
  A \<^verbatim>\<open>put\<close> counts from its notification on, a \<^verbatim>\<open>take\<close> from its \<^verbatim>\<open>pop_front\<close> or its \<^verbatim>\<open>wait\<close>; a thread that is
  back from \<^verbatim>\<open>wait\<close> and has not got there counts as signalled.
\<close>

fun settled_at :: "'a place \<Rightarrow> 'a option list \<Rightarrow> 'a option list" where
  "settled_at (PutNotify x) q = butlast q"
| "settled_at (TakePop w v) q = v # tl q"
| "settled_at p q = q"

fun came_back :: "'a place \<Rightarrow> bool" where
  "came_back (TakeTest w) = w"
| "came_back (TakeWait w) = w"
| "came_back (TakeMove w) = w"
| "came_back (TakePop w v) = w"
| "came_back p = False"

definition holder_place :: "'a queue_threads \<Rightarrow> 'a place" where
  "holder_place s = (case mx s of None \<Rightarrow> Outside | Some h \<Rightarrow> place s h)"

definition abstract_queue :: "'a queue_threads \<Rightarrow> 'a option blocking_queue" where
  "abstract_queue s =
     \<lparr>bq_queue = settled_at (holder_place s) (deque s), bq_waiting = length (asleep (cnd s)),
      bq_signalled = length (notified (cnd s)) + of_bool (came_back (holder_place s))\<rparr>"

text \<open>What the thread inside knows of the deque, and what the places say of the condition variable.\<close>

fun place_ok :: "'a place \<Rightarrow> 'a option list \<Rightarrow> bool" where
  "place_ok (PutNotify x) q \<longleftrightarrow> q \<noteq> [] \<and> None \<notin> set q \<and> last q = Some x"
| "place_ok (TakeWait w) q \<longleftrightarrow> q = []"
| "place_ok (TakeMove w) q \<longleftrightarrow> q \<noteq> [] \<and> None \<notin> set q"
| "place_ok (TakePop w v) q \<longleftrightarrow> v \<noteq> None \<and> q \<noteq> [] \<and> None \<notin> set (tl q)"
| "place_ok (TakeUnlock v) q \<longleftrightarrow> v \<noteq> None \<and> None \<notin> set q"
| "place_ok p q \<longleftrightarrow> None \<notin> set q"

definition sleepers_ok :: "'a queue_threads \<Rightarrow> bool" where
  "sleepers_ok s \<longleftrightarrow> distinct (asleep (cnd s) @ notified (cnd s))
     \<and> (\<forall>t. place s t = Asleep \<longleftrightarrow> t \<in> set (asleep (cnd s)) \<union> set (notified (cnd s)))"

text \<open>\<open>queue_runs s ins outs\<close>: from a new queue, \<open>ins\<close> were put and \<open>outs\<close> taken, in this order.\<close>

fun puts_at :: "'a place \<Rightarrow> 'a option list" where
  "puts_at (PutNotify x) = [Some x]"
| "puts_at p = []"

fun takes_at :: "'a place \<Rightarrow> 'a option list" where
  "takes_at (TakePop w v) = [v]"
| "takes_at p = []"

inductive queue_runs :: "'a queue_threads \<Rightarrow> 'a option list \<Rightarrow> 'a option list \<Rightarrow> bool" where
  runs_new: "queue_runs BlockingQueue_new [] []"
| runs_step: "queue_runs s ins outs \<Longrightarrow> queue_step t s s' \<Longrightarrow>
    queue_runs s' (ins @ puts_at (place s t)) (outs @ takes_at (place s t))"

lemma queue_runs_reachable: "queue_runs s ins outs \<Longrightarrow> queue_section.reachable s"
  by (induction rule: queue_runs.induct)
    (auto intro: queue_section.reachable_start queue_section.reachable_step)

lemma holds:
  assumes "queue_section.reachable s" "critical_place (place s t)"
  shows "mx s = Some t" "holder_place s = place s t"
  using queue_section.critical_holds [OF assms(1), of t] assms(2) by (simp_all add: holder_place_def)

lemma outside_holder:
  assumes "queue_section.reachable s" "\<not> critical_place (place s t)"
  shows "holder_place (goto t p s) = holder_place s"
proof -
  have "mx s \<noteq> Some t" using queue_section.critical_holds [OF assms(1), of t] assms(2) by simp
  then show ?thesis by (auto simp: holder_place_def split: option.splits)
qed

lemma holder_place_cnd [simp]: "holder_place (s\<lparr>cnd := c\<rparr>) = holder_place s"
  by (simp add: holder_place_def split: option.split)

lemma sleepers_keep:
  assumes "sleepers_ok s" "place s t \<noteq> Asleep" "p \<noteq> Asleep" "cnd s' = cnd s" "place s' = place s"
  shows "sleepers_ok (goto t p s')"
  using assms by (auto simp: sleepers_ok_def goto_def)

lemma sleepers_wake:
  assumes "sleepers_ok s" "u \<in> set (asleep (cnd s))"
  shows "sleepers_ok (s\<lparr>cnd := Condition_wake u (cnd s)\<rparr>)"
  using assms by (auto simp: sleepers_ok_def Condition_wake_def)

lemma sleepers_notify:
  assumes "sleepers_ok s"
  shows "sleepers_ok (s\<lparr>cnd := Condition_notify k (cnd s)\<rparr>)"
proof (cases "asleep (cnd s) = []")
  case True
  with assms show ?thesis by (simp add: Condition_notify_def)
next
  case False
  then obtain u where "u \<in> set (asleep (cnd s))" "Condition_notify k (cnd s) = Condition_wake u (cnd s)" by (rule notify_moves)
  with sleepers_wake [OF assms] show ?thesis by simp
qed

lemma queue_step_sleepers:
  assumes "queue_step t s s'" "sleepers_ok s"
  shows "sleepers_ok s'"
  using assms(1)
proof (cases rule: queue_step.cases)
  case (runs k)
  then show ?thesis
  proof (cases rule: thread_step_cases)
    case (notify x)
    have "sleepers_ok (s\<lparr>cnd := Condition_notify k (cnd s)\<rparr>)" by (rule sleepers_notify [OF assms(2)])
    from sleepers_keep [OF this, of t PutUnlock] notify show ?thesis by simp
  next
    case (wait w)
    then have "place s t \<noteq> Asleep" by simp
    with assms(2) have "t \<notin> set (asleep (cnd s)) \<union> set (notified (cnd s))" by (auto simp: sleepers_ok_def)
    with wait assms(2) show ?thesis by (auto simp: sleepers_ok_def goto_def)
  next
    case resume
    with assms(2) show ?thesis by (auto simp: sleepers_ok_def goto_def)
  qed (use assms(2) in \<open>auto intro: sleepers_keep\<close>)
next
  case wakes
  then show ?thesis using sleepers_wake [OF assms(2)] by simp
qed (use assms(2) in \<open>auto intro: sleepers_keep\<close>)

lemma holder_place_goto:
  "mx s' = Some t \<Longrightarrow> holder_place (goto t p s') = p"
  "mx s' = None \<Longrightarrow> holder_place (goto t p s') = Outside"
  by (simp_all add: holder_place_def)

lemma queue_step_place_ok:
  assumes "queue_step t s s'" "queue_section.reachable s" "place_ok (holder_place s) (deque s)"
  shows "place_ok (holder_place s') (deque s')"
  using assms(1)
proof (cases rule: queue_step.cases)
  case calls_put
  with outside_holder [OF assms(2), of t] assms(3) show ?thesis by (simp add: critical_place_def)
next
  case calls_take
  with outside_holder [OF assms(2), of t] assms(3) show ?thesis by (simp add: critical_place_def)
next
  case wakes
  with assms(3) show ?thesis by simp
next
  case (runs k)
  note own = holds [OF assms(2), of t]
  from runs show ?thesis
    by (cases rule: thread_step_cases)
      (use own assms(3) in \<open>auto simp: holder_place_goto critical_place_def holder_place_def neq_commute [of None] simp del: not_None_eq split: if_splits\<close>)
qed

lemma notify_lengths:
  "length (asleep (Condition_notify k c)) = length (asleep c) - 1"
  "length (notified (Condition_notify k c)) = length (notified c) + of_bool (asleep c \<noteq> [])"
  by (simp_all add: Condition_notify_def Condition_wake_def length_remove1)

lemma abstract_put:
  assumes "holder_place s = PutNotify x" "place_ok (PutNotify x) (deque s)" "mx s = Some t"
  shows "abstract_queue (goto t PutUnlock (s\<lparr>cnd := Condition_notify k (cnd s)\<rparr>)) = bq_put (Some x) (abstract_queue s)"
proof -
  have "deque s = butlast (deque s) @ [Some x]"
    using assms(2) append_butlast_last_id [of "deque s"] by simp
  then show ?thesis
    using assms(1,3) by (simp add: abstract_queue_def bq_put_def bq_notify_def notify_lengths holder_place_goto)
qed

text \<open>The end of a round of \<^verbatim>\<open>take\<close>, of a thread that has not slept and of one that has.\<close>

lemma abstract_take:
  assumes "bq_runs (abstract_queue s) ins outs"
    and "bq_take_locked \<lparr>bq_queue = settled_at (holder_place s) (deque s), bq_waiting = length (asleep (cnd s)),
            bq_signalled = length (notified (cnd s))\<rparr> = (r, abstract_queue s')"
  shows "bq_runs (abstract_queue s') ins (case r of None \<Rightarrow> outs | Some x \<Rightarrow> outs @ [x])"
proof (cases "came_back (holder_place s)")
  case True
  then have "bq_resume (abstract_queue s) = Some (r, abstract_queue s')"
    using assms(2) by (simp add: bq_resume_def abstract_queue_def)
  with assms(1) show ?thesis by (rule bq_resumes)
next
  case False
  with assms(2) have "bq_take_locked (abstract_queue s) = (r, abstract_queue s')"
    by (simp add: abstract_queue_def)
  with assms(1) show ?thesis by (rule bq_enters)
qed

lemma queue_step_refines:
  assumes "queue_step t s s'" "queue_section.reachable s" "place_ok (holder_place s) (deque s)" "sleepers_ok s"
    and "bq_runs (abstract_queue s) ins outs"
  shows "bq_runs (abstract_queue s') (ins @ puts_at (place s t)) (outs @ takes_at (place s t))"
  using assms(1)
proof (cases rule: queue_step.cases)
  case calls_put
  with outside_holder [OF assms(2), of t] assms(5) show ?thesis
    by (simp add: critical_place_def abstract_queue_def)
next
  case calls_take
  with outside_holder [OF assms(2), of t] assms(5) show ?thesis
    by (simp add: critical_place_def abstract_queue_def)
next
  case wakes
  then have "0 < length (asleep (cnd s))" "place s t = Asleep" using assms(4) by (auto simp: sleepers_ok_def)
  with bq_spurious [OF assms(5)] wakes show ?thesis
    by (simp add: abstract_queue_def Condition_wake_def length_remove1)
next
  case (runs k)
  note own = holds [OF assms(2), of t]
  from runs show ?thesis
  proof (cases rule: thread_step_cases)
    case (notify x)
    with own have "holder_place s = PutNotify x" "mx s = Some t" by (simp_all add: critical_place_def)
    with abstract_put [of s x t k] assms(3) notify bq_puts [OF assms(5), of "Some x"] show ?thesis by simp
  next
    case (wait w)
    with own assms(3) have "holder_place s = TakeWait w" "deque s = []" by (simp_all add: critical_place_def)
    with abstract_take [OF assms(5), of None s'] wait show ?thesis
      by (simp add: abstract_queue_def bq_take_locked_def holder_place_goto)
  next
    case (pop w v x xs)
    with own have "holder_place s = TakePop w v" "mx s = Some t" by (simp_all add: critical_place_def)
    with abstract_take [OF assms(5), of "Some v" s'] pop show ?thesis
      by (simp add: abstract_queue_def bq_take_locked_def holder_place_goto)
  next
    case (move w x xs)
    with own have "holder_place s = TakeMove w" "mx s = Some t" by (simp_all add: critical_place_def)
    with assms(5) move show ?thesis by (simp add: abstract_queue_def holder_place_goto)
  next
    case (push x)
    with own have "holder_place s = PutPush x" "mx s = Some t" by (simp_all add: critical_place_def)
    with assms(5) push show ?thesis by (simp add: abstract_queue_def holder_place_goto)
  next
    case (test w)
    with own have "holder_place s = TakeTest w" "mx s = Some t" by (simp_all add: critical_place_def)
    with assms(5) test show ?thesis by (cases "deque s = []") (simp_all add: abstract_queue_def holder_place_goto)
  next
    case resume
    then have "0 < length (notified (cnd s))" by auto
    with assms(5) resume show ?thesis
      by (simp add: abstract_queue_def holder_place_goto holder_place_def length_remove1)
  qed (use own assms(5) in \<open>simp_all add: abstract_queue_def holder_place_goto holder_place_def critical_place_def\<close>)
qed

lemma queue_runs_refine:
  "queue_runs s ins outs \<Longrightarrow>
    place_ok (holder_place s) (deque s) \<and> sleepers_ok s \<and> bq_runs (abstract_queue s) ins outs"
proof (induction rule: queue_runs.induct)
  case runs_new
  have "abstract_queue BlockingQueue_new = (BlockingQueue_init :: 'a option blocking_queue)"
    by (simp add: abstract_queue_def BlockingQueue_new_def BlockingQueue_init_def holder_place_def MutexLock_init_def Condition_init_def)
  with bq_start show ?case
    by (simp add: BlockingQueue_new_def holder_place_def MutexLock_init_def Condition_init_def sleepers_ok_def)
next
  case (runs_step s ins outs t s')
  with queue_runs_reachable [OF runs_step.hyps(1)] show ?case
    by (blast intro: queue_step_place_ok queue_step_sleepers queue_step_refines)
qed

lemma queue_runs_elements: "queue_runs s ins outs \<Longrightarrow> None \<notin> set ins"
proof (induction rule: queue_runs.induct)
  case (runs_step s ins outs t s')
  then show ?case by (cases "place s t") auto
qed simp

text \<open>A thread in its critical section is never blocked; one that is asleep and notified, or about to enter, only by the mutex.\<close>

lemma not_critical: "\<not> critical_place p \<longleftrightarrow> p = Outside \<or> (\<exists>x. p = PutLock x) \<or> p = TakeLock \<or> p = Asleep"
  by (cases p) (simp_all add: critical_place_def)

lemma critical_runs:
  assumes "critical_place (place s t)"
  shows "thread_step t k s \<noteq> None"
  using assms by (cases "place s t") (simp_all add: thread_step_def put_step_def take_step_def critical_place_def)

lemma free_mutex_runs:
  assumes "mx s = None" "thread_step t k s = None"
  shows "place s t = Outside \<or> place s t = Asleep \<and> t \<notin> set (notified (cnd s))"
proof -
  have "\<not> critical_place (place s t)" using critical_runs [where s = s and t = t and k = k] assms(2) by argo
  then show ?thesis unfolding not_critical
  proof (elim disjE exE)
    assume "place s t = Asleep"
    with assms show ?thesis by (cases "t \<in> set (notified (cnd s))") (simp_all add: thread_step_defs)
  qed (use assms in \<open>simp_all add: thread_step_defs\<close>)
qed

text \<open>
  The destructor of the queue destroys the condition variable, then the mutex. A queue that a thread sleeps on
  cannot be destroyed; that is how the workers of a \<^verbatim>\<open>ThreadPool\<close> wait for tasks, which nothing tells to stop.
\<close>

definition BlockingQueue_dtor :: "'a queue_threads \<Rightarrow> unit result" where
  "BlockingQueue_dtor s = andThen (Condition_dtor (cnd s)) (\<lambda>_. MutexLock_dtor (mx s))"

lemma waited_on_queue_not_destroyed:
  assumes "queue_runs s ins outs" "place s t = Asleep"
  shows "BlockingQueue_dtor s = Inl MutexMisuse"
proof -
  have "t \<in> set (asleep (cnd s)) \<union> set (notified (cnd s))"
    using queue_runs_refine [OF assms(1)] assms(2) by (simp add: sleepers_ok_def)
  then show ?thesis by (auto simp: BlockingQueue_dtor_def Condition_dtor_def)
qed

section \<open>Schedules\<close>

text \<open>An interleaving as a list of threads and moves.\<close>

datatype 'a move = CallPut 'a | CallTake | Run nat | Wake

fun queue_move :: "nat \<Rightarrow> 'a move \<Rightarrow> 'a queue_threads \<Rightarrow> 'a queue_threads option" where
  "queue_move t (CallPut x) s = (case place s t of Outside \<Rightarrow> Some (goto t (PutLock x) s) | _ \<Rightarrow> None)"
| "queue_move t CallTake s = (case place s t of Outside \<Rightarrow> Some (goto t TakeLock s) | _ \<Rightarrow> None)"
| "queue_move t (Run k) s = (case thread_step t k s of Some (Inr s') \<Rightarrow> Some s' | _ \<Rightarrow> None)"
| "queue_move t Wake s = (if t \<in> set (asleep (cnd s)) then Some (s\<lparr>cnd := Condition_wake t (cnd s)\<rparr>) else None)"

fun schedule ::
  "(nat \<times> 'a move) list \<Rightarrow> 'a queue_threads \<times> 'a option list \<times> 'a option list \<Rightarrow>
     ('a queue_threads \<times> 'a option list \<times> 'a option list) option" where
  "schedule [] r = Some r"
| "schedule ((t, m) # ms) (s, ins, outs) =
     (case queue_move t m s of
        None \<Rightarrow> None
      | Some s' \<Rightarrow> schedule ms (s', ins @ puts_at (place s t), outs @ takes_at (place s t)))"

lemma queue_move_step: "queue_move t m s = Some s' \<Longrightarrow> queue_step t s s'"
  by (cases m) (auto intro: queue_step.intros split: place.splits option.splits sum.splits if_splits)

lemma schedule_runs:
  "schedule ms (s, ins, outs) = Some (s', ins', outs') \<Longrightarrow> queue_runs s ins outs \<Longrightarrow> queue_runs s' ins' outs'"
proof (induction ms arbitrary: s ins outs)
  case (Cons tm ms)
  obtain t m where tm: "tm = (t, m)" by (cases tm)
  from Cons.prems(1) obtain s1 where move: "queue_move t m s = Some s1"
    and rest: "schedule ms (s1, ins @ puts_at (place s t), outs @ takes_at (place s t)) = Some (s', ins', outs')"
    by (auto simp: tm split: option.splits)
  show ?case by (rule Cons.IH [OF rest runs_step [OF Cons.prems(2) queue_move_step [OF move]]])
qed simp

lemma schedule_others:
  "schedule ms (s, ins, outs) = Some (s', ins', outs') \<Longrightarrow> u \<notin> fst ` set ms \<Longrightarrow> place s' u = place s u"
proof (induction ms arbitrary: s ins outs)
  case (Cons tm ms)
  then show ?case
    by (cases tm) (auto split: option.splits dest!: queue_move_step queue_step_others [of _ _ _ u])
qed simp

text \<open>
  Thread 1 comes first and sleeps; 2 puts an element; before the sleeper has the mutex again, 3 takes the element; 1 is
  back, finds the queue empty and sleeps again.
\<close>

definition demo_moves :: "(nat \<times> nat move) list" where
  "demo_moves = (1, CallTake) # replicate 3 (1, Run 0) @ (2, CallPut 5) # replicate 4 (2, Run 0)
     @ (3, CallTake) # replicate 5 (3, Run 0) @ replicate 3 (1, Run 0)"

definition demo_queue :: "nat queue_threads \<times> nat option list \<times> nat option list" where
  "demo_queue = the (schedule demo_moves (BlockingQueue_new, [], []))"

lemma demo_queue_ends:
  "schedule demo_moves (BlockingQueue_new, [], []) = Some demo_queue"
  "mx (fst demo_queue) = None" "asleep (cnd (fst demo_queue)) = [1]" "notified (cnd (fst demo_queue)) = []"
  "fst (snd demo_queue) = [Some 5]" "snd (snd demo_queue) = [Some 5]"
  "place (fst demo_queue) 1 = Asleep" "place (fst demo_queue) 2 = Outside" "place (fst demo_queue) 3 = Outside"
proof -
  have "schedule demo_moves (BlockingQueue_new, [], []) \<noteq> None" by code_simp
  then show "schedule demo_moves (BlockingQueue_new, [], []) = Some demo_queue" by (auto simp: demo_queue_def)
qed code_simp+

lemma demo_queue_runs: "queue_runs (fst demo_queue) [Some 5] [Some 5]"
  using schedule_runs [of demo_moves BlockingQueue_new "[]" "[]" "fst demo_queue" "[Some 5]" "[Some 5]"] runs_new
    demo_queue_ends(1,5,6) by (metis prod.collapse)

section \<open>Properties\<close>

text \<open>C33:
  The blocking queue, under any interleaving of the statements of producers and consumers and with spurious wakeups, hands
  out what was put, each element once and in order, never one that has been moved from; what is left is in the deque.
\<close>

theorem blocking_queue_threads:
  assumes "queue_runs s ins outs"
  shows "\<exists>rest. ins = outs @ rest \<and> None \<notin> set ins \<and> (mx s = None \<longrightarrow> deque s = rest)"
proof -
  from queue_runs_refine [OF assms] bq_runs_inv have "ins = outs @ bq_queue (abstract_queue s)" by blast
  moreover have "mx s = None \<Longrightarrow> bq_queue (abstract_queue s) = deque s"
    by (simp add: abstract_queue_def holder_place_def)
  ultimately show ?thesis using queue_runs_elements [OF assms]
    by (intro exI [of _ "bq_queue (abstract_queue s)"]) simp
qed

lemma blocking_queue_threads_witness:
  "schedule demo_moves (BlockingQueue_new, [], []) = Some demo_queue \<and> snd demo_queue = ([Some 5], [Some 5])
   \<and> deque (fst demo_queue) = []"
proof -
  from blocking_queue_threads [OF demo_queue_runs] demo_queue_ends(2) have "deque (fst demo_queue) = []" by auto
  then show ?thesis by (simp add: demo_queue_ends prod_eq_iff)
qed

text \<open>
  No statement of the queue can fault: the guard's destructor releases the mutex its thread holds, \<^verbatim>\<open>wait\<close> is called with
  the mutex held, and \<^verbatim>\<open>front()\<close> and \<^verbatim>\<open>pop_front()\<close> meet an element.
\<close>

theorem blocking_queue_never_faults:
  assumes "queue_runs s ins outs"
  shows "thread_step t k s \<noteq> Some (Inl f)"
proof
  assume fault: "thread_step t k s = Some (Inl f)"
  then have "critical_place (place s t)"
    by (cases "place s t") (auto simp: thread_step_defs split: if_splits option.splits)
  note own = holds [OF queue_runs_reachable [OF assms] this]
  from queue_runs_refine [OF assms] have "place_ok (place s t) (deque s)" using own(2) by simp
  with own(1) fault show False
    by (cases "place s t") (auto simp: thread_step_defs neq_Nil_conv split: if_splits option.splits)
qed

lemma blocking_queue_never_faults_witness:
  "\<exists>s. queue_runs s [Some (5 :: nat)] [Some 5] \<and> place s 1 = Asleep \<and> thread_step 1 0 s \<noteq> Some (Inl MutexMisuse)"
  using blocking_queue_never_faults [OF demo_queue_runs, of 1 0 MutexMisuse] demo_queue_runs demo_queue_ends(7) by blast

text \<open>C34:
  The queue cannot deadlock and loses no wakeup: if no thread inside it can make a step, then every one of them sleeps
  in \<^verbatim>\<open>take\<close>, the mutex is free and the queue is empty.
\<close>

theorem blocking_queue_progress:
  assumes "queue_runs s ins outs" "place s u \<noteq> Outside" "\<forall>t k. thread_step t k s = None"
  shows "mx s = None \<and> deque s = [] \<and> (\<forall>t. place s t \<noteq> Outside \<longrightarrow> t \<in> set (asleep (cnd s)))"
proof -
  note inv = queue_runs_refine [OF assms(1)]
  have free: "mx s = None"
  proof (cases "mx s")
    case (Some h)
    then have "critical_place (place s h)"
      using queue_section.critical_holds [OF queue_runs_reachable [OF assms(1)], of h] by simp
    with critical_runs assms(3) show ?thesis by blast
  qed simp
  have sleep: "place s t \<noteq> Outside \<Longrightarrow> t \<in> set (asleep (cnd s)) \<and> t \<notin> set (notified (cnd s))" for t
    using free_mutex_runs [OF free, of t] assms(3) inv by (auto simp: sleepers_ok_def)
  have "notified (cnd s) = []"
  proof (rule ccontr)
    assume "notified (cnd s) \<noteq> []"
    then obtain t where t: "t \<in> set (notified (cnd s))" by fastforce
    then have "place s t = Asleep" using inv by (simp add: sleepers_ok_def)
    with sleep [of t] t show False by simp
  qed
  then have "bq_signalled (abstract_queue s) = 0" "bq_queue (abstract_queue s) = deque s"
    using free by (simp_all add: abstract_queue_def holder_place_def)
  moreover have "0 < bq_waiting (abstract_queue s)"
    using sleep [OF assms(2)] by (auto simp: abstract_queue_def)
  ultimately have "deque s = []" using bq_runs_inv [of "abstract_queue s"] inv by force
  with free sleep show ?thesis by blast
qed

lemma blocking_queue_progress_witness:
  "mx (fst demo_queue) = None \<and> deque (fst demo_queue) = [] \<and> 1 \<in> set (asleep (cnd (fst demo_queue)))"
proof -
  let ?s = "fst demo_queue"
  have "schedule demo_moves (BlockingQueue_new, [], []) = Some (?s, fst (snd demo_queue), snd (snd demo_queue))"
    by (simp add: demo_queue_ends(1))
  moreover have "fst ` set demo_moves = {1, 2, 3}" by code_simp
  ultimately have others: "u \<notin> {1, 2, 3} \<Longrightarrow> place ?s u = Outside" for u
    using schedule_others [of demo_moves BlockingQueue_new "[]" "[]" ?s "fst (snd demo_queue)" "snd (snd demo_queue)" u]
    by (simp add: BlockingQueue_new_def)
  have places: "place ?s u = (if u = 1 then Asleep else Outside)" for u
    using demo_queue_ends(7-9) others [of u] by (cases "u \<in> {1, 2, 3}") auto
  have blocked: "\<forall>t k. thread_step t k ?s = None"
    by (simp add: thread_step_defs places demo_queue_ends)
  have "place ?s 1 \<noteq> Outside" by (simp add: places)
  from blocking_queue_progress [OF demo_queue_runs this blocked] \<open>place ?s 1 \<noteq> Outside\<close> show ?thesis by blast
qed

end
