(* ===== verification/EventLoopThread.thy ===== *)
theory EventLoopThread
  imports Threads EventLoop EventLoopThreadPool
begin

text \<open>
  \<^verbatim>\<open>simplifyMuduo/src/EventLoopThread.cc\<close> and the destructor of \<^verbatim>\<open>src/EventLoopThreadPool.cc\<close>: how the owner of
  a loop thread and the thread itself hand over the loop, and how the owner gets rid of both. \<open>elt_step\<close> is the start;
  \<open>lt_step\<close> is the life of the object up to its destructor, with the loop of \<^verbatim>\<open>EventLoop\<close> on the thread's stack. The
  lemmas show that the start cannot miss its notification, that a destructor called while the loop sleeps
  returns, and which destructor calls touch a loop that is gone, that of \<^verbatim>\<open>EventLoopThreadTest.cc\<close> among them.
\<close>

section \<open>Starting\<close>

text \<open>Where the caller of \<^verbatim>\<open>startLoop\<close> and the new thread are; the loop is named by a number.\<close>

datatype starter = BeforeStart | BeforeTest | Waiting | Signalled | AfterLoop | Returned "nat option"
datatype io_thread = NotCreated | Constructing | Publishing nat | Looping nat

record event_loop_thread =
  elt_loop :: "nat option"
  starter :: starter
  io_thread :: io_thread

definition EventLoopThread_init :: event_loop_thread where
  "EventLoopThread_init = \<lparr>elt_loop = None, starter = BeforeStart, io_thread = NotCreated\<rparr>"

text \<open>
  \<open>startLoop\<close>: the thread is created (or not), then \<open>_loop\<close> is tested under the mutex until it is set. A \<^verbatim>\<open>wait\<close> ends when it
  has been notified or, if \<open>spurious\<close>, at any time, and the test is made again; what is returned is whatever \<open>_loop\<close> holds behind the
  loop. The new thread publishes its loop and notifies in one critical section.
\<close>

inductive elt_step :: "bool \<Rightarrow> event_loop_thread \<Rightarrow> event_loop_thread \<Rightarrow> bool" for spurious where
  create: "starter e = BeforeStart \<Longrightarrow> elt_step spurious e (e\<lparr>starter := BeforeTest, io_thread := Constructing\<rparr>)"
| create_fails: "starter e = BeforeStart \<Longrightarrow> elt_step spurious e (e\<lparr>starter := BeforeTest\<rparr>)"
| test_null: "starter e = BeforeTest \<Longrightarrow> elt_loop e = None \<Longrightarrow> elt_step spurious e (e\<lparr>starter := Waiting\<rparr>)"
| test_set: "starter e = BeforeTest \<Longrightarrow> elt_loop e \<noteq> None \<Longrightarrow> elt_step spurious e (e\<lparr>starter := AfterLoop\<rparr>)"
| notified: "starter e = Signalled \<Longrightarrow> elt_step spurious e (e\<lparr>starter := BeforeTest\<rparr>)"
| spurious_return: "spurious \<Longrightarrow> starter e = Waiting \<Longrightarrow> elt_step spurious e (e\<lparr>starter := BeforeTest\<rparr>)"
| returns: "starter e = AfterLoop \<Longrightarrow> elt_step spurious e (e\<lparr>starter := Returned (elt_loop e)\<rparr>)"
| construct: "io_thread e = Constructing \<Longrightarrow> elt_step spurious e (e\<lparr>io_thread := Publishing l\<rparr>)"
| publish: "io_thread e = Publishing l \<Longrightarrow>
    elt_step spurious e (e\<lparr>elt_loop := Some l, starter := (if starter e = Waiting then Signalled else starter e),
                 io_thread := Looping l\<rparr>)"

inductive_cases elt_stepE: "elt_step spurious e e'"

text \<open>The reachable states include those behind spurious returns.\<close>

inductive elt_reach :: "event_loop_thread \<Rightarrow> bool" where
  elt_init: "elt_reach EventLoopThread_init"
| elt_next: "elt_reach e \<Longrightarrow> elt_step True e e' \<Longrightarrow> elt_reach e'"

definition elt_inv :: "event_loop_thread \<Rightarrow> bool" where
  "elt_inv e \<longleftrightarrow>
     (elt_loop e = (case io_thread e of Looping l \<Rightarrow> Some l | _ \<Rightarrow> None))
     \<and> (starter e = Waiting \<longrightarrow> elt_loop e = None)
     \<and> (starter e = Signalled \<or> starter e = AfterLoop \<longrightarrow> elt_loop e \<noteq> None)
     \<and> (\<forall>r. starter e = Returned r \<longrightarrow> elt_loop e = r \<and> r \<noteq> None)
     \<and> (starter e = BeforeStart \<longrightarrow> io_thread e = NotCreated)"

lemma elt_step_inv: "elt_inv e \<Longrightarrow> elt_step spurious e e' \<Longrightarrow> elt_inv e'"
  by (erule elt_stepE) (auto simp: elt_inv_def split: io_thread.splits if_splits)

lemma elt_reach_inv: "elt_reach e \<Longrightarrow> elt_inv e"
proof (induction rule: elt_reach.induct)
  case elt_init
  then show ?case by (simp add: EventLoopThread_init_def elt_inv_def)
qed (blast intro: elt_step_inv)

lemma elt_inv_returned:
  "elt_inv e \<Longrightarrow> starter e = Returned r \<Longrightarrow> \<exists>l. r = Some l \<and> elt_loop e = Some l \<and> io_thread e = Looping l"
  by (auto simp: elt_inv_def split: io_thread.splits)

text \<open>Whoever has returned stays so, and the thread is through with its start.\<close>

lemma elt_returned_stuck: "elt_inv e \<Longrightarrow> starter e = Returned r \<Longrightarrow> \<not> elt_step spurious e e'"
  by (auto simp: elt_inv_def split: io_thread.splits elim!: elt_stepE)

text \<open>How many steps the start has left at most, without spurious returns.\<close>

definition elt_left :: "event_loop_thread \<Rightarrow> nat" where
  "elt_left e =
     (case starter e of BeforeStart \<Rightarrow> 14 | Signalled \<Rightarrow> 4 | BeforeTest \<Rightarrow> 3 | Waiting \<Rightarrow> 2 | AfterLoop \<Rightarrow> 1 | Returned r \<Rightarrow> 0)
     + (case io_thread e of NotCreated \<Rightarrow> 0 | Constructing \<Rightarrow> 6 | Publishing l \<Rightarrow> 5 | Looping l \<Rightarrow> 0)"

lemma elt_left_decreases: "elt_inv e \<Longrightarrow> elt_step False e e' \<Longrightarrow> elt_left e' < elt_left e"
  by (erule elt_stepE) (auto simp: elt_left_def elt_inv_def split: starter.splits io_thread.splits)

text \<open>A thread that was not created never comes to be, and without it nothing is returned.\<close>

lemma elt_never_returns:
  assumes "(elt_step spurious)\<^sup>*\<^sup>* e e'" "elt_inv e" "io_thread e = NotCreated" "starter e \<noteq> BeforeStart"
  shows "elt_inv e' \<and> io_thread e' = NotCreated \<and> starter e' \<noteq> BeforeStart \<and> starter e' \<noteq> Returned r"
  using assms
proof (induction rule: rtranclp_induct)
  case base
  then show ?case by (auto dest: elt_inv_returned)
next
  case (step e1 e2)
  then have "elt_inv e2" by (blast intro: elt_step_inv)
  with step show ?case by (auto dest: elt_inv_returned elim!: elt_stepE)
qed

section \<open>The life of a loop thread\<close>

text \<open>Where the owner's thread is in the destructor.\<close>

datatype owner = Alive | QuitCalled | Joining | Destroyed

text \<open>\<open>gone\<close>: \<^verbatim>\<open>threadFunc\<close> has returned, and the loop on its stack is destroyed.\<close>

record 'f loop_thread =
  elt :: event_loop_thread
  sys :: "'f system"
  gone :: bool
  owner :: owner

definition loop_thread_new :: "'f loop_thread" where
  "loop_thread_new = \<lparr>elt = EventLoopThread_init, sys = loop_start EventLoop_init, gone = False, owner = Alive\<rparr>"

text \<open>
  The loop object \<open>_loop\<close> points to, as long as there is one; the others have the pointer from \<^verbatim>\<open>startLoop\<close>. The operations called
  from outside the loop's thread, \<^verbatim>\<open>quit\<close> and \<^verbatim>\<open>queueInLoop\<close>, reach it twice: for their change and for the \<^verbatim>\<open>wakeup\<close> behind it.
\<close>

definition loop_object :: "'f loop_thread \<Rightarrow> 'f event_loop result" where
  "loop_object s =
     (case elt_loop (elt s) of None \<Rightarrow> Inl NullDeref | Some l \<Rightarrow> if gone s then Inl UseAfterFree else Inr (ev (sys s)))"

definition quit_sets_flag :: "'f loop_thread \<Rightarrow> 'f loop_thread result" where
  "quit_sets_flag s = andThen (loop_object s) (\<lambda>l.
     Inr (s\<lparr>sys := (sys s)\<lparr>ev := l\<lparr>quit_flag := True\<rparr>, wakers := wakers (sys s) + 1\<rparr>\<rparr>))"

definition queue_pushes :: "'f \<Rightarrow> 'f loop_thread \<Rightarrow> 'f loop_thread result" where
  "queue_pushes f s = andThen (loop_object s) (\<lambda>l.
     Inr (s\<lparr>sys := (sys s)\<lparr>ev := push_functor f l, wakers := wakers (sys s) + 1\<rparr>\<rparr>))"

definition call_wakes :: "'f loop_thread \<Rightarrow> 'f loop_thread result" where
  "call_wakes s = andThen (loop_object s) (\<lambda>l.
     Inr (s\<lparr>sys := (sys s)\<lparr>ev := wakeup l, wakers := wakers (sys s) - 1\<rparr>\<rparr>))"

text \<open>
  The next statement of the destructor: the two halves of \<^verbatim>\<open>_loop->quit()\<close>, then \<^verbatim>\<open>_thread.join()\<close>. \<open>None\<close>: the owner's thread is
  still in \<^verbatim>\<open>startLoop\<close>, waits for the other thread to end, or is through.
\<close>

definition outside_startLoop :: "event_loop_thread \<Rightarrow> bool" where
  "outside_startLoop e = (case starter e of BeforeStart \<Rightarrow> True | Returned r \<Rightarrow> True | _ \<Rightarrow> False)"

definition dtor_next :: "'f loop_thread \<Rightarrow> 'f loop_thread result option" where
  "dtor_next s =
     (case owner s of
        Alive \<Rightarrow>
          if outside_startLoop (elt s) then Some (andThen (quit_sets_flag s) (\<lambda>s1. Inr (s1\<lparr>owner := QuitCalled\<rparr>))) else None
      | QuitCalled \<Rightarrow> Some (andThen (call_wakes s) (\<lambda>s1. Inr (s1\<lparr>owner := Joining\<rparr>)))
      | Joining \<Rightarrow> if gone s then Some (Inr (s\<lparr>owner := Destroyed\<rparr>)) else None
      | Destroyed \<Rightarrow> None)"

text \<open>
  \<open>busy\<close> says whether there is anything but the owner and the loop: I/O on the loop's channels, and other threads that
  queue functors in the loop or quit it.
\<close>

inductive lt_step :: "('f \<Rightarrow> 'f action list) \<Rightarrow> bool \<Rightarrow> 'f loop_thread \<Rightarrow> 'f loop_thread result \<Rightarrow> bool" for body busy where
  starts: "owner s = Alive \<Longrightarrow> elt_step True (elt s) e \<Longrightarrow> lt_step body busy s (Inr (s\<lparr>elt := e\<rparr>))"
| loops_on: "io_thread (elt s) = Looping l \<Longrightarrow> \<not> gone s \<Longrightarrow> busy \<or> io = [] \<Longrightarrow> loop_step body io (sys s) = Some y \<Longrightarrow>
    lt_step body busy s (Inr (s\<lparr>sys := y\<rparr>))"
| loop_ends: "io_thread (elt s) = Looping l \<Longrightarrow> \<not> gone s \<Longrightarrow> at (sys s) = Stopped \<Longrightarrow>
    lt_step body busy s (Inr (s\<lparr>gone := True\<rparr>))"
| other_queues: "busy \<Longrightarrow> starter (elt s) = Returned r \<Longrightarrow> lt_step body busy s (queue_pushes f s)"
| other_quits: "busy \<Longrightarrow> starter (elt s) = Returned r \<Longrightarrow> lt_step body busy s (quit_sets_flag s)"
| other_wakes: "busy \<Longrightarrow> (if owner s = QuitCalled then 1 else 0) < wakers (sys s) \<Longrightarrow> lt_step body busy s (call_wakes s)"
| dtor_steps: "dtor_next s = Some r \<Longrightarrow> lt_step body busy s r"

inductive_cases lt_stepE: "lt_step body busy s r"

inductive lt_reach :: "('f \<Rightarrow> 'f action list) \<Rightarrow> bool \<Rightarrow> 'f loop_thread \<Rightarrow> 'f loop_thread \<Rightarrow> bool" for body busy s where
  lt_here: "lt_reach body busy s s"
| lt_next: "lt_reach body busy s s1 \<Longrightarrow> lt_step body busy s1 (Inr s2) \<Longrightarrow> lt_reach body busy s s2"

lemma lt_reach_trans: "lt_reach body busy s s2 \<Longrightarrow> lt_reach body busy s1 s \<Longrightarrow> lt_reach body busy s1 s2"
  by (induction rule: lt_reach.induct) (auto intro: lt_next)

lemma quit_sets_flag_Inr: "quit_sets_flag s = Inr s' \<longleftrightarrow> elt_loop (elt s) \<noteq> None \<and> \<not> gone s
    \<and> s' = s\<lparr>sys := (sys s)\<lparr>ev := (ev (sys s))\<lparr>quit_flag := True\<rparr>, wakers := wakers (sys s) + 1\<rparr>\<rparr>"
  by (auto simp: quit_sets_flag_def loop_object_def split: option.splits if_splits)

lemma queue_pushes_Inr: "queue_pushes f s = Inr s' \<longleftrightarrow> elt_loop (elt s) \<noteq> None \<and> \<not> gone s
    \<and> s' = s\<lparr>sys := (sys s)\<lparr>ev := push_functor f (ev (sys s)), wakers := wakers (sys s) + 1\<rparr>\<rparr>"
  by (auto simp: queue_pushes_def loop_object_def split: option.splits if_splits)

lemma call_wakes_Inr: "call_wakes s = Inr s' \<longleftrightarrow> elt_loop (elt s) \<noteq> None \<and> \<not> gone s
    \<and> s' = s\<lparr>sys := (sys s)\<lparr>ev := wakeup (ev (sys s)), wakers := wakers (sys s) - 1\<rparr>\<rparr>"
  by (auto simp: call_wakes_def loop_object_def split: option.splits if_splits)

lemmas calls_Inr = quit_sets_flag_Inr queue_pushes_Inr call_wakes_Inr

text \<open>
  The invariants of the loop and of the start hold throughout; a destructor that is under way has found the flag's loop, and its
  own \<^verbatim>\<open>wakeup\<close> is among the pending ones.
\<close>

definition life_ok :: "'f loop_thread \<Rightarrow> bool" where
  "life_ok s \<longleftrightarrow> system_inv (sys s) \<and> elt_inv (elt s)
     \<and> (owner s \<noteq> Alive \<longrightarrow> elt_loop (elt s) \<noteq> None \<and> starter (elt s) = Returned (elt_loop (elt s)))
     \<and> (owner s = QuitCalled \<longrightarrow> 0 < wakers (sys s) \<and> quit_flag (ev (sys s)))"

lemma loop_step_wakers: "loop_step body io s = Some s' \<Longrightarrow> wakers s' = wakers s"
  by (auto simp: loop_step.simps swap_functors_def split: position.splits list.splits if_splits)

lemma loop_step_quits: "loop_step body io s = Some s' \<Longrightarrow> quit_flag (ev s) \<Longrightarrow> quit_flag (ev s')"
  by (auto simp: loop_step.simps swap_functors_def EventLoop_handleRead_def call_functor_def
      loop_action_quits loop_actions_quit split: position.splits list.splits if_splits)

lemma outside_set: "elt_inv e \<Longrightarrow> outside_startLoop e \<Longrightarrow> elt_loop e \<noteq> None \<Longrightarrow> starter e = Returned (elt_loop e)"
  by (auto simp: outside_startLoop_def elt_inv_def split: starter.splits)

lemma dtor_next_ok:
  assumes "dtor_next s = Some (Inr s')" "life_ok s"
  shows "life_ok s'"
proof -
  note inv = assms(2) [unfolded life_ok_def]
  have other: "system_inv y" if "system_step body (sys s) y" for y body
    using inv that by (blast intro: system_step_inv)
  show ?thesis
  proof (cases "owner s")
    case Alive
    with assms(1) inv other [OF by_other_quit] show ?thesis
      by (auto simp: dtor_next_def res_simps calls_Inr life_ok_def outside_set split: if_splits)
  next
    case QuitCalled
    with assms(1) inv other [OF by_other_wakeup] show ?thesis
      by (auto simp: dtor_next_def res_simps calls_Inr life_ok_def split: if_splits)
  qed (use assms inv in \<open>auto simp: dtor_next_def life_ok_def split: if_splits\<close>)
qed

lemma lt_step_ok:
  assumes "lt_step body busy s r" "r = Inr s'" "life_ok s"
  shows "life_ok s'"
proof -
  note inv = assms(3) [unfolded life_ok_def]
  have other: "system_inv y" if "system_step body (sys s) y" for y
    using inv that by (blast intro: system_step_inv)
  from assms(1) show ?thesis
  proof (cases rule: lt_step.cases)
    case (starts e)
    with assms(2) inv show ?thesis by (auto simp: life_ok_def intro: elt_step_inv)
  next
    case (loops_on l io y)
    with assms(2) inv show ?thesis by (auto simp: life_ok_def loop_step_wakers intro: loop_step_inv loop_step_quits)
  next
    case (other_queues l f)
    with assms(2) inv other [OF by_other_queue] show ?thesis by (auto simp: life_ok_def calls_Inr)
  next
    case (other_quits l)
    with assms(2) inv other [OF by_other_quit] show ?thesis by (auto simp: life_ok_def calls_Inr)
  next
    case other_wakes
    then have wakes: "call_wakes s = Inr s'" "0 < wakers (sys s)" using assms(2) by simp_all
    then have "system_inv (sys s')" using other [OF by_other_wakeup] by (auto simp: calls_Inr)
    with wakes other_wakes(3) inv show ?thesis by (auto simp: life_ok_def calls_Inr split: if_splits)
  next
    case dtor_steps
    with assms(2,3) show ?thesis by (auto intro: dtor_next_ok)
  qed (use assms(2) inv in \<open>auto simp: life_ok_def\<close>)
qed

lemma lt_reach_ok: "lt_reach body busy s s' \<Longrightarrow> life_ok s \<Longrightarrow> life_ok s'"
  by (induction rule: lt_reach.induct) (auto intro: lt_step_ok)

lemma loop_thread_new_ok: "life_ok loop_thread_new"
  by (simp add: life_ok_def loop_thread_new_def loop_start_def EventLoop_init_def system_inv_def elt_reach_inv elt_init)

text \<open>What can happen without others can happen with them.\<close>

lemma lt_step_busy: "lt_step body False s r \<Longrightarrow> lt_step body True s r"
  by (erule lt_step.cases) (auto intro: lt_step.intros)

lemma lt_reach_busy: "lt_reach body False s s' \<Longrightarrow> lt_reach body True s s'"
  by (induction rule: lt_reach.induct) (auto intro: lt_here lt_next lt_step_busy)

section \<open>The destructor of a quiet loop thread\<close>

text \<open>Where a destructor can be that was called while the loop slept and nobody else was using it.\<close>

definition asleep_loop :: "'f loop_thread \<Rightarrow> bool" where
  "asleep_loop s \<longleftrightarrow> \<not> gone s \<and> at (sys s) = AtPoll \<and> eventfd_count (ev (sys s)) = 0"

definition quiet_end :: "'f loop_thread \<Rightarrow> bool" where
  "quiet_end s \<longleftrightarrow> system_inv (sys s) \<and> (\<exists>l. starter (elt s) = Returned (Some l) \<and> io_thread (elt s) = Looping l \<and> elt_loop (elt s) = Some l)
     \<and> (case owner s of
          Alive \<Rightarrow> asleep_loop s \<and> wakers (sys s) = 0
        | QuitCalled \<Rightarrow> asleep_loop s \<and> wakers (sys s) = 1 \<and> quit_flag (ev (sys s))
        | Joining \<Rightarrow> wakers (sys s) = 0 \<and> quit_flag (ev (sys s))
        | Destroyed \<Rightarrow> gone s)"

lemma asleep_loop_blocked: "asleep_loop s \<Longrightarrow> loop_step body [] (sys s) = None"
  by (simp add: asleep_loop_def loop_step.simps)

lemma quiet_dtor:
  assumes "quiet_end s" "dtor_next s = Some r"
  shows "\<exists>s'. r = Inr s' \<and> quiet_end s'"
proof -
  from assms(1) obtain l where q: "system_inv (sys s)" "starter (elt s) = Returned (Some l)" "elt_loop (elt s) = Some l"
    by (auto simp: quiet_end_def)
  show ?thesis
  proof (cases "owner s")
    case Alive
    with assms q system_step_inv [OF q(1) by_other_quit] show ?thesis
      by (auto simp: dtor_next_def outside_startLoop_def quit_sets_flag_def loop_object_def quiet_end_def asleep_loop_def)
  next
    case QuitCalled
    with assms q system_step_inv [OF q(1) by_other_wakeup] show ?thesis
      by (auto simp: dtor_next_def call_wakes_def loop_object_def quiet_end_def asleep_loop_def)
  qed (use assms q in \<open>auto simp: dtor_next_def quiet_end_def split: if_splits\<close>)
qed

lemma quiet_step:
  assumes "lt_step body False s r" "quiet_end s"
  shows "\<exists>s'. r = Inr s' \<and> quiet_end s'"
proof -
  from assms(2) obtain l where q: "system_inv (sys s)" "starter (elt s) = Returned (Some l)" "io_thread (elt s) = Looping l"
    "elt_loop (elt s) = Some l" by (auto simp: quiet_end_def)
  from assms(1) show ?thesis
  proof (cases rule: lt_step.cases)
    case (starts e)
    with q show ?thesis by (auto elim!: elt_stepE)
  next
    case (loops_on l' io y)
    then have step: "loop_step body [] (sys s) = Some y" by simp
    then have "\<not> asleep_loop s" using asleep_loop_blocked [of s body] by auto
    moreover have "system_inv y" "wakers y = wakers (sys s)" "quit_flag (ev (sys s)) \<Longrightarrow> quit_flag (ev y)"
      using q(1) step by (auto intro: loop_step_inv loop_step_quits simp: loop_step_wakers)
    ultimately show ?thesis
      using loops_on(1,2,3) assms(2) by (auto simp: quiet_end_def split: owner.splits)
  next
    case (loop_ends l')
    then show ?thesis using assms(2) by (auto simp: quiet_end_def asleep_loop_def split: owner.splits)
  next
    case dtor_steps
    with quiet_dtor [OF assms(2)] show ?thesis by blast
  qed simp_all
qed

lemma loops_reach:
  "loop_steps body n (sys s) = Some y \<Longrightarrow> io_thread (elt s) = Looping l \<Longrightarrow> \<not> gone s \<Longrightarrow>
    lt_reach body False s (s\<lparr>sys := y\<rparr>)"
proof (induction n arbitrary: s)
  case 0
  then have "s\<lparr>sys := y\<rparr> = s" by simp
  then show ?case by (metis lt_here)
next
  case (Suc n)
  then obtain x where x: "loop_step body [] (sys s) = Some x" "loop_steps body n x = Some y" by (auto split: option.splits)
  have step: "lt_step body False s (Inr (s\<lparr>sys := x\<rparr>))"
    by (rule loops_on [where io = "[]" and l = l, OF Suc.prems(2,3) _ x(1)]) simp
  have "lt_reach body False (s\<lparr>sys := x\<rparr>) (s\<lparr>sys := x, sys := y\<rparr>)"
    using Suc.prems by (intro Suc.IH) (simp_all add: x(2))
  with lt_next [OF lt_here step] show ?case by (auto intro: lt_reach_trans)
qed

lemma joining_ends:
  assumes "quiet_end s" "owner s = Joining"
  shows "\<exists>s'. lt_reach body False s s' \<and> owner s' = Destroyed"
proof -
  from assms obtain l where l: "io_thread (elt s) = Looping l" and q: "system_inv (sys s)" "quit_flag (ev (sys s))" "wakers (sys s) = 0"
    by (auto simp: quiet_end_def)
  have join: "\<exists>s'. lt_reach body False s1 s' \<and> owner s' = Destroyed" if "owner s1 = Joining" "gone s1" for s1 :: "'a loop_thread"
    using lt_next [OF lt_here dtor_steps, of s1 "s1\<lparr>owner := Destroyed\<rparr>"] that by (fastforce simp: dtor_next_def)
  show ?thesis
  proof (cases "gone s")
    case True
    with join assms(2) show ?thesis by blast
  next
    case False
    from quit_stops [OF q] obtain n y where y: "loop_steps body n (sys s) = Some y" "at y = Stopped" by blast
    let ?s1 = "s\<lparr>sys := y\<rparr>" and ?s2 = "s\<lparr>sys := y, gone := True\<rparr>"
    have "lt_step body False ?s1 (Inr (?s1\<lparr>gone := True\<rparr>))"
      using l False y(2) by (intro loop_ends) simp_all
    then have "lt_reach body False s ?s2" using lt_next [OF loops_reach [OF y(1) l False]] by simp
    moreover have "\<exists>s'. lt_reach body False ?s2 s' \<and> owner s' = Destroyed" using assms(2) by (intro join) simp_all
    ultimately show ?thesis by (blast intro: lt_reach_trans)
  qed
qed

lemma quit_called_ends:
  assumes "quiet_end s" "owner s = QuitCalled"
  shows "\<exists>s'. lt_reach body False s s' \<and> owner s' = Destroyed"
proof -
  have "\<not> gone s" "elt_loop (elt s) \<noteq> None" using assms by (auto simp: quiet_end_def asleep_loop_def)
  then obtain s1 where next_: "dtor_next s = Some (Inr s1)" "owner s1 = Joining"
    using assms(2) by (auto simp: dtor_next_def call_wakes_def loop_object_def)
  with quiet_dtor [OF assms(1)] have "quiet_end s1" by blast
  then have "\<exists>s'. lt_reach body False s1 s' \<and> owner s' = Destroyed" using next_(2) by (rule joining_ends)
  with lt_next [OF lt_here dtor_steps [OF next_(1)]] show ?thesis by (blast intro: lt_reach_trans)
qed

lemma quiet_ends:
  assumes "quiet_end s"
  shows "\<exists>s'. lt_reach body False s s' \<and> owner s' = Destroyed"
proof (cases "owner s")
  case Alive
  with assms obtain s1 where next_: "dtor_next s = Some (Inr s1)" "owner s1 = QuitCalled"
    by (auto simp: dtor_next_def outside_startLoop_def quit_sets_flag_def loop_object_def quiet_end_def asleep_loop_def)
  with quiet_dtor [OF assms] have "quiet_end s1" by blast
  then have "\<exists>s'. lt_reach body False s1 s' \<and> owner s' = Destroyed" using next_(2) by (rule quit_called_ends)
  with lt_next [OF lt_here dtor_steps [OF next_(1)]] show ?thesis by (blast intro: lt_reach_trans)
next
  case Destroyed
  then show ?thesis by (blast intro: lt_here)
qed (use assms quit_called_ends joining_ends in blast)+

lemma quiet_reach: "lt_reach body False s s' \<Longrightarrow> quiet_end s \<Longrightarrow> quiet_end s'"
  by (induction rule: lt_reach.induct) (use quiet_step in fastforce)+

lemma sleeping_quiet:
  assumes "life_ok s" "owner s = Alive" "starter (elt s) = Returned l" "\<not> gone s" "at (sys s) = AtPoll"
    and "loop_step body [] (sys s) = None" "wakers (sys s) = 0"
  shows "quiet_end s"
proof -
  have "\<exists>k. l = Some k \<and> elt_loop (elt s) = Some k \<and> io_thread (elt s) = Looping k"
    using assms(1,3) by (intro elt_inv_returned) (simp_all add: life_ok_def)
  with assms show ?thesis
    by (auto simp: quiet_end_def life_ok_def asleep_loop_def loop_step.simps split: if_splits)
qed

section \<open>The destructor of the pool\<close>

text \<open>
  \<^verbatim>\<open>vector::erase\<close> invalidates the iterator it is given; the loop compares and erases with it again. \<open>None\<close> is an
  iterator that is no longer valid; \<open>destroy\<close> destroys one loop thread.
\<close>

fun erase_threads :: "('t \<Rightarrow> 's \<Rightarrow> 's result) \<Rightarrow> nat option \<Rightarrow> 't list \<Rightarrow> 's \<Rightarrow> 's result" where
  "erase_threads destroy None ts s = Inl UseAfterFree"
| "erase_threads destroy (Some i) [] s = Inr s"
| "erase_threads destroy (Some i) (t # ts) s = andThen (destroy t s) (erase_threads destroy None ts)"

definition EventLoopThreadPool_dtor :: "('t \<Rightarrow> 's \<Rightarrow> 's result) \<Rightarrow> 't list \<Rightarrow> 's \<Rightarrow> 's result" where
  "EventLoopThreadPool_dtor destroy threads s =
     (if threads \<noteq> [] then erase_threads destroy (Some 0) threads s else Inr s)"

text \<open>Only the pool without threads is destroyed as the standard defines it.\<close>

lemma pool_dtor_invalid_iterator:
  "is_ok (EventLoopThreadPool_dtor destroy threads s) \<longleftrightarrow> threads = []"
  by (cases threads) (auto simp: EventLoopThreadPool_dtor_def is_ok_iff andThen_eq_Inr)

section \<open>Properties\<close>

text \<open>C35:
  \<^verbatim>\<open>startLoop\<close> returns the loop of the new thread and never null, whatever spurious returns \<^verbatim>\<open>wait\<close> makes, and it misses no
  notification: as long as it has not returned some step is possible that is not a spurious return, and without spurious returns
  there are finitely many steps. If the thread could not be created (which the code only reports on the terminal), it never returns,
  even with spurious returns.
\<close>

theorem startLoop_returns_loop:
  assumes "elt_reach e"
  shows "(\<forall>r. starter e = Returned r \<longrightarrow> (\<exists>l. r = Some l \<and> elt_loop e = Some l \<and> io_thread e = Looping l))
    \<and> ((\<forall>r. starter e \<noteq> Returned r) \<and> (io_thread e \<noteq> NotCreated \<or> starter e = BeforeStart) \<longrightarrow> (\<exists>e'. elt_step False e e'))
    \<and> (\<forall>e'. elt_step False e e' \<longrightarrow> elt_left e' < elt_left e)
    \<and> (io_thread e = NotCreated \<and> starter e \<noteq> BeforeStart \<longrightarrow>
        (\<forall>e' r. (elt_step True)\<^sup>*\<^sup>* e e' \<longrightarrow> starter e' \<noteq> Returned r))"
proof -
  from elt_reach_inv [OF assms] have inv: "elt_inv e" .
  have "\<exists>e'. elt_step False e e'"
    if "\<forall>r. starter e \<noteq> Returned r" "io_thread e \<noteq> NotCreated \<or> starter e = BeforeStart"
  proof (cases "io_thread e")
    case (Looping l)
    with inv have "elt_loop e \<noteq> None" "starter e \<noteq> Waiting" "starter e \<noteq> BeforeStart" by (auto simp: elt_inv_def)
    with that show ?thesis by (cases "starter e") (auto intro: test_set notified returns)
  qed (use that in \<open>auto intro: create_fails construct publish\<close>)
  with inv show ?thesis
    using elt_inv_returned elt_left_decreases elt_never_returns by blast
qed

lemma startLoop_returns_loop_witness:
  "elt_loop \<lparr>elt_loop = Some 4, starter = Returned (Some 4), io_thread = Looping 4\<rparr> = Some 4
   \<and> (\<nexists>e' r. (elt_step True)\<^sup>*\<^sup>* \<lparr>elt_loop = None, starter = Waiting, io_thread = NotCreated\<rparr> e' \<and> starter e' = Returned r)"
proof -
  note init = elt_init [unfolded EventLoopThread_init_def]
  from elt_next [OF init create] have "elt_reach \<lparr>elt_loop = None, starter = BeforeTest, io_thread = Constructing\<rparr>" by simp
  from elt_next [OF this test_null] have "elt_reach \<lparr>elt_loop = None, starter = Waiting, io_thread = Constructing\<rparr>" by simp
  from elt_next [OF this spurious_return] have "elt_reach \<lparr>elt_loop = None, starter = BeforeTest, io_thread = Constructing\<rparr>" by simp
  from elt_next [OF this construct, of 4] have "elt_reach \<lparr>elt_loop = None, starter = BeforeTest, io_thread = Publishing 4\<rparr>" by simp
  from elt_next [OF this publish, of 4] have "elt_reach \<lparr>elt_loop = Some 4, starter = BeforeTest, io_thread = Looping 4\<rparr>" by simp
  from elt_next [OF this test_set] have "elt_reach \<lparr>elt_loop = Some 4, starter = AfterLoop, io_thread = Looping 4\<rparr>" by simp
  from elt_next [OF this returns] have done_: "elt_reach \<lparr>elt_loop = Some 4, starter = Returned (Some 4), io_thread = Looping 4\<rparr>" by simp
  from elt_next [OF init create_fails] have "elt_reach \<lparr>elt_loop = None, starter = BeforeTest, io_thread = NotCreated\<rparr>" by simp
  from elt_next [OF this test_null] have "elt_reach \<lparr>elt_loop = None, starter = Waiting, io_thread = NotCreated\<rparr>" by simp
  from startLoop_returns_loop [OF this] startLoop_returns_loop [OF done_] show ?thesis by simp
qed

text \<open>C36:
  A destructor called while the loop sleeps and nobody else uses it cannot go wrong: whatever the scheduler does, no step
  faults, and from every state on the way the destructor can return, with the loop ended and the thread joined.
\<close>

theorem sleeping_loop_thread_dtor:
  assumes "lt_reach body True loop_thread_new s"
    and "owner s = Alive" "starter (elt s) = Returned l" "\<not> gone s" "at (sys s) = AtPoll"
    and "loop_step body [] (sys s) = None" "wakers (sys s) = 0"
    and "lt_reach body False s s'"
  shows "(\<forall>f. \<not> lt_step body False s' (Inl f)) \<and> (\<exists>s''. lt_reach body False s' s'' \<and> owner s'' = Destroyed)"
proof -
  have "life_ok s" using lt_reach_ok [OF assms(1) loop_thread_new_ok] .
  then have "quiet_end s'" using quiet_reach [OF assms(8)] sleeping_quiet assms(2-7) by blast
  then show ?thesis using quiet_step quiet_ends by blast
qed

text \<open>
  A start in which everything goes well.
\<close>

definition started_elt :: event_loop_thread where
  "started_elt = \<lparr>elt_loop = Some 4, starter = Returned (Some 4), io_thread = Looping 4\<rparr>"

lemma started_reach: "lt_reach body busy loop_thread_new (loop_thread_new\<lparr>elt := started_elt\<rparr>)"
proof -
  have go: "lt_reach body busy loop_thread_new (loop_thread_new\<lparr>elt := e'\<rparr>)"
    if "lt_reach body busy loop_thread_new (loop_thread_new\<lparr>elt := e\<rparr>)" "elt_step True e e'" for e e'
    using lt_next [OF that(1) starts [of _ e']] that(2) by (simp add: loop_thread_new_def)
  have "loop_thread_new\<lparr>elt := EventLoopThread_init\<rparr> = (loop_thread_new :: 'a loop_thread)" by (simp add: loop_thread_new_def)
  then have "lt_reach body busy loop_thread_new (loop_thread_new\<lparr>elt := EventLoopThread_init\<rparr>)" by (simp add: lt_here)
  from go [OF this create] have "lt_reach body busy loop_thread_new
      (loop_thread_new\<lparr>elt := \<lparr>elt_loop = None, starter = BeforeTest, io_thread = Constructing\<rparr>\<rparr>)" by (simp add: EventLoopThread_init_def)
  from go [OF this construct, of 4] have "lt_reach body busy loop_thread_new
      (loop_thread_new\<lparr>elt := \<lparr>elt_loop = None, starter = BeforeTest, io_thread = Publishing 4\<rparr>\<rparr>)" by simp
  from go [OF this publish, of 4] have "lt_reach body busy loop_thread_new
      (loop_thread_new\<lparr>elt := \<lparr>elt_loop = Some 4, starter = BeforeTest, io_thread = Looping 4\<rparr>\<rparr>)" by simp
  from go [OF this test_set] have "lt_reach body busy loop_thread_new
      (loop_thread_new\<lparr>elt := \<lparr>elt_loop = Some 4, starter = AfterLoop, io_thread = Looping 4\<rparr>\<rparr>)" by simp
  from go [OF this returns] show ?thesis by (simp add: started_elt_def)
qed

definition sleeping_thread :: "nat loop_thread" where
  "sleeping_thread = loop_thread_new\<lparr>elt := started_elt, sys := (loop_start EventLoop_init)\<lparr>at := AtPoll\<rparr>\<rparr>"

lemma sleeping_loop_thread_dtor_witness:
  "\<exists>s. lt_reach (\<lambda>f. []) False sleeping_thread s \<and> owner s = Destroyed"
proof -
  let ?b = "\<lambda>f :: nat. [] :: nat action list"
  let ?s = "loop_thread_new\<lparr>elt := started_elt\<rparr> :: nat loop_thread"
  have "loop_step ?b [] (sys ?s) = Some ((loop_start EventLoop_init)\<lparr>at := AtPoll\<rparr>)"
    by (simp add: loop_thread_new_def loop_step.simps loop_start_def EventLoop_init_def)
  then have "lt_step ?b True ?s (Inr sleeping_thread)"
    using loops_on [of ?s 4 True "[]" ?b] by (simp add: sleeping_thread_def started_elt_def loop_thread_new_def)
  with started_reach have reach: "lt_reach ?b True loop_thread_new sleeping_thread" by (blast intro: lt_next)
  have "owner sleeping_thread = Alive" "starter (elt sleeping_thread) = Returned (Some 4)" "\<not> gone sleeping_thread"
    "at (sys sleeping_thread) = AtPoll" "loop_step ?b [] (sys sleeping_thread) = None" "wakers (sys sleeping_thread) = 0"
    by (simp_all add: sleeping_thread_def started_elt_def loop_thread_new_def loop_step.simps loop_start_def EventLoop_init_def)
  from sleeping_loop_thread_dtor [OF reach this lt_here] show ?thesis by blast
qed

text \<open>
  Once the flag is set the loop can end before the owner's next statement, if it is awake or will be woken by what is in the eventfd.
\<close>

lemma loop_ends_first:
  assumes "loop_steps body n (sys s) = Some y" "at y = Stopped" "io_thread (elt s) = Looping l" "\<not> gone s"
  shows "lt_reach body False s (s\<lparr>sys := y, gone := True\<rparr>)"
proof -
  let ?s1 = "s\<lparr>sys := y\<rparr>"
  have "lt_step body False ?s1 (Inr (?s1\<lparr>gone := True\<rparr>))"
    using assms(2-4) by (intro loop_ends) simp_all
  with lt_next [OF loops_reach [OF assms(1,3,4)]] show ?thesis by simp
qed

lemma flagged_loop_ends:
  assumes "life_ok s" "starter (elt s) = Returned r" "quit_flag (ev (sys s))" "wakers (sys s) = 0 \<or> at (sys s) \<noteq> AtPoll"
  shows "\<exists>s'. lt_reach body False s s' \<and> gone s' \<and> owner s' = owner s \<and> elt s' = elt s"
proof (cases "gone s")
  case True
  then show ?thesis by (blast intro: lt_here)
next
  case False
  from assms(1,2) obtain l where "io_thread (elt s) = Looping l" using elt_inv_returned by (auto simp: life_ok_def)
  moreover from assms obtain n y where "loop_steps body n (sys s) = Some y" "at y = Stopped"
    using quit_stops [of "sys s" body] quit_stops_awake [of "sys s" body] by (auto simp: life_ok_def)
  ultimately have "lt_reach body False s (s\<lparr>sys := y, gone := True\<rparr>)" using False by (intro loop_ends_first)
  then show ?thesis by (intro exI [of _ "s\<lparr>sys := y, gone := True\<rparr>"]) simp
qed

lemma dtor_gone:
  assumes "elt_inv (elt s)" "starter (elt s) = Returned r" "owner s = Alive \<or> owner s = QuitCalled" "gone s"
  shows "dtor_next s = Some (Inl UseAfterFree)"
  using elt_inv_returned [OF assms(1,2)] assms(2-4)
  by (auto simp: dtor_next_def outside_startLoop_def quit_sets_flag_def call_wakes_def loop_object_def)

text \<open>C37:
  Which statements of the destructor fault, in every reachable state: exactly the \<^verbatim>\<open>quit()\<close> of an object whose \<^verbatim>\<open>startLoop\<close> was
  never called (\<open>_loop\<close> is null), and either half of \<^verbatim>\<open>quit()\<close> once the loop has ended (\<open>_loop\<close> dangles). Both halves can get
  there: if somebody else has quit the loop and is through with its \<^verbatim>\<open>wakeup\<close>, the loop may end before the destructor is called; and
  unless the loop is just in \<^verbatim>\<open>epoll_wait\<close>, it may end between the flag the destructor sets and its \<^verbatim>\<open>wakeup\<close>. These are schedules
  that exist, not all schedules.
\<close>

theorem loop_thread_dtor_faults:
  assumes "lt_reach body True loop_thread_new s"
  shows "((\<exists>f. dtor_next s = Some (Inl f)) \<longleftrightarrow>
      owner s = Alive \<and> starter (elt s) = BeforeStart
      \<or> (owner s = Alive \<and> (\<exists>r. starter (elt s) = Returned r) \<or> owner s = QuitCalled) \<and> gone s)
    \<and> (owner s = Alive \<and> (\<exists>r. starter (elt s) = Returned r) \<and> quit_flag (ev (sys s)) \<and> wakers (sys s) = 0 \<longrightarrow>
        (\<exists>s'. lt_reach body False s s' \<and> owner s' = Alive \<and> dtor_next s' = Some (Inl UseAfterFree)))
    \<and> (owner s = QuitCalled \<and> at (sys s) \<noteq> AtPoll \<longrightarrow>
        (\<exists>s'. lt_reach body False s s' \<and> owner s' = QuitCalled \<and> dtor_next s' = Some (Inl UseAfterFree)))"
proof -
  have ok: "life_ok s" using lt_reach_ok [OF assms loop_thread_new_ok] .
  then have inv: "elt_inv (elt s)" by (simp add: life_ok_def)
  have faults: "(\<exists>f. dtor_next s = Some (Inl f)) \<longleftrightarrow>
      owner s = Alive \<and> starter (elt s) = BeforeStart
      \<or> (owner s = Alive \<and> (\<exists>r. starter (elt s) = Returned r) \<or> owner s = QuitCalled) \<and> gone s"
    using ok by (auto simp: dtor_next_def outside_startLoop_def quit_sets_flag_def call_wakes_def loop_object_def life_ok_def
        elt_inv_def split: owner.splits starter.splits option.splits io_thread.splits if_splits)
  have ends: "\<exists>s'. lt_reach body False s s' \<and> owner s' = owner s \<and> dtor_next s' = Some (Inl UseAfterFree)"
    if "starter (elt s) = Returned r" "quit_flag (ev (sys s))" "wakers (sys s) = 0 \<or> at (sys s) \<noteq> AtPoll"
      "owner s = Alive \<or> owner s = QuitCalled" for r
    using flagged_loop_ends [OF ok that(1-3), of body] dtor_gone [of _ r] inv that(1,4) by metis
  have "\<exists>r. starter (elt s) = Returned r" "quit_flag (ev (sys s))" if "owner s = QuitCalled"
    using ok that by (auto simp: life_ok_def)
  with faults ends show ?thesis by metis
qed

lemma loop_thread_dtor_faults_witness:
  "(\<exists>f. dtor_next (loop_thread_new :: nat loop_thread) = Some (Inl f))
   \<and> (\<exists>s :: nat loop_thread. lt_reach (\<lambda>f. []) True loop_thread_new s \<and> owner s = Alive \<and> dtor_next s = Some (Inl UseAfterFree))
   \<and> (\<exists>s :: nat loop_thread. lt_reach (\<lambda>f. []) False loop_thread_new s \<and> owner s = QuitCalled \<and> dtor_next s = Some (Inl UseAfterFree))"
proof -
  let ?b = "\<lambda>f :: nat. [] :: nat action list"
  let ?s = "loop_thread_new\<lparr>elt := started_elt\<rparr> :: nat loop_thread"
  note defs = loop_thread_new_def started_elt_def loop_start_def EventLoop_init_def
  have "(\<exists>f. dtor_next (loop_thread_new :: nat loop_thread) = Some (Inl f))"
    using loop_thread_dtor_faults [OF lt_here, of ?b] by (simp add: defs EventLoopThread_init_def)
  moreover have "\<exists>s. lt_reach ?b True loop_thread_new s \<and> owner s = Alive \<and> dtor_next s = Some (Inl UseAfterFree)"
  proof -
    let ?q = "?s\<lparr>sys := (sys ?s)\<lparr>ev := (ev (sys ?s))\<lparr>quit_flag := True\<rparr>, wakers := 1\<rparr>\<rparr>"
    let ?w = "?q\<lparr>sys := (sys ?q)\<lparr>ev := wakeup (ev (sys ?q)), wakers := 0\<rparr>\<rparr>"
    have "lt_step ?b True ?s (Inr ?q)"
      using other_quits [of True ?s "Some 4" ?b] by (simp add: defs quit_sets_flag_def loop_object_def)
    then have "lt_reach ?b True loop_thread_new ?q" by (rule lt_next [OF started_reach])
    moreover have "lt_step ?b True ?q (Inr ?w)"
      using other_wakes [of True ?q ?b] by (simp add: defs call_wakes_def loop_object_def)
    ultimately have reach: "lt_reach ?b True loop_thread_new ?w" by (rule lt_next)
    have "owner ?w = Alive" "starter (elt ?w) = Returned (Some 4)" "quit_flag (ev (sys ?w))" "wakers (sys ?w) = 0"
      by (simp_all add: defs)
    with loop_thread_dtor_faults [OF reach] obtain s' where
      "lt_reach ?b False ?w s'" "owner s' = Alive" "dtor_next s' = Some (Inl UseAfterFree)" by blast
    with reach show ?thesis by (blast intro: lt_reach_trans lt_reach_busy)
  qed
  moreover have "\<exists>s. lt_reach ?b False loop_thread_new s \<and> owner s = QuitCalled \<and> dtor_next s = Some (Inl UseAfterFree)"
  proof -
    let ?d = "?s\<lparr>sys := (sys ?s)\<lparr>ev := (ev (sys ?s))\<lparr>quit_flag := True\<rparr>, wakers := 1\<rparr>, owner := QuitCalled\<rparr>"
    have "dtor_next ?s = Some (Inr ?d)"
      by (simp add: dtor_next_def outside_startLoop_def quit_sets_flag_def loop_object_def defs)
    then have reach: "lt_reach ?b False loop_thread_new ?d" using lt_next [OF started_reach dtor_steps] by blast
    have "owner ?d = QuitCalled" "at (sys ?d) \<noteq> AtPoll" by (simp_all add: defs)
    with loop_thread_dtor_faults [OF lt_reach_busy [OF reach]] obtain s' where
      "lt_reach ?b False ?d s'" "owner s' = QuitCalled" "dtor_next s' = Some (Inl UseAfterFree)" by blast
    with reach show ?thesis by (blast intro: lt_reach_trans)
  qed
  ultimately show ?thesis by blast
qed

section \<open>EventLoopThreadTest\<close>

text \<open>
  \<^verbatim>\<open>EventLoopThreadTest.cc\<close>: \<^verbatim>\<open>main\<close> owns the loop thread and calls the loop from outside. Its functors do nothing to the
  loop: \<^verbatim>\<open>runInThread\<close> prints, and adding a timer works on the timer queue. \<open>turns i\<close> is how many steps the loop's
  thread makes before the \<open>i\<close>-th call.
\<close>

datatype test_functor = RunInThread | TimerIn nat

definition EventLoopThreadTest_calls :: "test_functor action list" where
  "EventLoopThreadTest_calls =
     [QueueAction RunInThread, QueueAction (TimerIn 1), QueueAction (TimerIn 2), QueueAction (TimerIn 3), QuitAction]"

fun outside_call :: "'f action \<Rightarrow> 'f event_loop \<Rightarrow> 'f event_loop" where
  "outside_call (QueueAction f) l = queueInLoop False f l"
| "outside_call QuitAction l = EventLoop_quit False l"

fun loop_turns :: "('f \<Rightarrow> 'f action list) \<Rightarrow> nat \<Rightarrow> 'f loop_thread \<Rightarrow> 'f loop_thread" where
  "loop_turns body 0 s = s"
| "loop_turns body (Suc n) s =
     (if gone s then s
      else if at (sys s) = Stopped then s\<lparr>gone := True\<rparr>
      else case loop_step body [] (sys s) of None \<Rightarrow> s | Some y \<Rightarrow> loop_turns body n (s\<lparr>sys := y\<rparr>))"

fun outside_calls ::
  "('f \<Rightarrow> 'f action list) \<Rightarrow> (nat \<Rightarrow> nat) \<Rightarrow> nat \<Rightarrow> 'f action list \<Rightarrow> 'f loop_thread \<Rightarrow> 'f loop_thread result" where
  "outside_calls body turns i [] s = Inr s"
| "outside_calls body turns i (a # as) s =
     (let s1 = loop_turns body (turns i) s
      in if gone s1 then Inl UseAfterFree
         else outside_calls body turns (Suc i) as (s1\<lparr>sys := (sys s1)\<lparr>ev := outside_call a (ev (sys s1))\<rparr>\<rparr>))"

text \<open>\<^verbatim>\<open>main\<close> behind \<^verbatim>\<open>startLoop\<close>, up to the \<^verbatim>\<open>quit()\<close> of the destructor.\<close>

definition EventLoopThreadTest_main :: "(nat \<Rightarrow> nat) \<Rightarrow> test_functor loop_thread result" where
  "EventLoopThreadTest_main turns =
     outside_calls (\<lambda>f. []) turns 0 (EventLoopThreadTest_calls @ [QuitAction]) (loop_thread_new\<lparr>elt := started_elt\<rparr>)"

lemma outside_call_step:
  assumes "system_inv s" "wakers s = 0"
  shows "system_inv (s\<lparr>ev := outside_call a (ev s)\<rparr>)"
proof -
  have none: "s\<lparr>ev := l, wakers := 0\<rparr> = s\<lparr>ev := l\<rparr>" for l using assms(2) by (cases s) simp
  show ?thesis
  proof (cases a)
    case (QueueAction f)
    let ?s1 = "s\<lparr>ev := push_functor f (ev s), wakers := wakers s + 1\<rparr>"
    have "system_inv ?s1" using assms(1) by_other_queue by (rule system_step_inv)
    then have "system_inv (?s1\<lparr>ev := wakeup (ev ?s1), wakers := wakers ?s1 - 1\<rparr>)"
      by (rule system_step_inv) (rule by_other_wakeup, simp)
    with QueueAction assms(2) show ?thesis by (simp add: queueInLoop_def none Let_def)
  next
    case QuitAction
    let ?s1 = "s\<lparr>ev := (ev s)\<lparr>quit_flag := True\<rparr>, wakers := wakers s + 1\<rparr>"
    have "system_inv ?s1" using assms(1) by_other_quit by (rule system_step_inv)
    then have "system_inv (?s1\<lparr>ev := wakeup (ev ?s1), wakers := wakers ?s1 - 1\<rparr>)"
      by (rule system_step_inv) (rule by_other_wakeup, simp)
    with QuitAction assms(2) show ?thesis by (simp add: EventLoop_quit_def none Let_def)
  qed
qed

text \<open>A loop that nobody has asked to quit goes on.\<close>

definition lively :: "'f loop_thread \<Rightarrow> bool" where
  "lively s \<longleftrightarrow> system_inv (sys s) \<and> wakers (sys s) = 0 \<and> \<not> gone s \<and> \<not> quit_flag (ev (sys s)) \<and> at (sys s) \<noteq> Stopped
     \<and> (\<forall>as. at (sys s) = AtRead as \<or> at (sys s) = AtHandle as \<longrightarrow> as = [])"

lemma lively_turns: "lively s \<Longrightarrow> lively (loop_turns (\<lambda>f. []) n s)"
proof (induction n arbitrary: s)
  case (Suc n)
  show ?case
  proof (cases "loop_step (\<lambda>f. []) [] (sys s)")
    case (Some y)
    have "system_inv y" "wakers y = 0"
      using Suc.prems Some by (auto simp: lively_def loop_step_wakers intro: loop_step_inv)
    moreover have "\<not> quit_flag (ev y)" "at y \<noteq> Stopped" "\<forall>as. at y = AtRead as \<or> at y = AtHandle as \<longrightarrow> as = []"
      using Suc.prems Some
      by (auto simp: lively_def loop_step.simps swap_functors_def EventLoop_handleRead_def call_functor_def Let_def
          split: position.splits list.splits if_splits)
    ultimately have "lively (s\<lparr>sys := y\<rparr>)" using Suc.prems by (simp add: lively_def)
    moreover have "\<not> gone s" "at (sys s) \<noteq> Stopped" using Suc.prems by (simp_all add: lively_def)
    ultimately show ?thesis using Suc.IH Some by simp
  qed (use Suc.prems in \<open>simp add: lively_def\<close>)
qed simp

lemma lively_queue: "lively s \<Longrightarrow> lively (s\<lparr>sys := (sys s)\<lparr>ev := outside_call (QueueAction f) (ev (sys s))\<rparr>\<rparr>)"
  using outside_call_step [of "sys s" "QueueAction f"]
  by (simp add: lively_def queueInLoop_def push_functor_def wakeup_def Let_def split: if_splits)

lemma lively_calls:
  "lively s \<Longrightarrow> \<exists>s'. lively s' \<and> (\<forall>turns' as. (\<forall>j < i + length fs. turns' j = turns j) \<longrightarrow>
     outside_calls (\<lambda>f. []) turns' i (map QueueAction fs @ as) s = outside_calls (\<lambda>f. []) turns' (i + length fs) as s')"
proof (induction fs arbitrary: i s)
  case (Cons f fs)
  let ?s1 = "loop_turns (\<lambda>f. []) (turns i) s"
  have s1: "lively ?s1" using Cons.prems by (rule lively_turns)
  from Cons.IH [OF lively_queue [OF s1, of f], of "Suc i"] obtain s' where s': "lively s'"
    "\<forall>turns' as. (\<forall>j < Suc i + length fs. turns' j = turns j) \<longrightarrow>
        outside_calls (\<lambda>f. []) turns' (Suc i) (map QueueAction fs @ as)
          (?s1\<lparr>sys := (sys ?s1)\<lparr>ev := outside_call (QueueAction f) (ev (sys ?s1))\<rparr>\<rparr>)
        = outside_calls (\<lambda>f. []) turns' (Suc i + length fs) as s'" by blast
  have "\<not> gone ?s1" using s1 by (simp add: lively_def)
  with s' show ?case by (intro exI [of _ s']) (auto simp: Let_def)
qed auto

lemma turns_end:
  assumes "loop_steps body n (sys s) = Some y" "at y = Stopped" "n < m"
  shows "gone (loop_turns body m s)"
  using assms
proof (induction n arbitrary: s m)
  case 0
  then obtain k where "m = Suc k" by (cases m) auto
  with 0 show ?case by simp
next
  case (Suc n)
  then obtain k x where "m = Suc k" "n < k" "loop_step body [] (sys s) = Some x" "loop_steps body n x = Some y"
    by (cases m) (auto split: option.splits)
  with Suc.IH [of "s\<lparr>sys := x\<rparr>" k] Suc.prems(2) show ?case by simp
qed

text \<open>
  The program quits the loop before the destructor does: however the threads are scheduled before, if \<^verbatim>\<open>main\<close> then gives the loop's
  thread time enough, its destructor uses the loop that is gone.
\<close>

lemma EventLoopThreadTest_faults:
  "\<exists>n. \<forall>m > n. EventLoopThreadTest_main (turns(5 := m)) = Inl UseAfterFree"
proof -
  define s0 :: "test_functor loop_thread" where "s0 = loop_thread_new\<lparr>elt := started_elt\<rparr>"
  let ?fs = "[RunInThread, TimerIn 1, TimerIn 2, TimerIn 3]"
  have "life_ok (loop_thread_new :: test_functor loop_thread)" by (rule loop_thread_new_ok)
  then have "lively s0" by (simp add: s0_def lively_def life_ok_def loop_thread_new_def loop_start_def EventLoop_init_def)
  moreover have "0 + length ?fs = 4" by simp
  ultimately obtain s1 where s1: "lively s1"
    "\<forall>turns' as. (\<forall>j < 4. turns' j = turns j) \<longrightarrow>
       outside_calls (\<lambda>f. []) turns' 0 (map QueueAction ?fs @ as) s0 = outside_calls (\<lambda>f. []) turns' 4 as s1"
    using lively_calls [of s0 0 ?fs turns] by metis
  let ?s2 = "loop_turns (\<lambda>f. []) (turns 4) s1"
  let ?s3 = "?s2\<lparr>sys := (sys ?s2)\<lparr>ev := outside_call QuitAction (ev (sys ?s2))\<rparr>\<rparr>"
  have s2: "lively ?s2" using s1(1) by (rule lively_turns)
  then have "system_inv (sys ?s3)" "quit_flag (ev (sys ?s3))" "wakers (sys ?s3) = 0"
    using outside_call_step [of "sys ?s2" QuitAction] by (simp_all add: lively_def EventLoop_quit_def wakeup_def Let_def)
  from quit_stops [OF this, of "\<lambda>f. []"] obtain n y where y: "loop_steps (\<lambda>f. []) n (sys ?s3) = Some y" "at y = Stopped" by blast
  have "EventLoopThreadTest_main (turns(5 := m)) = Inl UseAfterFree" if "n < m" for m
  proof -
    have calls: "EventLoopThreadTest_calls @ [QuitAction] = map QueueAction ?fs @ [QuitAction, QuitAction]"
      by (simp add: EventLoopThreadTest_calls_def)
    have "EventLoopThreadTest_main (turns(5 := m)) = outside_calls (\<lambda>f. []) (turns(5 := m)) 4 [QuitAction, QuitAction] s1"
      unfolding EventLoopThreadTest_main_def s0_def [symmetric] calls by (rule s1(2) [rule_format]) simp
    also have "\<dots> = outside_calls (\<lambda>f. []) (turns(5 := m)) 5 [QuitAction] ?s3"
      using s2 by (simp add: lively_def Let_def)
    also have "\<dots> = Inl UseAfterFree" using turns_end [OF y that] by (simp add: Let_def)
    finally show ?thesis .
  qed
  then show ?thesis by blast
qed

text \<open>With no time at all in between it gets away with it.\<close>

lemma EventLoopThreadTest_hurries: "map_sum (\<lambda>x. x) gone (EventLoopThreadTest_main (\<lambda>i. 0)) = Inr False"
  by (simp add: EventLoopThreadTest_main_def EventLoopThreadTest_calls_def loop_thread_new_def Let_def)

end
