(* ===== verification/Locality.thy ===== *)
theory Locality
  imports TcpConnection
begin

text \<open>
  What a step on one connection of a loop leaves alone: the other connections, the owners' map, and everything of
  the connection but its buffers, its interest and what its user keeps with it. The lemmas show it for sending and for \<^verbatim>\<open>handleWrite\<close>.
\<close>

section \<open>Steps on one connection\<close>

text \<open>
  \<open>only tid c w w'\<close>: a step from \<open>w\<close> to \<open>w'\<close> in the loop \<open>tid\<close> has worked on connection \<open>c\<close> at most, and left it open;
  besides, it may have used answers of \<^verbatim>\<open>write\<close> and queued that output has been written.
\<close>

definition only :: "nat \<Rightarrow> nat \<Rightarrow> ('x, 'u) world \<Rightarrow> ('x, 'u) world \<Rightarrow> bool" where
  "only tid c w w' \<longleftrightarrow> (\<forall>d. d \<noteq> c \<longrightarrow> conns w' d = conns w d \<and> wire w' d = wire w d)
     \<and> (\<forall>k. conns w c = Some k \<longrightarrow> (\<exists>k'. conns w' c = Some k' \<and> sockfd k' = sockfd k \<and> pLoop k' = pLoop k \<and> pUser k' = pUser k
          \<and> closeCallback k' = closeCallback k
          \<and> pSocketChannel k' = (pSocketChannel k)\<lparr>events := events (pSocketChannel k')\<rparr>)
        \<and> (\<forall>fd. fd \<noteq> ch_fd (pSocketChannel k) \<longrightarrow> epolls w' tid fd = epolls w tid fd))
     \<and> next_conn w' = next_conn w \<and> connections w' = connections w \<and> threadPool w' = threadPool w
     \<and> (\<exists>n. pendingFunctors w' tid = pendingFunctors w tid @ replicate n (WriteComplate c))
     \<and> (\<exists>n. write_answers w' = drop n (write_answers w))"

lemma only_refl: "only tid c w w"
  by (auto simp: only_def intro: exI [of _ 0])

lemma only_conn:
  assumes "only tid c w w'" "conns w c = Some k"
  obtains k' where "conns w' c = Some k'" "sockfd k' = sockfd k" "pLoop k' = pLoop k" "pUser k' = pUser k"
    "closeCallback k' = closeCallback k" "pSocketChannel k' = (pSocketChannel k)\<lparr>events := events (pSocketChannel k')\<rparr>"
    "ch_fd (pSocketChannel k') = ch_fd (pSocketChannel k)"
proof -
  from assms obtain k' where k': "conns w' c = Some k'" "sockfd k' = sockfd k" "pLoop k' = pLoop k" "pUser k' = pUser k"
    "closeCallback k' = closeCallback k" "pSocketChannel k' = (pSocketChannel k)\<lparr>events := events (pSocketChannel k')\<rparr>"
    by (auto simp: only_def)
  moreover have "ch_fd (pSocketChannel k') = ch_fd (pSocketChannel k)" by (subst k'(6), simp)
  ultimately show thesis by (rule that)
qed

lemma only_epolls: "only tid c w w' \<Longrightarrow> conns w c = Some k \<Longrightarrow> fd \<noteq> ch_fd (pSocketChannel k) \<Longrightarrow> epolls w' tid fd = epolls w tid fd"
  unfolding only_def by blast

lemma only_others:
  assumes "only tid c w w'"
  shows "\<forall>d. d \<noteq> c \<longrightarrow> conns w' d = conns w d \<and> wire w' d = wire w d" "next_conn w' = next_conn w"
    "connections w' = connections w" "threadPool w' = threadPool w"
  using assms unfolding only_def by blast+

lemma appended_trans:
  "\<exists>n. xs1 = xs @ replicate n x \<Longrightarrow> \<exists>n. xs2 = xs1 @ replicate n x \<Longrightarrow> \<exists>n. xs2 = xs @ replicate n x"
  by (metis append_assoc replicate_add)

lemma only_trans:
  assumes "only tid c w w1" "only tid c w1 w2"
  shows "only tid c w w2"
proof -
  have "\<exists>n. pendingFunctors w2 tid = pendingFunctors w tid @ replicate n (WriteComplate c)"
    by (rule appended_trans [of "pendingFunctors w1 tid"]) (use assms in \<open>unfold only_def, blast\<close>)+
  moreover have "\<exists>n. write_answers w2 = drop n (write_answers w)"
  proof -
    from assms obtain m n where "write_answers w1 = drop m (write_answers w)" "write_answers w2 = drop n (write_answers w1)"
      unfolding only_def by blast
    then have "write_answers w2 = drop (n + m) (write_answers w)" by simp
    then show ?thesis by blast
  qed
  moreover have "(\<exists>k2. conns w2 c = Some k2 \<and> sockfd k2 = sockfd k \<and> pLoop k2 = pLoop k \<and> pUser k2 = pUser k
          \<and> closeCallback k2 = closeCallback k
          \<and> pSocketChannel k2 = (pSocketChannel k)\<lparr>events := events (pSocketChannel k2)\<rparr>)
      \<and> (\<forall>fd. fd \<noteq> ch_fd (pSocketChannel k) \<longrightarrow> epolls w2 tid fd = epolls w tid fd)" if k: "conns w c = Some k" for k
  proof (rule only_conn [OF assms(1) k])
    fix k1
    assume k1: "conns w1 c = Some k1" "sockfd k1 = sockfd k" "pLoop k1 = pLoop k" "pUser k1 = pUser k"
      "closeCallback k1 = closeCallback k" "pSocketChannel k1 = (pSocketChannel k)\<lparr>events := events (pSocketChannel k1)\<rparr>"
      "ch_fd (pSocketChannel k1) = ch_fd (pSocketChannel k)"
    show ?thesis
    proof (rule only_conn [OF assms(2) k1(1)])
      fix k2
      assume k2: "conns w2 c = Some k2" "sockfd k2 = sockfd k1" "pLoop k2 = pLoop k1" "pUser k2 = pUser k1"
        "closeCallback k2 = closeCallback k1" "pSocketChannel k2 = (pSocketChannel k1)\<lparr>events := events (pSocketChannel k2)\<rparr>"
      have "pSocketChannel k2 = (pSocketChannel k)\<lparr>events := events (pSocketChannel k2)\<rparr>"
        by (subst k2(6), subst k1(6)) simp
      with k1 k2 show ?thesis
        using only_epolls [OF assms(1) k] only_epolls [OF assms(2) k1(1)] by auto
    qed
  qed
  moreover note only_others [OF assms(1)] only_others [OF assms(2)]
  then have "(\<forall>d. d \<noteq> c \<longrightarrow> conns w2 d = conns w d \<and> wire w2 d = wire w d) \<and> next_conn w2 = next_conn w
    \<and> connections w2 = connections w \<and> threadPool w2 = threadPool w" by simp
  ultimately show ?thesis unfolding only_def by blast
qed

lemma only_put:
  assumes "conns w c = Some k" "sockfd k' = sockfd k" "pLoop k' = pLoop k" "pUser k' = pUser k" "closeCallback k' = closeCallback k"
    "pSocketChannel k' = pSocketChannel k"
  shows "only tid c w (put_conn c k' w)"
  using assms by (auto simp: only_def put_conn_def intro: exI [of _ 0])

lemma only_changes:
  assumes "only tid c w w1" "conns w2 = conns w1" "wire w2 = wire w1" "epolls w2 = epolls w1" "next_conn w2 = next_conn w1"
    "connections w2 = connections w1" "threadPool w2 = threadPool w1" "pendingFunctors w2 = pendingFunctors w1"
    "write_answers w2 = write_answers w1"
  shows "only tid c w w2"
  using assms by (simp add: only_def)

lemma only_release:
  assumes "conns w c = Some k" "conns (release c w) c \<noteq> None"
  shows "only tid c w (release c w)"
  using assms by (auto simp: release_def intro!: only_put)

section \<open>Output\<close>

lemma sys_write_answers: "sys_write c d w = (r, w1) \<Longrightarrow> \<exists>n \<le> 1. write_answers w1 = drop n (write_answers w)"
  by (auto simp: sys_write_def Let_def split: list.splits if_splits intro: exI [of _ 0] exI [of _ 1])

lemma advance_only:
  assumes "advance c w k m n fl w' k'" "pLoop k = tid" "conns w c = Some k" "\<exists>n. write_answers w' = drop n (write_answers w)"
  shows "only tid c w w'"
proof -
  have k': "k' = k\<lparr>outBuf := outBuf k', pSocketChannel := pSocketChannel k'\<rparr>" using assms(1) by (simp add: advance_def)
  have "sockfd k' = sockfd k" "pLoop k' = pLoop k" "pUser k' = pUser k" "closeCallback k' = closeCallback k" by (subst k', simp)+
  moreover have "pendingFunctors w' tid = pendingFunctors w tid @ replicate (if fl then 1 else 0) (WriteComplate c)"
    using assms by (simp add: advance_def)
  moreover have "conns w' c = Some k'" "pSocketChannel k' = (pSocketChannel k)\<lparr>events := events (pSocketChannel k')\<rparr>"
    "\<forall>fd. fd \<noteq> ch_fd (pSocketChannel k) \<longrightarrow> epolls w' tid fd = epolls w tid fd"
    using assms by (simp_all add: advance_def)
  moreover have "conns w' d = conns w d \<and> wire w' d = wire w d" if "d \<noteq> c" for d
    using assms that by (auto simp: advance_def)
  moreover have "next_conn w' = next_conn w" "connections w' = connections w" "threadPool w' = threadPool w"
    using assms by (simp_all add: advance_def)
  ultimately show ?thesis using assms(3,4) unfolding only_def by (metis option.inject)
qed

text \<open>The socket is writable: the stream is as it was, and of the connection only the output has been worked on.\<close>

lemma writable_only:
  assumes at: "stream_at c bytes cap w" and small: "length bytes < 2 ^ 31" and a: "write_answers w \<noteq> []"
    and k: "conns w c = Some k" "pLoop k = tid"
  obtains w' k' n where "handleWrite c w = Inr w'" "stream_at c bytes cap w'" "only tid c w w'" "conns w' c = Some k'"
    "k' = k\<lparr>outBuf := outBuf k', pSocketChannel := pSocketChannel k'\<rparr>" "usr w' = usr w" "n \<le> 1" "write_answers w' = drop n (write_answers w)"
proof -
  from at k have s: "stream_ok k w" "wire w c @ content (outBuf k) = bytes" "length (vec (outBuf k)) \<le> cap" by (auto simp: stream_at_def)
  then have len: "length (content (outBuf k)) < 2 ^ 31" using small by auto
  show thesis
  proof (cases "content (outBuf k) = []")
    case True
    with s(1) have "handleWrite c w = Inr w" by (intro handleWrite_idle [OF k(1)]) (simp add: stream_ok_def)
    then show thesis using at k(1) only_refl by (intro that [of w k 0]) auto
  next
    case False
    from a obtain x xs where x: "write_answers w = x # xs" by (cases "write_answers w") auto
    from handleWrite_advances [OF k(1) s(1) len False x] obtain w' k' n fl where
      w': "handleWrite c w = Inr w'" "advance c w k [] n fl w' k'" "write_answers w' = xs" by blast
    have drops: "write_answers w' = drop 1 (write_answers w)" using w'(3) x by simp
    from advance_stream_at [OF k(1) s(2,3) w'(2)] have "stream_at c bytes cap w'" by simp
    moreover have "only tid c w w'" by (rule advance_only [OF w'(2) k(2,1)]) (use drops in blast)
    moreover have "conns w' c = Some k'" "k' = k\<lparr>outBuf := outBuf k', pSocketChannel := pSocketChannel k'\<rparr>" "usr w' = usr w"
      using w'(2) by (simp_all add: advance_def)
    ultimately show thesis using w'(1) drops by (intro that [of w' k' 1]) auto
  qed
qed

end
