(* ===== verification/RpcNetwork.thy ===== *)
theory RpcNetwork
  imports RpcServer TcpServer Locality "HOL-Library.Sublist"
begin

text \<open>
  Remote calls over TCP: \<^verbatim>\<open>rpc/RpcServer.cc\<close> as the user of \<^verbatim>\<open>TcpServer\<close> and the clients of \<^verbatim>\<open>examples/\<close>
  as users of \<^verbatim>\<open>TcpClient\<close>, on the world of \<open>TcpConnection\<close>. The channel model of \<open>RpcChannel\<close> is run where the program
  keeps it, and the frames it sends go through \<^verbatim>\<open>TcpConnection::send\<close>. The locales state what the two homes of a
  channel promise and prove once that the wired channel refines the channel by itself; from this follow the
  server's answers on the wire, a remote call from the client's socket to the server's and back, and the
  fate of a closed connection.
\<close>

section \<open>Where a channel lives\<close>

text \<open>
  A side of a remote call keeps its channel somewhere in the world: \<^verbatim>\<open>RpcServer\<close> in the context of the
  connection, a client in a member of its own. \<open>home_conn\<close> is the channel's \<^verbatim>\<open>_conn\<close>, \<open>home_services\<close> what its
  \<^verbatim>\<open>_services\<close> points to.
\<close>

record ('w, 'ch, 'sv) channel_home =
  get_channel :: "'w \<Rightarrow> 'ch option"
  set_channel :: "'ch \<Rightarrow> 'w \<Rightarrow> 'w"
  home_conn :: "'w \<Rightarrow> nat option"
  home_services :: "'w \<Rightarrow> byte list \<Rightarrow> 'sv option option"

text \<open>The channel's \<^verbatim>\<open>_conn->send\<close>, for each frame in turn; \<open>tid\<close> is the calling thread.\<close>

fun send_frames :: "nat \<Rightarrow> nat \<Rightarrow> byte list list \<Rightarrow> ('x, 'u) world \<Rightarrow> ('x, 'u) world result" where
  "send_frames tid c [] w = Inr w"
| "send_frames tid c (m # ms) w = andThen (TcpConnection_send tid c m w) (send_frames tid c ms)"

text \<open>
  An operation of the channel, run in the world: what the channel model adds to \<open>sent\<close> goes to the
  connection, in order.
\<close>

definition on_home_channel ::
  "(('x, 'u) world, ('v, 'z) rpc_channel_scheme, 'sv) channel_home \<Rightarrow> nat
    \<Rightarrow> (('v, 'z) rpc_channel_scheme \<Rightarrow> ('v, 'z) rpc_channel_scheme result)
    \<Rightarrow> ('x, 'u) world \<Rightarrow> ('x, 'u) world result" where
  "on_home_channel home tid op w =
     (case get_channel home w of
        None \<Rightarrow> Inl NullDeref
      | Some ch \<Rightarrow> andThen (op ch) (\<lambda>ch'.
          let frames = drop (length (sent ch)) (sent ch')
          in case home_conn home w of
               None \<Rightarrow> if frames = [] then Inr (set_channel home ch' w) else Inl NullDeref
             | Some c \<Rightarrow> send_frames tid c frames (set_channel home ch' w)))"

text \<open>
  \<^verbatim>\<open>channel->onMessage(conn, buf)\<close> on the input buffer of the connection. While the loop runs, the
  callbacks do not look at the buffer; the rest is stored at the end.
\<close>

definition wired_onMessage ::
  "'a RpcMetaMessage codec_env \<Rightarrow> ('a, 'p) pb
    \<Rightarrow> ('v, 'sv, 'md, ('v, 'z) rpc_channel_scheme) rpc_lib
    \<Rightarrow> (('x, 'u) world, ('v, 'z) rpc_channel_scheme, 'sv) channel_home \<Rightarrow> nat \<Rightarrow> nat
    \<Rightarrow> ('x, 'u) world \<Rightarrow> ('x, 'u) world result" where
  "wired_onMessage env rt lib home tid c w =
     with_conn c w (\<lambda>k.
       if get_channel home w = None then Inl NullDeref
       else andThen (Codec.onMessage env
              (ProtobufCodecLite rpc_tag (\<lambda>w m.
                 on_home_channel home tid (\<lambda>ch. onRpcMessage env rt lib (home_services home w) ch m) w))
              w (inBuf k))
         (\<lambda>(w', b). with_conn c w' (\<lambda>k'. Inr (put_conn c (k'\<lparr>inBuf := b\<rparr>) w'))))"

section \<open>Sending from the loop\<close>

text \<open>What sending on a connection leaves alone.\<close>

definition kept :: "'x tcp_conn \<Rightarrow> 'x tcp_conn \<Rightarrow> bool" where
  "kept k k' \<longleftrightarrow> inBuf k' = inBuf k \<and> refs k' = refs k \<and> pUser k' = pUser k \<and> pLoop k' = pLoop k
     \<and> ch_fd (pSocketChannel k') = ch_fd (pSocketChannel k) \<and> sockfd k' = sockfd k
     \<and> closeCallback k' = closeCallback k"

lemma kept_refl [simp]: "kept k k" "kept k (k\<lparr>conn_context := x\<rparr>)"
  by (simp_all add: kept_def)

lemma kept_trans: "kept k k' \<Longrightarrow> kept k' k'' \<Longrightarrow> kept k k''"
  by (simp add: kept_def)

lemma sendInLoop_answers:
  assumes "sendInLoop c m w = Inr w'"
  shows "\<exists>n \<le> 1. write_answers w' = drop n (write_answers w)"
proof -
  have wrote: "\<exists>n \<le> 1. write_answers w1 = drop n (write_answers w)" if "sys_write c d w = (r, w1)" for d r w1
    using that by (auto simp: sys_write_def Let_def split: list.splits if_splits intro: exI [of _ 0] exI [of _ 1])
  have "\<exists>n \<le> 1. write_answers w' = drop n (write_answers w)"
    if "sys_write c m w = (r, w1)" for r w1
    using wrote [OF that] assms that
    by (auto simp: sendInLoop_def with_conn_def Let_def world_step_defs andThen_eq_Inr
      split: option.splits if_splits prod.splits intro: exI [of _ 0])
  then show ?thesis by (metis surj_pair)
qed

lemma send_stream:
  assumes at: "stream_at c bytes cap w" and k: "conns w c = Some k" "pLoop k = tid"
    and r: "fits (cap + length m + 8)" and small: "length m < 2 ^ 31"
    and a: "write_answers w \<noteq> []" "\<forall>a \<in> set (write_answers w). 0 \<le> a"
  obtains w' k' where "TcpConnection_send tid c m w = Inr w'" "stream_at c (bytes @ m) (cap + length m) w'"
    "conns w' c = Some k'" "kept k k'" "conn_context k' = conn_context k" "usr w' = usr w"
    "\<exists>n \<le> 1. write_answers w' = drop n (write_answers w)" "connections w' = connections w" "only tid c w w'"
proof -
  from at k have ok: "stream_ok k w" "wire w c @ content (outBuf k) = bytes" "length (vec (outBuf k)) \<le> cap"
    by (auto elim: stream_atE)
  have room: "room (outBuf k) (length m)" using r ok(3) by (simp add: room_def)
  have "\<exists>w' k' n fl. sendInLoop c m w = Inr w' \<and> advance c w k m n fl w' k'"
  proof (cases "content (outBuf k) = []")
    case False
    from sendInLoop_blocked [OF k(1) ok(1) room small False] show ?thesis by blast
  next
    case True
    from a obtain a as where "write_answers w = a # as" "0 \<le> a" by (cases "write_answers w") auto
    from sendInLoop_direct [OF k(1) ok(1) room small True this] show ?thesis by blast
  qed
  then obtain w' k' n fl where run: "sendInLoop c m w = Inr w'" and adv: "advance c w k m n fl w' k'" by blast
  from adv have fixed: "conns w' c = Some k'" "usr w' = usr w" "connections w' = connections w"
      "ch_fd (pSocketChannel k') = ch_fd (pSocketChannel k)"
    by (simp_all add: advance_def)
  from adv obtain b ch where "k' = k\<lparr>outBuf := b, pSocketChannel := ch\<rparr>" unfolding advance_def by blast
  then have "kept k k'" "conn_context k' = conn_context k" using fixed(4) by (simp_all add: kept_def)
  moreover from advance_stream_at [OF k(1) ok(2,3) adv] have "stream_at c (bytes @ m) (cap + length m) w'" .
  moreover have "TcpConnection_send tid c m w = Inr w'" using run k by (simp add: TcpConnection_send_def)
  moreover have "only tid c w w'" by (rule advance_only [OF adv k(2,1)]) (use sendInLoop_answers [OF run] in blast)
  ultimately show thesis using that fixed sendInLoop_answers [OF run] by blast
qed

lemma send_frames_stream:
  assumes "stream_at c bytes cap w" "conns w c = Some k" "pLoop k = tid"
    and "fits (cap + length (concat ms) + 8)" "length (concat ms) < 2 ^ 31"
    and "length ms \<le> length (write_answers w)" "\<forall>a \<in> set (write_answers w). 0 \<le> a"
  shows "\<exists>w' k'. send_frames tid c ms w = Inr w' \<and> stream_at c (bytes @ concat ms) (cap + length (concat ms)) w'
    \<and> conns w' c = Some k' \<and> kept k k' \<and> conn_context k' = conn_context k \<and> usr w' = usr w
    \<and> connections w' = connections w \<and> only tid c w w' \<and> (\<exists>n \<le> length ms. write_answers w' = drop n (write_answers w))"
  using assms
proof (induction ms arbitrary: w k bytes cap)
  case Nil
  then show ?case by (auto intro: only_refl)
next
  case (Cons m ms)
  have "write_answers w \<noteq> []" using Cons.prems(6) by auto
  have "fits (cap + length m + 8)" "length m < 2 ^ 31" using Cons.prems(4,5) by simp_all
  from send_stream [OF Cons.prems(1-3) this \<open>write_answers w \<noteq> []\<close> Cons.prems(7)] obtain w1 k1 n where
    s1: "TcpConnection_send tid c m w = Inr w1" "stream_at c (bytes @ m) (cap + length m) w1" "conns w1 c = Some k1"
      "kept k k1" "conn_context k1 = conn_context k" "usr w1 = usr w" "connections w1 = connections w" "only tid c w w1"
    and n: "n \<le> 1" "write_answers w1 = drop n (write_answers w)"
    by blast
  have "pLoop k1 = tid" using s1(4) Cons.prems(3) by (simp add: kept_def)
  moreover have "length ms \<le> length (write_answers w1)" "\<forall>a \<in> set (write_answers w1). 0 \<le> a"
    using Cons.prems(6,7) n by (auto dest: in_set_dropD)
  ultimately obtain w' k' n' where
    s2: "send_frames tid c ms w1 = Inr w'" "stream_at c ((bytes @ m) @ concat ms) ((cap + length m) + length (concat ms)) w'"
      "conns w' c = Some k'" "kept k1 k'" "conn_context k' = conn_context k1" "usr w' = usr w1"
      "connections w' = connections w1" "only tid c w1 w'"
    and n': "n' \<le> length ms" "write_answers w' = drop n' (write_answers w1)"
    using Cons.IH [OF s1(2,3)] Cons.prems(4,5) by (auto simp: add.assoc)
  have "write_answers w' = drop (n' + n) (write_answers w)" "n' + n \<le> length (m # ms)"
    using n n' by simp_all
  moreover have "kept k k'" using s1(4) s2(4) by (rule kept_trans)
  moreover have "only tid c w w'" using s1(8) s2(8) by (rule only_trans)
  ultimately show ?case
    using s1(1,5-7) s2(1-3,5-7) by (intro exI [of _ w'] exI [of _ k']) (auto simp: add.assoc)
qed

section \<open>A channel in the world refines the channel\<close>

text \<open>User code reaches the channel only through its operations, which append to what has been sent.\<close>

locale appending =
  fixes lib :: "('v, 'sv, 'md, ('v, 'z) rpc_channel_scheme) rpc_lib"
  assumes call_appends: "call_method lib sv md rq a i s = Inr s' \<Longrightarrow> prefix (sent s) (sent s')"
    and run_appends: "run_done lib d s = Inr s' \<Longrightarrow> prefix (sent s) (sent s')"
begin

lemma on_response_appends: "on_response lib m s = Inr s' \<Longrightarrow> prefix (sent s) (sent s')"
  by (fastforce simp: on_response_def Let_def andThen_eq_Inr read_object_def write_object_def delete_object_def
      run_closure_def delete_closure_def dest: run_appends split: option.splits if_splits)

lemma onRpcMessage_appends:
  assumes "onRpcMessage env rt lib services s m = Inr s'"
  shows "prefix (sent s) (sent s')"
proof -
  have dispatch: "prefix (sent s) (sent s1)" if "dispatch_request lib services m s = Inr (err, s1)" for err s1
    using that
    by (auto simp: dispatch_request_def new_object_def Let_def andThen_eq_Inr dest: call_appends
        split: if_splits option.splits prod.splits bool.splits)
  have err: "prefix (sent s1) (sent s2)" if "send_error env rt i e s1 = Inr s2" for i e s1 s2
    using that by (auto simp: send_error_def channel_send_def andThen_eq_Inr split: if_splits)
  show ?thesis
    using assms
    by (auto simp: onRpcMessage_def andThen_eq_Inr dest: on_response_appends dispatch err
        intro: prefix_order.trans split: if_splits)
qed

end

text \<open>What both homes promise: a store that no other part of the program touches.\<close>

locale rpc_home =
  fixes c :: nat and home :: "(('x, 'u) world, ('v, 'z) rpc_channel_scheme, 'sv) channel_home"
  assumes get_set: "get_channel home w \<noteq> None \<Longrightarrow> get_channel home (set_channel home ch w) = Some ch"
    and set_conn: "conns w c = Some k \<Longrightarrow> \<exists>x. conns (set_channel home ch w) c = Some (k\<lparr>conn_context := x\<rparr>)"
    and set_only: "conns w c = Some k \<Longrightarrow> only tid c w (set_channel home ch w)"
    and set_wire: "wire (set_channel home ch w) = wire w"
    and set_epolls: "epolls (set_channel home ch w) = epolls w"
    and set_answers: "write_answers (set_channel home ch w) = write_answers w"
    and set_services: "home_services home (set_channel home ch w) = home_services home w"
    and conn_local: "usr w' = usr w \<Longrightarrow> home_conn home w' = home_conn home w"
    and set_home_conn: "home_conn home (set_channel home ch w) = home_conn home w"
    and get_local: "usr w' = usr w \<Longrightarrow> conns w c = Some k \<Longrightarrow> conns w' c = Some k'
      \<Longrightarrow> conn_context k' = conn_context k \<Longrightarrow> get_channel home w' = get_channel home w"
    and services_local: "usr w' = usr w \<Longrightarrow> home_services home w' = home_services home w"

text \<open>
  \<open>wired \<dots> st ch w\<close>: in \<open>w\<close> the channel of connection \<open>c\<close> is \<open>ch\<close>, which has sent \<open>fs\<close> since it had sent \<open>sent0\<close>, and
  these frames follow the bytes \<open>B\<close> in the stream; the connection is still \<open>st\<close> as far as sending leaves it alone,
  and the kernel's remaining answers let \<open>N - length fs\<close> further frames be sent without an error.
\<close>

definition wired ::
  "(('x, 'u) world, ('v, 'z) rpc_channel_scheme, 'sv) channel_home \<Rightarrow> nat \<Rightarrow> nat \<Rightarrow> (byte list \<Rightarrow> 'sv option option)
    \<Rightarrow> byte list \<Rightarrow> nat \<Rightarrow> byte list list \<Rightarrow> nat \<Rightarrow> 'x tcp_conn \<Rightarrow> ('v, 'z) rpc_channel_scheme \<Rightarrow> ('x, 'u) world \<Rightarrow> bool" where
  "wired home tid c sv B cap sent0 N st ch w \<longleftrightarrow>
     get_channel home w = Some ch \<and> home_conn home w = Some c \<and> home_services home w = sv
     \<and> (\<exists>k. conns w c = Some k \<and> kept st k \<and> pLoop k = tid) \<and> (\<forall>a \<in> set (write_answers w). 0 \<le> a)
     \<and> (\<exists>fs. sent ch = sent0 @ fs \<and> stream_at c (B @ concat fs) (cap + length (concat fs)) w
          \<and> N \<le> length (write_answers w) + length fs)"

locale wiring = rpc_home c home + appending lib
  for c :: nat and home :: "(('x, 'u) world, ('v, 'z) rpc_channel_scheme, 'sv) channel_home"
    and lib :: "('v, 'sv, 'md, ('v, 'z) rpc_channel_scheme) rpc_lib" +
  fixes codec_env :: "'a RpcMetaMessage codec_env" and rt :: "('a, 'p) pb"
    and user :: "('x, 'u) muduo_user" and tid :: nat
    and sv :: "byte list \<Rightarrow> 'sv option option"
    and B :: "byte list" and cap :: nat and sent0 new :: "byte list list" and N :: nat
  assumes user_onMessage: "TcpConnection.onMessage user tid c = wired_onMessage codec_env rt lib home tid c"
    and room_new: "cap + length (concat new) < 2 ^ 62" "length (concat new) < 2 ^ 31" "length new \<le> N"
begin

abbreviation here :: "'x tcp_conn \<Rightarrow> ('v, 'z) rpc_channel_scheme \<Rightarrow> ('x, 'u) world \<Rightarrow> bool" where
  "here \<equiv> wired home tid c sv B cap sent0 N"

abbreviation within :: "('v, 'z) rpc_channel_scheme \<Rightarrow> bool" where
  "within ch \<equiv> prefix (sent ch) (sent0 @ new)"

lemma here_local:
  assumes "here st ch w" "conns w c = Some k"
  shows "here (st\<lparr>inBuf := b, refs := r\<rparr>) ch (put_conn c (k\<lparr>inBuf := b, refs := r\<rparr>) w)"
proof -
  let ?w = "put_conn c (k\<lparr>inBuf := b, refs := r\<rparr>) w"
  have "same_stream c w ?w" using assms(2) by (simp add: same_stream_def put_conn_def)
  moreover have "conns ?w c = Some (k\<lparr>inBuf := b, refs := r\<rparr>)" "usr ?w = usr w" "write_answers ?w = write_answers w"
    by (simp_all add: put_conn_def)
  moreover from this(1,2) have "get_channel home ?w = get_channel home w" "home_services home ?w = home_services home w"
      "home_conn home ?w = home_conn home w"
    using get_local [of ?w w k "k\<lparr>inBuf := b, refs := r\<rparr>"] services_local [of ?w w] conn_local [of ?w w] assms(2) by simp_all
  ultimately show ?thesis
    using assms other_stream_at [of c _ _ w ?w] unfolding wired_def by (auto simp: kept_def)
qed

lemma on_home_channel_refines:
  assumes "here st ch w" "op ch = Inr ch'" "prefix (sent ch) (sent ch')" "within ch'"
  shows "\<exists>w'. on_home_channel home tid op w = Inr w' \<and> here st ch' w' \<and> only tid c w w'"
proof -
  from assms(1) obtain k fs where get: "get_channel home w = Some ch" "home_services home w = sv"
      "home_conn home w = Some c"
    and k: "conns w c = Some k" "kept st k" "pLoop k = tid" and pos: "\<forall>a \<in> set (write_answers w). 0 \<le> a"
    and fs: "sent ch = sent0 @ fs" "stream_at c (B @ concat fs) (cap + length (concat fs)) w"
      "N \<le> length (write_answers w) + length fs"
    unfolding wired_def by blast
  from assms(3) fs(1) obtain gs where gs: "sent ch' = sent0 @ fs @ gs" by (auto simp: prefix_def)
  then obtain hs where new: "new = fs @ gs @ hs" using assms(4) by (auto simp: prefix_def)
  let ?w1 = "set_channel home ch' w"
  from set_conn [OF k(1)] obtain x where k1: "conns ?w1 c = Some (k\<lparr>conn_context := x\<rparr>)" by blast
  have "same_stream c w ?w1"
    using k(1) k1 by (simp add: same_stream_def set_wire set_epolls)
  from other_stream_at [OF fs(2) this] have at: "stream_at c (B @ concat fs) (cap + length (concat fs)) ?w1" .
  have "fits (cap + length (concat fs) + length (concat gs) + 8)" "length (concat gs) < 2 ^ 31"
    "length gs \<le> length (write_answers ?w1)" "\<forall>a \<in> set (write_answers ?w1). 0 \<le> a"
    using room_new fs(3) pos by (simp_all add: new set_answers)
  from send_frames_stream [OF at k1 _ this] k(3) obtain w' k' n where
    w': "send_frames tid c gs ?w1 = Inr w'" "stream_at c ((B @ concat fs) @ concat gs)
        (cap + length (concat fs) + length (concat gs)) w'"
      "conns w' c = Some k'" "kept (k\<lparr>conn_context := x\<rparr>) k'" "conn_context k' = x" "usr w' = usr ?w1" "only tid c ?w1 w'"
    and n: "n \<le> length gs" "write_answers w' = drop n (write_answers w)"
    by (auto simp: set_answers)
  have "get_channel home w' = Some ch'" "home_services home w' = sv" "home_conn home w' = Some c"
    using get_local [OF w'(6) k1 w'(3)] services_local [OF w'(6)] conn_local [OF w'(6)] set_home_conn [of ch' w] w'(5) get get_set [of w ch'] set_services [of ch' w] by simp_all
  moreover have "kept st k'" "pLoop k' = tid"
    using k(2,3) w'(4) by (simp_all add: kept_def)
  moreover have "\<forall>a \<in> set (write_answers w'). 0 \<le> a" "N \<le> length (write_answers w') + length (fs @ gs)"
    using pos n fs(3) by (auto dest: in_set_dropD)
  moreover have "on_home_channel home tid op w = Inr w'"
    using get(1,3) assms(2) w'(1) by (simp add: on_home_channel_def gs fs(1))
  ultimately show ?thesis
    using w'(2,3) gs only_trans [OF set_only [OF k(1)] w'(7)]
    unfolding wired_def by (intro exI [of _ w']) (auto simp: add.assoc intro!: exI [of _ "fs @ gs"])
qed

end

sublocale wiring \<subseteq> refined: callback_refinement "onRpcMessage codec_env rt lib sv"
    "\<lambda>w m. on_home_channel home tid (\<lambda>ch. onRpcMessage codec_env rt lib (home_services home w) ch m) w"
    "\<lambda>ch w. here st ch w \<and> only tid c w0 w" within for st w0
proof
  fix ch w m ch'
  assume here: "here st ch w \<and> only tid c w0 w" and run: "onRpcMessage codec_env rt lib sv ch m = Inr ch'" and "within ch'"
  have "home_services home w = sv" using here by (simp add: wired_def)
  with on_home_channel_refines [where op = "\<lambda>ch. onRpcMessage codec_env rt lib sv ch m", OF conjunct1 [OF here] run
      onRpcMessage_appends [OF run] \<open>within ch'\<close>] only_trans [OF conjunct2 [OF here]]
  show "\<exists>w'. on_home_channel home tid (\<lambda>ch. onRpcMessage codec_env rt lib (home_services home w) ch m) w = Inr w'
      \<and> here st ch' w' \<and> only tid c w0 w'" by auto
next
  fix ch m ch'
  assume "onRpcMessage codec_env rt lib sv ch m = Inr ch'" "within ch'"
  then show "within ch" by (blast dest: onRpcMessage_appends intro: prefix_order.trans)
qed

text \<open>Successive reads of the connection's socket.\<close>

fun handle_reads ::
  "('x, 'u) muduo_user \<Rightarrow> nat \<Rightarrow> nat \<Rightarrow> byte list list \<Rightarrow> ('x, 'u) world \<Rightarrow> ('x, 'u) world result" where
  "handle_reads user tid c [] w = Inr w"
| "handle_reads user tid c (d # ds) w =
     andThen (handleRead user tid (ReadvData d) c w) (handle_reads user tid c ds)"

lemma readFd_counts: "readFd b (ReadvData d) = Inr r \<Longrightarrow> rf_n r = int (length d)"
  by (auto simp: readFd_def Let_def andThen_eq_Inr split: if_splits)

context wiring begin

lemma wired_onMessage_refines:
  assumes "here st ch w"
    and "channel_onMessage codec_env rt lib sv ch (inBuf st) = Inr (ch', b')" "within ch'"
  shows "\<exists>w'. wired_onMessage codec_env rt lib home tid c w = Inr w' \<and> here (st\<lparr>inBuf := b'\<rparr>) ch' w' \<and> only tid c w w'"
proof -
  from assms(1) obtain k where k: "conns w c = Some k" "kept st k" "get_channel home w = Some ch"
    unfolding wired_def by blast
  have run: "Codec.onMessage codec_env (ProtobufCodecLite rpc_tag (onRpcMessage codec_env rt lib sv)) ch (inBuf k) = Inr (ch', b')"
    using assms(2) k(2) by (simp add: channel_onMessage_def channel_codec_def kept_def)
  have "here st ch w \<and> only tid c w w" using assms(1) only_refl by blast
  from refined.onMessage_refined [OF this run assms(3)] obtain w' where
    w': "Codec.onMessage codec_env (ProtobufCodecLite rpc_tag (\<lambda>w m. on_home_channel home tid
        (\<lambda>ch. onRpcMessage codec_env rt lib (home_services home w) ch m) w)) w (inBuf k) = Inr (w', b')"
      "here st ch' w'" "only tid c w w'" by blast
  from w'(2) obtain k' where k': "conns w' c = Some k'" "kept st k'" unfolding wired_def by blast
  have same: "refs st = refs k'" using k'(2) by (simp add: kept_def)
  have "k'\<lparr>inBuf := b', refs := refs st\<rparr> = k'\<lparr>inBuf := b'\<rparr>" unfolding same by simp
  moreover have "st\<lparr>inBuf := b', refs := refs st\<rparr> = st\<lparr>inBuf := b'\<rparr>" by simp
  ultimately have "here (st\<lparr>inBuf := b'\<rparr>) ch' (put_conn c (k'\<lparr>inBuf := b'\<rparr>) w')"
    using here_local [OF w'(2) k'(1), where b = b' and r = "refs st"] by (simp only:)
  moreover have "only tid c w (put_conn c (k'\<lparr>inBuf := b'\<rparr>) w')"
    by (rule only_trans [OF w'(3)]) (rule only_put [OF k'(1)], simp_all)
  ultimately show ?thesis
    using k w'(1) k'(1) by (simp add: wired_onMessage_def)
qed

lemma read_refines:
  assumes here: "here st ch w" and st: "pUser st" "0 \<le> ch_fd (pSocketChannel st)" "0 < refs st" and "d \<noteq> []"
    and r: "readFd (inBuf st) (ReadvData d) = Inr r"
    and run: "channel_onMessage codec_env rt lib sv ch (rf_buffer r) = Inr (ch', b')" "within ch'"
  shows "\<exists>w'. handleRead user tid (ReadvData d) c w = Inr w' \<and> here (st\<lparr>inBuf := b'\<rparr>) ch' w' \<and> only tid c w w'"
proof -
  from here obtain k where k: "conns w c = Some k" "kept st k" unfolding wired_def by blast
  let ?b = "rf_buffer r"
  let ?k1 = "k\<lparr>inBuf := ?b, refs := refs k + 1\<rparr>" and ?st1 = "st\<lparr>inBuf := ?b, refs := refs k + 1\<rparr>"
  have "here ?st1 ch (put_conn c ?k1 w)" by (rule here_local [OF here k(1)])
  then obtain w2 where w2: "wired_onMessage codec_env rt lib home tid c (put_conn c ?k1 w) = Inr w2"
      "here (?st1\<lparr>inBuf := b'\<rparr>) ch' w2" "only tid c (put_conn c ?k1 w) w2"
    using wired_onMessage_refines [of ?st1 ch "put_conn c ?k1 w" ch' b'] run by auto
  from w2(2) obtain k2 where k2: "conns w2 c = Some k2" "kept (?st1\<lparr>inBuf := b'\<rparr>) k2" unfolding wired_def by blast
  have refs: "refs k = refs st" "refs k2 = refs st + 1" "inBuf k2 = b'" using k(2) k2(2) by (simp_all add: kept_def)
  have "here (?st1\<lparr>inBuf := b'\<rparr>\<lparr>inBuf := b', refs := refs st\<rparr>) ch'
      (put_conn c (k2\<lparr>inBuf := b', refs := refs st\<rparr>) w2)"
    by (rule here_local [OF w2(2) k2(1)])
  moreover have "?st1\<lparr>inBuf := b'\<rparr>\<lparr>inBuf := b', refs := refs st\<rparr> = st\<lparr>inBuf := b'\<rparr>" by simp
  moreover have "k2\<lparr>inBuf := b', refs := refs st\<rparr> = k2\<lparr>refs := refs st\<rparr>" using refs(3) by simp
  ultimately have final: "here (st\<lparr>inBuf := b'\<rparr>) ch' (put_conn c (k2\<lparr>refs := refs st\<rparr>) w2)" by (simp only:)
  have "release c w2 = put_conn c (k2\<lparr>refs := refs st\<rparr>) w2"
    using k2(1) refs(2) st(3) by (simp add: release_def)
  moreover have "handleRead user tid (ReadvData d) c w
      = with_ref (wired_onMessage codec_env rt lib home tid) c (put_conn c (k\<lparr>inBuf := ?b\<rparr>) w)"
    using k st(1,2) r \<open>d \<noteq> []\<close> readFd_counts [OF r]
    by (simp add: handleRead_def kept_def Let_def with_ref_def user_onMessage)
  moreover have "share c (put_conn c (k\<lparr>inBuf := ?b\<rparr>) w) = put_conn c ?k1 w"
    by (simp add: share_def put_conn_def)
  moreover have "only tid c w (put_conn c ?k1 w)" "only tid c w2 (put_conn c (k2\<lparr>refs := refs st\<rparr>) w2)"
    using k(1) k2(1) by (auto intro!: only_put)
  then have "only tid c w (put_conn c (k2\<lparr>refs := refs st\<rparr>) w2)" using w2(3) only_trans by blast
  ultimately show ?thesis
    using w2(1) final by (simp add: with_ref_def)
qed

lemma feed_within:
  "feed codec_env (channel_codec codec_env rt lib sv) ch b ds = Inr (ch', b') \<Longrightarrow> within ch' \<Longrightarrow> within ch"
proof (induction ds arbitrary: ch b)
  case (Cons d ds)
  then show ?case
    by (auto simp: andThen_eq_Inr channel_codec_def dest: refined.onMessage_back)
qed simp

lemma reads_refine:
  assumes "here st ch w" "pUser st" "0 \<le> ch_fd (pSocketChannel st)" "0 < refs st" "[] \<notin> set ds"
    and "feed codec_env (channel_codec codec_env rt lib sv) ch (inBuf st) ds = Inr (ch', b')" "within ch'"
  shows "\<exists>w'. handle_reads user tid c ds w = Inr w' \<and> here (st\<lparr>inBuf := b'\<rparr>) ch' w'"
  using assms
proof (induction ds arbitrary: st ch w)
  case (Cons d ds)
  from Cons.prems(6) obtain r ch1 b1 where r: "readFd (inBuf st) (ReadvData d) = Inr r"
      "channel_onMessage codec_env rt lib sv ch (rf_buffer r) = Inr (ch1, b1)"
      "feed codec_env (channel_codec codec_env rt lib sv) ch1 b1 ds = Inr (ch', b')"
    by (auto simp: andThen_eq_Inr channel_onMessage_def)
  from read_refines [OF Cons.prems(1-4) _ r(1,2) feed_within [OF r(3) Cons.prems(7)], of] Cons.prems(5) obtain w1 where
    w1: "handleRead user tid (ReadvData d) c w = Inr w1" "here (st\<lparr>inBuf := b1\<rparr>) ch1 w1" by auto
  from Cons.IH [OF w1(2)] Cons.prems r(3) w1(1) show ?case by simp
next
  case Nil
  then have "st\<lparr>inBuf := b'\<rparr> = st\<lparr>inBuf := inBuf st\<rparr>" "ch' = ch" by simp_all
  moreover have "st\<lparr>inBuf := inBuf st\<rparr> = st" by simp
  ultimately show ?case using Nil.prems(1) by simp
qed

end

section \<open>The server\<close>

text \<open>The context of a connection is its channel; all channels point to the one registry, the server's own state.\<close>

type_synonym ('v, 'z, 'sv) server_world =
  "(('v, 'z) rpc_channel_scheme, byte list \<Rightarrow> 'sv option option) world"

definition server_home ::
  "nat \<Rightarrow> (('v, 'z, 'sv) server_world, ('v, 'z) rpc_channel_scheme, 'sv) channel_home" where
  "server_home c =
     \<lparr>get_channel = (\<lambda>w. case conns w c of None \<Rightarrow> None | Some k \<Rightarrow> getContext k),
      set_channel = (\<lambda>ch w. case conns w c of None \<Rightarrow> w | Some k \<Rightarrow> put_conn c (setContext ch k) w),
      home_conn = (\<lambda>w. Some c), home_services = usr\<rparr>"

definition RpcServer_registerService ::
  "('sv \<Rightarrow> byte list) \<Rightarrow> 'sv option \<Rightarrow> ('v, 'z, 'sv) server_world \<Rightarrow> ('v, 'z, 'sv) server_world result" where
  "RpcServer_registerService full_name service w =
     (case service of
        None \<Rightarrow> Inl NullDeref
      | Some sv \<Rightarrow> Inr (w\<lparr>usr := (usr w)(full_name sv := Some service)\<rparr>))"

text \<open>
  The new channel keeps a shared pointer to the connection, the connection keeps the channel.
  \<open>junk c\<close> is the uninitialised call counter of the channel of \<open>c\<close>, \<open>own c\<close> the user's extension of it.
\<close>

definition RpcServer_onConnection ::
  "(nat \<Rightarrow> 64 word) \<Rightarrow> (nat \<Rightarrow> 'z) \<Rightarrow> nat \<Rightarrow> nat \<Rightarrow> ('v, 'z, 'sv) server_world \<Rightarrow> ('v, 'z, 'sv) server_world result" where
  "RpcServer_onConnection junk own tid c w =
     with_conn c (share c w) (\<lambda>k.
       let channel = setServices (rpc_channel.extend (RpcChannel_conn (junk c)) (own c))
       in Inr (put_conn c (setContext channel k) (share c w)))"

definition RpcServer_user ::
  "'a RpcMetaMessage codec_env \<Rightarrow> ('a, 'p) pb \<Rightarrow> ('v, 'sv, 'md, ('v, 'z) rpc_channel_scheme) rpc_lib
    \<Rightarrow> (nat \<Rightarrow> 64 word) \<Rightarrow> (nat \<Rightarrow> 'z)
    \<Rightarrow> (('v, 'z) rpc_channel_scheme, byte list \<Rightarrow> 'sv option option) muduo_user" where
  "RpcServer_user env rt lib junk own =
     \<lparr>onConnection = RpcServer_onConnection junk own,
      onMessage = (\<lambda>tid c. wired_onMessage env rt lib (server_home c) tid c),
      onWriteComplate = (\<lambda>tid c. Inr), onClose = (\<lambda>tid c. Inr)\<rparr>"

definition RpcServer_start ::
  "(nat \<Rightarrow> nat) \<Rightarrow> tcp_server \<Rightarrow> ('v, 'z, 'sv) server_world \<Rightarrow> tcp_server \<times> ('v, 'z, 'sv) server_world" where
  "RpcServer_start new_loop srv w = TcpServer_start new_loop (TcpServer_setCallback True srv) w"

text \<open>A service that completes a call later, in the thread \<open>tid\<close>, runs \<^verbatim>\<open>RpcChannel::doneCallback\<close>.\<close>

definition RpcServer_done ::
  "'a RpcMetaMessage codec_env \<Rightarrow> ('a, 'p) pb \<Rightarrow> ('v, 'sv, 'md, ('v, 'z) rpc_channel_scheme) rpc_lib
    \<Rightarrow> nat \<Rightarrow> nat \<Rightarrow> nat \<Rightarrow> 64 word \<Rightarrow> ('v, 'z, 'sv) server_world \<Rightarrow> ('v, 'z, 'sv) server_world result" where
  "RpcServer_done env rt lib tid c response msg_id w =
     on_home_channel (server_home c) tid (doneCallback env rt lib response msg_id) w"

interpretation server: rpc_home c "server_home c" for c
  by unfold_locales
    (auto simp: server_home_def put_conn_def setContext_def getContext_def intro!: only_put [unfolded put_conn_def] split: option.splits)

section \<open>A client\<close>

text \<open>
  The clients of \<^verbatim>\<open>examples/\<close> keep the channel in a member and connect it in \<^verbatim>\<open>onConnection\<close>; assigning
  \<^verbatim>\<open>_conn\<close> releases the pointer kept before.
\<close>

record ('v, 'z) client_state =
  cl_channel :: "('v, 'z) rpc_channel_scheme"
  cl_conn :: "nat option"

type_synonym ('x, 'v, 'z) client_world = "('x, ('v, 'z) client_state) world"

definition RpcClient_init :: "'z \<Rightarrow> ('v, 'z) client_state" where
  "RpcClient_init own = \<lparr>cl_channel = rpc_channel.extend RpcChannel_default own, cl_conn = None\<rparr>"

definition client_home ::
  "(('x, 'v, 'z) client_world, ('v, 'z) rpc_channel_scheme, 'sv) channel_home" where
  "client_home =
     \<lparr>get_channel = (\<lambda>w. Some (cl_channel (usr w))), set_channel = (\<lambda>ch w. w\<lparr>usr := (usr w)\<lparr>cl_channel := ch\<rparr>\<rparr>),
      home_conn = (\<lambda>w. cl_conn (usr w)), home_services = (\<lambda>w n. None)\<rparr>"

definition RpcClient_onConnection ::
  "nat \<Rightarrow> nat \<Rightarrow> ('x, 'v, 'z) client_world \<Rightarrow> ('x, 'v, 'z) client_world result" where
  "RpcClient_onConnection tid c w =
     (let w1 = share c w;
          w2 = (case cl_conn (usr w) of None \<Rightarrow> w1 | Some c0 \<Rightarrow> release c0 w1)
      in Inr (w2\<lparr>usr := \<lparr>cl_channel = setConnection (cl_channel (usr w)), cl_conn = Some c\<rparr>\<rparr>))"

definition RpcClient_call ::
  "'a RpcMetaMessage codec_env \<Rightarrow> ('a, 'p) pb \<Rightarrow> ('v, 'sv, 'md, ('v, 'z) rpc_channel_scheme) rpc_lib
    \<Rightarrow> nat \<Rightarrow> rpc_method \<Rightarrow> 'v \<Rightarrow> 'v \<Rightarrow> ('x, 'v, 'z) client_world \<Rightarrow> ('x, 'v, 'z) client_world result" where
  "RpcClient_call env rt lib tid mt request response w =
     on_home_channel (client_home :: (_, _, 'sv) channel_home) tid (start_call env rt lib mt request response) w"

definition RpcClient_user ::
  "'a RpcMetaMessage codec_env \<Rightarrow> ('a, 'p) pb \<Rightarrow> ('v, 'sv, 'md, ('v, 'z) rpc_channel_scheme) rpc_lib
    \<Rightarrow> ('x, ('v, 'z) client_state) muduo_user" where
  "RpcClient_user env rt lib =
     \<lparr>onConnection = RpcClient_onConnection,
      onMessage = (\<lambda>tid c. wired_onMessage env rt lib client_home tid c),
      onWriteComplate = (\<lambda>tid c. Inr), onClose = (\<lambda>tid c. Inr)\<rparr>"

interpretation client: rpc_home c client_home for c
proof -
  have "\<exists>x. k = k\<lparr>conn_context := x\<rparr>" for k :: "'x tcp_conn"
    by (rule exI [of _ "conn_context k"]) simp
  then show "rpc_home c (client_home :: (('x, 'v, 'z) client_world, _, 'sv) channel_home)"
    by unfold_locales (simp_all add: client_home_def only_changes [OF only_refl])
qed

section \<open>Reads of a connection whose user keeps a channel\<close>

lemma home_reads:
  assumes "rpc_home c home" "appending lib"
    and "TcpConnection.onMessage user (pLoop k) c = wired_onMessage env rt lib home (pLoop k) c"
    and k: "conns w c = Some k" "stream_ok k w" "pUser k" "0 \<le> ch_fd (pSocketChannel k)" "0 < refs k"
    and get: "get_channel home w = Some ch" "home_conn home w = Some c"
    and run: "[] \<notin> set ds" "feed env (channel_codec env rt lib (home_services home w)) ch (inBuf k) ds = Inr (ch', b')"
    and new: "sent ch' = sent ch @ new" "length new \<le> length (write_answers w)" "\<forall>a \<in> set (write_answers w). 0 \<le> a"
      "length (vec (outBuf k)) + length (concat new) < 2 ^ 62" "length (concat new) < 2 ^ 31"
  shows "\<exists>w' k'. handle_reads user (pLoop k) c ds w = Inr w' \<and> conns w' c = Some k' \<and> get_channel home w' = Some ch'
    \<and> home_services home w' = home_services home w \<and> inBuf k' = b' \<and> refs k' = refs k \<and> stream_ok k' w'
    \<and> wire w' c @ content (outBuf k') = wire w c @ content (outBuf k) @ concat new"
proof -
  have wires: "wiring c home lib env rt user (pLoop k) (length (vec (outBuf k))) new (length new)"
    using assms(1-3) new(4,5) by (simp add: wiring_def wiring_axioms_def)
  have "wired home (pLoop k) c (home_services home w) (wire w c @ content (outBuf k)) (length (vec (outBuf k)))
      (sent ch) (length new) k ch w"
    using k get new(2,3) by (simp add: wired_def stream_at_def)
  from wiring.reads_refine [OF wires this k(3-5) run] new(1) obtain w' where
    w': "handle_reads user (pLoop k) c ds w = Inr w'"
    "wired home (pLoop k) c (home_services home w) (wire w c @ content (outBuf k)) (length (vec (outBuf k)))
      (sent ch) (length new) (k\<lparr>inBuf := b'\<rparr>) ch' w'" by auto
  from w'(2) new(1) show ?thesis
    unfolding wired_def using w'(1) by (auto simp: stream_at_def kept_def)
qed

lemma home_call:
  fixes user :: "('x, 'u) muduo_user" and w :: "('x, 'u) world"
  assumes "rpc_home c home" "appending lib"
    and "TcpConnection.onMessage user (pLoop k) c = wired_onMessage env rt lib home (pLoop k) c"
    and k: "conns w c = Some k" "stream_ok k w"
    and get: "get_channel home w = Some ch" "home_conn home w = Some c" and run: "op ch = Inr ch'"
    and new: "sent ch' = sent ch @ new" "length new \<le> length (write_answers w)" "\<forall>a \<in> set (write_answers w). 0 \<le> a"
      "length (vec (outBuf k)) + length (concat new) < 2 ^ 62" "length (concat new) < 2 ^ 31"
  shows "\<exists>w' k'. on_home_channel home (pLoop k) op w = Inr w' \<and> conns w' c = Some k' \<and> get_channel home w' = Some ch'
    \<and> home_conn home w' = Some c \<and> home_services home w' = home_services home w \<and> kept k k' \<and> stream_ok k' w'
    \<and> wire w' c @ content (outBuf k') = wire w c @ content (outBuf k) @ concat new
    \<and> length (vec (outBuf k')) \<le> length (vec (outBuf k)) + length (concat new)
    \<and> (\<forall>a \<in> set (write_answers w'). 0 \<le> a)"
proof -
  have wires: "wiring c home lib env rt user (pLoop k) (length (vec (outBuf k))) new (length new)"
    using assms(1-3) new(4,5) by (simp add: wiring_def wiring_axioms_def)
  have "wired home (pLoop k) c (home_services home w) (wire w c @ content (outBuf k)) (length (vec (outBuf k)))
      (sent ch) (length new) k ch w"
    using k get new(2,3) by (simp add: wired_def stream_at_def)
  from wiring.on_home_channel_refines [where op = op, OF wires this run] new(1) obtain w' where
    w': "on_home_channel home (pLoop k) op w = Inr w'"
    "wired home (pLoop k) c (home_services home w) (wire w c @ content (outBuf k)) (length (vec (outBuf k)))
      (sent ch) (length new) k ch' w'" by auto
  from w'(2) new(1) show ?thesis
    unfolding wired_def using w'(1) by (auto simp: stream_at_def)
qed

lemma user_of_server [simp]:
  "TcpConnection.onMessage (RpcServer_user env rt lib junk own) tid c = wired_onMessage env rt lib (server_home c) tid c"
  "onConnection (RpcServer_user env rt lib junk own) = RpcServer_onConnection junk own"
  "onClose (RpcServer_user env rt lib junk own) tid c w = Inr w"
  by (simp_all add: RpcServer_user_def)

lemma server_home_sel [simp]:
  "conns w c = Some k \<Longrightarrow> get_channel (server_home c) w = getContext k"
  "home_conn (server_home c) w = Some c" "home_services (server_home c) w = usr w"
  by (simp_all add: server_home_def)

lemma client_home_sel [simp]:
  "get_channel client_home w = Some (cl_channel (usr w))" "home_conn client_home w = cl_conn (usr w)"
  "home_services client_home w = (\<lambda>n. None)"
  by (simp_all add: client_home_def)

context pb_wire begin

lemma feed_one:
  assumes "sendable rt m" "concat ds = frame (rpc_env e adler rt) rpc_tag m" "\<forall>d \<in> set ds. length d \<le> kExtraBuf"
  shows "\<exists>b'. content b' = [] \<and> (\<forall>s. feed (rpc_env e adler rt) (channel_codec (rpc_env e adler rt) rt lib services)
      s (Buffer_init kInitialSize) ds = andThen (onRpcMessage (rpc_env e adler rt) rt lib services s m) (\<lambda>s'. Inr (s', b')))"
proof -
  have "length (concat ds) \<le> 2 ^ 40"
    using assms(1,2) by (simp add: sendable_def length_frame length_frame_body kMaxMessageLen_def)
  moreover have "decode_spec (rpc_env e adler rt) rpc_tag (concat ds) = ([m], [], None)"
    using rpc.decode_frames [where ms = "[m]" and t = rpc_tag and e = e and adler = adler] assms(1,2)
    by (simp add: sendable_def rpc.short_def add.commute)
  ultimately show ?thesis
    using feed_new_buffer [of "channel_codec (rpc_env e adler rt) rt lib services" ds "rpc_env e adler rt" "[m]" "[]"] assms(3)
    by (auto simp: andThen_assoc)
qed

end

lemma start_call_sends:
  assumes "pb_wire rt left pos"
    and "length (service_full_name mt) + length (method_name mt) + length (msg_serialize lib req) \<le> 2 ^ 25"
    and "start_call (rpc_env e adler rt) rt lib mt req res ch = Inr c1"
  defines "m \<equiv> request_msg rt (call_id ch + 1) mt (msg_serialize lib req)"
  shows "sendable rt m" "sent c1 = sent ch @ [frame (rpc_env e adler rt) rpc_tag m]"
    "map_of (outstandings c1) (call_id ch + 1) = Some \<lparr>oc_response = Some (fresh ch), oc_done = Some (Suc (fresh ch))\<rparr>"
    "objects c1 (fresh ch) = Some res" "Suc (fresh ch) \<in> closures c1"
proof -
  show send: "sendable rt m" unfolding m_def by (rule pb_wire.sendable_built(1) [OF assms(1,2)])
  from assms(3) show "sent c1 = sent ch @ [frame (rpc_env e adler rt) rpc_tag m]"
    "map_of (outstandings c1) (call_id ch + 1) = Some \<lparr>oc_response = Some (fresh ch), oc_done = Some (Suc (fresh ch))\<rparr>"
    "objects c1 (fresh ch) = Some res" "Suc (fresh ch) \<in> closures c1"
    by (auto simp: start_call_def new_object_def new_closure_def CallMethod_sends started_def update_conv'
        pb_wire.channel_send_ok [OF assms(1) send] simp flip: m_def split: if_splits)
qed

section \<open>Instances\<close>

interpretation echo_app: appending "echo_lib Little adler32_spec wire_pb"
  by unfold_locales
    (auto simp: echo_lib_def echo_base_def write_object_def doneCallback_sends read_object_def channel_send_def
      delete_object_def andThen_eq_Inr split: option.splits if_splits)

interpretation served: wiring 0 "server_home 0" "echo_lib Little adler32_spec wire_pb" demo_env wire_pb
    "RpcServer_user demo_env wire_pb demo_lib (\<lambda>c. 0) (\<lambda>c. ())" 0 echo_services "[]" 1032 "[]" "[]" 0
  by unfold_locales simp_all

interpretation calling: wiring 0 client_home "echo_lib Little adler32_spec wire_pb" demo_env wire_pb
    "RpcClient_user demo_env wire_pb demo_lib" 0 "\<lambda>n. None" "[]" 1032 "[]" "[]" 0
  by unfold_locales (simp_all add: RpcClient_user_def)

text \<open>A world with one idle connection whose kernel takes everything it is given.\<close>

definition idle_world :: "'x option \<Rightarrow> 'u \<Rightarrow> ('x, 'u) world" where
  "idle_world x u = \<lparr>conns = [0 \<mapsto> (new_conn 0 5 0)\<lparr>pUser := True, conn_context := x\<rparr>], next_conn = 1,
     epolls = (\<lambda>l fd. if l = 0 \<and> fd = 5 then Some (EPOLLIN, 0) else None), pendingFunctors = (\<lambda>l. []),
     write_answers = [1000000, 1000000], wire = (\<lambda>c. []), connections = (\<lambda>fd. None),
     threadPool = EventLoopThreadPool_init 0, client_connection = None, usr = u\<rparr>"

lemma new_conn_parts:
  "inBuf (new_conn c fd l) = Buffer_init kInitialSize" "outBuf (new_conn c fd l) = Buffer_init kInitialSize"
  "ch_fd (pSocketChannel (new_conn c fd l)) = fd" "content (Buffer_init kInitialSize) = []"
  using Buffer_init_ok [of kInitialSize]
  by (simp_all add: new_conn_def TcpConnection_init_def kInitialSize_def)

lemma idle_world_ok:
  fixes x :: "'x option" and u :: 'u
  defines "k \<equiv> (new_conn 0 5 0)\<lparr>pUser := True, conn_context := x\<rparr>"
  shows "conns (idle_world x u) 0 = Some k" "stream_ok k (idle_world x u)" "opened_conn 0 (idle_world x u)"
    "inBuf k = Buffer_init kInitialSize" "content (outBuf k) = []" "length (vec (outBuf k)) = 1032" "pUser k"
    "ch_fd (pSocketChannel k) = 5" "refs k = 1" "pLoop k = 0" "getContext k = x" "usr (idle_world x u) = u"
    "write_answers (idle_world x u) = [1000000, 1000000]" "wire (idle_world x u) 0 = []"
  using Buffer_init_ok [of kInitialSize]
  by (simp_all add: k_def idle_world_def new_conn_def TcpConnection_init_def stream_ok_def in_sync_def isWriting_def
      opened_conn_def getContext_def new_buffer_length kInitialSize_def [symmetric])

text \<open>A request of the echo method, in any pieces, and its answer.\<close>

lemma demo_frames:
  "9 < length (frame demo_env rpc_tag (request_msg wire_pb 7 echo_method [5]))"
  "length (frame demo_env rpc_tag (request_msg wire_pb 7 echo_method [5])) < 65000"
  "length (frame demo_env rpc_tag (response_msg wire_pb 7 [5])) < 2 ^ 30"
proof -
  have "sendable wire_pb (request_msg wire_pb 7 echo_method [5])" "sendable wire_pb (response_msg wire_pb 7 [5])"
    by (rule wire.sendable_built, simp add: echo_method_def)+
  then show "9 < length (frame demo_env rpc_tag (request_msg wire_pb 7 echo_method [5]))"
    "length (frame demo_env rpc_tag (request_msg wire_pb 7 echo_method [5])) < 65000"
    "length (frame demo_env rpc_tag (response_msg wire_pb 7 [5])) < 2 ^ 30"
    using wire.serialize_length [of "request_msg wire_pb 7 echo_method [5]"]
    by (simp_all add: sendable_def length_frame length_frame_body kMaxMessageLen_def)
      (simp_all add: built_msg_defs string_defs scalar_defs SharedCtor_def echo_method_def)
qed

lemma demo_answered:
  fixes ds
  assumes "concat ds = frame demo_env rpc_tag (request_msg wire_pb 7 echo_method [5])" "\<forall>d \<in> set ds. length d \<le> kExtraBuf"
  shows "\<exists>b'. feed demo_env (channel_codec demo_env wire_pb demo_lib echo_services) RpcChannel.demo_server (Buffer_init kInitialSize) ds
    = Inr (RpcChannel.demo_server\<lparr>fresh := 1, sent := [frame demo_env rpc_tag (response_msg wire_pb 7 [5])]\<rparr>, b')"
proof -
  let ?m = "request_msg wire_pb 7 echo_method [5]"
  have "sendable wire_pb ?m" by (rule wire.sendable_built) (simp add: echo_method_def)
  from wire.feed_one [where lib = demo_lib and services = echo_services, OF this assms] obtain b' where
    b': "\<And>s. feed demo_env (channel_codec demo_env wire_pb demo_lib echo_services) s (Buffer_init kInitialSize) ds
      = andThen (onRpcMessage demo_env wire_pb demo_lib echo_services s ?m) (\<lambda>s'. Inr (s', b'))" by blast
  have "onRpcMessage demo_env wire_pb demo_lib echo_services RpcChannel.demo_server ?m
      = Inr (RpcChannel.demo_server\<lparr>fresh := 1, sent := [frame demo_env rpc_tag (response_msg wire_pb 7 [5])]\<rparr>)"
    using echo.answer_request [of ?m RpcChannel.demo_server echo_services "()" "()"]
    by (simp add: echo_services_def echo_method_def RpcChannel.demo_server_def setServices_def RpcChannel_conn_def serve_result_def)
       (simp add: echo_lib_def echo_base_def fun_upd_idem)
  then show ?thesis by (simp only: b' andThen_Inr) blast
qed

section \<open>Properties\<close>

text \<open>
  The server's side of a connection refines its channel: whatever pieces the socket delivers, if the channel alone,
  fed these pieces, ends in \<open>ch'\<close> with \<open>new\<close> sent, then the read handlers of \<^verbatim>\<open>TcpConnection\<close> end with \<open>ch'\<close> as the
  connection's context, the same rest in the input buffer, and the frames \<open>new\<close> behind everything sent before,
  on the wire or waiting in the output buffer. The kernel must answer the writes without an error.
\<close>

theorem server_refines_channel:
  assumes "appending lib" "conns w c = Some k" "stream_ok k w" "pUser k" "0 \<le> ch_fd (pSocketChannel k)" "0 < refs k"
    and "getContext k = Some ch" "[] \<notin> set ds"
    and "feed env (channel_codec env rt lib (usr w)) ch (inBuf k) ds = Inr (ch', b')"
    and "sent ch' = sent ch @ new" "length new \<le> length (write_answers w)" "\<forall>a \<in> set (write_answers w). 0 \<le> a"
    and "length (vec (outBuf k)) + length (concat new) < 2 ^ 62" "length (concat new) < 2 ^ 31"
  shows "\<exists>w' k'. handle_reads (RpcServer_user env rt lib junk own) (pLoop k) c ds w = Inr w'
    \<and> conns w' c = Some k' \<and> getContext k' = Some ch' \<and> inBuf k' = b' \<and> usr w' = usr w
    \<and> wire w' c @ content (outBuf k') = wire w c @ content (outBuf k) @ concat new"
  using home_reads [OF server.rpc_home_axioms assms(1), of "RpcServer_user env rt lib junk own" k c env rt w ch ds ch' b' new]
    assms(2-14)
  by fastforce

lemma server_refines_channel_witness:
  "\<exists>w' k'. handle_reads (RpcServer_user demo_env wire_pb demo_lib (\<lambda>c. 0) (\<lambda>c. ())) 0 0
      [take 9 (frame demo_env rpc_tag (request_msg wire_pb 7 echo_method [5])),
       drop 9 (frame demo_env rpc_tag (request_msg wire_pb 7 echo_method [5]))]
      (idle_world (Some RpcChannel.demo_server) echo_services) = Inr w' \<and> conns w' 0 = Some k'
    \<and> wire w' 0 @ content (outBuf k') = frame demo_env rpc_tag (response_msg wire_pb 7 [5])"
proof -
  let ?m = "request_msg wire_pb 7 echo_method [5]"
  let ?fr = "frame demo_env rpc_tag ?m" and ?ans = "frame demo_env rpc_tag (response_msg wire_pb 7 [5])"
  let ?k = "(new_conn 0 5 0)\<lparr>pUser := True, conn_context := Some RpcChannel.demo_server\<rparr>"
  define s' where "s' = RpcChannel.demo_server\<lparr>fresh := 1, sent := [?ans]\<rparr>"
  note w = idle_world_ok
  note len = demo_frames
  have pieces: "concat [take 9 ?fr, drop 9 ?fr] = ?fr" "\<forall>d \<in> set [take 9 ?fr, drop 9 ?fr]. length d \<le> kExtraBuf"
    using len by (simp_all add: kExtraBuf_def)
  from demo_answered [OF this] obtain b' where "feed demo_env (channel_codec demo_env wire_pb demo_lib echo_services) RpcChannel.demo_server
      (Buffer_init kInitialSize) [take 9 ?fr, drop 9 ?fr] = Inr (s', b')" unfolding s'_def by blast
  then have feed: "feed demo_env (channel_codec demo_env wire_pb demo_lib (usr (idle_world (Some RpcChannel.demo_server) echo_services)))
      RpcChannel.demo_server (inBuf ?k) [take 9 ?fr, drop 9 ?fr] = Inr (s', b')"
    by (simp add: idle_world_ok)
  have k: "conns (idle_world (Some RpcChannel.demo_server) echo_services) 0 = Some ?k"
      "stream_ok ?k (idle_world (Some RpcChannel.demo_server) echo_services)" "pUser ?k" "0 \<le> ch_fd (pSocketChannel ?k)"
      "0 < refs ?k" "getContext ?k = Some RpcChannel.demo_server"
    by (simp_all add: idle_world_ok new_conn_parts)
  have "[] \<notin> set [take 9 ?fr, drop 9 ?fr]" using len(1) by auto
  note run = this feed
  have new: "sent s' = sent RpcChannel.demo_server @ [?ans]"
      "length [?ans] \<le> length (write_answers (idle_world (Some RpcChannel.demo_server) echo_services))"
      "\<forall>a \<in> set (write_answers (idle_world (Some RpcChannel.demo_server) echo_services)). 0 \<le> a"
      "length (vec (outBuf ?k)) + length (concat [?ans]) < 2 ^ 62" "length (concat [?ans]) < 2 ^ 31"
    using len(3)
    by (simp_all add: idle_world_ok new_conn_parts new_buffer_length) (simp add: s'_def RpcChannel.demo_server_def setServices_def RpcChannel_conn_def)
  have old: "wire (idle_world (Some RpcChannel.demo_server) echo_services) 0 = []" "content (outBuf ?k) = []" "pLoop ?k = 0"
    by (simp_all add: idle_world_ok new_conn_parts)
  from server_refines_channel [OF echo_app.appending_axioms k run new, of "\<lambda>c. 0" "\<lambda>c. ()", unfolded old]
  show ?thesis by (metis append_Nil concat.simps append_Nil2)
qed

text \<open>
  A service may complete a call later and in another thread: the frame of the response is queued for the
  connection's loop, and the response object is deleted.
\<close>

theorem late_completion:
  assumes "pb_wire rt left pos" "sendable rt (response_msg rt i (msg_serialize lib v))"
    and "conns w c = Some k" "getContext k = Some ch" "conn_set ch" "objects ch a = Some v" "tid \<noteq> pLoop k"
  shows "RpcServer_done (rpc_env e adler rt) rt lib tid c a i w =
    Inr (queue_call (pLoop k) (MessageCB c (frame (rpc_env e adler rt) rpc_tag (response_msg rt i (msg_serialize lib v))))
      (put_conn c (setContext (ch\<lparr>sent := sent ch @ [frame (rpc_env e adler rt) rpc_tag (response_msg rt i (msg_serialize lib v))],
         objects := (objects ch)(a := None)\<rparr>) k) w))"
  using assms
  by (simp add: RpcServer_done_def on_home_channel_def doneCallback_sends read_object_def pb_wire.channel_send_ok [OF assms(1,2)]
      delete_object_def Let_def TcpConnection_send_def put_conn_def)
    (simp add: server_home_def TcpConnection_send_def put_conn_def setContext_def getContext_def)

text \<open>C3:
  A remote call over two TCP connections: the client's call puts the frame of the request on its connection; the server's
  connection, reading these bytes in whatever pieces, runs the method and puts the frame of the response on its side;
  the client's connection, reading those bytes in whatever pieces, completes the call: its channel ends as
  \<open>completed\<close> says, with the response parsed into the object, the closure run and both deleted. Both
  connections are otherwise idle and the kernel takes what they write, some of it perhaps later.
\<close>

theorem remote_call_over_tcp:
  assumes srv: "serving rt left pos e adler libs handler" and app: "appending libs" "appending libc"
    and small: "length (service_full_name mt) + length (method_name mt) + length (msg_serialize libc req) \<le> 2 ^ 25"
      "length (serve_result libs handler sv md (msg_serialize libc req)) \<le> 2 ^ 25"
    and ks: "conns ws d = Some ks" "opened_conn d ws" "inBuf ks = Buffer_init kInitialSize" "pUser ks"
      "0 \<le> ch_fd (pSocketChannel ks)" "0 < refs ks" "length (vec (outBuf ks)) < 2 ^ 61"
      "write_answers ws \<noteq> []" "\<forall>a \<in> set (write_answers ws). 0 \<le> a"
    and server: "getContext ks = Some s" "services_set s" "conn_set s" "usr ws (service_full_name mt) = Some (Some sv)"
      "find_method libs sv (method_name mt) = Some md"
      "snd (msg_parse libs (request_new libs sv md) (msg_serialize libc req))"
    and kc: "conns wc c = Some kc" "opened_conn c wc" "inBuf kc = Buffer_init kInitialSize" "pUser kc"
      "0 \<le> ch_fd (pSocketChannel kc)" "0 < refs kc" "length (vec (outBuf kc)) < 2 ^ 61"
      "write_answers wc \<noteq> []" "\<forall>a \<in> set (write_answers wc). 0 \<le> a"
    and client: "cl_channel (usr wc) = ch" "cl_conn (usr wc) = Some c"
      "start_call (rpc_env e adler rt) rt libc mt req res ch = Inr c1"
      "completed libc (call_id ch + 1) (fresh ch) (Suc (fresh ch))
         (fst (msg_parse libc res (serve_result libs handler sv md (msg_serialize libc req)))) c1 = Inr c2"
      "sent c2 = sent c1"
  shows "\<exists>wc1. RpcClient_call (rpc_env e adler rt) rt libc (pLoop kc) mt req res wc = Inr wc1
    \<and> (\<forall>ds. concat ds = wire wc1 c @ unsent_bytes c wc1 \<and> (\<forall>d \<in> set ds. d \<noteq> [] \<and> length d \<le> kExtraBuf) \<longrightarrow>
      (\<exists>ws1. handle_reads (RpcServer_user (rpc_env e adler rt) rt libs junk own) (pLoop ks) d ds ws = Inr ws1
        \<and> (\<forall>es. concat es = wire ws1 d @ unsent_bytes d ws1 \<and> (\<forall>d \<in> set es. d \<noteq> [] \<and> length d \<le> kExtraBuf) \<longrightarrow>
          (\<exists>wc2. handle_reads (RpcClient_user (rpc_env e adler rt) rt libc) (pLoop kc) c es wc1 = Inr wc2
            \<and> cl_channel (usr wc2) = c2))))"
proof -
  note wf = serving.axioms(1) [OF srv]
  let ?env = "rpc_env e adler rt" and ?su = "RpcServer_user (rpc_env e adler rt) rt libs junk own"
    and ?cu = "RpcClient_user (rpc_env e adler rt) rt libc"
  define i where "i = call_id ch + 1"
  define m where "m = request_msg rt i mt (msg_serialize libc req)"
  define m' where "m' = response_msg rt i (serve_result libs handler sv md (msg_serialize libc req))"
  note call = start_call_sends [OF wf small(1) client(3), folded i_def, folded m_def]
  have send': "sendable rt m'" unfolding m'_def by (rule pb_wire.sendable_built(2) [OF wf small(2)])
  have short: "length (frame ?env rpc_tag x) < 2 ^ 30" if "sendable rt x" for x
    using that by (simp add: sendable_def length_frame length_frame_body kMaxMessageLen_def)
  have idle: "stream_ok kc wc" "content (outBuf kc) = []" "wire wc c = []" "stream_ok ks ws" "content (outBuf ks) = []" "wire ws d = []"
    using kc(1,2) ks(1,2) by (auto simp: opened_conn_def)
  obtain wc1 kc1 where wc1: "RpcClient_call ?env rt libc (pLoop kc) mt req res wc = Inr wc1" "conns wc1 c = Some kc1"
      "cl_channel (usr wc1) = c1" "cl_conn (usr wc1) = Some c" "kept kc kc1" "stream_ok kc1 wc1"
      "wire wc1 c @ content (outBuf kc1) = frame ?env rpc_tag m"
      "length (vec (outBuf kc1)) \<le> length (vec (outBuf kc)) + length (frame ?env rpc_tag m)"
      "\<forall>a \<in> set (write_answers wc1). 0 \<le> a"
  proof -
    have "1 \<le> length (write_answers wc)" using kc(8) by (cases "write_answers wc") auto
    then show thesis
      using that home_call [where op = "start_call ?env rt libc mt req res" and user = ?cu and env = ?env and rt = rt
            and new = "[frame ?env rpc_tag m]", OF client.rpc_home_axioms app(2) _ kc(1) idle(1) _ _ client(3)]
        client(1,2) call(2) kc(7-9) short [OF call(1)] idle(2,3)
      by (fastforce simp: RpcClient_call_def RpcClient_user_def)
  qed
  have server_side: "\<exists>ws1 ks1. handle_reads ?su (pLoop ks) d ds ws = Inr ws1 \<and> conns ws1 d = Some ks1
      \<and> wire ws1 d @ content (outBuf ks1) = frame ?env rpc_tag m'"
    if "concat ds = frame ?env rpc_tag m" "\<forall>d \<in> set ds. d \<noteq> [] \<and> length d \<le> kExtraBuf" for ds
  proof -
    from pb_wire.feed_one [OF wf call(1) that(1)] that(2) obtain b' where
      b': "\<And>s. feed ?env (channel_codec ?env rt libs (usr ws)) s (Buffer_init kInitialSize) ds
        = andThen (onRpcMessage ?env rt libs (usr ws) s m) (\<lambda>s'. Inr (s', b'))" by blast
    obtain s1 where s1: "onRpcMessage ?env rt libs (usr ws) s m = Inr s1" "sent s1 = sent s @ [frame ?env rpc_tag m']"
      using serving.answer_request [OF srv, of m s "usr ws" sv md] server small(2)
      by (simp add: m_def m'_def i_def)
    have om: "TcpConnection.onMessage ?su (pLoop ks) d = wired_onMessage ?env rt libs (server_home d) (pLoop ks) d" by simp
    have get: "get_channel (server_home d) ws = Some s" "home_conn (server_home d) ws = Some d" using ks(1) server(1) by simp_all
    have feed: "feed ?env (channel_codec ?env rt libs (home_services (server_home d) ws)) s (inBuf ks) ds = Inr (s1, b')"
      using b' s1(1) ks(3) by simp
    have "length [frame ?env rpc_tag m'] \<le> length (write_answers ws)" using ks(8) by (cases "write_answers ws") auto
    note room = this ks(9)
    have sizes: "length (vec (outBuf ks)) + length (concat [frame ?env rpc_tag m']) < 2 ^ 62" "length (concat [frame ?env rpc_tag m']) < 2 ^ 31"
      using ks(7) short [OF send'] by simp_all
    have "[] \<notin> set ds" using that(2) by auto
    from home_reads [OF server.rpc_home_axioms app(1) om ks(1) idle(4) ks(4-6) get this feed s1(2) room sizes] idle(5,6)
    show ?thesis by auto
  qed
  have client_side: "\<exists>wc2. handle_reads ?cu (pLoop kc) c es wc1 = Inr wc2 \<and> cl_channel (usr wc2) = c2"
    if "concat es = frame ?env rpc_tag m'" "\<forall>d \<in> set es. d \<noteq> [] \<and> length d \<le> kExtraBuf" for es
  proof -
    from pb_wire.feed_one [OF wf send' that(1)] that(2) obtain b' where
      b': "\<And>s. feed ?env (channel_codec ?env rt libc (\<lambda>n. None)) s (Buffer_init kInitialSize) es
        = andThen (onRpcMessage ?env rt libc (\<lambda>n. None) s m') (\<lambda>s'. Inr (s', b'))" by blast
    have "onRpcMessage ?env rt libc (\<lambda>n. None) c1 m' = Inr c2"
      using on_response_known [of c1 m' "fresh ch" "Suc (fresh ch)" res libc] call(3-5) client(4)
      by (simp add: onRpcMessage_def m'_def i_def)
    note finished = this
    have om: "TcpConnection.onMessage ?cu (pLoop kc1) c = wired_onMessage ?env rt libc client_home (pLoop kc1) c"
      by (simp add: RpcClient_user_def)
    have kept: "inBuf kc1 = Buffer_init kInitialSize" "pUser kc1" "0 \<le> ch_fd (pSocketChannel kc1)" "0 < refs kc1"
      "pLoop kc1 = pLoop kc" using wc1(5) kc(3-6) by (simp_all add: kept_def)
    have get: "get_channel client_home wc1 = Some c1" "home_conn client_home wc1 = Some c" using wc1(3,4) by simp_all
    have feed: "feed ?env (channel_codec ?env rt libc (home_services client_home wc1)) c1 (inBuf kc1) es = Inr (c2, b')"
      using b' finished kept(1) by simp
    have none: "sent c2 = sent c1 @ []" "length ([] :: byte list list) \<le> length (write_answers wc1)" using client(5) by simp_all
    have sizes: "length (vec (outBuf kc1)) + length (concat [] :: byte list) < 2 ^ 62" "length (concat [] :: byte list) < 2 ^ 31"
      using wc1(8) kc(7) short [OF call(1)] by simp_all
    have "[] \<notin> set es" using that(2) by auto
    from home_reads [OF client.rpc_home_axioms app(2) om wc1(2,6) kept(2-4) get this feed none wc1(9) sizes] kept(5)
    show ?thesis by auto
  qed
  have sent: "wire wc1 c @ unsent_bytes c wc1 = frame ?env rpc_tag m"
    using wc1(2,7) by (simp add: unsent_bytes_def)
  have answered: "wire ws1 d @ unsent_bytes d ws1 = frame ?env rpc_tag m'"
    if "conns ws1 d = Some ks1" "wire ws1 d @ content (outBuf ks1) = frame ?env rpc_tag m'" for ws1 ks1
    using that by (simp add: unsent_bytes_def)
  show ?thesis
    using wc1(1) server_side client_side sent answered by (metis (no_types, lifting))
qed

lemma remote_call_over_tcp_witness:
  "\<exists>wc1 :: (unit, byte list, unit) client_world. RpcClient_call demo_env wire_pb demo_lib 0 echo_method [5] []
      (idle_world None \<lparr>cl_channel = setConnection RpcChannel_default, cl_conn = Some 0\<rparr>) = Inr wc1
    \<and> (\<forall>ds. concat ds = wire wc1 0 @ unsent_bytes 0 wc1 \<and> (\<forall>d \<in> set ds. d \<noteq> [] \<and> length d \<le> kExtraBuf) \<longrightarrow>
      (\<exists>ws1. handle_reads (RpcServer_user demo_env wire_pb demo_lib (\<lambda>c. 0) (\<lambda>c. ())) 0 0 ds
        (idle_world (Some RpcChannel.demo_server) echo_services) = Inr ws1))"
proof -
  let ?ch = "setConnection RpcChannel_default :: byte list rpc_channel"
  let ?u = "\<lparr>cl_channel = ?ch, cl_conn = Some 0\<rparr>"
  let ?wc = "idle_world None ?u :: (unit, byte list, unit) client_world" and ?ws = "idle_world (Some RpcChannel.demo_server) echo_services"
  let ?kc = "(new_conn 0 5 0)\<lparr>pUser := True, conn_context := None\<rparr> :: unit tcp_conn"
    and ?ks = "(new_conn 0 5 0)\<lparr>pUser := True, conn_context := Some RpcChannel.demo_server\<rparr>"
  have small: "length (service_full_name echo_method) + length (method_name echo_method) + length (msg_serialize demo_lib [5]) \<le> 2 ^ 25"
    "length (serve_result demo_lib (\<lambda>sv md req. req) () () (msg_serialize demo_lib [5])) \<le> 2 ^ 25"
    by (simp_all add: echo_method_def serve_result_def echo_lib_def echo_base_def)
  note conn = idle_world_ok new_conn_parts new_buffer_length
  have ks: "conns ?ws 0 = Some ?ks" "opened_conn 0 ?ws" "inBuf ?ks = Buffer_init kInitialSize" "pUser ?ks"
      "0 \<le> ch_fd (pSocketChannel ?ks)" "0 < refs ?ks" "length (vec (outBuf ?ks)) < 2 ^ 61" "write_answers ?ws \<noteq> []"
      "\<forall>a \<in> set (write_answers ?ws). 0 \<le> a" "getContext ?ks = Some RpcChannel.demo_server"
    by (simp_all add: conn)
  have server: "services_set RpcChannel.demo_server" "conn_set RpcChannel.demo_server"
      "usr ?ws (service_full_name echo_method) = Some (Some ())" "find_method demo_lib () (method_name echo_method) = Some ()"
      "snd (msg_parse demo_lib (request_new demo_lib () ()) (msg_serialize demo_lib [5]))"
    by (simp_all add: conn RpcChannel.demo_server_def setServices_def RpcChannel_conn_def echo_services_def echo_method_def
        echo_lib_def echo_base_def)
  have kc: "conns ?wc 0 = Some ?kc" "opened_conn 0 ?wc" "inBuf ?kc = Buffer_init kInitialSize" "pUser ?kc"
      "0 \<le> ch_fd (pSocketChannel ?kc)" "0 < refs ?kc" "length (vec (outBuf ?kc)) < 2 ^ 61" "write_answers ?wc \<noteq> []"
      "\<forall>a \<in> set (write_answers ?wc). 0 \<le> a" "cl_channel (usr ?wc) = ?ch" "cl_conn (usr ?wc) = Some 0"
    by (simp_all add: conn)
  have "sendable wire_pb (request_msg wire_pb 1 echo_method (msg_serialize demo_lib [5]))"
    by (rule wire.sendable_built(1) [OF small(1)])
  then obtain c1 where c1: "start_call demo_env wire_pb demo_lib echo_method [5] [] ?ch = Inr c1"
    by (simp add: start_call_def new_object_def new_closure_def CallMethod_sends started_def wire.channel_send_ok
        setConnection_def RpcChannel_default_def)
  obtain c2 where c2: "completed demo_lib (call_id ?ch + 1) (fresh ?ch) (Suc (fresh ?ch))
         (fst (msg_parse demo_lib [] (serve_result demo_lib (\<lambda>sv md req. req) () () (msg_serialize demo_lib [5])))) c1 = Inr c2"
      "sent c2 = sent c1"
    using start_call_sends(4,5) [OF wire.pb_wire_axioms small(1) c1]
    by (simp add: completed_def echo_lib_def echo_base_def delete_closure_def delete_object_def)
  from remote_call_over_tcp [OF echo.serving_axioms echo_app.appending_axioms echo_app.appending_axioms small ks server kc c1 c2,
      of "\<lambda>c. 0" "\<lambda>c. ()"]
  show ?thesis
    unfolding idle_world_ok(10)
    by - (elim exE conjE, rule exI, rule conjI, assumption, intro allI impI, drule spec, drule mp, assumption,
        elim exE conjE, rule exI, assumption)
qed

text \<open>
  Where the reference comes from: a new connection of the RPC server has two, one from the server's map and one from its own channel,
  and when it is closed the second is left. (That it stays for good is theorem \<open>rpc_connections_never_freed\<close> of \<open>RpcLoop\<close>.)
\<close>

lemma channel_holds_connection:
  assumes "getNextLoop (threadPool w) = Inr (l, p)" "connections w fd = None" "srv_user srv"
    and "0 \<le> fd" "epolls w l fd = None"
  shows "\<exists>w1 k1 w2 k2. TcpServer_newConnection srv (RpcServer_user env rt lib junk own) l fd w = Inr w1
    \<and> conns w1 (next_conn w) = Some k1 \<and> refs k1 = 2 \<and> connections w1 fd = Some (next_conn w)
    \<and> getContext k1 = Some (setServices (rpc_channel.extend (RpcChannel_conn (junk (next_conn w))) (own (next_conn w))))
    \<and> handleClose (RpcServer_user env rt lib junk own) l (next_conn w) w1 = Inr w2
    \<and> connections w2 fd = None \<and> epolls w2 l fd = None \<and> conns w2 (next_conn w) = Some k2 \<and> refs k2 = 1"
  using assms
  by (simp add: newConnection_start [OF assms(1-3)] accepted_world_def Let_def with_ref_def connectEstablished_def
      share_def put_conn_def RpcServer_onConnection_def setContext_def getContext_def release_def)
    (simp add: handleClose_def on_channel_def disableAll_def Epoll_update_def setIndex_def epoll_del_def epoll_add_def
      TcpServer_removeConnection_def with_ref_def share_def release_def put_conn_def new_conn_def TcpConnection_init_def)

end
