(* ===== verification/Examples.thy ===== *)
theory Examples
  imports RpcNetwork TcpClient Timestamps
begin

text \<open>
  The programs under \<^verbatim>\<open>examples/\<close>: the services of \<^verbatim>\<open>sudoku/server.cc\<close> and \<^verbatim>\<open>qpstest/server.cc\<close>, the clients of
  the same directories and the test \<^verbatim>\<open>rpccodec/RpcCodec_test.cc\<close>. The generated message classes of the two
  services are parameters. The lemmas show that the services are of the kind the theorems on requests
  ask for, that the qpstest client makes exactly its requests, and that the test passes.
\<close>

section \<open>Services\<close>

text \<open>
  The two services of the examples complete the call before they return. The fields of the generated messages
  are parameters: \<open>payload\<close>, \<open>set_payload\<close> and so on.
\<close>

definition EchoServiceImpl_Echo ::
  "('v \<Rightarrow> byte list) \<Rightarrow> (byte list \<Rightarrow> 'v \<Rightarrow> 'v)
    \<Rightarrow> (nat \<Rightarrow> 64 word \<Rightarrow> ('v, 'z) rpc_channel_scheme \<Rightarrow> ('v, 'z) rpc_channel_scheme result)
    \<Rightarrow> 'v \<Rightarrow> nat \<Rightarrow> 64 word \<Rightarrow> ('v, 'z) rpc_channel_scheme \<Rightarrow> ('v, 'z) rpc_channel_scheme result" where
  "EchoServiceImpl_Echo payload set_payload done_run request response msg_id s =
     andThen (read_object response s) (\<lambda>v.
     andThen (write_object response (set_payload (payload request) v) s) (done_run response msg_id))"

definition SudokuServiceImpl_Solve ::
  "(bool \<Rightarrow> 'v \<Rightarrow> 'v) \<Rightarrow> (string \<Rightarrow> 'v \<Rightarrow> 'v)
    \<Rightarrow> (nat \<Rightarrow> 64 word \<Rightarrow> ('v, 'z) rpc_channel_scheme \<Rightarrow> ('v, 'z) rpc_channel_scheme result)
    \<Rightarrow> 'v \<Rightarrow> nat \<Rightarrow> 64 word \<Rightarrow> ('v, 'z) rpc_channel_scheme \<Rightarrow> ('v, 'z) rpc_channel_scheme result" where
  "SudokuServiceImpl_Solve set_solved set_checkerboard done_run request response msg_id s =
     andThen (read_object response s) (\<lambda>v.
     andThen (write_object response (set_checkerboard ''1234567'' (set_solved True v)) s) (done_run response msg_id))"

text \<open>Both are services that answer before they return; every field of the response is written.\<close>

lemma echo_serving:
  fixes set_payload :: "byte list \<Rightarrow> 'v \<Rightarrow> 'v"
    and lib :: "('v, 'sv, 'md, ('v, 'z) rpc_channel_scheme) rpc_lib"
  assumes "pb_wire rt left pos" "\<And>p v. set_payload p v = set_payload p v0"
    and "call_method lib = (\<lambda>sv md req. EchoServiceImpl_Echo payload set_payload (doneCallback (rpc_env e adler rt) rt lib) req)"
  shows "serving rt left pos e adler lib (\<lambda>sv md req. set_payload (payload req) v0)"
proof (unfold serving_def serving_axioms_def assms(3), intro conjI allI impI)
  fix s :: "('v, 'z) rpc_channel_scheme" and a v sv md req i
  assume "objects s a = Some v"
  moreover have "set_payload (payload req) v = set_payload (payload req) v0" by (rule assms(2))
  ultimately show "EchoServiceImpl_Echo payload set_payload (doneCallback (rpc_env e adler rt) rt lib) req a i s
      = doneCallback (rpc_env e adler rt) rt lib a i (s\<lparr>objects := (objects s)(a := Some (set_payload (payload req) v0))\<rparr>)"
    by (simp add: EchoServiceImpl_Echo_def read_object_def write_object_def)
qed (rule assms(1))

lemma sudoku_serving:
  fixes set_checkerboard :: "string \<Rightarrow> 'v \<Rightarrow> 'v"
    and lib :: "('v, 'sv, 'md, ('v, 'z) rpc_channel_scheme) rpc_lib"
  assumes "pb_wire rt left pos"
    and "\<And>v. set_checkerboard ''1234567'' (set_solved True v) = set_checkerboard ''1234567'' (set_solved True v0)"
    and "call_method lib = (\<lambda>sv md req. SudokuServiceImpl_Solve set_solved set_checkerboard (doneCallback (rpc_env e adler rt) rt lib) req)"
  shows "serving rt left pos e adler lib (\<lambda>sv md req. set_checkerboard ''1234567'' (set_solved True v0))"
proof (unfold serving_def serving_axioms_def assms(3), intro conjI allI impI)
  fix s :: "('v, 'z) rpc_channel_scheme" and a v sv md req i
  assume "objects s a = Some v"
  moreover have "set_checkerboard ''1234567'' (set_solved True v) = set_checkerboard ''1234567'' (set_solved True v0)"
    by (rule assms(2))
  ultimately show "SudokuServiceImpl_Solve set_solved set_checkerboard (doneCallback (rpc_env e adler rt) rt lib) req a i s
      = doneCallback (rpc_env e adler rt) rt lib a i
          (s\<lparr>objects := (objects s)(a := Some (set_checkerboard ''1234567'' (set_solved True v0)))\<rparr>)"
    by (simp add: SudokuServiceImpl_Solve_def read_object_def write_object_def)
qed (rule assms(1))

section \<open>The sudoku client\<close>

text \<open>\<open>board\<close> is \<^verbatim>\<open>set_checkerboard\<close> of the request, \<open>fresh_response\<close> a new response object; \<^verbatim>\<open>solved\<close> only prints.\<close>

definition sudoku_lib ::
  "('v, 'sv, 'md, ('v, 'z) rpc_channel_scheme) rpc_lib \<Rightarrow> ('v, 'sv, 'md, ('v, 'z) rpc_channel_scheme) rpc_lib" where
  "sudoku_lib base = base\<lparr>run_done := \<lambda>d. Inr\<rparr>"

text \<open>\<^verbatim>\<open>connect()\<close> of both clients.\<close>

definition RpcClient_connect ::
  "nat \<Rightarrow> int \<Rightarrow> int \<Rightarrow> int \<Rightarrow> tcp_client \<Rightarrow> ('x, 'v, 'z) client_world \<Rightarrow> tcp_client \<times> ('x, 'v, 'z) client_world" where
  "RpcClient_connect tid fd ret err cl w = TcpClient_connect tid fd ret err (TcpClient_setCallback True cl) w"

definition sudoku_loopSendRpcRequest ::
  "'a RpcMetaMessage codec_env \<Rightarrow> ('a, 'p) pb \<Rightarrow> ('v, 'sv, 'md, ('v, 'z) rpc_channel_scheme) rpc_lib
    \<Rightarrow> nat \<Rightarrow> rpc_method \<Rightarrow> (string \<Rightarrow> 'v \<Rightarrow> 'v) \<Rightarrow> 'v \<Rightarrow> 'v
    \<Rightarrow> ('x, 'v, 'z) client_world \<Rightarrow> ('x, 'v, 'z) client_world result" where
  "sudoku_loopSendRpcRequest env rt base tid solve board request fresh_response w =
     RpcClient_call env rt (sudoku_lib base) tid solve (board ''001010'' request) fresh_response w"

text \<open>
  Without a connection (the timer fires every three seconds whether or not the client is connected) the request
  dereferences the null pointer of the channel.
\<close>

lemma request_before_connection:
  assumes "pb_wire rt left pos" "cl_channel (usr w) = rpc_channel.extend RpcChannel_default own"
    and "length (service_full_name mt) + length (method_name mt) + length (msg_serialize base (board ''001010'' request)) \<le> 2 ^ 25"
  shows "sudoku_loopSendRpcRequest (rpc_env e adler rt) rt base tid mt board request fresh_response w = Inl NullDeref"
proof -
  have "sendable rt (request_msg rt i mt (msg_serialize (sudoku_lib base) (board ''001010'' request)))" for i
    using assms(3) by (intro pb_wire.sendable_built(1) [OF assms(1)]) (simp add: sudoku_lib_def)
  then show ?thesis
    using assms(2)
    by (simp add: sudoku_loopSendRpcRequest_def RpcClient_call_def on_home_channel_def start_call_def new_object_def
        new_closure_def CallMethod_sends started_def pb_wire.channel_send_ok [OF assms(1)] rpc_channel.defs RpcChannel_default_def)
qed

section \<open>The qpstest client\<close>

abbreviation kRequests :: int where "kRequests \<equiv> 50000"

text \<open>\<open>qps_clock\<close> are the answers of \<^verbatim>\<open>gettimeofday\<close>.\<close>

record 'v qps_channel = "'v rpc_channel" +
  qps_count :: int
  qps_began :: timestamp
  qps_ended :: timestamp
  qps_clock :: "timeval list"

definition qps_now ::
  "(double \<Rightarrow> double) \<Rightarrow> ('v, 'z) qps_channel_scheme \<Rightarrow> timestamp \<times> ('v, 'z) qps_channel_scheme" where
  "qps_now rnd s =
     (case qps_clock s of [] \<Rightarrow> (Timestamp_now rnd (0, 0), s) | tv # tvs \<Rightarrow> (Timestamp_now rnd tv, s\<lparr>qps_clock := tvs\<rparr>))"

lemma fst_qps_now [simp]:
  "fst (qps_now rnd s) = Timestamp_now rnd (case qps_clock s of [] \<Rightarrow> (0, 0) | tv # tvs \<Rightarrow> tv)"
  by (simp add: qps_now_def split: list.splits)

text \<open>
  \<^verbatim>\<open>solved\<close> counts the response and starts the next call. \<open>echo\<close> names the method, \<open>request\<close> is the request
  with its payload, \<open>response\<close> a new response object.
\<close>

definition qps_loopSendRpcRequest ::
  "(double \<Rightarrow> double) \<Rightarrow> 'a RpcMetaMessage codec_env \<Rightarrow> ('a, 'p) pb
    \<Rightarrow> ('v, 'sv, 'md, ('v, 'z) qps_channel_scheme) rpc_lib
    \<Rightarrow> rpc_method \<Rightarrow> 'v \<Rightarrow> 'v \<Rightarrow> ('v, 'z) qps_channel_scheme \<Rightarrow> ('v, 'z) qps_channel_scheme result" where
  "qps_loopSendRpcRequest rnd env rt lib echo request response s =
     (let s1 = (if qps_count s = 0 then let (t, s') = qps_now rnd s in s'\<lparr>qps_began := t\<rparr> else s)
      in start_call env rt lib echo request response s1)"

definition qps_solved ::
  "(double \<Rightarrow> double) \<Rightarrow> 'a RpcMetaMessage codec_env \<Rightarrow> ('a, 'p) pb
    \<Rightarrow> ('v, 'sv, 'md, ('v, 'z) qps_channel_scheme) rpc_lib
    \<Rightarrow> rpc_method \<Rightarrow> 'v \<Rightarrow> 'v \<Rightarrow> ('v, 'z) qps_channel_scheme \<Rightarrow> ('v, 'z) qps_channel_scheme result" where
  "qps_solved rnd env rt base echo request response s =
     (let s1 = s\<lparr>qps_count := qps_count s + 1\<rparr>
      in if qps_count s1 < kRequests then qps_loopSendRpcRequest rnd env rt base echo request response s1
         else let (t, s2) = qps_now rnd s1 in Inr (s2\<lparr>qps_ended := t\<rparr>))"

text \<open>The seconds and the calls per second that are printed at the end; no time at all is an infinite rate.\<close>

definition qps_report :: "(double \<Rightarrow> double) \<Rightarrow> ('v, 'z) qps_channel_scheme \<Rightarrow> double \<times> double option" where
  "qps_report rnd s =
     (let seconds = timeDifference rnd (qps_ended s) (qps_began s)
      in (seconds, if seconds = 0 then None else Some (rnd (of_int kRequests / seconds))))"

definition qps_lib ::
  "(double \<Rightarrow> double) \<Rightarrow> 'a RpcMetaMessage codec_env \<Rightarrow> ('a, 'p) pb \<Rightarrow> ('v, 'sv, 'md, ('v, 'z) qps_channel_scheme) rpc_lib
    \<Rightarrow> rpc_method \<Rightarrow> 'v \<Rightarrow> 'v \<Rightarrow> ('v, 'sv, 'md, ('v, 'z) qps_channel_scheme) rpc_lib" where
  "qps_lib rnd env rt base echo request response = base\<lparr>run_done := \<lambda>d. qps_solved rnd env rt base echo request response\<rparr>"

definition qps_user ::
  "(double \<Rightarrow> double) \<Rightarrow> 'a RpcMetaMessage codec_env \<Rightarrow> ('a, 'p) pb \<Rightarrow> ('v, 'sv, 'md, ('v, 'z) qps_channel_scheme) rpc_lib
    \<Rightarrow> rpc_method \<Rightarrow> 'v \<Rightarrow> 'v \<Rightarrow> ('x, ('v, 'z qps_channel_ext) client_state) muduo_user" where
  "qps_user rnd env rt base echo request response =
     (let lib = qps_lib rnd env rt base echo request response
      in (RpcClient_user env rt lib)\<lparr>onConnection := \<lambda>tid c w.
           andThen (RpcClient_onConnection tid c w)
             (on_home_channel (client_home :: (_, _, 'sv) channel_home) tid (qps_loopSendRpcRequest rnd env rt lib echo request response))\<rparr>)"

text \<open>After \<open>n\<close> responses: the next call is the only one outstanding, or all are done.\<close>

definition qps_after ::
  "timestamp \<Rightarrow> timestamp \<Rightarrow> (double \<Rightarrow> double) \<Rightarrow> nat \<Rightarrow> ('v, 'z) qps_channel_scheme \<Rightarrow> bool" where
  "qps_after t0 t1 rnd n s \<longleftrightarrow> qps_began s = t0 \<and> (if n < 50000 then fst (qps_now rnd s) = t1 else qps_ended s = t1)
     \<and> qps_count s = int n \<and> conn_set s \<and> length (sent s) = min (Suc n) 50000
     \<and> call_id s = of_nat (min (Suc n) 50000)
     \<and> (if n < 50000
        then \<exists>r d v. outstandings s = [(of_nat (Suc n), \<lparr>oc_response = Some r, oc_done = Some d\<rparr>)]
          \<and> objects s r = Some v \<and> d \<in> closures s \<and> r < fresh s \<and> d < fresh s
        else outstandings s = [])"

lemma start_call_steps:
  assumes "pb_wire rt left pos"
    and "length (service_full_name mt) + length (method_name mt) + length (msg_serialize lib req) \<le> 2 ^ 25" "conn_set s"
  shows "start_call (rpc_env e adler rt) rt lib mt req res s = Inr (s\<lparr>objects := (objects s)(fresh s := Some res),
      closures := insert (Suc (fresh s)) (closures s), fresh := Suc (Suc (fresh s)), call_id := call_id s + 1,
      outstandings := AList.update (call_id s + 1) \<lparr>oc_response = Some (fresh s), oc_done = Some (Suc (fresh s))\<rparr> (outstandings s),
      sent := sent s @ [frame (rpc_env e adler rt) rpc_tag (request_msg rt (call_id s + 1) mt (msg_serialize lib req))]\<rparr>)"
  using assms(3) pb_wire.sendable_built(1) [OF assms(1,2)]
  by (simp add: start_call_def new_object_def new_closure_def CallMethod_sends started_def
      pb_wire.channel_send_ok [OF assms(1)])

lemma qps_step:
  assumes "pb_wire rt left pos"
    and "length (service_full_name echo) + length (method_name echo) + length (msg_serialize base request) \<le> 2 ^ 25"
    and "qps_after t0 t1 rnd n s" "n < 50000" "get_type m = RESPONSE" "get_id m = of_nat (Suc n)"
  shows "\<exists>s'. onRpcMessage (rpc_env e adler rt) rt (qps_lib rnd (rpc_env e adler rt) rt base echo request response) services s m = Inr s'
    \<and> qps_after t0 t1 rnd (Suc n) s'"
proof -
  let ?lib = "qps_lib rnd (rpc_env e adler rt) rt base echo request response"
  from assms(3,4) obtain r d v where s: "qps_count s = int n" "conn_set s" "length (sent s) = Suc n" "call_id s = of_nat (Suc n)"
    "outstandings s = [(of_nat (Suc n), \<lparr>oc_response = Some r, oc_done = Some d\<rparr>)]"
    "objects s r = Some v" "d \<in> closures s" "r < fresh s" "d < fresh s"
    and clock: "qps_began s = t0" "fst (qps_now rnd s) = t1"
    by (auto simp: qps_after_def)
  let ?v = "if has_response m then fst (msg_parse ?lib v (get_response m)) else v"
  let ?s1 = "s\<lparr>outstandings := [], objects := (objects s)(r := Some ?v)\<rparr>"
  have "onRpcMessage (rpc_env e adler rt) rt ?lib services s m = completed ?lib (get_id m) r d ?v s"
    using on_response_known [of s m r d v ?lib] assms(5,6) s(5-7) by (simp add: onRpcMessage_def)
  moreover have "AList.delete (get_id m) (outstandings s) = []" using s(5) assms(6) by simp
  ultimately have run: "onRpcMessage (rpc_env e adler rt) rt ?lib services s m =
      andThen (qps_solved rnd (rpc_env e adler rt) rt base echo request response ?s1) (\<lambda>s1. andThen (delete_closure d s1) (delete_object r))"
    by (simp add: completed_def qps_lib_def)
  show ?thesis
  proof (cases "Suc n < 50000")
    case False
    then have "n = 49999" using assms(4) by simp
    then show ?thesis
      using s clock
      by (cases "qps_clock s") (simp_all add: run qps_solved_def delete_closure_def delete_object_def qps_after_def qps_now_def Let_def)
  next
    case True
    have "int n + 1 < kRequests" using True by simp
    from start_call_steps [OF assms(1,2), of "?s1\<lparr>qps_count := int n + 1\<rparr>" e adler response] s(2)
      True s clock \<open>int n + 1 < kRequests\<close> show ?thesis
      by (simp add: run qps_solved_def qps_loopSendRpcRequest_def delete_closure_def delete_object_def qps_after_def)
  qed
qed

lemma qps_run:
  assumes "pb_wire rt left pos"
    and "length (service_full_name echo) + length (method_name echo) + length (msg_serialize base request) \<le> 2 ^ 25"
    and "qps_after t0 t1 rnd n s" "n + length ms \<le> 50000"
    and "\<forall>i < length ms. get_type (ms ! i) = RESPONSE \<and> get_id (ms ! i) = of_nat (Suc (n + i))"
  shows "\<exists>s'. deliver (onRpcMessage (rpc_env e adler rt) rt (qps_lib rnd (rpc_env e adler rt) rt base echo request response) services) s ms
      = Inr s' \<and> qps_after t0 t1 rnd (n + length ms) s'"
  using assms(3-5)
proof (induction ms arbitrary: n s)
  case (Cons m ms)
  have "get_type m = RESPONSE" "get_id m = of_nat (Suc n)" "n < 50000" using Cons.prems(2,3) by auto
  from qps_step [OF assms(1,2) Cons.prems(1) this(3,1,2)] obtain s1 where
    s1: "onRpcMessage (rpc_env e adler rt) rt (qps_lib rnd (rpc_env e adler rt) rt base echo request response) services s m = Inr s1"
      "qps_after t0 t1 rnd (Suc n) s1" by blast
  have "\<forall>i < length ms. get_type (ms ! i) = RESPONSE \<and> get_id (ms ! i) = of_nat (Suc (Suc n + i))"
    using Cons.prems(3) by (metis add_Suc_shift length_Cons not_less_eq nth_Cons_Suc)
  with Cons.IH [OF s1(2)] Cons.prems(2) s1(1) show ?case by simp
qed simp

lemma qps_start:
  assumes "pb_wire rt left pos"
    and "length (service_full_name echo) + length (method_name echo) + length (msg_serialize base request) \<le> 2 ^ 25"
    and "qps_count s = 0" "call_id s = 0" "outstandings s = []" "sent s = []" "qps_clock s = tv0 # tv1 # tvs"
  shows "\<exists>s1. qps_loopSendRpcRequest rnd (rpc_env e adler rt) rt (qps_lib rnd (rpc_env e adler rt) rt base echo request response) echo request response
      (setConnection s) = Inr s1 \<and> qps_after (Timestamp_now rnd tv0) (Timestamp_now rnd tv1) rnd 0 s1"
  using start_call_steps [OF assms(1), of echo "qps_lib rnd (rpc_env e adler rt) rt base echo request response" request
      "(setConnection s)\<lparr>qps_clock := tv1 # tvs, qps_began := Timestamp_now rnd tv0\<rparr>" e adler response]
    assms(2-7)
  by (simp add: qps_lib_def setConnection_def qps_after_def qps_loopSendRpcRequest_def qps_now_def)

section \<open>The codec test\<close>

text \<open>
  \<^verbatim>\<open>RpcCodec_test.cc\<close>: encode a message into a new buffer, decode it from the same buffer, and compare. The state is
  the global message pointer.
\<close>

definition RpcCodec_test ::
  "'a RpcMetaMessage codec_env \<Rightarrow> byte list \<Rightarrow> 'a RpcMetaMessage \<Rightarrow> ('a RpcMetaMessage option \<times> buffer) result" where
  "RpcCodec_test env tg message =
     (let codec = ProtobufCodecLite tg (\<lambda>g msg. Inr (Some msg))
      in andThen (fillEmptyBuffer env codec (Buffer_init kInitialSize) message) (Codec.onMessage env codec None))"

context pb_wire begin

lemma codec_test_ok:
  assumes "plain rt m" "IsInitialized m" "tag_ok tg" "int (length tg + length (InternalSerialize rt m) + 4) \<le> kMaxMessageLen"
  shows "\<exists>b. RpcCodec_test (rpc_env e adler rt) tg m = Inr (Some m, b) \<and> content b = []"
proof -
  let ?env = "rpc_env e adler rt" and ?cd = "ProtobufCodecLite tg (\<lambda>g msg. Inr (Some msg)) :: ('a RpcMetaMessage option, 'a RpcMetaMessage) codec"
  have good: "plain rt m \<and> IsInitialized m" "rpc.short e adler (length tg) m"
    using assms by (simp_all add: rpc.short_def)
  have enc: "encodable ?env (tag ?cd) m" using rpc.good_encodable [OF good] by simp
  have new: "buffer_ok (Buffer_init kInitialSize)" "content (Buffer_init kInitialSize) = []" "8 \<le> unat (readerIndex (Buffer_init kInitialSize))"
    using Buffer_init_ok [of kInitialSize] by (simp_all add: kInitialSize_def Buffer_init_def kCheapPrepend_def)
  have "length (frame ?env (tag ?cd) m) \<le> 2 ^ 40"
    using assms(4) by (simp add: length_frame length_frame_body kMaxMessageLen_def)
  from fillEmptyBuffer_ok [OF new new_buffer_room [OF this] enc] obtain b where
    b: "fillEmptyBuffer ?env ?cd (Buffer_init kInitialSize) m = Inr b" "buffer_ok b" "content b = frame ?env tg m" by auto
  from rpc.receive_frames [OF b(2), of ?cd e adler "[m]"] b(3) assms(3) good
  obtain b' where "content b' = []" "\<And>s. Codec.onMessage ?env ?cd s b = andThen (deliver (messageCallback ?cd) s [m]) (\<lambda>s'. Inr (s', b'))"
    by auto
  with b(1) show ?thesis by (simp add: RpcCodec_test_def)
qed

end

section \<open>Properties\<close>

text \<open>C39:
  The qpstest client makes exactly its 50000 requests, one after the other: the first when it is connected, the next from the
  closure of each response. After \<open>n\<close> responses in order it has counted \<open>n\<close> and sent \<open>n + 1\<close> requests with exactly
  one outstanding; after 50000 it has sent 50000, none is outstanding, and it stops. The time it measures is that from
  the first request to the last response: it looks at the clock at these two moments only.
\<close>

theorem qps_makes_all_requests:
  fixes s :: "('v, 'z) qps_channel_scheme"
  assumes "pb_wire rt left pos"
    and "length (service_full_name echo) + length (method_name echo) + length (msg_serialize base request) \<le> 2 ^ 25"
    and "qps_count s = 0" "call_id s = 0" "outstandings s = []" "sent s = []" "qps_clock s = tv0 # tv1 # tvs"
    and "length ms \<le> 50000"
    and "\<forall>i < length ms. get_type (ms ! i) = RESPONSE \<and> get_id (ms ! i) = of_nat (Suc i)"
  shows "\<exists>s1 s2. qps_loopSendRpcRequest rnd (rpc_env e adler rt) rt (qps_lib rnd (rpc_env e adler rt) rt base echo request response) echo request response
      (setConnection s) = Inr s1
    \<and> deliver (onRpcMessage (rpc_env e adler rt) rt (qps_lib rnd (rpc_env e adler rt) rt base echo request response) services) s1 ms = Inr s2
    \<and> qps_count s2 = int (length ms) \<and> length (sent s2) = min (Suc (length ms)) 50000
    \<and> length (outstandings s2) = (if length ms < 50000 then 1 else 0)
    \<and> qps_began s2 = Timestamp_now rnd tv0 \<and> (length ms = 50000 \<longrightarrow> qps_ended s2 = Timestamp_now rnd tv1)"
proof -
  from qps_start [OF assms(1-7)] obtain s1 where
    s1: "qps_loopSendRpcRequest rnd (rpc_env e adler rt) rt (qps_lib rnd (rpc_env e adler rt) rt base echo request response) echo request response
      (setConnection s) = Inr s1" "qps_after (Timestamp_now rnd tv0) (Timestamp_now rnd tv1) rnd 0 s1" by blast
  have "0 + length ms \<le> 50000" "\<forall>i < length ms. get_type (ms ! i) = RESPONSE \<and> get_id (ms ! i) = of_nat (Suc (0 + i))"
    using assms(8,9) by simp_all
  from qps_run [OF assms(1,2) s1(2) this, where e = e and adler = adler and response = response and services = services]
  obtain s2 where
    "deliver (onRpcMessage (rpc_env e adler rt) rt (qps_lib rnd (rpc_env e adler rt) rt base echo request response) services) s1 ms = Inr s2"
    "qps_after (Timestamp_now rnd tv0) (Timestamp_now rnd tv1) rnd (length ms) s2" by auto
  with s1(1) show ?thesis by (auto simp: qps_after_def)
qed

definition demo_qps_lib :: "(byte list, unit, unit, byte list qps_channel) rpc_lib" where
  "demo_qps_lib = \<lparr>msg_serialize = (\<lambda>v. v), msg_parse = (\<lambda>v d. (d, True)), find_method = (\<lambda>sv n. None),
     request_new = (\<lambda>sv md. []), response_new = (\<lambda>sv md. []), call_method = (\<lambda>sv md req a i. Inr), run_done = (\<lambda>d. Inr)\<rparr>"

lemma qps_makes_all_requests_witness:
  "\<exists>s1 s2. qps_loopSendRpcRequest (\<lambda>x. x) demo_env wire_pb (qps_lib (\<lambda>x. x) demo_env wire_pb demo_qps_lib echo_method [5] []) echo_method [5] []
      (setConnection (rpc_channel.extend RpcChannel_default (qps_channel.fields 0 (Timestamp 0) (Timestamp 0) [(7, 0), (9, 0)]))) = Inr s1
    \<and> onRpcMessage demo_env wire_pb (qps_lib (\<lambda>x. x) demo_env wire_pb demo_qps_lib echo_method [5] []) (\<lambda>n. None) s1
        (response_msg wire_pb 1 [9]) = Inr s2
    \<and> qps_count s2 = 1 \<and> length (sent s2) = 2 \<and> qps_began s2 = Timestamp_now (\<lambda>x. x) (7, 0)"
proof -
  let ?s = "rpc_channel.extend RpcChannel_default (qps_channel.fields 0 (Timestamp 0) (Timestamp 0) [(7, 0), (9, 0)]) :: byte list qps_channel"
  have s: "qps_count ?s = 0" "call_id ?s = 0" "outstandings ?s = []" "sent ?s = []"
    "qps_clock ?s = (7, 0) # (9, 0) # []"
    by (simp_all add: rpc_channel.defs qps_channel.defs RpcChannel_default_def)
  have "length (service_full_name echo_method) + length (method_name echo_method) + length (msg_serialize demo_qps_lib [5]) \<le> 2 ^ 25"
    by (simp add: echo_method_def demo_qps_lib_def)
  from qps_makes_all_requests [OF wire.pb_wire_axioms this s, of "[response_msg wire_pb 1 [9]]" "\<lambda>x. x" Little adler32_spec "[]" "\<lambda>n. None"]
  show ?thesis by (auto simp: andThen_eq_Inr)
qed

text \<open>
  The codec test passes: with the tags it uses, and any other short enough one, every message that is initialised and
  small enough is decoded from the buffer it was encoded into, and the buffer is empty afterwards.
\<close>

theorem RpcCodec_test_passes:
  assumes "pb_wire rt left pos" "plain rt m" "IsInitialized m" "tag_ok tg"
    and "int (length tg + length (InternalSerialize rt m) + 4) \<le> kMaxMessageLen"
  shows "\<exists>b. RpcCodec_test (rpc_env e adler rt) tg m = Inr (Some m, b) \<and> content b = []"
  by (rule pb_wire.codec_test_ok [OF assms])

lemma RpcCodec_test_passes_witness:
  "\<exists>b. RpcCodec_test demo_env [88, 89, 90] (response_msg wire_pb 2 [5]) = Inr (Some (response_msg wire_pb 2 [5]), b) \<and> content b = []"
proof (rule RpcCodec_test_passes [OF wire.pb_wire_axioms])
  show plain: "plain wire_pb (response_msg wire_pb 2 [5])" "IsInitialized (response_msg wire_pb 2 [5])"
    by (simp_all add: plain_built)
  show "tag_ok [88, 89, 90]" by (simp add: tag_ok_def kMaxMessageLen_def)
  show "int (length [88 :: byte, 89, 90] + length (InternalSerialize wire_pb (response_msg wire_pb 2 [5])) + 4) \<le> kMaxMessageLen"
    using wire.serialize_length [OF plain(1)]
    by (simp add: kMaxMessageLen_def) (simp add: built_msg_defs string_defs scalar_defs SharedCtor_def)
qed

end
