(* ===== verification/RpcPrograms.thy ===== *)
theory RpcPrograms
  imports Examples TimerQueue
begin

text \<open>
  The main functions of \<^verbatim>\<open>examples/\<close>: what is built before \<^verbatim>\<open>loop()\<close> is entered, and the loop of
  \<^verbatim>\<open>sudoku/client.cc\<close>, whose timer makes a request every three seconds. The world of connections is the state the
  timer callbacks work on (\<open>env\<close> of the timer queue). The lemmas show what the timer sends, and that a timer that
  expires before there is a connection brings the client down.
\<close>

section \<open>The servers\<close>

text \<open>\<open>a\<close> is the acceptor made for the address; \<open>full_name\<close> reads the descriptor of a service.\<close>

definition RpcServer_new :: "acceptor \<Rightarrow> nat \<Rightarrow> ('v, 'z, 'sv) server_world \<Rightarrow> tcp_server \<times> ('v, 'z, 'sv) server_world" where
  "RpcServer_new a l w = TcpServer_init a l (w\<lparr>usr := \<lambda>n. None\<rparr>)"

definition RpcServer_setThreadNum :: "int \<Rightarrow> ('v, 'z, 'sv) server_world \<Rightarrow> ('v, 'z, 'sv) server_world" where
  "RpcServer_setThreadNum n w = TcpServer_setThreadNum n w"

definition sudoku_server_main ::
  "('sv \<Rightarrow> byte list) \<Rightarrow> 'sv \<Rightarrow> acceptor \<Rightarrow> nat \<Rightarrow> (nat \<Rightarrow> nat) \<Rightarrow> ('v, 'z, 'sv) server_world
    \<Rightarrow> (tcp_server \<times> ('v, 'z, 'sv) server_world) result" where
  "sudoku_server_main full_name impl a l new_loop w =
     (let (srv, w1) = RpcServer_new a l w
      in andThen (RpcServer_registerService full_name (Some impl) w1) (\<lambda>w2. Inr (RpcServer_start new_loop srv w2)))"

definition qps_server_main ::
  "('sv \<Rightarrow> byte list) \<Rightarrow> 'sv \<Rightarrow> acceptor \<Rightarrow> nat \<Rightarrow> (nat \<Rightarrow> nat) \<Rightarrow> ('v, 'z, 'sv) server_world
    \<Rightarrow> (tcp_server \<times> ('v, 'z, 'sv) server_world) result" where
  "qps_server_main full_name impl a l new_loop w =
     (let (srv, w1) = RpcServer_new a l w
      in andThen (RpcServer_registerService full_name (Some impl) w1) (\<lambda>w2. Inr (RpcServer_start new_loop srv w2)))"

lemma server_mains_listen:
  assumes "Acceptor_init p fd b ls = Inr a" "0 \<le> fd" "epolls w l fd = None"
  shows "\<exists>srv w'. sudoku_server_main full_name impl a l new_loop w = Inr (srv, w')
    \<and> qps_server_main full_name impl a l new_loop w = Inr (srv, w')
    \<and> epolls w' l fd = Some (EPOLLIN, p) \<and> srv_user srv \<and> acceptor_callback (srv_acceptor srv)
    \<and> usr w' = [full_name impl \<mapsto> Some impl] \<and> loops (threadPool w') = [] \<and> baseLoop (threadPool w') = l"
  using assms
  by (auto simp: sudoku_server_main_def qps_server_main_def RpcServer_new_def RpcServer_registerService_def RpcServer_start_def
      TcpServer_init_def TcpServer_setCallback_def TcpServer_start_def Let_def Acceptor_init_def createAndListen_def
      Acceptor_setCallback_def Acceptor_start_def setCallback_def Channel_init_def enableReading_def Epoll_update_def
      setIndex_def epoll_add_def pool_start_def EventLoopThreadPool_init_def split: if_splits)

section \<open>The clients\<close>

text \<open>The constructor; \<open>own\<close> is what the program keeps beside the channel, \<open>addr\<close> the address of the connector's channel.\<close>

definition RpcClient_new :: "'z \<Rightarrow> nat \<Rightarrow> nat \<Rightarrow> ('x, 'v, 'z) client_world \<Rightarrow> tcp_client \<times> ('x, 'v, 'z) client_world" where
  "RpcClient_new own l addr w = TcpClient_init l addr (w\<lparr>usr := RpcClient_init own\<rparr>)"

text \<open>\<open>fd\<close>, \<open>ret\<close> and \<open>err\<close> are the answers of \<^verbatim>\<open>socket\<close> and \<^verbatim>\<open>connect\<close>.\<close>

definition qps_client_main ::
  "nat \<Rightarrow> nat \<Rightarrow> int \<Rightarrow> int \<Rightarrow> int \<Rightarrow> timeval list \<Rightarrow> ('x, 'v, unit qps_channel_ext) client_world
    \<Rightarrow> tcp_client \<times> ('x, 'v, unit qps_channel_ext) client_world" where
  "qps_client_main tid addr fd ret err tvs w =
     (let (cl, w1) = RpcClient_new (qps_channel.fields 0 (Timestamp 0) (Timestamp 0) tvs) tid addr w
      in RpcClient_connect tid fd ret err cl w1)"

definition sudoku_client_main ::
  "(double \<Rightarrow> double) \<Rightarrow> nat \<Rightarrow> nat \<Rightarrow> int \<Rightarrow> int \<Rightarrow> int \<Rightarrow> ptr \<Rightarrow> 'z
    \<Rightarrow> (unit, ('x, 'v, 'z) client_world) timer_queue \<Rightarrow> (tcp_client \<times> (unit, ('x, 'v, 'z) client_world) timer_queue) result" where
  "sudoku_client_main rnd tid addr fd ret err p own q =
     (let (cl, w) = RpcClient_new own tid addr (env q); (cl1, w1) = RpcClient_connect tid fd ret err cl w
      in andThen (runEvery rnd True p 3 (Some ()) (q\<lparr>env := w1\<rparr>)) (\<lambda>(_, q1). Inr (cl1, q1)))"

text \<open>The callback of the timer.\<close>

definition sudoku_tick ::
  "'a RpcMetaMessage codec_env \<Rightarrow> ('a, 'p) pb \<Rightarrow> ('v, 'sv, 'md, ('v, 'z) rpc_channel_scheme) rpc_lib
    \<Rightarrow> nat \<Rightarrow> rpc_method \<Rightarrow> (string \<Rightarrow> 'v \<Rightarrow> 'v) \<Rightarrow> 'v \<Rightarrow> 'v \<Rightarrow> unit
    \<Rightarrow> (unit, ('x, 'v, 'z) client_world) timer_queue \<Rightarrow> (unit, ('x, 'v, 'z) client_world) timer_queue result" where
  "sudoku_tick cenv rt base tid solve board request response cb q =
     andThen (sudoku_loopSendRpcRequest cenv rt base tid solve board request response (env q)) (\<lambda>w. Inr (q\<lparr>env := w\<rparr>))"

text \<open>The timer descriptor becomes readable again and again, and each time the timer is due.\<close>

fun expirations ::
  "(double \<Rightarrow> double) \<Rightarrow> ('c \<Rightarrow> ('c, 's) timer_queue \<Rightarrow> ('c, 's) timer_queue result) \<Rightarrow> nat
    \<Rightarrow> ('c, 's) timer_queue \<Rightarrow> ('c, 's) timer_queue result" where
  "expirations rnd call 0 q = Inr q"
| "expirations rnd call (Suc n) q = andThen (timer_handleRead rnd call q) (expirations rnd call n)"

fun always_due ::
  "(double \<Rightarrow> double) \<Rightarrow> ('c \<Rightarrow> ('c, 's) timer_queue \<Rightarrow> ('c, 's) timer_queue result) \<Rightarrow> nat
    \<Rightarrow> ('c, 's) timer_queue \<Rightarrow> bool" where
  "always_due rnd call 0 q = True"
| "always_due rnd call (Suc n) q =
     ((\<forall>e \<in> set (pTimers q). fst e \<le> Timestamp_now rnd (fst (gettimeofday q)))
      \<and> (case timer_handleRead rnd call q of Inl f \<Rightarrow> True | Inr q' \<Rightarrow> always_due rnd call n q'))"

section \<open>One repeating timer\<close>

text \<open>The queue holds one repeating timer, whose callback works on the state by \<open>g\<close>.\<close>

definition polling :: "ptr \<Rightarrow> 'c \<Rightarrow> ('c, 's) timer_queue \<Rightarrow> bool" where
  "polling p cb q \<longleftrightarrow> p \<noteq> - 1 \<and> (\<exists>t. timer_heap q p = Some t \<and> tm_callback t = Some cb \<and> isRepeat t
     \<and> pTimers q = [(tm_stamp t, p)])"

lemma poll_expires:
  assumes poll: "polling p cb q" and due: "\<forall>e \<in> set (pTimers q). fst e \<le> Timestamp_now rnd (fst (gettimeofday q))"
    and call: "\<And>q. call cb q = andThen (g (env q)) (\<lambda>s. Inr (q\<lparr>env := s\<rparr>))"
  shows "case g (env q) of Inl f \<Rightarrow> timer_handleRead rnd call q = Inl f
    | Inr s \<Rightarrow> \<exists>q'. timer_handleRead rnd call q = Inr q' \<and> polling p cb q' \<and> env q' = s"
proof -
  from poll obtain t where t: "p \<noteq> - 1" "timer_heap q p = Some t" "tm_callback t = Some cb" "isRepeat t" "pTimers q = [(tm_stamp t, p)]"
    by (auto simp: polling_def)
  let ?now = "Timestamp_now rnd (fst (gettimeofday q))"
  let ?q2 = "(snd (gettimeofday q))\<lparr>pTimers := []\<rparr>"
  have "(tm_stamp t, p) < (?now, - 1)" by (rule before_sentry [THEN iffD2, OF t(1)]) (use due t(5) in simp)
  then have exp: "getExpired ?now (snd (gettimeofday q)) = ([(tm_stamp t, p)], ?q2)"
    by (simp add: getExpired_def t(5))
  have handle: "timer_handleRead rnd call q = andThen (run_expired call [(tm_stamp t, p)] ?q2) (timer_reset rnd [(tm_stamp t, p)])"
    by (simp add: timer_handleRead_def Let_def split_beta exp)
  have run: "run_expired call [(tm_stamp t, p)] ?q2 = andThen (g (env q)) (\<lambda>s. Inr (?q2\<lparr>env := s\<rparr>))"
    using t by (cases "g (env q)") (simp_all add: deref_timer_def timer_timeout_def call)
  show ?thesis
  proof (cases "g (env q)")
    case (Inl f)
    then show ?thesis unfolding handle run by simp
  next
    case (Inr s)
    let ?q3 = "?q2\<lparr>env := s\<rparr>"
    define q4 where "q4 = restart rnd p t ?q3"
    obtain s' where q4: "timer_heap q4 p = Some (t\<lparr>tm_stamp := s'\<rparr>)" "pTimers q4 = []" "env q4 = s"
      by (simp add: q4_def restart_def Let_def split_beta)
    let ?q5 = "q4\<lparr>pTimers := [(s', p)]\<rparr>"
    have "timer_reset rnd [(tm_stamp t, p)] ?q3 = Inr (if timestamp_valid s' then resetTimerfd rnd s' ?q5 else ?q5)"
      using t q4 by (simp add: timer_reset_def deref_timer_def timer_insert_def q4_def [symmetric] insort_insert_key_def)
    moreover have "polling p cb ?q5" "polling p cb (resetTimerfd rnd s' ?q5)"
      using t q4 by (simp_all add: polling_def isRepeat_def)
    ultimately show ?thesis unfolding handle run using Inr q4 by simp
  qed
qed

section \<open>The sudoku client\<close>

lemma connect_usr: "usr (snd (RpcClient_connect tid fd ret err cl w)) = usr w"
  by (simp add: RpcClient_connect_def TcpClient_connect_def Let_def split_beta)

lemma runEvery_alone:
  assumes "pTimers q = []" "p \<noteq> - 1" "0 < interval"
  shows "\<exists>i q1. runEvery rnd True p interval (Some cb) q = Inr (i, q1) \<and> polling p cb q1 \<and> env q1 = env q"
proof -
  define s where "s = nowAfter rnd (fst (gettimeofday q)) interval"
  define q0 where "q0 = snd (gettimeofday q)"
  have q0: "pTimers q0 = []" "env q0 = env q" using assms(1) by (simp_all add: q0_def)
  have run: "runEvery rnd True p interval (Some cb) q = addTimer rnd True p (Some cb) s interval q0"
    by (simp add: runEvery_def s_def q0_def split_beta)
  show ?thesis
    unfolding run using assms(2,3) q0
    by (simp add: addTimer_def Timer_incrementAndGet_def Let_def addTimerInLoop_def timer_insert_def deref_timer_def
        Timer_init_def insort_insert_key_def polling_def isRepeat_def)
qed

lemma sudoku_main_waits:
  assumes "pTimers q = []" "p \<noteq> - 1"
  shows "\<exists>cl q1. sudoku_client_main rnd tid addr fd ret err p own q = Inr (cl, q1) \<and> polling p () q1
    \<and> (cl, env q1) = RpcClient_connect tid fd ret err \<lparr>cl_loop = tid, cl_user = False, cl_connector = Connector_init tid addr\<rparr>
         ((env q)\<lparr>usr := RpcClient_init own, client_connection := None\<rparr>)"
proof -
  obtain cl w where w: "RpcClient_connect tid fd ret err \<lparr>cl_loop = tid, cl_user = False, cl_connector = Connector_init tid addr\<rparr>
         ((env q)\<lparr>usr := RpcClient_init own, client_connection := None\<rparr>) = (cl, w)" by fastforce
  have "pTimers (q\<lparr>env := w\<rparr>) = []" using assms(1) by simp
  from runEvery_alone [OF this assms(2), of 3 rnd "()"] obtain i q1 where
    "runEvery rnd True p 3 (Some ()) (q\<lparr>env := w\<rparr>) = Inr (i, q1)" "polling p () q1" "env q1 = w" by auto
  then show ?thesis using w
    by (simp add: sudoku_client_main_def RpcClient_new_def TcpClient_init_def)
qed

text \<open>The socket becomes writable: the connection is made and its channel can send.\<close>

definition ready_client :: "nat \<Rightarrow> nat \<Rightarrow> ('v, 'z) rpc_channel_scheme \<Rightarrow> ('x, 'v, 'z) client_world \<Rightarrow> bool" where
  "ready_client tid c ch w \<longleftrightarrow> cl_conn (usr w) = Some c \<and> cl_channel (usr w) = ch \<and> conn_set ch
     \<and> stream_at c [] 1032 w \<and> (\<exists>k. conns w c = Some k \<and> pLoop k = tid \<and> refs k = 2)"

lemma client_gets_ready:
  assumes good: "ret = 0 \<or> err \<in> {EINPROGRESS, EINTR, EISCONN}" and fd: "0 \<le> fd" "epolls w tid fd = None"
    and w: "client_connection w = None" "usr w = RpcClient_init own"
    and start: "RpcClient_connect tid fd ret err \<lparr>cl_loop = tid, cl_user = False, cl_connector = Connector_init tid addr\<rparr> w = (cl, w1)"
    and ok: "0 \<le> ok"
  shows "\<exists>t w2. Connector_handleWrite (TcpClient_newConnection cl (RpcClient_user cenv rt lib) tid) (ok, optval) (cl_connector cl) w1 = Inr (t, w2)
    \<and> ready_client tid (next_conn w) (setConnection (rpc_channel.extend RpcChannel_default own)) w2
    \<and> write_answers w2 = write_answers w"
proof -
  have new_buffer: "buffer_ok (Buffer_init kInitialSize)" "content (Buffer_init kInitialSize) = []"
      "length (vec (Buffer_init kInitialSize)) = 1032"
    using Buffer_init_ok [of kInitialSize] new_buffer_length by (simp_all add: kInitialSize_def)
  define ch where "ch = \<lparr>ch_id = addr, ch_fd = fd, events = EPOLLOUT, revents = 0, index = kAdded, has_callback = True\<rparr>"
  define t1 where "t1 = (Connector_init tid addr)\<lparr>ct_callback := True, ct_sockFd := fd, ct_chan := Some ch, ct_addr := addr + 1\<rparr>"
  have ready: "(if ret = 0 then 0 else err) \<in> {0, EINPROGRESS, EINTR, EISCONN}" using good by auto
  have enable: "enableWriting (setCallback (Channel_init addr fd)) (epolls w tid) = (ch, (epolls w tid)(fd := Some (EPOLLOUT, addr)))"
    using fd by (simp add: enableWriting_def setCallback_def Channel_init_def Epoll_update_def setIndex_def epoll_add_def ch_def)
  have t1: "ct_chan t1 = Some ch" "ct_loop t1 = tid" "ct_callback t1" "ct_sockFd t1 = fd"
    by (simp_all add: t1_def Connector_init_def)
  have run: "cl = \<lparr>cl_loop = tid, cl_user = True, cl_connector = t1\<rparr>"
      "w1 = w\<lparr>epolls := (epolls w)(tid := (epolls w tid)(fd := Some (EPOLLOUT, addr)))\<rparr>"
    using start ready enable
    by (simp_all add: RpcClient_connect_def TcpClient_setCallback_def TcpClient_connect_def Connector_start_def
        Connector_connect_def Connector_setCallback_def Connector_init_def t1_def Let_def)
  let ?w = "w\<lparr>epolls := (epolls w)(tid := (epolls w tid)(fd := None))\<rparr>"
  have "disableAll (setIndex kDeleted ch) (epolls w1 tid) = (ch\<lparr>index := kDeleted, events := 0\<rparr>, (epolls w tid)(fd := None))"
    by (simp add: disableAll_def setIndex_def Epoll_update_def epoll_del_def ch_def run(2))
  then have told: "Connector_handleWrite (TcpClient_newConnection cl (RpcClient_user cenv rt lib) tid) (ok, optval) (cl_connector cl) w1 =
      andThen (TcpClient_newConnection cl (RpcClient_user cenv rt lib) tid fd ?w)
        (\<lambda>w3. Inr (t1\<lparr>ct_chan := Some (ch\<lparr>index := kDeleted, events := 0\<rparr>), ct_resets := ct_resets t1 + 1\<rparr>, w3))"
    using t1 ok by (simp add: Connector_handleWrite_def run)
  have "\<exists>w2. TcpClient_newConnection cl (RpcClient_user cenv rt lib) tid fd ?w = Inr w2
    \<and> ready_client tid (next_conn w) (setConnection (rpc_channel.extend RpcChannel_default own)) w2
    \<and> write_answers w2 = write_answers w"
    using fd w new_buffer
    by (simp add: run(1) TcpClient_newConnection_def TcpConnection_new_any Let_def put_conn_def setUser_def connectEstablished_def
        with_ref_def share_def release_def setUpLayerCloseCallback_def assign_client_def epoll_add_def RpcClient_user_def
        RpcClient_onConnection_def RpcClient_init_def ready_client_def setConnection_def
        stream_at_def stream_ok_def in_sync_def isWriting_def new_conn_def TcpConnection_init_def)
  with told show ?thesis by auto
qed

text \<open>The frames of the first \<open>n\<close> requests.\<close>

definition poll_frames ::
  "'a RpcMetaMessage codec_env \<Rightarrow> ('a, 'p) pb \<Rightarrow> rpc_method \<Rightarrow> byte list \<Rightarrow> nat \<Rightarrow> byte list list" where
  "poll_frames cenv rt mt bytes n = map (\<lambda>i. frame cenv rpc_tag (request_msg rt (of_nat (Suc i)) mt bytes)) [0 ..< n]"

lemma poll_frames_Suc [simp]:
  "poll_frames cenv rt mt bytes (Suc n) = poll_frames cenv rt mt bytes n @ [frame cenv rpc_tag (request_msg rt (of_nat (Suc n)) mt bytes)]"
  by (simp add: poll_frames_def)

lemma poll_frames_prefix: "m \<le> n \<Longrightarrow> prefix (poll_frames cenv rt mt bytes m) (poll_frames cenv rt mt bytes n)"
  by (induction n) (auto simp: le_Suc_eq)

definition quiet_lib ::
  "('v, 'sv, 'md, ('v, 'z) rpc_channel_scheme) rpc_lib \<Rightarrow> ('v, 'sv, 'md, ('v, 'z) rpc_channel_scheme) rpc_lib" where
  "quiet_lib base = base\<lparr>call_method := \<lambda>sv md rq a i. Inr, run_done := \<lambda>d. Inr\<rparr>"

lemma quiet_appending: "appending (quiet_lib base)"
  by unfold_locales (simp_all add: quiet_lib_def)

lemma polls:
  fixes base :: "('v, 'sv, 'md, ('v, 'z) rpc_channel_scheme) rpc_lib" and q :: "(unit, ('x, 'v, 'z) client_world) timer_queue"
    and response :: 'v and tid c :: nat
  assumes pb: "pb_wire rt left pos"
    and small: "length (service_full_name mt) + length (method_name mt) + length (msg_serialize base (board ''001010'' request)) \<le> 2 ^ 25"
    and fits: "1032 + length (concat (poll_frames (rpc_env e adler rt) rt mt (msg_serialize base (board ''001010'' request)) n)) < 2 ^ 31"
  defines "frames \<equiv> poll_frames (rpc_env e adler rt) rt mt (msg_serialize base (board ''001010'' request))"
  defines "tick \<equiv> sudoku_tick (rpc_env e adler rt) rt base tid mt board request response"
  defines "here \<equiv> wired (client_home :: (('x, 'v, 'z) client_world, ('v, 'z) rpc_channel_scheme, 'sv) channel_home) tid c (\<lambda>n. None) [] 1032 [] n"
  assumes "polling p () q" "here st ch (env q)" "conn_set ch" "call_id ch = of_nat i" "sent ch = frames i" "i + m \<le> n"
    and "always_due rnd tick m q"
  shows "\<exists>q' ch'. expirations rnd tick m q = Inr q' \<and> polling p () q' \<and> here st ch' (env q') \<and> conn_set ch'
    \<and> call_id ch' = of_nat (i + m) \<and> sent ch' = frames (i + m)"
  using assms(7-)
proof (induction m arbitrary: q ch i)
  case (Suc m)
  let ?env = "rpc_env e adler rt" and ?op = "start_call (rpc_env e adler rt) rt (sudoku_lib base) mt (board ''001010'' request) response"
  have small': "length (service_full_name mt) + length (method_name mt) + length (msg_serialize (sudoku_lib base) (board ''001010'' request)) \<le> 2 ^ 25"
    using small by (simp add: sudoku_lib_def)
  from start_call_steps [OF pb small' Suc.prems(3), of e adler response] obtain ch1 where
    ch1: "?op ch = Inr ch1" "conn_set ch1" "call_id ch1 = of_nat (Suc i)" "sent ch1 = frames (Suc i)"
    using Suc.prems(3-5) by (simp add: frames_def sudoku_lib_def add.commute)
  have wires: "wiring c client_home (quiet_lib base) ?env rt (RpcClient_user ?env rt (quiet_lib base)) tid 1032 (frames n) n"
    unfolding wiring_def wiring_axioms_def using fits client.rpc_home_axioms quiet_appending
    by (auto simp: frames_def RpcClient_user_def poll_frames_def)
  have "prefix (frames (Suc i)) (frames n)" using Suc.prems(6) by (auto simp: frames_def intro: poll_frames_prefix simp del: poll_frames_Suc)
  with ch1(4) have inside: "prefix (sent ch1) ([] @ frames n)" by simp
  have grows: "prefix (sent ch) (sent ch1)" using Suc.prems(5) ch1(4) by (simp add: frames_def)
  from wiring.on_home_channel_refines [where op = ?op, OF wires Suc.prems(2) [unfolded here_def] ch1(1) grows inside] obtain w1 where
    w1: "on_home_channel (client_home :: (('x, 'v, 'z) client_world, ('v, 'z) rpc_channel_scheme, 'sv) channel_home) tid ?op (env q) = Inr w1"
      "here st ch1 w1" by (auto simp: here_def)
  then have call: "sudoku_loopSendRpcRequest ?env rt base tid mt board request response (env q) = Inr w1"
    by (simp add: sudoku_loopSendRpcRequest_def RpcClient_call_def)
  have due: "\<forall>e \<in> set (pTimers q). fst e \<le> Timestamp_now rnd (fst (gettimeofday q))" using Suc.prems(7) by simp
  have tick: "tick () q = andThen (sudoku_loopSendRpcRequest ?env rt base tid mt board request response (env q)) (\<lambda>s. Inr (q\<lparr>env := s\<rparr>))" for q
    by (simp add: tick_def sudoku_tick_def)
  from poll_expires [where call = tick, OF Suc.prems(1) due tick] call obtain q1 where
    q1: "timer_handleRead rnd tick q = Inr q1" "polling p () q1" "env q1 = w1" by auto
  have "always_due rnd tick m q1" using Suc.prems(7) q1(1) by simp
  from Suc.IH [OF q1(2) _ ch1(2-4) _ this] w1(2) q1(3) Suc.prems(6) obtain q' ch' where
    "expirations rnd tick m q1 = Inr q' \<and> polling p () q' \<and> here st ch' (env q') \<and> conn_set ch'
    \<and> call_id ch' = of_nat (Suc i + m) \<and> sent ch' = frames (Suc i + m)" by auto
  then show ?case using q1(1) by (intro exI [of _ q'] exI [of _ ch']) simp
qed auto

text \<open>The qpstest client starts in the state its statement on requests asks for.\<close>

lemma qps_main_starts:
  "cl_channel (usr (snd (qps_client_main tid addr fd ret err tvs w))) =
     rpc_channel.extend RpcChannel_default (qps_channel.fields 0 (Timestamp 0) (Timestamp 0) tvs)"
  "cl_conn (usr (snd (qps_client_main tid addr fd ret err tvs w))) = None"
  by (simp_all add: qps_client_main_def RpcClient_new_def TcpClient_init_def connect_usr RpcClient_init_def)

section \<open>Properties\<close>

text \<open>C40:
  The sudoku client, from its main function: once its socket is writable and the connection made, each expiry of the
  timer sends exactly one request, with the next identifier, and leaves the timer pending: after \<open>n\<close> expirations
  the \<open>n\<close> requests 1 to \<open>n\<close> are on the wire or waiting in the output buffer, in order, and nothing else. The kernel must
  answer the writes without an error.
\<close>

theorem sudoku_client_polls:
  fixes base :: "('v, 'sv, 'md, ('v, 'z) rpc_channel_scheme) rpc_lib" and q :: "(unit, ('x, 'v, 'z) client_world) timer_queue"
  assumes "pb_wire rt left pos"
    and "length (service_full_name mt) + length (method_name mt) + length (msg_serialize base (board ''001010'' request)) \<le> 2 ^ 25"
    and "1032 + length (concat (poll_frames (rpc_env e adler rt) rt mt (msg_serialize base (board ''001010'' request)) n)) < 2 ^ 31"
    and "ret = 0 \<or> err \<in> {EINPROGRESS, EINTR, EISCONN}" "0 \<le> fd" "epolls (env q) tid fd = None" "0 \<le> ok"
    and "pTimers q = []" "p \<noteq> - 1" "n \<le> length (write_answers (env q))" "\<forall>a \<in> set (write_answers (env q)). 0 \<le> a"
    and "sudoku_client_main rnd tid addr fd ret err p own q = Inr (cl, q1)"
    and "Connector_handleWrite (TcpClient_newConnection cl (RpcClient_user (rpc_env e adler rt) rt (sudoku_lib base)) tid) (ok, optval)
      (cl_connector cl) (env q1) = Inr (t, w)"
    and "always_due rnd (sudoku_tick (rpc_env e adler rt) rt base tid mt board request response) n (q1\<lparr>env := w\<rparr>)"
  shows "\<exists>q'. expirations rnd (sudoku_tick (rpc_env e adler rt) rt base tid mt board request response) n (q1\<lparr>env := w\<rparr>) = Inr q'
    \<and> polling p () q' \<and> call_id (cl_channel (usr (env q'))) = of_nat n
    \<and> wire (env q') (next_conn (env q)) @ unsent_bytes (next_conn (env q)) (env q') =
        concat (poll_frames (rpc_env e adler rt) rt mt (msg_serialize base (board ''001010'' request)) n)"
proof -
  let ?c = "next_conn (env q)" and ?ch = "setConnection (rpc_channel.extend RpcChannel_default own)"
  let ?w0 = "(env q)\<lparr>usr := RpcClient_init own, client_connection := None\<rparr>"
  let ?home = "client_home :: (('x, 'v, 'z) client_world, ('v, 'z) rpc_channel_scheme, 'sv) channel_home"
  from sudoku_main_waits [OF assms(8,9), of rnd tid addr fd ret err own] assms(12) have
    main: "polling p () q1" "RpcClient_connect tid fd ret err \<lparr>cl_loop = tid, cl_user = False, cl_connector = Connector_init tid addr\<rparr>
      ?w0 = (cl, env q1)" by auto
  have free: "epolls ?w0 tid fd = None" "client_connection ?w0 = None" "usr ?w0 = RpcClient_init own" using assms(6) by simp_all
  from client_gets_ready [OF assms(4,5) free main(2) assms(7), of "rpc_env e adler rt" rt "sudoku_lib base" optval] assms(13)
  have ready: "ready_client tid ?c ?ch w" "write_answers w = write_answers (env q)" by simp_all
  then obtain k where k: "conns w ?c = Some k" "pLoop k = tid" by (auto simp: ready_client_def)
  have ch: "conn_set ?ch" "call_id ?ch = of_nat 0" "sent ?ch = []"
    by (simp_all add: setConnection_def rpc_channel.defs RpcChannel_default_def)
  have "wired ?home tid ?c (\<lambda>n. None) [] 1032 [] n k ?ch w"
    using ready k assms(10,11) by (simp add: wired_def ready_client_def ch)
  then have here: "wired ?home tid ?c (\<lambda>n. None) [] 1032 [] n k ?ch (env (q1\<lparr>env := w\<rparr>))" by simp
  have poll: "polling p () (q1\<lparr>env := w\<rparr>)" using main(1) by (simp add: polling_def)
  have start: "sent ?ch = poll_frames (rpc_env e adler rt) rt mt (msg_serialize base (board ''001010'' request)) 0" "0 + n \<le> n"
    using ch(3) by (simp_all add: poll_frames_def)
  from polls [where base = base and board = board, OF assms(1-3) poll here ch(1,2) start assms(14)] obtain q' ch' where
    q': "expirations rnd (sudoku_tick (rpc_env e adler rt) rt base tid mt board request response) n (q1\<lparr>env := w\<rparr>) = Inr q'"
      "polling p () q'" "wired ?home tid ?c (\<lambda>n. None) [] 1032 [] n k ch' (env q')" "call_id ch' = of_nat n"
      "sent ch' = poll_frames (rpc_env e adler rt) rt mt (msg_serialize base (board ''001010'' request)) n" by auto
  from q'(3,5) have "cl_channel (usr (env q')) = ch'" "wire (env q') ?c @ unsent_bytes ?c (env q') =
      concat (poll_frames (rpc_env e adler rt) rt mt (msg_serialize base (board ''001010'' request)) n)"
    by (auto simp: wired_def stream_at_def unsent_bytes_def)
  with q' show ?thesis by auto
qed

text \<open>The client on a clock that shows 0 s at the start and 3 s when the timer expires.\<close>

definition demo_polls :: "(unit, (unit, byte list, unit) client_world) timer_queue" where
  "demo_polls = \<lparr>pTimers = [], timer_heap = (\<lambda>p. None), clock = [(0, 0), (0, 0), (3, 0), (3, 0), (3, 0)], armed = None,
     sequeue = 0, tq_pending = [], env = (idle_world None (RpcClient_init ()))\<lparr>conns := \<lambda>c. None, epolls := \<lambda>l fd. None\<rparr>\<rparr>"

lemma demo_polls_main:
  obtains cl q1 where "sudoku_client_main (\<lambda>x. x) 0 77 5 (-1) EINPROGRESS 1 () demo_polls = Inr (cl, q1)"
    "fst (gettimeofday q1) = (3, 0)" "pTimers q1 = [(Timestamp 3000000, 1)]"
    "(cl, env q1) = RpcClient_connect 0 5 (-1) EINPROGRESS \<lparr>cl_loop = 0, cl_user = False, cl_connector = Connector_init 0 77\<rparr>
         ((env demo_polls)\<lparr>usr := RpcClient_init (), client_connection := None\<rparr>)"
proof -
  have p: "pTimers demo_polls = []" "(1 :: ptr) \<noteq> - 1" by (simp_all add: demo_polls_def)
  from sudoku_main_waits [OF p, of "\<lambda>x. x" 0 77 5 "-1" EINPROGRESS "()"] obtain cl q1 where
    m: "sudoku_client_main (\<lambda>x. x) 0 77 5 (-1) EINPROGRESS 1 () demo_polls = Inr (cl, q1)"
    "(cl, env q1) = RpcClient_connect 0 5 (-1) EINPROGRESS \<lparr>cl_loop = 0, cl_user = False, cl_connector = Connector_init 0 77\<rparr>
         ((env demo_polls)\<lparr>usr := RpcClient_init (), client_connection := None\<rparr>)" by blast
  from m(1) have "fst (gettimeofday q1) = (3, 0) \<and> pTimers q1 = [(Timestamp 3000000, 1)]"
    by (auto simp: sudoku_client_main_def demo_polls_def runEvery_def gettimeofday_def nowAfter_def nowMicroSeconds_def
        double_to_int64_def kMicroSecondsPerSecond_def addTimer_def Timer_incrementAndGet_def Let_def addTimerInLoop_def
        timer_insert_def deref_timer_def Timer_init_def insort_insert_key_def resetTimerfd_def split: prod.splits)
  with m show thesis using that by blast
qed

lemma sudoku_client_polls_witness:
  "\<exists>cl q1 t w q'. sudoku_client_main (\<lambda>x. x) 0 77 5 (-1) EINPROGRESS 1 () demo_polls = Inr (cl, q1)
    \<and> Connector_handleWrite (TcpClient_newConnection cl (RpcClient_user demo_env wire_pb (sudoku_lib demo_lib)) 0) (0, 0)
        (cl_connector cl) (env q1) = Inr (t, w)
    \<and> timer_handleRead (\<lambda>x. x) (sudoku_tick demo_env wire_pb demo_lib 0 echo_method (\<lambda>s v. v) [5] []) (q1\<lparr>env := w\<rparr>) = Inr q'
    \<and> wire (env q') 1 @ unsent_bytes 1 (env q') = frame demo_env rpc_tag (request_msg wire_pb 1 echo_method [5])"
proof (rule demo_polls_main)
  fix cl and q1 :: "(unit, (unit, byte list, unit) client_world) timer_queue"
  let ?tick = "sudoku_tick demo_env wire_pb demo_lib 0 echo_method (\<lambda>s v. v) [5] [] ::
      unit \<Rightarrow> (unit, (unit, byte list, unit) client_world) timer_queue \<Rightarrow> (unit, (unit, byte list, unit) client_world) timer_queue result"
  let ?w0 = "(env demo_polls)\<lparr>usr := RpcClient_init (), client_connection := None\<rparr>"
  assume main: "sudoku_client_main (\<lambda>x. x) 0 77 5 (-1) EINPROGRESS 1 () demo_polls = Inr (cl, q1)"
    and q1: "fst (gettimeofday q1) = (3, 0)" "pTimers q1 = [(Timestamp 3000000, 1)]"
    and connect: "(cl, env q1) = RpcClient_connect 0 5 (-1) EINPROGRESS \<lparr>cl_loop = 0, cl_user = False, cl_connector = Connector_init 0 77\<rparr> ?w0"
  have good: "-1 = (0 :: int) \<or> EINPROGRESS \<in> {EINPROGRESS, EINTR, EISCONN}" "0 \<le> (5 :: int)" "0 \<le> (0 :: int)" by simp_all
  have w0: "epolls ?w0 0 5 = None" "client_connection ?w0 = None" "usr ?w0 = RpcClient_init ()" "epolls (env demo_polls) 0 5 = None"
      "next_conn (env demo_polls) = 1" "write_answers (env demo_polls) = [1000000, 1000000]"
    by (simp_all add: demo_polls_def idle_world_def)
  from client_gets_ready [OF good(1,2) w0(1-3) connect [symmetric] good(3), of demo_env wire_pb "sudoku_lib demo_lib" 0] obtain t w where
    made: "Connector_handleWrite (TcpClient_newConnection cl (RpcClient_user demo_env wire_pb (sudoku_lib demo_lib)) 0) (0, 0) (cl_connector cl)
      (env q1) = Inr (t, w)" by blast
  have small: "length (service_full_name echo_method) + length (method_name echo_method) + length (msg_serialize demo_lib ((\<lambda>s v. v) ''001010'' [5])) \<le> 2 ^ 25"
    by (simp add: echo_method_def echo_lib_def echo_base_def)
  then have "sendable wire_pb (request_msg wire_pb 1 echo_method (msg_serialize demo_lib [5]))" by (intro wire.sendable_built(1)) simp
  then have fits: "1032 + length (concat (poll_frames demo_env wire_pb echo_method (msg_serialize demo_lib ((\<lambda>s v. v) ''001010'' [5])) 1)) < 2 ^ 31"
    by (simp add: poll_frames_def sendable_def length_frame length_frame_body kMaxMessageLen_def)
  have "gettimeofday (q1\<lparr>env := w\<rparr>) = (case gettimeofday q1 of (tv, q') \<Rightarrow> (tv, q'\<lparr>env := w\<rparr>))"
    by (simp add: gettimeofday_def split: list.splits)
  then have "fst (gettimeofday (q1\<lparr>env := w\<rparr>)) = (3, 0)" using q1(1) by (simp add: split_beta)
  then have due: "always_due (\<lambda>x. x) ?tick 1 (q1\<lparr>env := w\<rparr>)"
    using q1(2) by (simp add: Timestamp_now_def nowMicroSeconds_def double_to_int64_def kMicroSecondsPerSecond_def split: sum.splits)
  have q: "pTimers demo_polls = []" "(1 :: ptr) \<noteq> - 1" "1 \<le> length (write_answers (env demo_polls))"
      "\<forall>a \<in> set (write_answers (env demo_polls)). 0 \<le> a" by (simp_all add: w0) (simp add: demo_polls_def)
  have serial: "msg_serialize demo_lib [5] = [5]" by (simp add: echo_lib_def echo_base_def)
  from sudoku_client_polls [OF wire.pb_wire_axioms small fits good(1,2) w0(4) good(3) q main made due] obtain q' where
    "timer_handleRead (\<lambda>x. x) ?tick (q1\<lparr>env := w\<rparr>) = Inr q'"
    "wire (env q') 1 @ unsent_bytes 1 (env q') = frame demo_env rpc_tag (request_msg wire_pb 1 echo_method [5])"
    by (auto simp: w0(5) serial poll_frames_def andThen_eq_Inr)
  with main made show ?thesis by blast
qed

text \<open>
  If the timer expires before the connection is made, whatever \<^verbatim>\<open>connect\<close> has answered, the request dereferences the
  null pointer of the channel: a server that does not answer within three seconds brings the client down.
\<close>

theorem sudoku_timer_before_connection:
  assumes "pb_wire rt left pos"
    and "length (service_full_name mt) + length (method_name mt) + length (msg_serialize base (board ''001010'' request)) \<le> 2 ^ 25"
    and "pTimers q = []" "p \<noteq> - 1" "sudoku_client_main rnd tid addr fd ret err p own q = Inr (cl, q1)"
    and "always_due rnd (sudoku_tick (rpc_env e adler rt) rt base tid mt board request response) 1 q1"
  shows "timer_handleRead rnd (sudoku_tick (rpc_env e adler rt) rt base tid mt board request response) q1 = Inl NullDeref"
proof -
  let ?tick = "sudoku_tick (rpc_env e adler rt) rt base tid mt board request response"
  from sudoku_main_waits [OF assms(3,4), of rnd tid addr fd ret err own] assms(5) have main: "polling p () q1"
    "RpcClient_connect tid fd ret err \<lparr>cl_loop = tid, cl_user = False, cl_connector = Connector_init tid addr\<rparr>
      ((env q)\<lparr>usr := RpcClient_init own, client_connection := None\<rparr>) = (cl, env q1)" by auto
  have "usr (env q1) = RpcClient_init own"
    using connect_usr [of tid fd ret err "\<lparr>cl_loop = tid, cl_user = False, cl_connector = Connector_init tid addr\<rparr>"
      "(env q)\<lparr>usr := RpcClient_init own, client_connection := None\<rparr>"] unfolding main(2) by simp
  then have "cl_channel (usr (env q1)) = rpc_channel.extend RpcChannel_default own" by (simp add: RpcClient_init_def)
  from request_before_connection [where base = base and board = board, OF assms(1) this assms(2)]
  have fault: "sudoku_loopSendRpcRequest (rpc_env e adler rt) rt base tid mt board request response (env q1) = Inl NullDeref" .
  have due: "\<forall>x \<in> set (pTimers q1). fst x \<le> Timestamp_now rnd (fst (gettimeofday q1))" using assms(6) by simp
  have "?tick () q = andThen (sudoku_loopSendRpcRequest (rpc_env e adler rt) rt base tid mt board request response (env q)) (\<lambda>s. Inr (q\<lparr>env := s\<rparr>))" for q
    by (simp add: sudoku_tick_def)
  from poll_expires [where call = ?tick, OF main(1) due this] fault show ?thesis by simp
qed

lemma sudoku_timer_before_connection_witness:
  "\<exists>cl q1. sudoku_client_main (\<lambda>x. x) 0 77 5 (-1) EINPROGRESS 1 () demo_polls = Inr (cl, q1)
    \<and> timer_handleRead (\<lambda>x. x) (sudoku_tick demo_env wire_pb demo_lib 0 echo_method (\<lambda>s v. v) [5] []) q1 = Inl NullDeref"
proof (rule demo_polls_main)
  fix cl and q1 :: "(unit, (unit, byte list, unit) client_world) timer_queue"
  let ?tick = "sudoku_tick demo_env wire_pb demo_lib 0 echo_method (\<lambda>s v. v) [5] [] ::
      unit \<Rightarrow> (unit, (unit, byte list, unit) client_world) timer_queue \<Rightarrow> (unit, (unit, byte list, unit) client_world) timer_queue result"
  assume main: "sudoku_client_main (\<lambda>x. x) 0 77 5 (-1) EINPROGRESS 1 () demo_polls = Inr (cl, q1)"
    and q1: "fst (gettimeofday q1) = (3, 0)" "pTimers q1 = [(Timestamp 3000000, 1)]"
  have small: "length (service_full_name echo_method) + length (method_name echo_method) + length (msg_serialize demo_lib ((\<lambda>s v. v) ''001010'' [5])) \<le> 2 ^ 25"
    by (simp add: echo_method_def echo_lib_def echo_base_def)
  have q: "pTimers demo_polls = []" "(1 :: ptr) \<noteq> - 1" by (simp_all add: demo_polls_def)
  have due: "always_due (\<lambda>x. x) ?tick 1 q1"
    using q1 by (simp add: Timestamp_now_def nowMicroSeconds_def double_to_int64_def kMicroSecondsPerSecond_def split: sum.splits)
  from sudoku_timer_before_connection [OF wire.pb_wire_axioms small q main due] main show ?thesis by blast
qed

end
