(* ===== verification/NetExamples.thy ===== *)
theory NetExamples
  imports RpcNetwork TcpClient Threads "HOL-Library.Multiset"
begin

text \<open>
  The network programs under \<^verbatim>\<open>simplifyMuduo/examples/\<close>: the three echo servers as users of \<^verbatim>\<open>TcpServer\<close>
  (\<^verbatim>\<open>EchoServerSingleCalcThread\<close>, \<^verbatim>\<open>EchoServerMultIOThread\<close>, and \<^verbatim>\<open>EchoServerMultCalcThread\<close>, whose answers are
  sent by a thread pool) and the client \<^verbatim>\<open>TcpClientTest\<close>, which reads lines from its standard input. What they
  print is left out, except for what the client prints of a message. The lemmas show what is
  sent back for what is read, and where the programs go wrong.
\<close>

section \<open>The echo servers\<close>

text \<open>\<^verbatim>\<open>pBuf->retrieveAllAsString()\<close>, \<^verbatim>\<open>pBuf\<close> being the input buffer of the connection.\<close>

definition take_input ::
  "nat \<Rightarrow> ('x, 'u) world \<Rightarrow> (byte list \<Rightarrow> ('x, 'u) world \<Rightarrow> ('x, 'u) world result) \<Rightarrow> ('x, 'u) world result" where
  "take_input c w f =
     with_conn c w (\<lambda>k. andThen (retrieveAllAsString (inBuf k)) (\<lambda>(msg, b). f msg (put_conn c (k\<lparr>inBuf := b\<rparr>) w)))"

definition EchoServerSingleCalcThread_user :: "('x, 'u) muduo_user" where
  "EchoServerSingleCalcThread_user =
     \<lparr>onConnection = (\<lambda>tid c. Inr),
      onMessage = (\<lambda>tid c w. take_input c w (\<lambda>msg. TcpConnection_send tid c (msg @ [10]))),
      onWriteComplate = (\<lambda>tid c. Inr), onClose = (\<lambda>tid c. Inr)\<rparr>"

definition EchoServerMultIOThread_user :: "('x, 'u) muduo_user" where
  "EchoServerMultIOThread_user =
     \<lparr>onConnection = (\<lambda>tid c. Inr),
      onMessage = (\<lambda>tid c w. take_input c w (\<lambda>msg. TcpConnection_send tid c (msg @ [10]))),
      onWriteComplate = (\<lambda>tid c. Inr), onClose = (\<lambda>tid c. Inr)\<rparr>"

text \<open>The constructors and \<^verbatim>\<open>start\<close>; \<open>a\<close> is the acceptor \<^verbatim>\<open>TcpServer\<close> makes for the address.\<close>

definition EchoServerSingleCalcThread_new :: "acceptor \<Rightarrow> nat \<Rightarrow> ('x, 'u) world \<Rightarrow> tcp_server \<times> ('x, 'u) world" where
  "EchoServerSingleCalcThread_new a l w =
     (let (srv, w1) = TcpServer_init a l w in (TcpServer_setCallback True srv, w1))"

definition EchoServerSingleCalcThread_start ::
  "(nat \<Rightarrow> nat) \<Rightarrow> tcp_server \<Rightarrow> ('x, 'u) world \<Rightarrow> tcp_server \<times> ('x, 'u) world" where
  "EchoServerSingleCalcThread_start new_loop srv w = TcpServer_start new_loop srv w"

definition EchoServerMultIOThread_new ::
  "acceptor \<Rightarrow> nat \<Rightarrow> int \<Rightarrow> ('x, 'u) world \<Rightarrow> tcp_server \<times> ('x, 'u) world" where
  "EchoServerMultIOThread_new a l threadNum w =
     (let (srv, w1) = TcpServer_init a l w in (TcpServer_setCallback True srv, TcpServer_setThreadNum threadNum w1))"

definition EchoServerMultIOThread_start ::
  "(nat \<Rightarrow> nat) \<Rightarrow> tcp_server \<Rightarrow> ('x, 'u) world \<Rightarrow> tcp_server \<times> ('x, 'u) world" where
  "EchoServerMultIOThread_start new_loop srv w = TcpServer_start new_loop srv w"

text \<open>Once started, the server shares its connections among the loops of its own threads.\<close>

lemma mult_io_started:
  assumes "EchoServerMultIOThread_new a l n w = (srv, w1)" "EchoServerMultIOThread_start new_loop srv w1 = (srv', w2)" "0 \<le> n"
  shows "srv_user srv' \<and> acceptor_callback (srv_acceptor srv') \<and> baseLoop (threadPool w2) = l
    \<and> loops (threadPool w2) = map new_loop [0 ..< nat n]"
  using assms pool_start_loops [of new_loop 0 "nat n" "setThreadNum n (EventLoopThreadPool_init l)"]
  by (auto simp: EchoServerMultIOThread_new_def EchoServerMultIOThread_start_def TcpServer_init_def TcpServer_setThreadNum_def
      TcpServer_setCallback_def TcpServer_start_def Acceptor_start_def Acceptor_setCallback_def pool_start_def
      setThreadNum_def EventLoopThreadPool_init_def Let_def split: prod.splits)

section \<open>Reading a connection whose user takes everything\<close>

text \<open>
  \<open>drained c tid bytes cap incap w\<close>: connection \<open>c\<close> of loop \<open>tid\<close> has been given \<open>bytes\<close> to send and has nothing
  unread; \<open>cap\<close> and \<open>incap\<close> bound its buffers.
\<close>

definition drained :: "nat \<Rightarrow> nat \<Rightarrow> byte list \<Rightarrow> nat \<Rightarrow> nat \<Rightarrow> ('x, 'u) world \<Rightarrow> bool" where
  "drained c tid bytes cap incap w \<longleftrightarrow> stream_at c bytes cap w \<and> (\<forall>a \<in> set (write_answers w). 0 \<le> a)
     \<and> (\<exists>k. conns w c = Some k \<and> pLoop k = tid \<and> pUser k \<and> 0 \<le> ch_fd (pSocketChannel k) \<and> 0 < refs k
        \<and> buffer_ok (inBuf k) \<and> content (inBuf k) = [] \<and> length (vec (inBuf k)) \<le> incap)"

text \<open>Up to the user: the bytes are in the buffer, and taking them leaves it empty.\<close>

lemma handleRead_takes:
  assumes "drained c tid bytes cap incap w" and d: "d \<noteq> []" "length d \<le> 65536" "incap + length d < 2 ^ 62"
  obtains k b where "conns w c = Some k" "pLoop k = tid" "0 < refs k"
    "\<And>f user. onMessage user tid c = (\<lambda>w. take_input c w f) \<Longrightarrow>
      handleRead user tid (ReadvData d) c w
        = andThen (f d (put_conn c (k\<lparr>inBuf := b, refs := Suc (refs k)\<rparr>) w)) (\<lambda>w'. Inr (release c w'))"
    "\<And>r. drained c tid bytes cap (incap + length d) (put_conn c (k\<lparr>inBuf := b, refs := Suc r\<rparr>) w)"
proof -
  from assms(1) obtain k where k: "conns w c = Some k" "pLoop k = tid" "pUser k" "0 \<le> ch_fd (pSocketChannel k)" "0 < refs k"
      "buffer_ok (inBuf k)" "content (inBuf k) = []" "length (vec (inBuf k)) \<le> incap"
    and at: "stream_at c bytes cap w" and pos: "\<forall>a \<in> set (write_answers w). 0 \<le> a"
    by (auto simp: drained_def)
  have "room (inBuf k) (length d)" "length d \<le> iov_capacity (inBuf k)"
    using k(8) d(2,3) iov_capacity_ge [of "inBuf k"] by (simp_all add: room_def kExtraBuf_def)
  from readFd_data_ok [OF k(6) this] k(7) obtain b1 where
    b1: "readFd (inBuf k) (ReadvData d) = Inr \<lparr>rf_buffer = b1, rf_n = int (length d), rf_errno = None\<rparr>"
      "grows (inBuf k) (length d) b1" "content b1 = d" by auto
  then have "buffer_ok b1" by (simp add: grows_def)
  from retrieveAllAsString_ok [OF this] b1(3) obtain b where
    b: "retrieveAllAsString b1 = Inr (d, b)" "grows b1 0 b" "content b = []" by auto
  have lengths: "buffer_ok b" "length (vec b) \<le> incap + length d"
    using b(2) b1(2) k(8) by (auto simp: grows_def)
  show thesis
  proof (rule that [OF k(1,2,5)])
    fix f and user :: "('a, 'b) muduo_user"
    assume "onMessage user tid c = (\<lambda>w. take_input c w f)"
    then have "handleRead user tid (ReadvData d) c w
        = andThen (f d (put_conn c (k\<lparr>refs := Suc (refs k), inBuf := b\<rparr>) w)) (\<lambda>w'. Inr (release c w'))"
      using k(1,3,4) d(1) b1(1) b(1)
      by (simp add: handleRead_def Let_def with_ref_def share_def put_conn_def take_input_def)
    also have "k\<lparr>refs := Suc (refs k), inBuf := b\<rparr> = k\<lparr>inBuf := b, refs := Suc (refs k)\<rparr>" by simp
    finally show "handleRead user tid (ReadvData d) c w
        = andThen (f d (put_conn c (k\<lparr>inBuf := b, refs := Suc (refs k)\<rparr>) w)) (\<lambda>w'. Inr (release c w'))" .
  next
    fix r
    have "same_stream c w (put_conn c (k\<lparr>inBuf := b, refs := Suc r\<rparr>) w)"
      using k(1) by (simp add: same_stream_def put_conn_def)
    from other_stream_at [OF at this] show "drained c tid bytes cap (incap + length d) (put_conn c (k\<lparr>inBuf := b, refs := Suc r\<rparr>) w)"
      using k pos lengths b(3) by (simp add: drained_def put_conn_def)
  qed
qed

lemma release_back:
  assumes "drained c tid bytes cap incap w" "conns w c = Some k" "refs k = Suc n" "0 < n"
  shows "drained c tid bytes cap incap (release c w)"
proof -
  have "same_stream c w (put_conn c (k\<lparr>refs := n\<rparr>) w)"
    using assms(2) by (simp add: same_stream_def put_conn_def)
  with assms other_stream_at [of c bytes cap w] show ?thesis
    by (auto simp: drained_def release_def put_conn_def)
qed

text \<open>One message sent back from the loop's thread.\<close>

lemma drained_send:
  assumes at: "drained c tid bytes cap incap w" and k: "conns w c = Some k"
    and "write_answers w \<noteq> []" "cap + length m < 2 ^ 62" "length m < 2 ^ 31"
  obtains w' k' where "TcpConnection_send tid c m w = Inr w'" "drained c tid (bytes @ m) (cap + length m) incap w'"
    "conns w' c = Some k'" "refs k' = refs k" "\<exists>n \<le> 1. write_answers w' = drop n (write_answers w)" "usr w' = usr w"
proof -
  have d: "stream_at c bytes cap w" "pLoop k = tid" "\<forall>a \<in> set (write_answers w). 0 \<le> a"
    using at k by (auto simp: drained_def)
  have "fits (cap + length m + 8)" using assms(4) by simp
  from send_stream [OF d(1) k d(2) this assms(5,3) d(3)] obtain w' k' n where
    w': "TcpConnection_send tid c m w = Inr w'" "stream_at c (bytes @ m) (cap + length m) w'" "conns w' c = Some k'"
      "kept k k'" "usr w' = usr w" "n \<le> 1" "write_answers w' = drop n (write_answers w)" by metis
  have "\<forall>a \<in> set (write_answers w'). 0 \<le> a" using d(3) w'(7) by (auto dest: in_set_dropD)
  with at w' k have "drained c tid (bytes @ m) (cap + length m) incap w'"
    by (auto simp: drained_def kept_def)
  then show thesis using that w' by (auto simp: kept_def)
qed

text \<open>What an echo server sends for the chunks it reads.\<close>

definition echoed :: "byte list list \<Rightarrow> byte list" where
  "echoed ds = concat (map (\<lambda>d. d @ [10]) ds)"

lemma echoed_simps [simp]: "echoed [] = []" "echoed (d # ds) = d @ 10 # echoed ds"
  "length (echoed ds) = length (concat ds) + length ds"
  by (induction ds) (simp_all add: echoed_def)

lemma echo_reads:
  assumes echo: "onMessage user tid c = (\<lambda>w. take_input c w (\<lambda>msg. TcpConnection_send tid c (msg @ [10])))"
    and "drained c tid bytes cap incap w" "length ds \<le> length (write_answers w)"
    and "\<forall>d \<in> set ds. d \<noteq> [] \<and> length d \<le> 65536" "cap + length (echoed ds) < 2 ^ 62" "incap + length (concat ds) < 2 ^ 62"
  shows "\<exists>w'. handle_reads user tid c ds w = Inr w'
    \<and> drained c tid (bytes @ echoed ds) (cap + length (echoed ds)) (incap + length (concat ds)) w'"
  using assms(2-)
proof (induction ds arbitrary: w bytes cap incap)
  case (Cons d ds)
  have d: "d \<noteq> []" "length d \<le> 65536" "incap + length d < 2 ^ 62" using Cons.prems by auto
  obtain k b where
    k: "conns w c = Some k" "0 < refs k"
      "handleRead user tid (ReadvData d) c w = andThen (TcpConnection_send tid c (d @ [10]) (put_conn c (k\<lparr>inBuf := b, refs := Suc (refs k)\<rparr>) w))
         (\<lambda>w'. Inr (release c w'))"
      "drained c tid bytes cap (incap + length d) (put_conn c (k\<lparr>inBuf := b, refs := Suc (refs k)\<rparr>) w)"
  proof (rule handleRead_takes [OF Cons.prems(1) d])
    fix k b
    assume "conns w c = Some k" "0 < refs k"
      and read: "\<And>f user. onMessage user tid c = (\<lambda>w. take_input c w f) \<Longrightarrow> handleRead user tid (ReadvData d) c w
        = andThen (f d (put_conn c (k\<lparr>inBuf := b, refs := Suc (refs k)\<rparr>) w)) (\<lambda>w'. Inr (release c w'))"
      and keep: "\<And>r. drained c tid bytes cap (incap + length d) (put_conn c (k\<lparr>inBuf := b, refs := Suc r\<rparr>) w)"
    with that [of k b] read [OF echo] keep [of "refs k"] show thesis by simp
  qed
  let ?w1 = "put_conn c (k\<lparr>inBuf := b, refs := Suc (refs k)\<rparr>) w"
  have w1: "conns ?w1 c = Some (k\<lparr>inBuf := b, refs := Suc (refs k)\<rparr>)" "write_answers ?w1 = write_answers w" by (simp_all add: put_conn_def)
  have "write_answers ?w1 \<noteq> []" "cap + length (d @ [10]) < 2 ^ 62" "length (d @ [10]) < 2 ^ 31"
    using Cons.prems d(2) by (auto simp: w1)
  from drained_send [OF k(4) w1(1) this] obtain w2 k2 where
    w2: "TcpConnection_send tid c (d @ [10]) ?w1 = Inr w2" "drained c tid (bytes @ d @ [10]) (cap + length (d @ [10])) (incap + length d) w2"
      "conns w2 c = Some k2" "refs k2 = refs (k\<lparr>inBuf := b, refs := Suc (refs k)\<rparr>)"
    and "\<exists>n \<le> 1. write_answers w2 = drop n (write_answers ?w1)" by metis
  then obtain n where n: "n \<le> 1" "write_answers w2 = drop n (write_answers w)" by (auto simp: w1)
  have "drained c tid (bytes @ d @ [10]) (cap + length (d @ [10])) (incap + length d) (release c w2)"
    using release_back [OF w2(2,3)] w2(4) k(2) by simp
  moreover have "write_answers (release c w2) = drop n (write_answers w)"
    using w2(3) n(2) by (simp add: release_def put_conn_def)
  moreover from this have "length ds \<le> length (write_answers (release c w2))" using Cons.prems(2) n(1) by simp
  ultimately have "\<exists>w'. handle_reads user tid c ds (release c w2) = Inr w'
    \<and> drained c tid ((bytes @ d @ [10]) @ echoed ds) (cap + length (d @ [10]) + length (echoed ds)) (incap + length d + length (concat ds)) w'"
    using Cons.prems(3-5) by (intro Cons.IH) auto
  moreover have "(bytes @ d @ [10]) @ echoed ds = bytes @ echoed (d # ds)"
    "cap + length (d @ [10]) + length (echoed ds) = cap + length (echoed (d # ds))"
    "incap + length d + length (concat ds) = incap + length (concat (d # ds))" by simp_all
  ultimately show ?case using w2(1) k(3) by (simp add: add.assoc)
qed auto

section \<open>The echo server with calculating threads\<close>

text \<open>A task binds the message and the bare pointer \<^verbatim>\<open>conn.get()\<close>; \<open>None\<close> is an empty function.\<close>

type_synonym echo_task = "(byte list \<times> nat) option"

definition EchoServerMultCalcThread_echo :: "nat \<Rightarrow> byte list \<times> nat \<Rightarrow> ('x, 'u) world \<Rightarrow> ('x, 'u) world result" where
  "EchoServerMultCalcThread_echo tid t w = (case t of (str, c) \<Rightarrow> TcpConnection_send tid c (str @ [10]) w)"

definition run_echo :: "nat \<Rightarrow> echo_task \<Rightarrow> ('x, 'u) world \<Rightarrow> ('x, 'u) world result" where
  "run_echo tid t w = (case t of None \<Rightarrow> Inl NullDeref | Some e \<Rightarrow> EchoServerMultCalcThread_echo tid e w)"

text \<open>The user's state is the pool.\<close>

definition EchoServerMultCalcThread_onMessage ::
  "nat \<Rightarrow> nat \<Rightarrow> ('x, echo_task thread_pool) world \<Rightarrow> ('x, echo_task thread_pool) world result" where
  "EchoServerMultCalcThread_onMessage tid c w =
     take_input c w (\<lambda>msg w1. andThen (addTask (run_echo tid) (Some (msg, c)) (usr w1) w1)
       (\<lambda>(p, w2). Inr (w2\<lparr>usr := p\<rparr>)))"

definition EchoServerMultCalcThread_user :: "('x, echo_task thread_pool) muduo_user" where
  "EchoServerMultCalcThread_user =
     \<lparr>onConnection = (\<lambda>tid c. Inr), onMessage = EchoServerMultCalcThread_onMessage,
      onWriteComplate = (\<lambda>tid c. Inr), onClose = (\<lambda>tid c. Inr)\<rparr>"

definition EchoServerMultCalcThread_new ::
  "acceptor \<Rightarrow> nat \<Rightarrow> ('x, echo_task thread_pool) world \<Rightarrow> tcp_server \<times> ('x, echo_task thread_pool) world" where
  "EchoServerMultCalcThread_new a l w =
     (let (srv, w1) = TcpServer_init a l w
      in (TcpServer_setCallback True srv, w1\<lparr>usr := ThreadPool_init ''ThreadPool''\<rparr>))"

definition EchoServerMultCalcThread_start ::
  "(nat \<Rightarrow> nat) \<Rightarrow> (nat \<Rightarrow> int option) \<Rightarrow> int \<Rightarrow> tcp_server
    \<Rightarrow> ('x, echo_task thread_pool) world \<Rightarrow> tcp_server \<times> ('x, echo_task thread_pool) world" where
  "EchoServerMultCalcThread_start new_loop created gettid srv w =
     (let (srv', w') = TcpServer_start new_loop srv w
      in (srv', w'\<lparr>usr := ThreadPool_start created gettid 3 (usr w')\<rparr>))"

text \<open>All connections stay in the one loop; three workers wait for tasks.\<close>

lemma mult_calc_started:
  assumes "EchoServerMultCalcThread_new a l w = (srv, w1)"
    and "EchoServerMultCalcThread_start new_loop created gettid srv w1 = (srv', w2)"
  shows "srv_user srv' \<and> loops (threadPool w2) = [] \<and> length (tp_threads (usr w2)) = 3 \<and> bq_queue (tp_tasks (usr w2)) = []"
  using assms
  by (auto simp: EchoServerMultCalcThread_new_def EchoServerMultCalcThread_start_def TcpServer_init_def
      TcpServer_setCallback_def TcpServer_start_def Acceptor_start_def Acceptor_setCallback_def pool_start_def
      EventLoopThreadPool_init_def ThreadPool_init_def ThreadPool_start_def BlockingQueue_init_def numeral_eq_Suc Let_def
      split: prod.splits)

text \<open>A worker takes a task; it runs the task later, when other workers may have run theirs.\<close>

definition worker_takes :: "('x, echo_task thread_pool) world \<Rightarrow> echo_task option \<times> ('x, echo_task thread_pool) world" where
  "worker_takes w = (let (r, q) = bq_take_locked (tp_tasks (usr w)) in (r, w\<lparr>usr := (usr w)\<lparr>tp_tasks := q\<rparr>\<rparr>))"

fun run_tasks :: "nat \<Rightarrow> echo_task list \<Rightarrow> ('x, 'u) world \<Rightarrow> ('x, 'u) world result" where
  "run_tasks tid [] w = Inr w"
| "run_tasks tid (t # ts) w = andThen (run_echo tid t w) (run_tasks tid ts)"

text \<open>
  The tasks of a connection that is there are only queued: \<^verbatim>\<open>send\<close> from a worker hands the message to the
  connection's loop, in the order in which the workers run, whatever the order in which the tasks were taken.
\<close>

lemma run_tasks_sends:
  "run_tasks tid (map (\<lambda>m. Some (m, c)) ms) w = threaded_sends tid c (map (\<lambda>m. m @ [10]) ms) w"
  by (induction ms arbitrary: w) (simp_all add: run_echo_def EchoServerMultCalcThread_echo_def, metis)

text \<open>A task that is run when the connection has been closed and destroyed uses the dangling pointer.\<close>

lemma echo_after_close: "conns w c = None \<Longrightarrow> run_echo tid (Some (m, c)) w = Inl UseAfterFree"
  by (simp add: run_echo_def EchoServerMultCalcThread_echo_def TcpConnection_send_def)

lemma calc_reads:
  assumes "drained c tid bytes cap incap w" "tp_threads (usr w) \<noteq> []"
    and "\<forall>d \<in> set ds. d \<noteq> [] \<and> length d \<le> 65536" "incap + length (concat ds) < 2 ^ 62"
  shows "\<exists>w'. handle_reads EchoServerMultCalcThread_user tid c ds w = Inr w'
    \<and> drained c tid bytes cap (incap + length (concat ds)) w' \<and> tp_threads (usr w') = tp_threads (usr w)
    \<and> bq_queue (tp_tasks (usr w')) = bq_queue (tp_tasks (usr w)) @ map (\<lambda>d. Some (d, c)) ds
    \<and> pendingFunctors w' = pendingFunctors w \<and> write_answers w' = write_answers w"
  using assms
proof (induction ds arbitrary: w incap)
  case (Cons d ds)
  have d: "d \<noteq> []" "length d \<le> 65536" "incap + length d < 2 ^ 62" using Cons.prems by auto
  have user: "onMessage EchoServerMultCalcThread_user tid c = (\<lambda>w. take_input c w
      (\<lambda>msg w1. andThen (addTask (run_echo tid) (Some (msg, c)) (usr w1) w1) (\<lambda>(p, w2). Inr (w2\<lparr>usr := p\<rparr>))))"
    by (simp add: EchoServerMultCalcThread_user_def EchoServerMultCalcThread_onMessage_def fun_eq_iff)
  show ?case
  proof (rule handleRead_takes [OF Cons.prems(1) d])
    fix k b
    assume k: "conns w c = Some k" "0 < refs k"
      and read: "\<And>f user. onMessage user tid c = (\<lambda>w. take_input c w f) \<Longrightarrow> handleRead user tid (ReadvData d) c w
        = andThen (f d (put_conn c (k\<lparr>inBuf := b, refs := Suc (refs k)\<rparr>) w)) (\<lambda>w'. Inr (release c w'))"
      and keep: "\<And>r. drained c tid bytes cap (incap + length d) (put_conn c (k\<lparr>inBuf := b, refs := Suc r\<rparr>) w)"
    let ?k1 = "k\<lparr>inBuf := b, refs := Suc (refs k)\<rparr>"
    let ?p = "(usr w)\<lparr>tp_tasks := bq_put (Some (d, c)) (tp_tasks (usr w))\<rparr>"
    let ?w2 = "(put_conn c ?k1 w)\<lparr>usr := ?p\<rparr>"
    let ?w3 = "release c ?w2"
    have run: "handleRead EchoServerMultCalcThread_user tid (ReadvData d) c w = Inr ?w3"
      using read [OF user] Cons.prems(2) by (simp add: addTask_def put_conn_def)
    have "drained c tid bytes cap (incap + length d) ?w2"
      using keep [of "refs k"] by (simp add: drained_def stream_at_def stream_ok_def)
    moreover have "conns ?w2 c = Some ?k1" by (simp add: put_conn_def)
    ultimately have at3: "drained c tid bytes cap (incap + length d) ?w3" by (rule release_back) (use k in simp_all)
    have fields: "usr ?w3 = ?p" "pendingFunctors ?w3 = pendingFunctors w" "write_answers ?w3 = write_answers w"
      using k(2) by (simp_all add: release_def put_conn_def)
    have "\<exists>w'. handle_reads EchoServerMultCalcThread_user tid c ds ?w3 = Inr w'
      \<and> drained c tid bytes cap (incap + length d + length (concat ds)) w' \<and> tp_threads (usr w') = tp_threads (usr ?w3)
      \<and> bq_queue (tp_tasks (usr w')) = bq_queue (tp_tasks (usr ?w3)) @ map (\<lambda>d. Some (d, c)) ds
      \<and> pendingFunctors w' = pendingFunctors ?w3 \<and> write_answers w' = write_answers ?w3"
      using Cons.prems(2-4) by (intro Cons.IH [OF at3]) (auto simp: fields)
    then show ?case unfolding fields using run by (auto simp: bq_put_def bq_notify_def add.assoc)
  qed
qed auto

section \<open>The client that reads lines\<close>

text \<open>\<open>tc_input\<close> is what is left of the standard input, \<open>tc_printed\<close> what was printed of the messages.\<close>

record test_client =
  tc_stdinChannel :: channel
  tc_input :: "byte list"
  tc_printed :: "byte list list"

text \<open>A C string ends at its first NUL.\<close>

definition c_string :: "byte list \<Rightarrow> byte list" where
  "c_string xs = takeWhile (\<lambda>x. x \<noteq> 0) xs"

text \<open>\<^verbatim>\<open>fgets\<close> reads up to \<open>n\<close> bytes and stops behind a newline; at the end of the input it reads nothing.\<close>

fun fgets :: "nat \<Rightarrow> byte list \<Rightarrow> byte list \<times> byte list" where
  "fgets 0 xs = ([], xs)"
| "fgets (Suc n) [] = ([], [])"
| "fgets (Suc n) (x # xs) = (if x = 10 then ([x], xs) else let (l, rest) = fgets n xs in (x # l, rest))"

text \<open>The constructor; \<open>l\<close> is the loop, \<open>addr\<close> and \<open>p\<close> name the connector's and the standard input's channels.\<close>

definition TestClient_new ::
  "nat \<Rightarrow> nat \<Rightarrow> nat \<Rightarrow> byte list \<Rightarrow> ('x, test_client) world \<Rightarrow> tcp_client \<times> ('x, test_client) world" where
  "TestClient_new l addr p input w =
     (let (cl, w1) = TcpClient_init l addr w;
          cl1 = TcpClient_setCallback True cl;
          (ch, s) = enableReading (setCallback (Channel_init p 0)) (epolls w1 l)
      in (cl1, w1\<lparr>epolls := (epolls w1)(l := s), usr := \<lparr>tc_stdinChannel = ch, tc_input = input, tc_printed = []\<rparr>\<rparr>))"

definition TestClient_connect ::
  "nat \<Rightarrow> int \<Rightarrow> int \<Rightarrow> int \<Rightarrow> tcp_client \<Rightarrow> ('x, test_client) world \<Rightarrow> tcp_client \<times> ('x, test_client) world" where
  "TestClient_connect tid fd ret err cl w = TcpClient_connect tid fd ret err cl w"

definition TestClient_onMessage :: "nat \<Rightarrow> nat \<Rightarrow> ('x, test_client) world \<Rightarrow> ('x, test_client) world result" where
  "TestClient_onMessage tid c w =
     take_input c w (\<lambda>msg w1. Inr (w1\<lparr>usr := (usr w1)\<lparr>tc_printed := tc_printed (usr w1) @ [c_string msg]\<rparr>\<rparr>))"

definition TestClient_user :: "('x, test_client) muduo_user" where
  "TestClient_user =
     \<lparr>onConnection = (\<lambda>tid c. Inr), onMessage = TestClient_onMessage,
      onWriteComplate = (\<lambda>tid c. Inr), onClose = (\<lambda>tid c. Inr)\<rparr>"

text \<open>The standard input is readable. \<^verbatim>\<open>buf[strlen(buf)-1]\<close> is outside of \<^verbatim>\<open>buf\<close> when the string is empty.\<close>

definition TestClient_handleRead :: "nat \<Rightarrow> ('x, test_client) world \<Rightarrow> ('x, test_client) world result" where
  "TestClient_handleRead tid w =
     (let (line, rest) = fgets 1023 (tc_input (usr w));
          buf = line @ replicate (1024 - length line) 0;
          len = length (c_string buf)
      in if len = 0 then Inl OutOfBounds
         else let buf' = buf[len - 1 := 0]; w1 = w\<lparr>usr := (usr w)\<lparr>tc_input := rest\<rparr>\<rparr>
              in case client_connection w1 of
                   None \<Rightarrow> Inr w1
                 | Some c \<Rightarrow> with_ref (\<lambda>c. TcpConnection_send tid c (c_string buf')) c w1)"

lemma fgets_length: "length (fst (fgets n xs)) \<le> n"
  by (induction n xs rule: fgets.induct) (auto split: prod.splits)

lemma fgets_line: "10 \<notin> set l \<Longrightarrow> length l < n \<Longrightarrow> fgets n (l @ 10 # rest) = (l @ [10], rest)"
proof (induction l arbitrary: n)
  case (Cons x l)
  then show ?case by (cases n) auto
next
  case Nil
  then show ?case by (cases n) auto
qed

lemma fgets_long: "10 \<notin> set l \<Longrightarrow> length l = n \<Longrightarrow> fgets n (l @ rest) = (l, rest)"
  by (induction l arbitrary: n) auto

lemma c_string_padded: "0 \<notin> set l \<Longrightarrow> c_string (l @ replicate n 0) = l"
  unfolding c_string_def by (subst takeWhile_append2) (auto simp: takeWhile_replicate)

text \<open>The last byte is cut off, whether it is the newline or not.\<close>

lemma cut_line:
  assumes "0 \<notin> set l" "l \<noteq> []"
  shows "c_string ((l @ replicate n 0)[length l - 1 := 0]) = butlast l"
proof -
  have "(l @ replicate n 0)[length l - 1 := 0] = butlast l @ replicate (Suc n) (0 :: byte)"
    using assms(2) by (induction l rule: rev_induct) (auto simp: list_update_append)
  moreover have "0 \<notin> set (butlast l)" using assms(1) by (auto dest: in_set_butlastD)
  ultimately show ?thesis by (simp only: c_string_padded not_False_eq_True)
qed

lemma drained_mono: "drained c tid bytes cap incap w \<Longrightarrow> cap \<le> cap' \<Longrightarrow> drained c tid bytes cap' incap w"
  by (fastforce simp: drained_def stream_at_def)

lemma line_read_faults:
  assumes "tc_input (usr w) = [] \<or> (\<exists>xs. tc_input (usr w) = 0 # xs)"
  shows "TestClient_handleRead tid w = Inl OutOfBounds"
proof -
  have "\<exists>line rest. fgets 1023 (tc_input (usr w)) = (line, rest) \<and> (line = [] \<or> hd line = 0)"
    using assms by (cases "fgets 1022 (tl (tc_input (usr w)))") (auto simp: numeral_eq_Suc)
  then obtain line rest where line: "fgets 1023 (tc_input (usr w)) = (line, rest)" "line = [] \<or> hd line = 0" by blast
  then have "c_string (line @ replicate (1024 - length line) 0) = []"
    by (cases line) (auto simp: c_string_def takeWhile_replicate)
  with line(1) show ?thesis by (simp add: TestClient_handleRead_def)
qed

text \<open>The message goes to the connection, over a copy of its pointer.\<close>

lemma line_sent:
  assumes at: "drained c tid bytes cap incap w" and "client_connection w = Some c"
    and line: "fgets 1023 (tc_input (usr w)) = (line, rest)" "0 \<notin> set line" "line \<noteq> []"
    and "write_answers w \<noteq> []" "cap + 1022 < 2 ^ 62"
  shows "\<exists>w'. TestClient_handleRead tid w = Inr w' \<and> drained c tid (bytes @ butlast line) (cap + 1022) incap w'
    \<and> usr w' = (usr w)\<lparr>tc_input := rest\<rparr>"
proof -
  let ?m = "butlast line" and ?w1 = "w\<lparr>usr := (usr w)\<lparr>tc_input := rest\<rparr>\<rparr>"
  from at obtain k where k: "conns w c = Some k" "0 < refs k" by (auto simp: drained_def)
  let ?w2 = "share c ?w1" and ?k2 = "k\<lparr>refs := Suc (refs k)\<rparr>"
  have short: "length ?m \<le> 1022" using fgets_length [of 1023 "tc_input (usr w)"] line(1) by simp
  have len: "length (c_string (line @ replicate (1024 - length line) 0)) = length line" "length line \<noteq> 0"
    using line(2,3) by (simp_all add: c_string_padded)
  have w2: "conns ?w2 c = Some ?k2" "write_answers ?w2 = write_answers w" "usr ?w2 = (usr w)\<lparr>tc_input := rest\<rparr>"
    using k(1) by (simp_all add: share_def put_conn_def)
  have "same_stream c w ?w2" using k(1) by (simp add: same_stream_def share_def put_conn_def)
  from other_stream_at [OF _ this] at k have "drained c tid bytes cap incap ?w2"
    by (auto simp: drained_def share_def put_conn_def)
  moreover have room: "write_answers ?w2 \<noteq> []" "cap + length ?m < 2 ^ 62" "length ?m < 2 ^ 31"
    using assms(6,7) short w2(2) by simp_all
  ultimately obtain w3 k3 where sent: "TcpConnection_send tid c ?m ?w2 = Inr w3"
      "drained c tid (bytes @ ?m) (cap + length ?m) incap w3" "conns w3 c = Some k3" "refs k3 = refs ?k2" "usr w3 = usr ?w2"
    using drained_send [OF _ w2(1) room] by metis
  then have w3: "TcpConnection_send tid c ?m ?w2 = Inr w3"
      "drained c tid (bytes @ ?m) (cap + length ?m) incap w3" "conns w3 c = Some k3" "refs k3 = Suc (refs k)" "usr w3 = usr ?w2"
    by simp_all
  have "drained c tid (bytes @ ?m) (cap + length ?m) incap (release c w3)"
    using release_back [OF w3(2,3,4) k(2)] .
  then have "drained c tid (bytes @ ?m) (cap + 1022) incap (release c w3)" using short by (auto intro: drained_mono)
  moreover have "usr (release c w3) = (usr w)\<lparr>tc_input := rest\<rparr>"
    using w3(3,5) w2(3) by (simp add: release_def put_conn_def)
  moreover have "TestClient_handleRead tid w = Inr (release c w3)"
    using line(1,3) assms(2) w3(1) cut_line [OF line(2,3)]
    by (simp add: TestClient_handleRead_def c_string_padded [OF line(2)] with_ref_def Let_def)
  ultimately show ?thesis by blast
qed

lemma client_reads:
  assumes "drained c tid bytes cap incap w"
    and "\<forall>d \<in> set ds. d \<noteq> [] \<and> length d \<le> 65536" "incap + length (concat ds) < 2 ^ 62"
  shows "\<exists>w'. handle_reads TestClient_user tid c ds w = Inr w'
    \<and> tc_printed (usr w') = tc_printed (usr w) @ map c_string ds"
  using assms
proof (induction ds arbitrary: w incap)
  case (Cons d ds)
  have d: "d \<noteq> []" "length d \<le> 65536" "incap + length d < 2 ^ 62" using Cons.prems by auto
  have user: "onMessage TestClient_user tid c = (\<lambda>w. take_input c w
      (\<lambda>msg w1. Inr (w1\<lparr>usr := (usr w1)\<lparr>tc_printed := tc_printed (usr w1) @ [c_string msg]\<rparr>\<rparr>)))"
    by (simp add: TestClient_user_def TestClient_onMessage_def fun_eq_iff)
  show ?case
  proof (rule handleRead_takes [OF Cons.prems(1) d])
    fix k b
    assume k: "conns w c = Some k" "0 < refs k"
      and read: "\<And>f user. onMessage user tid c = (\<lambda>w. take_input c w f) \<Longrightarrow> handleRead user tid (ReadvData d) c w
        = andThen (f d (put_conn c (k\<lparr>inBuf := b, refs := Suc (refs k)\<rparr>) w)) (\<lambda>w'. Inr (release c w'))"
      and keep: "\<And>r. drained c tid bytes cap (incap + length d) (put_conn c (k\<lparr>inBuf := b, refs := Suc r\<rparr>) w)"
    let ?k1 = "k\<lparr>inBuf := b, refs := Suc (refs k)\<rparr>"
    let ?w2 = "(put_conn c ?k1 w)\<lparr>usr := (usr w)\<lparr>tc_printed := tc_printed (usr w) @ [c_string d]\<rparr>\<rparr>"
    let ?w3 = "release c ?w2"
    have run: "handleRead TestClient_user tid (ReadvData d) c w = Inr ?w3"
      using read [OF user] by (simp add: put_conn_def)
    have "drained c tid bytes cap (incap + length d) ?w2"
      using keep [of "refs k"] by (simp add: drained_def stream_at_def stream_ok_def)
    moreover have "conns ?w2 c = Some ?k1" by (simp add: put_conn_def)
    ultimately have at3: "drained c tid bytes cap (incap + length d) ?w3" by (rule release_back) (use k in simp_all)
    have fields: "usr ?w3 = (usr w)\<lparr>tc_printed := tc_printed (usr w) @ [c_string d]\<rparr>"
      using k(2) by (simp add: release_def put_conn_def)
    have "\<exists>w'. handle_reads TestClient_user tid c ds ?w3 = Inr w'
      \<and> tc_printed (usr w') = tc_printed (usr ?w3) @ map c_string ds"
      using Cons.prems(2,3) by (intro Cons.IH [OF at3]) auto
    then show ?case unfolding fields using run by auto
  qed
qed auto

lemma drained_stream:
  "drained c tid bytes cap incap w \<Longrightarrow> wire w c @ unsent_bytes c w = bytes"
  by (auto simp: drained_def stream_at_def unsent_bytes_def)

text \<open>What the loop sends for the messages the workers queued.\<close>

lemma drained_send_all:
  assumes "drained c tid bytes cap incap w" "length ms \<le> length (write_answers w)"
    and "cap + length (concat ms) < 2 ^ 62" "length (concat ms) < 2 ^ 31"
  shows "\<exists>w'. send_all c ms w = Inr w' \<and> drained c tid (bytes @ concat ms) (cap + length (concat ms)) incap w'"
  using assms
proof (induction ms arbitrary: w bytes cap)
  case (Cons m ms)
  from Cons.prems(1) obtain k where k: "conns w c = Some k" "pLoop k = tid" by (auto simp: drained_def)
  have "write_answers w \<noteq> []" "cap + length m < 2 ^ 62" "length m < 2 ^ 31" using Cons.prems by auto
  from drained_send [OF Cons.prems(1) k(1) this] obtain w1 where
    w1: "TcpConnection_send tid c m w = Inr w1" "drained c tid (bytes @ m) (cap + length m) incap w1"
      "\<exists>n \<le> 1. write_answers w1 = drop n (write_answers w)" by metis
  have "\<exists>w'. send_all c ms w1 = Inr w' \<and> drained c tid ((bytes @ m) @ concat ms) (cap + length m + length (concat ms)) incap w'"
    using Cons.prems w1(3) by (intro Cons.IH [OF w1(2)]) auto
  with w1(1) k show ?case by (auto simp: TcpConnection_send_def add.assoc)
qed simp

lemma idle_drained: "drained 0 0 [] 1032 1032 (idle_world x u)"
  using idle_world_ok(1,2) [of x u] Buffer_init_ok [of kInitialSize]
  by (simp add: drained_def stream_at_def idle_world_ok new_conn_parts new_buffer_length kInitialSize_def [symmetric])

lemma drained_client: "drained c tid bytes cap incap w \<Longrightarrow> drained c tid bytes cap incap (w\<lparr>client_connection := x\<rparr>)"
  by (simp add: drained_def stream_at_def stream_ok_def)

section \<open>Properties\<close>



text \<open>
  The echo server whose answers are sent by a thread pool: whatever is read is answered once, by a worker in another thread
  through the connection's loop; in which order is up to the workers, not to the client. The connection must still
  be there.
\<close>

theorem pooled_answers_reach_the_wire:
  assumes "drained c tid [] cap incap w" "tp_threads (usr w) \<noteq> []" "tp_tasks (usr w) = BlockingQueue_init"
    and "pendingFunctors w tid = []" "worker \<noteq> tid"
    and "\<forall>d \<in> set ds. d \<noteq> [] \<and> length d \<le> 65536" "length ds \<le> length (write_answers w)"
    and "incap + length (concat ds) < 2 ^ 62" "cap + length (concat ds) + length ds < 2 ^ 31"
    and "mset ms = mset ds"
  shows "\<exists>w1 w2. handle_reads EchoServerMultCalcThread_user tid c ds w = Inr w1
    \<and> bq_queue (tp_tasks (usr w1)) = map (\<lambda>d. Some (d, c)) ds
    \<and> andThen (run_tasks worker (map (\<lambda>m. Some (m, c)) ms) w1) (conn_doPendingFunctors EchoServerMultCalcThread_user tid) = Inr w2
    \<and> wire w2 c @ unsent_bytes c w2 = concat (map (\<lambda>m. m @ [10]) ms)"
proof -
  from calc_reads [OF assms(1,2,6,8)] assms(3,4,7) obtain w1 where
    w1: "handle_reads EchoServerMultCalcThread_user tid c ds w = Inr w1" "drained c tid [] cap (incap + length (concat ds)) w1"
      "bq_queue (tp_tasks (usr w1)) = map (\<lambda>d. Some (d, c)) ds" "pendingFunctors w1 tid = []"
      "length ds \<le> length (write_answers w1)"
    by (auto simp: BlockingQueue_init_def)
  let ?ms = "map (\<lambda>m. m @ [10]) ms"
  from w1(2) obtain k where k: "conns w1 c = Some k" "pLoop k = tid" by (auto simp: drained_def)
  have run: "andThen (run_tasks worker (map (\<lambda>m. Some (m, c)) ms) w1) (conn_doPendingFunctors EchoServerMultCalcThread_user tid)
      = send_all c ?ms w1"
    using threaded_sends_run [OF k(1), of worker] k(2) assms(5) w1(4) by (simp add: run_tasks_sends)
  have "length (concat ms) = length (concat ds)"
    using assms(10) by (simp add: length_concat flip: sum_mset_sum_list)
  moreover have "length ms = length ds" using assms(10) by (rule mset_eq_length)
  ultimately have len: "length ?ms \<le> length (write_answers w1)" "length (concat ?ms) = length (concat ds) + length ds"
    using w1(5) echoed_simps(3) [of ms] by (simp_all add: echoed_def)
  have "\<exists>w2. send_all c ?ms w1 = Inr w2 \<and> drained c tid ([] @ concat ?ms) (cap + length (concat ?ms)) (incap + length (concat ds)) w2"
    using assms(9) len by (intro drained_send_all [OF w1(2)]) simp_all
  then show ?thesis using w1(1,3) run drained_stream by fastforce
qed

text \<open>Two messages, answered in the other order.\<close>

definition demo_pool :: "echo_task thread_pool" where
  "demo_pool = ThreadPool_start (\<lambda>i. Some (int i)) 0 3 (ThreadPool_init ''ThreadPool'')"

lemma pooled_answers_reach_the_wire_witness:
  "\<exists>w1 w2. handle_reads EchoServerMultCalcThread_user 0 0 [[65], [66]] (idle_world (None :: unit option) demo_pool) = Inr w1
    \<and> andThen (run_tasks 9 [Some ([66], 0), Some ([65], 0)] w1) (conn_doPendingFunctors EchoServerMultCalcThread_user 0) = Inr w2
    \<and> wire w2 0 @ unsent_bytes 0 w2 = [66, 10, 65, 10]"
proof -
  let ?w = "idle_world (None :: unit option) demo_pool"
  have pool: "tp_threads demo_pool \<noteq> []" "tp_tasks demo_pool = BlockingQueue_init"
    by (simp_all add: demo_pool_def ThreadPool_start_def ThreadPool_init_def numeral_eq_Suc Let_def)
  have idle: "pendingFunctors ?w 0 = []" by (simp add: idle_world_def)
  have w: "drained 0 0 [] 1032 1032 ?w" "tp_threads (usr ?w) \<noteq> []" "tp_tasks (usr ?w) = BlockingQueue_init"
    "pendingFunctors ?w 0 = []" "(9 :: nat) \<noteq> 0"
    by (simp_all add: idle_drained idle_world_ok pool idle)
  have m: "\<forall>d \<in> set [[65], [66 :: byte]]. d \<noteq> [] \<and> length d \<le> 65536" "length [[65], [66 :: byte]] \<le> length (write_answers ?w)"
    "1032 + length (concat [[65], [66 :: byte]]) < 2 ^ 62" "1032 + length (concat [[65], [66 :: byte]]) + length [[65], [66 :: byte]] < 2 ^ 31"
    "mset [[66], [65 :: byte]] = mset [[65], [66]]"
    by (simp_all add: idle_world_ok)
  from pooled_answers_reach_the_wire [OF w m] show ?thesis by (elim exE conjE) (intro exI conjI; simp)
qed

end
