(* ===== verification/ServerLoop.thy ===== *)
theory ServerLoop
  imports TcpServer Locality
begin

text \<open>
  The loop of a server with one thread: \<^verbatim>\<open>EventLoop::loop\<close> with \<^verbatim>\<open>Epoll::poll\<close> over the channels of the acceptor and of
  the connections, as \<^verbatim>\<open>TcpServer\<close> and \<^verbatim>\<open>TcpConnection\<close> register them. The channel of a connection lives in the
  connection, so that a stored pointer may dangle. The locale \<open>loop_service\<close> says what the handlers of one connection
  promise the loop; from it follows that a turn of the loop does to the connections what the abstract automaton
  of the service does, whatever the number of connections and the order of the events. The channels of the loop's own
  eventfd and timer are left out.
\<close>

section \<open>One round of the loop\<close>

text \<open>
  An entry of the answer of \<^verbatim>\<open>epoll_wait\<close>: the channel's address and the events; further the answers of \<^verbatim>\<open>readv\<close> and
  \<^verbatim>\<open>accept\<close>, should the handler ask.
\<close>

record loop_event =
  ev_ptr :: nat
  ev_mask :: "32 word"
  ev_read :: readv_outcome
  ev_accept :: int

definition acceptor_id :: "tcp_server \<Rightarrow> nat" where
  "acceptor_id srv = ch_id (acceptChannel (srv_acceptor srv))"

text \<open>\<^verbatim>\<open>setRevents\<close> through the stored pointer.\<close>

definition store_revents ::
  "loop_event \<Rightarrow> tcp_server \<times> ('x, 'u) world \<Rightarrow> (tcp_server \<times> ('x, 'u) world) result" where
  "store_revents e s =
     (case s of (srv, w) \<Rightarrow>
        if ev_ptr e = acceptor_id srv
        then Inr (srv\<lparr>srv_acceptor := (srv_acceptor srv)\<lparr>acceptChannel :=
               setRevents (ev_mask e) (acceptChannel (srv_acceptor srv))\<rparr>\<rparr>, w)
        else with_conn (ev_ptr e) w (\<lambda>k.
               Inr (srv, put_conn (ev_ptr e) (k\<lparr>pSocketChannel := setRevents (ev_mask e) (pSocketChannel k)\<rparr>) w)))"

fun store_all ::
  "loop_event list \<Rightarrow> tcp_server \<times> ('x, 'u) world \<Rightarrow> (tcp_server \<times> ('x, 'u) world) result" where
  "store_all [] s = Inr s"
| "store_all (e # es) s = andThen (store_revents e s) (store_all es)"

text \<open>The acceptor as the callback of its channel: \<^verbatim>\<open>handleClose\<close> and \<^verbatim>\<open>handleWrite\<close> are empty.\<close>

definition acceptor_callbacks ::
  "('x, 'u) muduo_user \<Rightarrow> nat \<Rightarrow> int \<Rightarrow> (tcp_server \<times> ('x, 'u) world) channel_callback" where
  "acceptor_callbacks user tid connfd =
     \<lparr>cb_close = Inr,
      cb_read = (\<lambda>(srv, w). andThen
        (Acceptor_handleRead (TcpServer_newConnection srv user tid) (srv_acceptor srv) connfd w) (\<lambda>w'. Inr (srv, w'))),
      cb_write = Inr\<rparr>"

text \<open>\<^verbatim>\<open>handleEvent\<close> of an active channel.\<close>

definition channel_event ::
  "('x, 'u) muduo_user \<Rightarrow> nat \<Rightarrow> loop_event \<Rightarrow> tcp_server \<times> ('x, 'u) world
    \<Rightarrow> (tcp_server \<times> ('x, 'u) world) result" where
  "channel_event user tid e s =
     (case s of (srv, w) \<Rightarrow>
        if ev_ptr e = acceptor_id srv
        then handleEvent (\<lambda>(srv, w). Some (acceptChannel (srv_acceptor srv))) (acceptor_callbacks user tid (ev_accept e)) (srv, w)
        else let c = ev_ptr e
             in andThen (handleEvent (conn_channel c)
                  \<lparr>cb_close = handleClose user tid c, cb_read = handleRead user tid (ev_read e) c, cb_write = handleWrite c\<rparr> w)
                  (\<lambda>w'. Inr (srv, w')))"

fun channel_events ::
  "('x, 'u) muduo_user \<Rightarrow> nat \<Rightarrow> loop_event list \<Rightarrow> tcp_server \<times> ('x, 'u) world
    \<Rightarrow> (tcp_server \<times> ('x, 'u) world) result" where
  "channel_events user tid [] s = Inr s"
| "channel_events user tid (e # es) s = andThen (channel_event user tid e s) (channel_events user tid es)"

definition loop_round ::
  "('x, 'u) muduo_user \<Rightarrow> nat \<Rightarrow> loop_event list \<Rightarrow> tcp_server \<times> ('x, 'u) world
    \<Rightarrow> (tcp_server \<times> ('x, 'u) world) result" where
  "loop_round user tid evs s =
     andThen (store_all evs s) (\<lambda>s1.
     andThen (channel_events user tid evs s1) (\<lambda>(srv, w).
     andThen (conn_doPendingFunctors user tid w) (\<lambda>w'. Inr (srv, w'))))"

text \<open>The turns of the \<^verbatim>\<open>while\<close> loop, one for each answer of \<^verbatim>\<open>epoll_wait\<close>.\<close>

fun loop_rounds ::
  "('x, 'u) muduo_user \<Rightarrow> nat \<Rightarrow> loop_event list list \<Rightarrow> tcp_server \<times> ('x, 'u) world
    \<Rightarrow> (tcp_server \<times> ('x, 'u) world) result" where
  "loop_rounds user tid [] s = Inr s"
| "loop_rounds user tid (evs # rounds) s = andThen (loop_round user tid evs s) (loop_rounds user tid rounds)"

text \<open>What \<^verbatim>\<open>epoll_wait\<close> may answer: registered channels, each once, at most as many as it is asked for.\<close>

definition kernel_answers :: "nat \<Rightarrow> loop_event list \<Rightarrow> ('x, 'u) world \<Rightarrow> bool" where
  "kernel_answers tid evs w \<longleftrightarrow> length evs \<le> MAX_EVENTS \<and> distinct (map ev_ptr evs)
     \<and> (\<forall>e \<in> set evs. \<exists>fd m. epolls w tid fd = Some (m, ev_ptr e))"

text \<open>The kernel gives an accepted client a descriptor that is not in use, and \<^verbatim>\<open>new\<close> the connection an address of its own.\<close>

definition may_accept :: "nat \<Rightarrow> tcp_server \<Rightarrow> ('x, 'u) world \<Rightarrow> loop_event \<Rightarrow> bool" where
  "may_accept tid srv w e \<longleftrightarrow> ev_ptr e = acceptor_id srv \<and> ev_mask e AND EPOLLIN \<noteq> 0 \<longrightarrow>
     0 \<le> ev_accept e \<and> epolls w tid (ev_accept e) = None \<and> next_conn w \<noteq> acceptor_id srv"

section \<open>What a service promises the loop\<close>

text \<open>\<open>gone\<close>: connection \<open>c\<close> has been closed; the object is still referred to.\<close>

definition gone :: "nat \<Rightarrow> nat \<Rightarrow> ('x, 'u) world \<Rightarrow> ('x, 'u) world \<Rightarrow> bool" where
  "gone tid c w w' \<longleftrightarrow> (\<forall>d. d \<noteq> c \<longrightarrow> conns w' d = conns w d \<and> wire w' d = wire w d)
     \<and> (\<exists>k'. conns w' c = Some k' \<and> 0 < refs k')
     \<and> (\<forall>k. conns w c = Some k \<longrightarrow> epolls w' tid = (epolls w tid)(ch_fd (pSocketChannel k) := None)
          \<and> connections w' = (connections w)(ch_fd (pSocketChannel k) := None))
     \<and> next_conn w' = next_conn w \<and> threadPool w' = threadPool w
     \<and> (\<exists>n. pendingFunctors w' tid = pendingFunctors w tid @ replicate n (WriteComplate c))"

text \<open>Connection \<open>c\<close> is open: it is watched and listed under its descriptor, and its last events are \<open>ev\<close>.\<close>

definition watched :: "nat \<Rightarrow> nat \<Rightarrow> 32 word \<Rightarrow> ('x, 'u) world \<Rightarrow> bool" where
  "watched tid c ev w \<longleftrightarrow> (\<exists>k m. conns w c = Some k \<and> 0 < refs k \<and> revents (pSocketChannel k) = ev
     \<and> connections w (ch_fd (pSocketChannel k)) = Some c \<and> epolls w tid (ch_fd (pSocketChannel k)) = Some (m, c))"

definition same_at :: "nat \<Rightarrow> nat \<Rightarrow> ('x, 'u) world \<Rightarrow> ('x, 'u) world \<Rightarrow> bool" where
  "same_at tid c w w' \<longleftrightarrow> conns w' c = conns w c \<and> wire w' c = wire w c \<and> usr w' = usr w
     \<and> (\<forall>k. conns w c = Some k \<longrightarrow> epolls w' tid (ch_fd (pSocketChannel k)) = epolls w tid (ch_fd (pSocketChannel k))
          \<and> connections w' (ch_fd (pSocketChannel k)) = connections w (ch_fd (pSocketChannel k)))"

text \<open>A client has been accepted: the next address is its connection's.\<close>

definition joined :: "nat \<Rightarrow> int \<Rightarrow> ('x, 'u) world \<Rightarrow> ('x, 'u) world \<Rightarrow> bool" where
  "joined tid fd w w' \<longleftrightarrow> (\<forall>d. d \<noteq> next_conn w \<longrightarrow> conns w' d = conns w d \<and> wire w' d = wire w d)
     \<and> (\<exists>k. conns w' (next_conn w) = Some k \<and> 0 < refs k \<and> ch_fd (pSocketChannel k) = fd)
     \<and> epolls w' tid = (epolls w tid)(fd := Some (EPOLLIN, next_conn w))
     \<and> connections w' = (connections w)(fd := Some (next_conn w))
     \<and> next_conn w' = Suc (next_conn w) \<and> threadPool w' = threadPool w \<and> usr w' = usr w
     \<and> pendingFunctors w' tid = pendingFunctors w tid \<and> write_answers w' = write_answers w"

text \<open>
  \<open>conn_at c a ev w\<close>: connection \<open>c\<close> is open, its abstract state is \<open>a\<close> and its last events are \<open>ev\<close>. A new connection is in state
  \<open>start c\<close>; an event leads to \<open>handle e a\<close>, where \<open>None\<close> means that it has been closed, if \<open>fine e a\<close>; it
  needs at most \<open>need e a\<close> answers of \<^verbatim>\<open>write\<close>, of which none may be an error. The
  user's own state \<open>us\<close> does not change.
\<close>

locale loop_service =
  fixes user :: "('x, 'u) muduo_user" and tid :: nat and us :: 'u
    and conn_at :: "nat \<Rightarrow> 'a \<Rightarrow> 32 word \<Rightarrow> ('x, 'u) world \<Rightarrow> bool"
    and start :: "nat \<Rightarrow> 'a" and handle :: "loop_event \<Rightarrow> 'a \<Rightarrow> 'a option"
    and fine :: "loop_event \<Rightarrow> 'a \<Rightarrow> bool" and need :: "loop_event \<Rightarrow> 'a \<Rightarrow> nat"
  assumes open_watched: "conn_at c a ev w \<Longrightarrow> watched tid c ev w"
    and open_local: "conn_at c a ev w \<Longrightarrow> same_at tid c w w' \<Longrightarrow> conn_at c a ev w'"
    and open_stored: "conn_at c a ev w \<Longrightarrow> conns w c = Some k
      \<Longrightarrow> conn_at c a ev' (put_conn c (k\<lparr>pSocketChannel := setRevents ev' (pSocketChannel k)\<rparr>) w)"
    and open_accepted: "usr w = us \<Longrightarrow> srv_user srv \<Longrightarrow> loops (threadPool w) = [] \<Longrightarrow> baseLoop (threadPool w) = tid \<Longrightarrow> connections w fd = None
      \<Longrightarrow> 0 \<le> fd \<Longrightarrow> epolls w tid fd = None
      \<Longrightarrow> \<exists>w'. TcpServer_newConnection srv user tid fd w = Inr w' \<and> joined tid fd w w'
        \<and> conn_at (next_conn w) (start (next_conn w)) 0 w'"
    and event_handled: "conn_at (ev_ptr e) a (ev_mask e) w \<Longrightarrow> ev_ptr e \<noteq> acceptor_id srv \<Longrightarrow> fine e a
      \<Longrightarrow> need e a \<le> length (write_answers w) \<Longrightarrow> \<forall>x \<in> set (write_answers w). 0 \<le> x
      \<Longrightarrow> \<exists>w' n. channel_event user tid e (srv, w) = Inr (srv, w') \<and> n \<le> need e a \<and> write_answers w' = drop n (write_answers w)
        \<and> usr w' = usr w \<and> (case handle e a of None \<Rightarrow> gone tid (ev_ptr e) w w'
            | Some a' \<Rightarrow> only tid (ev_ptr e) w w' \<and> conn_at (ev_ptr e) a' (ev_mask e) w')"
    and complete_silent: "onWriteComplate user tid c w = Inr w"

text \<open>
  The automaton of the whole loop: the number of connections made so far, and the states of the open ones; \<open>p\<close> is the
  address of the acceptor's channel.
\<close>

type_synonym 'a loop_state = "nat \<times> (nat \<Rightarrow> 'a option)"

fun abs_event :: "(nat \<Rightarrow> 'a) \<Rightarrow> (loop_event \<Rightarrow> 'a \<Rightarrow> 'a option) \<Rightarrow> nat \<Rightarrow> loop_event \<Rightarrow> 'a loop_state \<Rightarrow> 'a loop_state" where
  "abs_event start handle p e (n, st) =
     (if ev_ptr e = p then if ev_mask e AND EPOLLIN = 0 then (n, st) else (Suc n, st(n := Some (start n)))
      else (n, st(ev_ptr e := Option.bind (st (ev_ptr e)) (handle e))))"

fun abs_events :: "(nat \<Rightarrow> 'a) \<Rightarrow> (loop_event \<Rightarrow> 'a \<Rightarrow> 'a option) \<Rightarrow> nat \<Rightarrow> loop_event list \<Rightarrow> 'a loop_state \<Rightarrow> 'a loop_state" where
  "abs_events start handle p [] s = s"
| "abs_events start handle p (e # es) s = abs_events start handle p es (abs_event start handle p e s)"

text \<open>What the automaton must be able to handle in the states it comes to, and the answers of \<^verbatim>\<open>write\<close> this takes at most.\<close>

fun fine_events ::
  "(nat \<Rightarrow> 'a) \<Rightarrow> (loop_event \<Rightarrow> 'a \<Rightarrow> 'a option) \<Rightarrow> (loop_event \<Rightarrow> 'a \<Rightarrow> bool) \<Rightarrow> nat \<Rightarrow> loop_event list \<Rightarrow> 'a loop_state \<Rightarrow> bool" where
  "fine_events start handle fine p [] s = True"
| "fine_events start handle fine p (e # es) (n, st) =
     ((ev_ptr e \<noteq> p \<longrightarrow> (case st (ev_ptr e) of None \<Rightarrow> True | Some a \<Rightarrow> fine e a))
      \<and> fine_events start handle fine p es (abs_event start handle p e (n, st)))"

fun need_events ::
  "(nat \<Rightarrow> 'a) \<Rightarrow> (loop_event \<Rightarrow> 'a \<Rightarrow> 'a option) \<Rightarrow> (loop_event \<Rightarrow> 'a \<Rightarrow> nat) \<Rightarrow> nat \<Rightarrow> loop_event list \<Rightarrow> 'a loop_state \<Rightarrow> nat" where
  "need_events start handle need p [] s = 0"
| "need_events start handle need p (e # es) (n, st) =
     (if ev_ptr e = p then 0 else case st (ev_ptr e) of None \<Rightarrow> 0 | Some a \<Rightarrow> need e a)
      + need_events start handle need p es (abs_event start handle p e (n, st))"

text \<open>What the kernel reports is the acceptor or a connection open at that time.\<close>

fun live_events :: "(nat \<Rightarrow> 'a) \<Rightarrow> (loop_event \<Rightarrow> 'a \<Rightarrow> 'a option) \<Rightarrow> nat \<Rightarrow> loop_event list \<Rightarrow> 'a loop_state \<Rightarrow> bool" where
  "live_events start handle p [] s = True"
| "live_events start handle p (e # es) (n, st) =
     ((ev_ptr e \<noteq> p \<longrightarrow> ev_ptr e < n \<and> st (ev_ptr e) \<noteq> None) \<and> live_events start handle p es (abs_event start handle p e (n, st)))"

lemma abs_events_append:
  "abs_events start handle p (xs @ ys) s = abs_events start handle p ys (abs_events start handle p xs s)"
  by (induction xs arbitrary: s) simp_all

lemma fine_events_append:
  "fine_events start handle fine p (xs @ ys) s \<longleftrightarrow> fine_events start handle fine p xs s
     \<and> fine_events start handle fine p ys (abs_events start handle p xs s)"
  by (induction start handle fine p xs s rule: fine_events.induct) (simp_all del: abs_event.simps)

lemma live_events_append:
  "live_events start handle p (xs @ ys) s \<longleftrightarrow> live_events start handle p xs s
     \<and> live_events start handle p ys (abs_events start handle p xs s)"
  by (induction start handle p xs s rule: live_events.induct) (simp_all del: abs_event.simps)

lemma need_events_append:
  "need_events start handle need p (xs @ ys) s = need_events start handle need p xs s
     + need_events start handle need p ys (abs_events start handle p xs s)"
  by (induction start handle need p xs s rule: need_events.induct) (simp_all del: abs_event.simps)

text \<open>The kernel's side of any number of turns.\<close>

fun kernel_rounds ::
  "('x, 'u) muduo_user \<Rightarrow> nat \<Rightarrow> loop_event list list \<Rightarrow> tcp_server \<times> ('x, 'u) world \<Rightarrow> bool" where
  "kernel_rounds user tid [] s = True"
| "kernel_rounds user tid (evs # rounds) s =
     (kernel_answers tid evs (snd s) \<and> (\<forall>e \<in> set evs. may_accept tid (fst s) (snd s) e)
      \<and> (case loop_round user tid evs s of Inl f \<Rightarrow> True | Inr s' \<Rightarrow> kernel_rounds user tid rounds s'))"

section \<open>The invariant of the loop\<close>

definition acceptor_ready :: "tcp_server \<Rightarrow> bool" where
  "acceptor_ready srv \<longleftrightarrow> srv_user srv \<and> acceptor_callback (srv_acceptor srv) \<and> has_callback (acceptChannel (srv_acceptor srv))"

text \<open>
  The objects of all connections ever made are alive, the open ones are in their states; the server's map lists open connections
  under their descriptors, the kernel watches the acceptor and them, and the functors queued tell of output written.
\<close>

definition loop_inv ::
  "nat \<Rightarrow> 'u \<Rightarrow> (nat \<Rightarrow> 'a \<Rightarrow> 32 word \<Rightarrow> ('x, 'u) world \<Rightarrow> bool) \<Rightarrow> tcp_server \<Rightarrow> (nat \<Rightarrow> 'a option) \<Rightarrow> (nat \<Rightarrow> 32 word) \<Rightarrow> ('x, 'u) world \<Rightarrow> bool" where
  "loop_inv tid us conn_at srv st rv w \<longleftrightarrow> acceptor_ready srv \<and> loops (threadPool w) = [] \<and> baseLoop (threadPool w) = tid
     \<and> next_conn w \<le> acceptor_id srv
     \<and> (\<forall>c < next_conn w. \<exists>k. conns w c = Some k \<and> 0 < refs k)
     \<and> (\<forall>c a. st c = Some a \<longrightarrow> c < next_conn w \<and> conn_at c a (rv c) w)
     \<and> (\<forall>fd c. connections w fd = Some c \<longrightarrow> st c \<noteq> None \<and> (\<exists>k. conns w c = Some k \<and> ch_fd (pSocketChannel k) = fd))
     \<and> (\<forall>fd m p. epolls w tid fd = Some (m, p) \<longrightarrow>
          p = acceptor_id srv \<or> st p \<noteq> None \<and> (\<exists>k. conns w p = Some k \<and> ch_fd (pSocketChannel k) = fd))
     \<and> (\<forall>t \<in> set (pendingFunctors w tid). \<exists>c < next_conn w. t = WriteComplate c)
     \<and> (\<forall>a \<in> set (write_answers w). 0 \<le> a) \<and> usr w = us"

lemma loop_invD:
  assumes "loop_inv tid us conn_at srv st rv w"
  shows "acceptor_ready srv" "loops (threadPool w) = []" "baseLoop (threadPool w) = tid" "next_conn w \<le> acceptor_id srv"
    "c < next_conn w \<Longrightarrow> \<exists>k. conns w c = Some k \<and> 0 < refs k"
    "st c = Some a \<Longrightarrow> c < next_conn w" "st c = Some a \<Longrightarrow> conn_at c a (rv c) w"
    "connections w fd = Some c \<Longrightarrow> st c \<noteq> None \<and> (\<exists>k. conns w c = Some k \<and> ch_fd (pSocketChannel k) = fd)"
    "epolls w tid fd = Some (m, p) \<Longrightarrow> p = acceptor_id srv \<or> st p \<noteq> None \<and> (\<exists>k. conns w p = Some k \<and> ch_fd (pSocketChannel k) = fd)"
    "t \<in> set (pendingFunctors w tid) \<Longrightarrow> \<exists>c < next_conn w. t = WriteComplate c"
    "\<forall>a \<in> set (write_answers w). 0 \<le> a" "usr w = us"
  using assms unfolding loop_inv_def by blast+

text \<open>The channel of the event carries the stored events.\<close>

definition armed :: "tcp_server \<Rightarrow> (nat \<Rightarrow> 32 word) \<Rightarrow> loop_event \<Rightarrow> bool" where
  "armed srv rv e \<longleftrightarrow> (if ev_ptr e = acceptor_id srv then revents (acceptChannel (srv_acceptor srv)) else rv (ev_ptr e)) = ev_mask e"

definition ours :: "tcp_server \<Rightarrow> (nat \<Rightarrow> 'a option) \<Rightarrow> loop_event \<Rightarrow> bool" where
  "ours srv st e \<longleftrightarrow> ev_ptr e = acceptor_id srv \<or> st (ev_ptr e) \<noteq> None"

lemma kernel_ours:
  assumes "loop_inv tid us conn_at srv st rv w" "kernel_answers tid evs w"
  shows "\<forall>e \<in> set evs. ours srv st e"
  using loop_invD(9) [OF assms(1)] assms(2) by (fastforce simp: kernel_answers_def ours_def)

lemma acceptor_event:
  assumes "acceptor_ready srv" "ev_ptr e = acceptor_id srv" "revents (acceptChannel (srv_acceptor srv)) = ev_mask e"
  shows "channel_event user tid e (srv, w) =
    (if ev_mask e AND EPOLLIN = 0 then Inr (srv, w)
     else andThen (TcpServer_newConnection srv user tid (ev_accept e) w) (\<lambda>w'. Inr (srv, w')))"
  using assms
  by (cases "TcpServer_newConnection srv user tid (ev_accept e) w")
    (simp_all add: channel_event_def acceptor_callbacks_def acceptor_ready_def handleEvent_def read_channel_def Acceptor_handleRead_def)

context loop_service begin

lemma inv_free:
  assumes "loop_inv tid us conn_at srv st rv w" "epolls w tid fd = None"
  shows "connections w fd = None"
proof (rule ccontr)
  assume "connections w fd \<noteq> None"
  then obtain c where "connections w fd = Some c" by blast
  with loop_invD(8) [OF assms(1)] obtain k a where "st c = Some a" "conns w c = Some k" "ch_fd (pSocketChannel k) = fd" by blast
  with open_watched [OF loop_invD(7) [OF assms(1), of c a]] assms(2) show False by (auto simp: watched_def)
qed

text \<open>A step on one connection keeps the others.\<close>

lemma inv_step:
  assumes inv: "loop_inv tid us conn_at srv st rv w" and st: "st c = Some a"
    and step: "case oa of None \<Rightarrow> gone tid c w w' | Some a' \<Rightarrow> only tid c w w' \<and> conn_at c a' ev w'"
    and a: "write_answers w' = drop n (write_answers w)" and u: "usr w' = usr w"
  shows "loop_inv tid us conn_at srv (st(c := oa)) (rv(c := ev)) w'" "next_conn w' = next_conn w"
    "\<forall>fd. epolls w tid fd = None \<longrightarrow> epolls w' tid fd = None"
proof -
  note D = loop_invD [OF inv]
  from open_watched [OF D(7) [OF st]] obtain k m where
    k: "conns w c = Some k" "connections w (ch_fd (pSocketChannel k)) = Some c" "epolls w tid (ch_fd (pSocketChannel k)) = Some (m, c)"
    by (auto simp: watched_def)
  let ?fd = "ch_fd (pSocketChannel k)"
  have base: "(\<forall>d. d \<noteq> c \<longrightarrow> conns w' d = conns w d \<and> wire w' d = wire w d) \<and> next_conn w' = next_conn w \<and> threadPool w' = threadPool w
      \<and> (\<forall>fd. fd \<noteq> ?fd \<longrightarrow> epolls w' tid fd = epolls w tid fd \<and> connections w' fd = connections w fd)
      \<and> (\<exists>n. pendingFunctors w' tid = pendingFunctors w tid @ replicate n (WriteComplate c))
      \<and> (\<exists>k'. conns w' c = Some k' \<and> 0 < refs k')
      \<and> (case oa of None \<Rightarrow> epolls w' tid ?fd = None \<and> connections w' ?fd = None
         | Some a' \<Rightarrow> conn_at c a' ev w' \<and> connections w' ?fd = Some c \<and> (\<exists>m. epolls w' tid ?fd = Some (m, c))
             \<and> (\<exists>k'. conns w' c = Some k' \<and> ch_fd (pSocketChannel k') = ?fd))"
  proof (cases oa)
    case None
    with step have g: "gone tid c w w'" by simp
    have "epolls w' tid = (epolls w tid)(?fd := None)" "connections w' = (connections w)(?fd := None)"
      using g k(1) unfolding gone_def by blast+
    with None g show ?thesis unfolding gone_def by simp
  next
    case (Some a')
    with step have o: "only tid c w w'" and at: "conn_at c a' ev w'" by simp_all
    from only_conn [OF o k(1)] obtain k' where k': "conns w' c = Some k'" "ch_fd (pSocketChannel k') = ?fd" by metis
    from open_watched [OF at] k' have reg: "0 < refs k'" "\<exists>m. epolls w' tid ?fd = Some (m, c)" by (auto simp: watched_def)
    have "\<exists>n. pendingFunctors w' tid = pendingFunctors w tid @ replicate n (WriteComplate c)" using o unfolding only_def by blast
    with Some at k' reg k(2) only_others [OF o] only_epolls [OF o k(1)] show ?thesis by auto
  qed
  then have others: "\<And>d. d \<noteq> c \<Longrightarrow> conns w' d = conns w d \<and> wire w' d = wire w d"
    and w': "next_conn w' = next_conn w" "threadPool w' = threadPool w"
    and fds: "\<And>fd. fd \<noteq> ?fd \<Longrightarrow> epolls w' tid fd = epolls w tid fd \<and> connections w' fd = connections w fd"
    and app: "\<exists>n. pendingFunctors w' tid = pendingFunctors w tid @ replicate n (WriteComplate c)"
    and alive: "\<exists>k'. conns w' c = Some k' \<and> 0 < refs k'"
    and last: "case oa of None \<Rightarrow> epolls w' tid ?fd = None \<and> connections w' ?fd = None
         | Some a' \<Rightarrow> conn_at c a' ev w' \<and> connections w' ?fd = Some c \<and> (\<exists>m. epolls w' tid ?fd = Some (m, c))
             \<and> (\<exists>k'. conns w' c = Some k' \<and> ch_fd (pSocketChannel k') = ?fd)"
    by blast+
  show "next_conn w' = next_conn w" by (rule w')
  show "\<forall>fd. epolls w tid fd = None \<longrightarrow> epolls w' tid fd = None" using fds k(3) by (metis option.distinct(1))
  have apart: "ch_fd (pSocketChannel kd) \<noteq> ?fd" if "st d = Some b" "conns w d = Some kd" "d \<noteq> c" for d b kd
    using open_watched [OF D(7) [OF that(1)]] that k(2) by (auto simp: watched_def)
  have "\<exists>k. conns w' d = Some k \<and> 0 < refs k" if "d < next_conn w" for d
    using D(5) [OF that] others [of d] alive by (cases "d = c") auto
  moreover have "d < next_conn w \<and> conn_at d b ((rv(c := ev)) d) w'" if "(st(c := oa)) d = Some b" for d b
  proof (cases "d = c")
    case True
    with that last D(6) [OF st] show ?thesis by simp
  next
    case False
    with that have b: "st d = Some b" by simp
    have "same_at tid d w w'" using others [OF False] fds apart [OF b _ False] u by (auto simp: same_at_def)
    with open_local [OF D(7) [OF b]] D(6) [OF b] False show ?thesis by simp
  qed
  moreover have "(st(c := oa)) d \<noteq> None \<and> (\<exists>k. conns w' d = Some k \<and> ch_fd (pSocketChannel k) = fd)"
    if d: "connections w' fd = Some d" for fd d
  proof (cases "fd = ?fd")
    case True
    with d last show ?thesis by (cases oa) auto
  next
    case False
    with d fds have "connections w fd = Some d" by auto
    from D(8) [OF this] obtain kd where kd: "st d \<noteq> None" "conns w d = Some kd" "ch_fd (pSocketChannel kd) = fd" by blast
    then have "d \<noteq> c" using False k(1) by auto
    with kd others [of d] show ?thesis by simp
  qed
  moreover have "p = acceptor_id srv \<or> (st(c := oa)) p \<noteq> None \<and> (\<exists>k. conns w' p = Some k \<and> ch_fd (pSocketChannel k) = fd)"
    if p: "epolls w' tid fd = Some (m', p)" for fd m' p
  proof (cases "fd = ?fd")
    case True
    with p last show ?thesis by (cases oa) auto
  next
    case False
    with p fds have "epolls w tid fd = Some (m', p)" by auto
    from D(9) [OF this] show ?thesis
    proof
      assume "st p \<noteq> None \<and> (\<exists>k. conns w p = Some k \<and> ch_fd (pSocketChannel k) = fd)"
      then obtain kp where kp: "st p \<noteq> None" "conns w p = Some kp" "ch_fd (pSocketChannel kp) = fd" by blast
      then have "p \<noteq> c" using False k(1) by auto
      with kp others [of p] show ?thesis by simp
    qed simp
  qed
  moreover have "\<exists>d < next_conn w. t = WriteComplate d" if "t \<in> set (pendingFunctors w' tid)" for t
    using app D(10) [of t] D(6) [OF st] that by auto
  moreover have "\<forall>a \<in> set (write_answers w'). 0 \<le> a" using D(11) unfolding a by (auto dest: in_set_dropD)
  ultimately show "loop_inv tid us conn_at srv (st(c := oa)) (rv(c := ev)) w'"
    using D(1-4,12) u unfolding loop_inv_def w' by simp
qed

lemma inv_accept:
  assumes inv: "loop_inv tid us conn_at srv st rv w" and fd: "0 \<le> fd" "epolls w tid fd = None" and p: "next_conn w \<noteq> acceptor_id srv"
  shows "\<exists>w'. TcpServer_newConnection srv user tid fd w = Inr w'
    \<and> loop_inv tid us conn_at srv (st(next_conn w := Some (start (next_conn w)))) (rv(next_conn w := 0)) w'
    \<and> next_conn w' = Suc (next_conn w) \<and> write_answers w' = write_answers w"
proof -
  note D = loop_invD [OF inv]
  let ?c = "next_conn w"
  have free: "connections w fd = None" by (rule inv_free [OF inv fd(2)])
  have "srv_user srv" using D(1) by (simp add: acceptor_ready_def)
  from open_accepted [OF D(12) this D(2,3) free fd] obtain w' where
    w': "TcpServer_newConnection srv user tid fd w = Inr w'" "joined tid fd w w'" "conn_at ?c (start ?c) 0 w'" by blast
  from w'(2) have others: "\<And>d. d \<noteq> ?c \<Longrightarrow> conns w' d = conns w d \<and> wire w' d = wire w d"
    and k: "\<exists>k. conns w' ?c = Some k \<and> 0 < refs k \<and> ch_fd (pSocketChannel k) = fd"
    and j: "epolls w' tid = (epolls w tid)(fd := Some (EPOLLIN, ?c))" "connections w' = (connections w)(fd := Some ?c)"
      "next_conn w' = Suc ?c" "threadPool w' = threadPool w" "usr w' = usr w" "pendingFunctors w' tid = pendingFunctors w tid"
      "write_answers w' = write_answers w"
    unfolding joined_def by blast+
  have old: "st ?c = None" using D(6) [of ?c] by (cases "st ?c") auto
  have "\<exists>k. conns w' d = Some k \<and> 0 < refs k" if "d < Suc ?c" for d
    using D(5) [of d] others [of d] k that by (cases "d = ?c") auto
  moreover have "d < Suc ?c \<and> conn_at d b ((rv(?c := 0)) d) w'" if "(st(?c := Some (start ?c))) d = Some b" for d b
  proof (cases "d = ?c")
    case True
    with that w'(3) show ?thesis by auto
  next
    case False
    with that have b: "st d = Some b" by simp
    have "ch_fd (pSocketChannel kd) \<noteq> fd" if "conns w d = Some kd" for kd
      using open_watched [OF D(7) [OF b]] that fd(2) by (auto simp: watched_def)
    then have "same_at tid d w w'" using others [OF False] by (auto simp: same_at_def j)
    with open_local [OF D(7) [OF b]] D(6) [OF b] False show ?thesis by simp
  qed
  moreover have "(st(?c := Some (start ?c))) d \<noteq> None \<and> (\<exists>k. conns w' d = Some k \<and> ch_fd (pSocketChannel k) = fd')"
    if d: "connections w' fd' = Some d" for fd' d
  proof (cases "fd' = fd")
    case True
    with d k show ?thesis by (auto simp: j)
  next
    case False
    with d have "connections w fd' = Some d" by (simp add: j)
    from D(8) [OF this] old others [of d] show ?thesis by (cases "d = ?c") auto
  qed
  moreover have "q = acceptor_id srv \<or> (st(?c := Some (start ?c))) q \<noteq> None \<and> (\<exists>k. conns w' q = Some k \<and> ch_fd (pSocketChannel k) = fd')"
    if q: "epolls w' tid fd' = Some (m, q)" for fd' m q
  proof (cases "fd' = fd")
    case True
    with q k show ?thesis by (auto simp: j)
  next
    case False
    with q have "epolls w tid fd' = Some (m, q)" by (simp add: j)
    from D(9) [OF this] old others [of q] show ?thesis by (cases "q = ?c") auto
  qed
  moreover have "\<exists>d < Suc ?c. t = WriteComplate d" if "t \<in> set (pendingFunctors w tid)" for t
    using D(10) [OF that] less_SucI by blast
  moreover have "Suc ?c \<le> acceptor_id srv" using D(4) p by simp
  ultimately have "loop_inv tid us conn_at srv (st(?c := Some (start ?c))) (rv(?c := 0)) w'"
    using D(1-3,11,12) unfolding loop_inv_def j by simp
  with w'(1) j show ?thesis by blast
qed

lemma inv_event:
  assumes inv: "loop_inv tid us conn_at srv st rv w" and e: "may_accept tid srv w e" "armed srv rv e" "ours srv st e"
    and f: "fine_events start handle fine (acceptor_id srv) [e] (next_conn w, st)"
    and a: "need_events start handle need (acceptor_id srv) [e] (next_conn w, st) \<le> length (write_answers w)"
  shows "\<exists>w' rv' n st'. channel_event user tid e (srv, w) = Inr (srv, w') \<and> loop_inv tid us conn_at srv st' rv' w'
    \<and> (next_conn w', st') = abs_event start handle (acceptor_id srv) e (next_conn w, st)
    \<and> (\<forall>d. d \<noteq> ev_ptr e \<and> d < next_conn w \<longrightarrow> rv' d = rv d \<and> st' d = st d)
    \<and> n \<le> need_events start handle need (acceptor_id srv) [e] (next_conn w, st) \<and> write_answers w' = drop n (write_answers w)
    \<and> (ev_ptr e \<noteq> acceptor_id srv \<longrightarrow> (\<forall>fd. epolls w tid fd = None \<longrightarrow> epolls w' tid fd = None))"
proof (cases "ev_ptr e = acceptor_id srv")
  case True
  note D = loop_invD [OF inv]
  have "revents (acceptChannel (srv_acceptor srv)) = ev_mask e" using e(2) True by (simp add: armed_def)
  note ev = acceptor_event [OF D(1) True this, of user tid w]
  show ?thesis
  proof (cases "ev_mask e AND EPOLLIN = 0")
    case off: True
    then show ?thesis using ev True inv
      by (intro exI [of _ w] exI [of _ rv] exI [of _ 0] exI [of _ st]) simp
  next
    case on: False
    from e(1) True on have fd: "0 \<le> ev_accept e" "epolls w tid (ev_accept e) = None" "next_conn w \<noteq> acceptor_id srv"
      by (simp_all add: may_accept_def)
    from inv_accept [OF inv fd] obtain w' where
      "TcpServer_newConnection srv user tid (ev_accept e) w = Inr w'"
      "loop_inv tid us conn_at srv (st(next_conn w := Some (start (next_conn w)))) (rv(next_conn w := 0)) w'"
      "next_conn w' = Suc (next_conn w)" "write_answers w' = write_answers w" by blast
    then show ?thesis
      using True on ev
      by (intro exI [of _ w'] exI [of _ "rv(next_conn w := 0)"] exI [of _ 0]
          exI [of _ "st(next_conn w := Some (start (next_conn w)))"]) simp
  qed
next
  case False
  let ?c = "ev_ptr e"
  note D = loop_invD [OF inv]
  from e(3) False obtain a where st: "st ?c = Some a" by (auto simp: ours_def)
  have at: "conn_at ?c a (ev_mask e) w" using D(7) [OF st] e(2) False by (simp add: armed_def)
  have "fine e a" "need e a \<le> length (write_answers w)" using f a False st by simp_all
  from event_handled [OF at False this D(11)] obtain w' n where
    w': "channel_event user tid e (srv, w) = Inr (srv, w')" "n \<le> need e a" "write_answers w' = drop n (write_answers w)"
      "usr w' = usr w"
      "case handle e a of None \<Rightarrow> gone tid ?c w w' | Some a' \<Rightarrow> only tid ?c w w' \<and> conn_at ?c a' (ev_mask e) w'" by blast
  note step = inv_step [OF inv st w'(5,3,4)]
  show ?thesis
    using step w'(1-3) False st
    by (intro exI [of _ w'] exI [of _ "rv(?c := ev_mask e)"] exI [of _ n] exI [of _ "st(?c := handle e a)"]) simp
qed

text \<open>The handlers of one round.\<close>

lemma inv_events:
  assumes "loop_inv tid us conn_at srv st rv w" "distinct (map ev_ptr evs)"
    and "\<forall>e \<in> set evs. may_accept tid srv w e \<and> armed srv rv e \<and> ours srv st e"
    and "fine_events start handle fine (acceptor_id srv) evs (next_conn w, st)"
    and "need_events start handle need (acceptor_id srv) evs (next_conn w, st) \<le> length (write_answers w)"
  shows "\<exists>w' rv' n st'. channel_events user tid evs (srv, w) = Inr (srv, w') \<and> loop_inv tid us conn_at srv st' rv' w'
    \<and> (next_conn w', st') = abs_events start handle (acceptor_id srv) evs (next_conn w, st)
    \<and> live_events start handle (acceptor_id srv) evs (next_conn w, st)
    \<and> (\<forall>d < next_conn w. d \<notin> ev_ptr ` set evs \<longrightarrow> rv' d = rv d \<and> st' d = st d)
    \<and> n \<le> need_events start handle need (acceptor_id srv) evs (next_conn w, st) \<and> write_answers w' = drop n (write_answers w)"
  using assms
proof (induction evs arbitrary: st rv w)
  case Nil
  then show ?case by (intro exI [of _ w] exI [of _ rv] exI [of _ 0] exI [of _ st]) simp
next
  case (Cons e es)
  let ?p = "acceptor_id srv"
  have e: "may_accept tid srv w e" "armed srv rv e" "ours srv st e" using Cons.prems(3) by simp_all
  have "fine_events start handle fine ?p [e] (next_conn w, st)"
    "need_events start handle need ?p [e] (next_conn w, st) \<le> length (write_answers w)" using Cons.prems(4,5) by simp_all
  from inv_event [OF Cons.prems(1) e this] obtain w1 rv1 n st1 where
    w1: "channel_event user tid e (srv, w) = Inr (srv, w1)" "loop_inv tid us conn_at srv st1 rv1 w1"
      "(next_conn w1, st1) = abs_event start handle ?p e (next_conn w, st)"
      "\<forall>d. d \<noteq> ev_ptr e \<and> d < next_conn w \<longrightarrow> rv1 d = rv d \<and> st1 d = st d"
      "n \<le> need_events start handle need ?p [e] (next_conn w, st)" "write_answers w1 = drop n (write_answers w)"
      "ev_ptr e \<noteq> ?p \<longrightarrow> (\<forall>fd. epolls w tid fd = None \<longrightarrow> epolls w1 tid fd = None)" by (elim exE conjE)
  have "ev_ptr e \<notin> ev_ptr ` set es" using Cons.prems(2) by simp
  then have apart: "ev_ptr e' \<noteq> ev_ptr e" if "e' \<in> set es" for e'
    using that by (metis image_eqI)
  have grown: "next_conn w \<le> next_conn w1" and same_next: "ev_ptr e \<noteq> ?p \<Longrightarrow> next_conn w1 = next_conn w"
    using w1(3) by (auto split: if_splits)
  have same: "st1 (ev_ptr e') = st (ev_ptr e') \<and> rv1 (ev_ptr e') = rv (ev_ptr e')" if "e' \<in> set es" "ev_ptr e' \<noteq> ?p" for e'
  proof -
    from Cons.prems(3) that obtain a where "st (ev_ptr e') = Some a" by (auto simp: ours_def)
    with loop_invD(6) [OF Cons.prems(1)] have "ev_ptr e' < next_conn w" by blast
    with w1(4) apart [OF that(1)] show ?thesis by simp
  qed
  have "may_accept tid srv w1 e' \<and> armed srv rv1 e' \<and> ours srv st1 e'" if e': "e' \<in> set es" for e'
  proof -
    from Cons.prems(3) e' have old: "may_accept tid srv w e'" "armed srv rv e'" "ours srv st e'" by simp_all
    show ?thesis
    proof (cases "ev_ptr e' = ?p")
      case True
      with apart [OF e'] have "ev_ptr e \<noteq> ?p" by simp
      with old True w1(7) same_next show ?thesis by (auto simp: may_accept_def armed_def ours_def)
    next
      case False
      with old same [OF e' False] show ?thesis by (simp add: may_accept_def armed_def ours_def)
    qed
  qed
  then have all: "\<forall>e \<in> set es. may_accept tid srv w1 e \<and> armed srv rv1 e \<and> ours srv st1 e" by blast
  have f: "fine_events start handle fine ?p es (next_conn w1, st1)"
    and bound: "n + need_events start handle need ?p es (next_conn w1, st1) \<le> need_events start handle need ?p (e # es) (next_conn w, st)"
    using Cons.prems(4) w1(5) unfolding w1(3) by simp_all
  then have a: "need_events start handle need ?p es (next_conn w1, st1) \<le> length (write_answers w1)"
    using Cons.prems(5) w1(6) by simp
  have "distinct (map ev_ptr es)" using Cons.prems(2) by simp
  from Cons.IH [OF w1(2) this all f a] obtain w2 rv2 m st2 where
    w2: "channel_events user tid es (srv, w1) = Inr (srv, w2)" "loop_inv tid us conn_at srv st2 rv2 w2"
      "(next_conn w2, st2) = abs_events start handle ?p es (next_conn w1, st1)"
      "live_events start handle ?p es (next_conn w1, st1)"
      "\<forall>d < next_conn w1. d \<notin> ev_ptr ` set es \<longrightarrow> rv2 d = rv1 d \<and> st2 d = st1 d"
      "m \<le> need_events start handle need ?p es (next_conn w1, st1)" "write_answers w2 = drop m (write_answers w1)"
    by (elim exE conjE)
  have "(next_conn w2, st2) = abs_events start handle ?p (e # es) (next_conn w, st)" using w1(3) w2(3) by simp
  moreover have "live_events start handle ?p (e # es) (next_conn w, st)"
  proof -
    have "ev_ptr e < next_conn w \<and> st (ev_ptr e) \<noteq> None" if "ev_ptr e \<noteq> ?p"
      using e(3) that loop_invD(6) [OF Cons.prems(1), of "ev_ptr e"] by (auto simp: ours_def)
    with w2(4) show ?thesis unfolding w1(3) by simp
  qed
  moreover have "\<forall>d < next_conn w. d \<notin> ev_ptr ` set (e # es) \<longrightarrow> rv2 d = rv d \<and> st2 d = st d" using w1(4) w2(5) grown by auto
  moreover have "m + n \<le> need_events start handle need ?p (e # es) (next_conn w, st)" "write_answers w2 = drop (m + n) (write_answers w)"
    using w1(6) w2(6,7) bound by simp_all
  moreover have "channel_events user tid (e # es) (srv, w) = Inr (srv, w2)" using w1(1) w2(1) by simp
  ultimately show ?case using w2(2) by blast
qed

text \<open>The functors of one round, and the answers stored at its start.\<close>

lemma inv_pending:
  assumes inv: "loop_inv tid us conn_at srv st rv w"
  shows "\<exists>w'. conn_doPendingFunctors user tid w = Inr w' \<and> loop_inv tid us conn_at srv st rv w'
    \<and> next_conn w' = next_conn w \<and> write_answers w' = write_answers w \<and> epolls w' = epolls w"
proof -
  let ?w0 = "w\<lparr>pendingFunctors := (pendingFunctors w)(tid := [])\<rparr>"
  note D = loop_invD [OF inv]
  have tell: "run_call user tid (WriteComplate c) ?w0 = Inr ?w0" if c: "c < next_conn w" for c
  proof -
    from D(5) [OF c] obtain k where k: "conns w c = Some k" "0 < refs k" by blast
    have "k\<lparr>refs := refs k\<rparr> = k" by (cases k) simp
    then have "(conns w)(c := Some (k\<lparr>refs := refs k\<rparr>)) = conns w" using k(1) by auto
    moreover have "?w0\<lparr>conns := conns w\<rparr> = ?w0" by (cases w) simp
    ultimately show ?thesis using k
      by (simp add: onWriteComplateCB_def with_ref_def share_def release_def put_conn_def complete_silent)
  qed
  have "run_calls user tid ts ?w0 = Inr ?w0 \<and> drop_calls ts ?w0 = ?w0"
    if "\<forall>t \<in> set ts. \<exists>c < next_conn w. t = WriteComplate c" for ts
    using that
  proof (induction ts)
    case (Cons t ts)
    then obtain c where "c < next_conn w" "t = WriteComplate c" by auto
    with tell [of c] Cons show ?case by (simp del: fun_upd_apply)
  qed simp
  with D(10) have "conn_doPendingFunctors user tid w = Inr ?w0"
    by (simp add: conn_doPendingFunctors_def Let_def)
  moreover have "conn_at c a ev ?w0" if "conn_at c a ev w" for c a ev
    using open_local [OF that] by (simp add: same_at_def)
  then have "loop_inv tid us conn_at srv st rv ?w0"
    using inv unfolding loop_inv_def by simp
  ultimately show ?thesis by simp
qed

lemma inv_store:
  assumes inv: "loop_inv tid us conn_at srv st rv w" and e: "ours srv st e"
  shows "\<exists>srv' w' rv'. store_revents e (srv, w) = Inr (srv', w') \<and> loop_inv tid us conn_at srv' st rv' w'
    \<and> acceptor_id srv' = acceptor_id srv \<and> next_conn w' = next_conn w \<and> write_answers w' = write_answers w \<and> epolls w' = epolls w
    \<and> armed srv' rv' e \<and> (\<forall>e'. ev_ptr e' \<noteq> ev_ptr e \<longrightarrow> armed srv' rv' e' = armed srv rv e')"
proof (cases "ev_ptr e = acceptor_id srv")
  case True
  let ?srv = "srv\<lparr>srv_acceptor := (srv_acceptor srv)\<lparr>acceptChannel := setRevents (ev_mask e) (acceptChannel (srv_acceptor srv))\<rparr>\<rparr>"
  have id: "acceptor_id ?srv = acceptor_id srv" "acceptor_ready ?srv = acceptor_ready srv"
    by (simp_all add: acceptor_id_def acceptor_ready_def setRevents_def)
  then have "loop_inv tid us conn_at ?srv st rv w" using inv by (simp add: loop_inv_def)
  then show ?thesis
    using True id by (intro exI [of _ ?srv] exI [of _ w] exI [of _ rv]) (auto simp: store_revents_def armed_def setRevents_def)
next
  case False
  let ?c = "ev_ptr e"
  note D = loop_invD [OF inv]
  from e False obtain a where st: "st ?c = Some a" by (auto simp: ours_def)
  from D(5) [OF D(6) [OF st]] obtain k where k: "conns w ?c = Some k" "0 < refs k" by blast
  let ?k = "k\<lparr>pSocketChannel := setRevents (ev_mask e) (pSocketChannel k)\<rparr>"
  let ?w = "put_conn ?c ?k w"
  have other: "conn_at d b ev ?w" if "conn_at d b ev w" "d \<noteq> ?c" for d b ev
    using open_local [OF that(1), of ?w] that(2) by (simp add: same_at_def put_conn_def)
  have at: "conn_at d b ((rv(?c := ev_mask e)) d) ?w" if "st d = Some b" for d b
    using other [OF D(7) [OF that]] open_stored [OF D(7) [OF st] k(1)] that st by (cases "d = ?c") simp_all
  have w: "next_conn ?w = next_conn w" "usr ?w = usr w" "threadPool ?w = threadPool w" "connections ?w = connections w" "epolls ?w = epolls w"
    "pendingFunctors ?w = pendingFunctors w" "write_answers ?w = write_answers w" by (simp_all add: put_conn_def)
  have kept: "\<exists>k'. conns ?w d = Some k' \<and> refs k' = refs kd \<and> ch_fd (pSocketChannel k') = ch_fd (pSocketChannel kd)"
    if "conns w d = Some kd" for d kd
    using that k by (auto simp: put_conn_def setRevents_def)
  have "\<exists>k. conns ?w d = Some k \<and> 0 < refs k" if "d < next_conn w" for d
    using D(5) [OF that] kept [of d] by metis
  moreover have "st d \<noteq> None \<and> (\<exists>k. conns ?w d = Some k \<and> ch_fd (pSocketChannel k) = fd)" if "connections w fd = Some d" for fd d
    using D(8) [OF that] kept [of d] by metis
  moreover have "p = acceptor_id srv \<or> st p \<noteq> None \<and> (\<exists>k. conns ?w p = Some k \<and> ch_fd (pSocketChannel k) = fd)"
    if "epolls w tid fd = Some (m, p)" for fd m p
    using D(9) [OF that] kept [of p] by metis
  ultimately have "loop_inv tid us conn_at srv st (rv(?c := ev_mask e)) ?w"
    using D(1-4,6,10,11,12) at unfolding loop_inv_def w by simp
  then show ?thesis
    using False k by (intro exI [of _ srv] exI [of _ ?w] exI [of _ "rv(?c := ev_mask e)"])
      (auto simp: store_revents_def armed_def put_conn_def)
qed

lemma inv_store_all:
  assumes "loop_inv tid us conn_at srv st rv w" "distinct (map ev_ptr evs)" "\<forall>e \<in> set evs. ours srv st e"
  shows "\<exists>srv' w' rv'. store_all evs (srv, w) = Inr (srv', w') \<and> loop_inv tid us conn_at srv' st rv' w'
    \<and> acceptor_id srv' = acceptor_id srv \<and> next_conn w' = next_conn w \<and> write_answers w' = write_answers w \<and> epolls w' = epolls w
    \<and> (\<forall>e \<in> set evs. armed srv' rv' e) \<and> (\<forall>e. ev_ptr e \<notin> ev_ptr ` set evs \<longrightarrow> armed srv' rv' e = armed srv rv e)"
  using assms
proof (induction evs arbitrary: srv rv w)
  case Nil
  then show ?case by auto
next
  case (Cons e es)
  from Cons.prems(3) have "ours srv st e" by simp
  from inv_store [OF Cons.prems(1) this] obtain srv1 w1 rv1 where
    w1: "store_revents e (srv, w) = Inr (srv1, w1)" "loop_inv tid us conn_at srv1 st rv1 w1"
      "acceptor_id srv1 = acceptor_id srv" "next_conn w1 = next_conn w" "write_answers w1 = write_answers w" "epolls w1 = epolls w"
      "armed srv1 rv1 e" "\<forall>e'. ev_ptr e' \<noteq> ev_ptr e \<longrightarrow> armed srv1 rv1 e' = armed srv rv e'" by (elim exE conjE)
  have "\<forall>e \<in> set es. ours srv1 st e" "distinct (map ev_ptr es)" using Cons.prems(2,3) by (simp_all add: ours_def w1)
  from Cons.IH [OF w1(2) this(2,1)] obtain srv2 w2 rv2 where
    w2: "store_all es (srv1, w1) = Inr (srv2, w2)" "loop_inv tid us conn_at srv2 st rv2 w2"
      "acceptor_id srv2 = acceptor_id srv1" "next_conn w2 = next_conn w1" "write_answers w2 = write_answers w1" "epolls w2 = epolls w1"
      "\<forall>e \<in> set es. armed srv2 rv2 e"
      "\<forall>e. ev_ptr e \<notin> ev_ptr ` set es \<longrightarrow> armed srv2 rv2 e = armed srv1 rv1 e" by (elim exE conjE)
  have "armed srv2 rv2 e" using w2(8) w1(7) Cons.prems(2) by simp
  with w1 w2 show ?case by (intro exI [of _ srv2] exI [of _ w2] exI [of _ rv2]) auto
qed

text \<open>One turn, and any number of them: the loop does what the automaton does.\<close>

lemma inv_round:
  assumes inv: "loop_inv tid us conn_at srv st rv w" and kernel: "kernel_answers tid evs w" and acc: "\<forall>e \<in> set evs. may_accept tid srv w e"
    and f: "fine_events start handle fine (acceptor_id srv) evs (next_conn w, st)"
    and a: "need_events start handle need (acceptor_id srv) evs (next_conn w, st) \<le> length (write_answers w)"
  shows "\<exists>srv' w' rv' n st'. loop_round user tid evs (srv, w) = Inr (srv', w') \<and> loop_inv tid us conn_at srv' st' rv' w'
    \<and> acceptor_id srv' = acceptor_id srv \<and> (next_conn w', st') = abs_events start handle (acceptor_id srv) evs (next_conn w, st)
    \<and> live_events start handle (acceptor_id srv) evs (next_conn w, st)
    \<and> n \<le> need_events start handle need (acceptor_id srv) evs (next_conn w, st) \<and> write_answers w' = drop n (write_answers w)"
proof -
  have distinct: "distinct (map ev_ptr evs)" using kernel by (simp add: kernel_answers_def)
  note registered = kernel_ours [OF inv kernel]
  from inv_store_all [OF inv distinct registered] obtain srv1 w1 rv1 where
    w1: "store_all evs (srv, w) = Inr (srv1, w1)" "loop_inv tid us conn_at srv1 st rv1 w1" "acceptor_id srv1 = acceptor_id srv"
      "next_conn w1 = next_conn w" "write_answers w1 = write_answers w" "epolls w1 = epolls w" "\<forall>e \<in> set evs. armed srv1 rv1 e"
    by (elim exE conjE)
  have "\<forall>e \<in> set evs. may_accept tid srv1 w1 e \<and> armed srv1 rv1 e \<and> ours srv1 st e"
    using acc registered w1(7) by (simp add: may_accept_def ours_def w1(3,4,6))
  from inv_events [OF w1(2) distinct this] f a w1(3-5) obtain w2 rv2 n st2 where
    w2: "channel_events user tid evs (srv1, w1) = Inr (srv1, w2)" "loop_inv tid us conn_at srv1 st2 rv2 w2"
      "(next_conn w2, st2) = abs_events start handle (acceptor_id srv) evs (next_conn w, st)"
      "live_events start handle (acceptor_id srv) evs (next_conn w, st)"
      "n \<le> need_events start handle need (acceptor_id srv) evs (next_conn w, st)" "write_answers w2 = drop n (write_answers w)"
    by auto
  from inv_pending [OF w2(2)] obtain w3 where
    w3: "conn_doPendingFunctors user tid w2 = Inr w3" "loop_inv tid us conn_at srv1 st2 rv2 w3" "next_conn w3 = next_conn w2"
      "write_answers w3 = write_answers w2" by blast
  have "loop_round user tid evs (srv, w) = Inr (srv1, w3)"
    using w1(1) w2(1) w3(1) by (simp add: loop_round_def)
  with w1(3) w2(3-6) w3(2-4) show ?thesis
    by (intro exI [of _ srv1] exI [of _ w3] exI [of _ rv2] exI [of _ n] exI [of _ st2]) simp
qed

lemma inv_rounds:
  assumes "loop_inv tid us conn_at srv st rv w" "kernel_rounds user tid rounds (srv, w)"
    and "fine_events start handle fine (acceptor_id srv) (concat rounds) (next_conn w, st)"
    and "need_events start handle need (acceptor_id srv) (concat rounds) (next_conn w, st) \<le> length (write_answers w)"
  shows "\<exists>srv' w' rv' n st'. loop_rounds user tid rounds (srv, w) = Inr (srv', w') \<and> loop_inv tid us conn_at srv' st' rv' w'
    \<and> acceptor_id srv' = acceptor_id srv \<and> (next_conn w', st') = abs_events start handle (acceptor_id srv) (concat rounds) (next_conn w, st)
    \<and> live_events start handle (acceptor_id srv) (concat rounds) (next_conn w, st)
    \<and> n \<le> need_events start handle need (acceptor_id srv) (concat rounds) (next_conn w, st)
    \<and> write_answers w' = drop n (write_answers w)"
  using assms
proof (induction rounds arbitrary: srv st rv w)
  case Nil
  then show ?case by (intro exI [of _ srv] exI [of _ w] exI [of _ rv] exI [of _ 0] exI [of _ st]) simp
next
  case (Cons evs rounds)
  let ?p = "acceptor_id srv"
  have prems: "kernel_answers tid evs w" "\<forall>e \<in> set evs. may_accept tid srv w e" using Cons.prems(2) by simp_all
  have "fine_events start handle fine ?p evs (next_conn w, st)"
    "need_events start handle need ?p evs (next_conn w, st) \<le> length (write_answers w)"
    using Cons.prems(3,4) by (simp_all add: fine_events_append need_events_append)
  from inv_round [OF Cons.prems(1) prems this] obtain srv1 w1 rv1 n st1 where
    w1: "loop_round user tid evs (srv, w) = Inr (srv1, w1)" "loop_inv tid us conn_at srv1 st1 rv1 w1" "acceptor_id srv1 = ?p"
      "(next_conn w1, st1) = abs_events start handle ?p evs (next_conn w, st)" "live_events start handle ?p evs (next_conn w, st)"
      "n \<le> need_events start handle need ?p evs (next_conn w, st)" "write_answers w1 = drop n (write_answers w)"
    by (elim exE conjE)
  have "kernel_rounds user tid rounds (srv1, w1)" using Cons.prems(2) w1(1) by simp
  moreover have "fine_events start handle fine (acceptor_id srv1) (concat rounds) (next_conn w1, st1)"
    using Cons.prems(3) by (simp add: fine_events_append w1(3,4))
  moreover have bound: "n + need_events start handle need (acceptor_id srv1) (concat rounds) (next_conn w1, st1)
      \<le> need_events start handle need ?p (concat (evs # rounds)) (next_conn w, st)"
    using w1(6) by (simp add: need_events_append w1(3,4))
  then have "need_events start handle need (acceptor_id srv1) (concat rounds) (next_conn w1, st1) \<le> length (write_answers w1)"
    using Cons.prems(4) w1(7) by simp
  ultimately have "\<exists>srv' w' rv' n st'. loop_rounds user tid rounds (srv1, w1) = Inr (srv', w') \<and> loop_inv tid us conn_at srv' st' rv' w'
    \<and> acceptor_id srv' = acceptor_id srv1 \<and> (next_conn w', st') = abs_events start handle (acceptor_id srv1) (concat rounds) (next_conn w1, st1)
    \<and> live_events start handle (acceptor_id srv1) (concat rounds) (next_conn w1, st1)
    \<and> n \<le> need_events start handle need (acceptor_id srv1) (concat rounds) (next_conn w1, st1)
    \<and> write_answers w' = drop n (write_answers w1)"
    by (intro Cons.IH [OF w1(2)])
  then obtain srv2 w2 rv2 m st2 where
    w2: "loop_rounds user tid rounds (srv1, w1) = Inr (srv2, w2)" "loop_inv tid us conn_at srv2 st2 rv2 w2" "acceptor_id srv2 = acceptor_id srv1"
      "(next_conn w2, st2) = abs_events start handle (acceptor_id srv1) (concat rounds) (next_conn w1, st1)"
      "live_events start handle (acceptor_id srv1) (concat rounds) (next_conn w1, st1)"
      "m \<le> need_events start handle need (acceptor_id srv1) (concat rounds) (next_conn w1, st1)" "write_answers w2 = drop m (write_answers w1)"
    by (elim exE conjE)
  have "m + n \<le> need_events start handle need ?p (concat (evs # rounds)) (next_conn w, st)" using bound w2(6) by simp
  then  show ?case
    using w1(1,3,4,5,7) w2
    by (intro exI [of _ srv2] exI [of _ w2] exI [of _ rv2] exI [of _ "m + n"] exI [of _ st2])
      (simp add: abs_events_append live_events_append)
qed

end

section \<open>Events of one connection\<close>

lemma channel_events_append:
  "channel_events user tid (xs @ ys) s = andThen (channel_events user tid xs s) (channel_events user tid ys)"
  by (induction xs arbitrary: s) (auto simp: andThen_def split: sum.splits)

lemma loop_rounds_append:
  "loop_rounds user tid (xs @ ys) s = andThen (loop_rounds user tid xs s) (loop_rounds user tid ys)"
  by (induction xs arbitrary: s) (auto simp: andThen_def split: sum.splits)

lemma conn_stays_open:
  assumes k: "conns w (ev_ptr e) = Some k" "has_callback (pSocketChannel k)" "revents (pSocketChannel k) = ev_mask e"
    and e: "ev_ptr e \<noteq> acceptor_id srv" "ev_mask e AND EPOLLHUP = 0 \<or> ev_mask e AND EPOLLIN \<noteq> 0"
    and read: "(if ev_mask e AND EPOLLIN = 0 then Inr w else handleRead user tid (ev_read e) (ev_ptr e) w) = Inr w1"
      "only tid (ev_ptr e) w w1"
    and wrote: "(if ev_mask e AND EPOLLOUT = 0 then Inr w1 else handleWrite (ev_ptr e) w1) = Inr w2"
  shows "channel_event user tid e (srv, w) = Inr (srv, w2)"
proof -
  let ?c = "ev_ptr e"
  define cb where "cb = \<lparr>cb_close = handleClose user tid ?c, cb_read = handleRead user tid (ev_read e) ?c, cb_write = handleWrite ?c\<rparr>"
  have event: "channel_event user tid e (srv, w) = andThen (handleEvent (conn_channel ?c) cb w) (\<lambda>w'. Inr (srv, w'))"
    using e(1) by (simp add: channel_event_def cb_def Let_def)
  from only_conn [OF read(2) k(1)] obtain k1 where k1: "conns w1 ?c = Some k1"
    and ch1: "pSocketChannel k1 = (pSocketChannel k)\<lparr>events := events (pSocketChannel k1)\<rparr>" by metis
  have sel: "has_callback (pSocketChannel k1)" "revents (pSocketChannel k1) = ev_mask e" by (subst ch1, simp add: k)+
  have ch: "conn_channel ?c w = Some (pSocketChannel k)" "conn_channel ?c w1 = Some (pSocketChannel k1)"
    using k(1) k1 by (simp_all add: conn_channel_def)
  have quiet: "\<not> (ev_mask e AND EPOLLHUP \<noteq> 0 \<and> ev_mask e AND EPOLLIN = 0)" using e(2) by blast
  have "handleEvent (conn_channel ?c) cb w = Inr w2"
    unfolding handleEvent_def read_channel_def
    using ch k sel quiet read(1) wrote by (auto simp: cb_def split: if_splits)
  then show ?thesis by (simp add: event)
qed

text \<open>What an event lets its connection read.\<close>

definition chunks :: "loop_event \<Rightarrow> byte list list" where
  "chunks e = (if ev_mask e AND EPOLLIN = 0 then [] else case ev_read e of ReadvData d \<Rightarrow> [d] | _ \<Rightarrow> [])"

text \<open>The events that end a connection: the peer has hung up, closed its side, or reset.\<close>

definition closing :: "loop_event \<Rightarrow> bool" where
  "closing e \<longleftrightarrow> (if ev_mask e AND EPOLLIN = 0 then ev_mask e AND EPOLLHUP \<noteq> 0
     else ev_read e = ReadvData [] \<or> ev_read e = ReadvError ECONNRESET)"

lemma closed_gone:
  assumes "conns w c = Some k" "closeCallback k = Some ServerRemove" "sockfd k = ch_fd (pSocketChannel k)" "pLoop k = tid"
  shows "gone tid c w (closed_world c (k\<lparr>inBuf := b\<rparr>) (Suc n) (usr w) (put_conn c (k\<lparr>inBuf := b\<rparr>) w))"
  using assms by (auto simp: gone_def closed_world_def disown_def put_conn_def intro: exI [of _ 0])

text \<open>A connection that is still referred to after the server has forgotten it goes without a fault.\<close>

lemma conn_closes:
  assumes k: "conns w (ev_ptr e) = Some k" "refs k = Suc (Suc n)" "owned (ev_ptr e) k w" "pUser k" "closeCallback k = Some ServerRemove"
      "sockfd k = ch_fd (pSocketChannel k)" "pLoop k = tid"
    and ch: "has_callback (pSocketChannel k)" "0 \<le> ch_fd (pSocketChannel k)" "revents (pSocketChannel k) = ev_mask e"
    and buf: "buffer_ok (inBuf k)" "room (inBuf k) 0"
    and user: "onClose user = (\<lambda>tid c. Inr)" and e: "closing e" "ev_ptr e \<noteq> acceptor_id srv"
  shows "\<exists>w'. channel_event user tid e (srv, w) = Inr (srv, w') \<and> gone tid (ev_ptr e) w w' \<and> usr w' = usr w
    \<and> write_answers w' = write_answers w"
proof -
  let ?c = "ev_ptr e"
  have close: "handleClose user tid ?c (put_conn ?c (k\<lparr>inBuf := b\<rparr>) w)
      = Inr (closed_world ?c (k\<lparr>inBuf := b\<rparr>) (Suc n) (usr w) (put_conn ?c (k\<lparr>inBuf := b\<rparr>) w))" for b
  proof -
    have user': "onClose user = (\<lambda>tid c w. Inr (w\<lparr>usr := (\<lambda>c u. u) c (usr w)\<rparr>))" using user by (simp add: fun_eq_iff)
    have "conns (put_conn ?c (k\<lparr>inBuf := b\<rparr>) w) ?c = Some (k\<lparr>inBuf := b\<rparr>)" "refs (k\<lparr>inBuf := b\<rparr>) = Suc (Suc n)"
      "owned ?c (k\<lparr>inBuf := b\<rparr>) (put_conn ?c (k\<lparr>inBuf := b\<rparr>) w)" "pUser (k\<lparr>inBuf := b\<rparr>)"
      using k by (auto simp: put_conn_def owned_def split: option.splits up_layer.splits)
    from handleClose_owned [OF this user', of tid] show ?thesis by (simp add: put_conn_def)
  qed
  obtain b where b: "(if ev_mask e AND EPOLLIN = 0 then handleClose user tid ?c w else handleRead user tid (ev_read e) ?c w)
      = handleClose user tid ?c (put_conn ?c (k\<lparr>inBuf := b\<rparr>) w)"
  proof (cases "ev_mask e AND EPOLLIN = 0")
    case True
    have "k\<lparr>inBuf := inBuf k\<rparr> = k" by simp
    moreover from this have "put_conn ?c k w = w" using k(1) by (cases w) (auto simp: put_conn_def fun_upd_idem)
    ultimately show thesis using True that [of "inBuf k"] by (simp del: tcp_conn.update_convs)
  next
    case False
    from readFd_data_ok [OF buf(1), of "[]"] buf(2) obtain b0 where
      b0: "readFd (inBuf k) (ReadvData []) = Inr \<lparr>rf_buffer = b0, rf_n = 0, rf_errno = None\<rparr>" by auto
    define b where "b = (if ev_read e = ReadvData [] then b0 else inBuf k)"
    have "handleRead user tid (ev_read e) ?c w = handleClose user tid ?c (put_conn ?c (k\<lparr>inBuf := b\<rparr>) w)"
      using k(1) ch(2) e(1) False b0 by (auto simp: handleRead_def closing_def Let_def b_def) (simp_all add: readFd_def)
    with False show thesis by (intro that [of b]) simp
  qed
  define w3 where "w3 = closed_world ?c (k\<lparr>inBuf := b\<rparr>) (Suc n) (usr w) (put_conn ?c (k\<lparr>inBuf := b\<rparr>) w)"
  define ch3 where "ch3 = (pSocketChannel k)\<lparr>index := kDeleted, events := 0\<rparr>"
  define cb where "cb = \<lparr>cb_close = handleClose user tid ?c, cb_read = handleRead user tid (ev_read e) ?c, cb_write = handleWrite ?c\<rparr>"
  have run: "(if ev_mask e AND EPOLLIN = 0 then cb_close cb w else cb_read cb w) = Inr w3"
    using b close [of b] by (simp add: cb_def w3_def split: if_splits)
  have chan: "conn_channel ?c w = Some (pSocketChannel k)" "conn_channel ?c w3 = Some ch3"
    using k(1) by (simp_all add: conn_channel_def w3_def ch3_def)
  have sel: "revents ch3 = ev_mask e" "has_callback ch3" using ch by (simp_all add: ch3_def)
  have idle: "cb_write cb w3 = Inr w3"
    by (simp add: cb_def handleWrite_def isWriting_def w3_def)
  have hup: "ev_mask e AND EPOLLIN = 0 \<Longrightarrow> ev_mask e AND EPOLLHUP \<noteq> 0" using e(1) by (simp add: closing_def)
  have "handleEvent (conn_channel ?c) cb w = Inr w3"
    unfolding handleEvent_def read_channel_def
    using chan ch sel idle run hup by (auto split: if_splits)
  then have "channel_event user tid e (srv, w) = Inr (srv, w3)"
    using e(2) by (simp add: channel_event_def cb_def Let_def)
  moreover have "gone tid ?c w w3" unfolding w3_def by (rule closed_gone [OF k(1,5,6,7)])
  moreover have "usr w3 = usr w" "write_answers w3 = write_answers w"
    using k(5) by (simp_all add: w3_def closed_world_def disown_def put_conn_def)
  ultimately show ?thesis by blast
qed

section \<open>Connections with output\<close>

text \<open>
  Connection \<open>k\<close> at \<open>c\<close> of a server in the loop \<open>tid\<close>: it is listed and watched, \<open>bytes\<close> have been given to it to be sent,
  \<open>n\<close> pointers refer to it, and its last events are \<open>ev\<close>.
\<close>

definition open_at :: "nat \<Rightarrow> nat \<Rightarrow> nat \<Rightarrow> byte list \<Rightarrow> 32 word \<Rightarrow> ('x, 'u) world \<Rightarrow> 'x tcp_conn \<Rightarrow> bool" where
  "open_at tid c n bytes ev w k \<longleftrightarrow> stream_at c bytes (1032 + length bytes) w \<and> length bytes < 2 ^ 31
     \<and> conns w c = Some k \<and> pLoop k = tid \<and> pUser k \<and> refs k = n \<and> closeCallback k = Some ServerRemove
     \<and> connections w (sockfd k) = Some c \<and> sockfd k = ch_fd (pSocketChannel k) \<and> 0 \<le> ch_fd (pSocketChannel k)
     \<and> ch_id (pSocketChannel k) = c \<and> has_callback (pSocketChannel k) \<and> revents (pSocketChannel k) = ev"

lemma open_at_watched: "open_at tid c n bytes ev w k \<Longrightarrow> 0 < n \<Longrightarrow> watched tid c ev w"
  by (auto simp: open_at_def watched_def stream_at_def stream_ok_def in_sync_def)

lemma open_at_local:
  assumes at: "open_at tid c n bytes ev w k" and same: "same_at tid c w w'"
  shows "open_at tid c n bytes ev w' k"
proof -
  from at have k: "conns w c = Some k" "pLoop k = tid" "sockfd k = ch_fd (pSocketChannel k)" by (simp_all add: open_at_def)
  with same have "conns w' c = Some k" "wire w' c = wire w c" "connections w' (sockfd k) = connections w (sockfd k)"
    "epolls w' tid (ch_fd (pSocketChannel k)) = epolls w tid (ch_fd (pSocketChannel k))" by (simp_all add: same_at_def)
  with at k show ?thesis by (auto simp: open_at_def stream_at_def stream_ok_def in_sync_def)
qed

lemma open_at_stored:
  assumes at: "open_at tid c n bytes ev w k"
  shows "open_at tid c n bytes ev' (put_conn c (k\<lparr>pSocketChannel := setRevents ev' (pSocketChannel k)\<rparr>) w)
    (k\<lparr>pSocketChannel := setRevents ev' (pSocketChannel k)\<rparr>)"
proof -
  let ?w = "put_conn c (k\<lparr>pSocketChannel := setRevents ev' (pSocketChannel k)\<rparr>) w"
  have "same_stream c w ?w" using at by (simp add: open_at_def same_stream_def put_conn_def setRevents_def)
  moreover have "stream_at c bytes (1032 + length bytes) w" using at by (simp add: open_at_def)
  ultimately have "stream_at c bytes (1032 + length bytes) ?w" using other_stream_at by blast
  with at show ?thesis by (auto simp: open_at_def put_conn_def setRevents_def)
qed

text \<open>A step on the connection, seen from the loop: the bytes sent and the pointers are what it is about.\<close>

lemma open_at_step:
  assumes at: "open_at tid c n bytes ev w k" and step: "only tid c w w'" and k': "conns w' c = Some k'" "refs k' = m"
    and sent: "stream_at c bytes' (1032 + length bytes') w'" "length bytes' < 2 ^ 31"
  shows "open_at tid c m bytes' ev w' k'"
proof -
  from at have k: "conns w c = Some k" by (simp add: open_at_def)
  from only_conn [OF step k] k'(1) have sel: "sockfd k' = sockfd k" "pLoop k' = pLoop k" "pUser k' = pUser k"
    "closeCallback k' = closeCallback k" and ch: "pSocketChannel k' = (pSocketChannel k)\<lparr>events := events (pSocketChannel k')\<rparr>"
    by (metis option.inject)+
  have chs: "ch_fd (pSocketChannel k') = ch_fd (pSocketChannel k)" "ch_id (pSocketChannel k') = ch_id (pSocketChannel k)"
    "has_callback (pSocketChannel k') = has_callback (pSocketChannel k)" "revents (pSocketChannel k') = revents (pSocketChannel k)"
    by (subst ch, simp)+
  show ?thesis using at k' sent only_others(3) [OF step] by (auto simp: open_at_def sel chs)
qed

text \<open>The socket is writable.\<close>

lemma open_at_writable:
  assumes at: "open_at tid c n bytes ev w k" and a: "write_answers w \<noteq> []"
  obtains w' k' j where "handleWrite c w = Inr w'" "open_at tid c n bytes ev w' k'" "only tid c w w'" "usr w' = usr w"
    "inBuf k' = inBuf k" "conn_context k' = conn_context k" "j \<le> 1" "write_answers w' = drop j (write_answers w)"
proof -
  from at have s: "stream_at c bytes (1032 + length bytes) w" "length bytes < 2 ^ 31"
    and k: "conns w c = Some k" "pLoop k = tid" by (simp_all add: open_at_def)
  show thesis
  proof (rule writable_only [OF s a k])
    fix w' k' j
    assume w': "handleWrite c w = Inr w'" "stream_at c bytes (1032 + length bytes) w'" "only tid c w w'" "conns w' c = Some k'"
      "k' = k\<lparr>outBuf := outBuf k', pSocketChannel := pSocketChannel k'\<rparr>" "usr w' = usr w" "j \<le> 1" "write_answers w' = drop j (write_answers w)"
    have sel: "refs k' = refs k" "inBuf k' = inBuf k" "conn_context k' = conn_context k"
      by (subst w'(5), simp)+
    have "open_at tid c n bytes ev w' k'"
      by (rule open_at_step [OF at w'(3,4) _ w'(2) s(2)]) (use at in \<open>simp add: open_at_def sel\<close>)
    with w' sel show thesis by (intro that [of w' k' j])
  qed
qed

section \<open>The server started\<close>

text \<open>Nothing is open, nothing watched in the loop, and nothing queued.\<close>

definition nothing_open :: "nat \<Rightarrow> ('x, 'u) world \<Rightarrow> bool" where
  "nothing_open tid w \<longleftrightarrow> next_conn w = 0 \<and> connections w = (\<lambda>fd. None) \<and> epolls w tid = (\<lambda>fd. None)
     \<and> pendingFunctors w tid = []"

text \<open>
  No answer of \<^verbatim>\<open>write\<close> will be an error, \<^verbatim>\<open>EAGAIN\<close>, \<^verbatim>\<open>EPIPE\<close> and \<^verbatim>\<open>ECONNRESET\<close> included: the kernel takes some of the bytes, perhaps
  none, of every write. When a write fails \<^verbatim>\<open>sendInLoop\<close> throws (theorem \<open>write_error_throws\<close>).
\<close>

definition writes_succeed :: "('x, 'u) world \<Rightarrow> bool" where
  "writes_succeed w \<longleftrightarrow> (\<forall>a \<in> set (write_answers w). 0 \<le> a)"

lemma server_started:
  assumes "nothing_open tid w0" "writes_succeed w0" "Acceptor_init p lfd b l = Inr a" "TcpServer_init a tid w0 = (srv0, w1)"
    and "TcpServer_start new_loop (TcpServer_setCallback True srv0) (w1\<lparr>usr := u\<rparr>) = (srv, w)"
  shows "loop_inv tid u conn_at srv (\<lambda>c. None) rv w" "acceptor_id srv = p" "next_conn w = 0"
    "write_answers w = write_answers w0" "usr w = u" "0 \<le> lfd \<Longrightarrow> epolls w tid = [lfd \<mapsto> (EPOLLIN, p)]"
  using assms
  by (auto simp: loop_inv_def nothing_open_def writes_succeed_def acceptor_ready_def acceptor_id_def TcpServer_init_def TcpServer_setCallback_def
      TcpServer_start_def Let_def Acceptor_init_def createAndListen_def Acceptor_setCallback_def Acceptor_start_def
      setCallback_def Channel_init_def enableReading_def Epoll_update_def setIndex_def epoll_add_def pool_start_def
      EventLoopThreadPool_init_def split: if_splits prod.splits)

text \<open>The clients accepted are the connections made.\<close>

definition accepts :: "nat \<Rightarrow> loop_event list \<Rightarrow> nat" where
  "accepts p evs = length (filter (\<lambda>e. ev_ptr e = p \<and> ev_mask e AND EPOLLIN \<noteq> 0) evs)"

lemma accepts_simps [simp]:
  "accepts p [] = 0" "accepts p (e # es) = (if ev_ptr e = p \<and> ev_mask e AND EPOLLIN \<noteq> 0 then Suc (accepts p es) else accepts p es)"
  by (simp_all add: accepts_def)

lemma accepts_append: "accepts p (xs @ ys) = accepts p xs + accepts p ys"
  by (simp add: accepts_def)

lemma abs_events_accepts: "fst (abs_events start handle p evs (n, st)) = n + accepts p evs"
  by (induction evs arbitrary: n st) auto

section \<open>A small instance\<close>

text \<open>A server that listens on descriptor 3, its channel at address 9, and its first client.\<close>

definition demo_acceptor :: acceptor where
  "demo_acceptor = \<lparr>listenfd = 3, acceptChannel = Channel_init 9 3, acceptor_callback = False\<rparr>"

definition demo_accept :: loop_event where
  "demo_accept = \<lparr>ev_ptr = 9, ev_mask = EPOLLIN, ev_read = ReadvData [], ev_accept = 5\<rparr>"

lemma demo_accept_simps [simp]:
  "ev_ptr demo_accept = 9" "ev_accept demo_accept = 5" "ev_mask demo_accept = EPOLLIN" "chunks demo_accept = [[]]"
  by (simp_all add: demo_accept_def chunks_def)

text \<open>The client of the first connection closes.\<close>

definition demo_bye :: loop_event where
  "demo_bye = \<lparr>ev_ptr = 0, ev_mask = EPOLLIN OR EPOLLHUP, ev_read = ReadvData [], ev_accept = -1\<rparr>"

lemma demo_acceptor_init: "Acceptor_init 9 3 0 0 = Inr demo_acceptor"
  by (simp add: Acceptor_init_def createAndListen_def demo_acceptor_def)

end
