(* ===== verification/EchoLoop.thy ===== *)
theory EchoLoop
  imports ServerLoop NetExamples
begin

text \<open>
  \<^verbatim>\<open>EchoServerSingleCalcThread\<close> of \<^verbatim>\<open>simplifyMuduo/examples/\<close> in its loop: the server is a service of the loop as long as
  no client goes, so that any number of clients get their echo however the turns of the loop go; the first client that goes
  brings it down, because the server's pointer to a connection is the only one.
\<close>

section \<open>One connection\<close>

text \<open>Connection \<open>c\<close> has been given \<open>bytes\<close> to send, nothing is unread, and the server holds the only pointer to it.\<close>

definition echo_conn :: "nat \<Rightarrow> nat \<Rightarrow> byte list \<Rightarrow> 32 word \<Rightarrow> ('x, 'u) world \<Rightarrow> bool" where
  "echo_conn tid c bytes ev w \<longleftrightarrow> (\<exists>k. open_at tid c 1 bytes ev w k
     \<and> buffer_ok (inBuf k) \<and> content (inBuf k) = [] \<and> length (vec (inBuf k)) \<le> 1032 + length bytes)"

lemma echo_conn_stored:
  assumes "echo_conn tid c bytes ev w" "conns w c = Some k"
  shows "echo_conn tid c bytes ev' (put_conn c (k\<lparr>pSocketChannel := setRevents ev' (pSocketChannel k)\<rparr>) w)"
proof -
  from assms obtain k' where k': "open_at tid c 1 bytes ev w k'" "buffer_ok (inBuf k') \<and> content (inBuf k') = [] \<and> length (vec (inBuf k')) \<le> 1032 + length bytes"
    by (auto simp: echo_conn_def)
  have "k' = k" using k'(1) assms(2) by (simp add: open_at_def)
  with k' open_at_stored [OF k'(1), of ev'] show ?thesis
    unfolding echo_conn_def by (intro exI [of _ "k\<lparr>pSocketChannel := setRevents ev' (pSocketChannel k)\<rparr>"]) simp
qed

lemma send_advances:
  assumes k: "conns w c = Some k" "pLoop k = tid" "stream_ok k w" "length (vec (outBuf k)) \<le> 1032 + cap"
    and len: "cap + length m < 2 ^ 31" and a: "write_answers w \<noteq> []" "\<forall>a \<in> set (write_answers w). 0 \<le> a"
  obtains w' k' n fl j where "TcpConnection_send tid c m w = Inr w'" "advance c w k m n fl w' k'"
    "j \<le> 1" "write_answers w' = drop j (write_answers w)"
proof -
  have room: "room (outBuf k) (length m)" "length m < 2 ^ 31" using k(4) len by (simp_all add: room_def)
  have "\<exists>w' k' n fl. sendInLoop c m w = Inr w' \<and> advance c w k m n fl w' k'"
  proof (cases "content (outBuf k) = []")
    case False
    from sendInLoop_blocked [OF k(1,3) room False] show ?thesis by blast
  next
    case True
    from a obtain x xs where "write_answers w = x # xs" "0 \<le> x" by (cases "write_answers w") auto
    from sendInLoop_direct [OF k(1,3) room True this] show ?thesis by blast
  qed
  then obtain w' k' n fl where run: "sendInLoop c m w = Inr w'" and adv: "advance c w k m n fl w' k'" by blast
  from sendInLoop_answers [OF run] obtain j where "j \<le> 1" "write_answers w' = drop j (write_answers w)" by blast
  with adv run k show thesis
    by (intro that [of w' n fl k' j]) (simp_all add: TcpConnection_send_def)
qed

text \<open>A read: the user takes all of the input buffer and sends it back with a newline.\<close>

lemma echo_conn_reads:
  assumes at: "echo_conn tid c bytes ev w" and d: "d \<noteq> []" "length d \<le> 65536"
    and len: "length (bytes @ d @ [10]) < 2 ^ 31" and a: "write_answers w \<noteq> []" "\<forall>a \<in> set (write_answers w). 0 \<le> a"
  obtains w' n where "handleRead EchoServerSingleCalcThread_user tid (ReadvData d) c w = Inr w'"
    "echo_conn tid c (bytes @ d @ [10]) ev w'" "only tid c w w'" "usr w' = usr w" "n \<le> 1" "write_answers w' = drop n (write_answers w)"
proof -
  have echo: "onMessage EchoServerSingleCalcThread_user tid c = (\<lambda>w. take_input c w (\<lambda>msg. TcpConnection_send tid c (msg @ [10])))"
    by (simp add: EchoServerSingleCalcThread_user_def)
  have drained: "drained c tid bytes (1032 + length bytes) (1032 + length bytes) w"
    using at a(2) by (auto simp: echo_conn_def open_at_def drained_def)
  have small: "1032 + length bytes + length d < 2 ^ 62" using len by simp
  show thesis
  proof (rule handleRead_takes [OF drained d small])
    fix k b
    assume k: "conns w c = Some k" "pLoop k = tid"
      and read: "\<And>f (user :: ('a, 'b) muduo_user). onMessage user tid c = (\<lambda>w. take_input c w f) \<Longrightarrow> handleRead user tid (ReadvData d) c w
        = andThen (f d (put_conn c (k\<lparr>inBuf := b, refs := Suc (refs k)\<rparr>) w)) (\<lambda>w'. Inr (release c w'))"
      and keep: "\<And>r. drained c tid bytes (1032 + length bytes) (1032 + length bytes + length d) (put_conn c (k\<lparr>inBuf := b, refs := Suc r\<rparr>) w)"
    let ?k1 = "k\<lparr>inBuf := b, refs := Suc (refs k)\<rparr>" and ?w1 = "put_conn c (k\<lparr>inBuf := b, refs := Suc (refs k)\<rparr>) w"
    have w1: "conns ?w1 c = Some ?k1" "pLoop ?k1 = tid" "write_answers ?w1 = write_answers w" using k by (simp_all add: put_conn_def)
    from keep [of "refs k"] have in_ok: "stream_ok ?k1 ?w1" "wire ?w1 c @ content (outBuf ?k1) = bytes"
        "length (vec (outBuf ?k1)) \<le> 1032 + length bytes" "buffer_ok b" "content b = []"
        "length (vec b) \<le> 1032 + length bytes + length d"
      by (auto simp: drained_def stream_at_def put_conn_def)
    from send_advances [OF w1(1,2) in_ok(1,3), of "d @ [10]"] len a w1(3) obtain w2 k2 n fl j where
      sent: "TcpConnection_send tid c (d @ [10]) ?w1 = Inr w2" and adv: "advance c ?w1 ?k1 (d @ [10]) n fl w2 k2"
        and j: "j \<le> 1" "write_answers w2 = drop j (write_answers w)"
      by (metis length_append)
    from at k(1) have own: "open_at tid c 1 bytes ev w k" by (auto simp: echo_conn_def open_at_def)
    then have refs: "refs k = 1" by (simp add: open_at_def)
    from adv have w2: "conns w2 c = Some k2" "usr w2 = usr w" and k2: "k2 = ?k1\<lparr>outBuf := outBuf k2, pSocketChannel := pSocketChannel k2\<rparr>"
      by (simp_all add: advance_def put_conn_def)
    have sel: "refs k2 = 2" "inBuf k2 = b" by (subst k2, simp add: refs)+
    have rel: "release c w2 = put_conn c (k2\<lparr>refs := 1\<rparr>) w2" using w2 sel by (simp add: release_def)
    from advance_stream_at [OF w1(1) in_ok(2,3) adv]
    have "stream_at c (bytes @ d @ [10]) (1032 + length (bytes @ d @ [10])) w2" by (simp add: add.assoc)
    moreover have "same_stream c w2 (release c w2)" using w2 by (simp add: rel same_stream_def put_conn_def)
    ultimately have at': "stream_at c (bytes @ d @ [10]) (1032 + length (bytes @ d @ [10])) (release c w2)" by (rule other_stream_at)
    have "only tid c w ?w1" "only tid c w2 (release c w2)"
      using k w2 by (auto simp: rel intro!: only_put)
    moreover have "\<exists>n. write_answers w2 = drop n (write_answers ?w1)" using j(2) w1(3) by auto
    ultimately have "only tid c w (release c w2)"
      using advance_only [OF adv w1(2,1)] by (blast intro: only_trans)
    moreover from open_at_step [OF own this _ _ at' len, of "k2\<lparr>refs := 1\<rparr>" 1]
    have "echo_conn tid c (bytes @ d @ [10]) ev (release c w2)"
      using in_ok(4-6) sel by (auto simp: echo_conn_def rel put_conn_def)
    moreover have "handleRead EchoServerSingleCalcThread_user tid (ReadvData d) c w = Inr (release c w2)"
      using read [OF echo] sent by simp
    ultimately show thesis using j w2 by (intro that [of "release c w2" j]) (simp_all add: rel put_conn_def)
  qed
qed

section \<open>The service\<close>

text \<open>An event of a connection that is no end of it: it may be readable, with bytes to read.\<close>

definition calm :: "loop_event \<Rightarrow> bool" where
  "calm e \<longleftrightarrow> (if ev_mask e AND EPOLLIN = 0 then ev_mask e AND EPOLLHUP = 0
      else \<exists>d. ev_read e = ReadvData d \<and> d \<noteq> [] \<and> length d \<le> 65536)"

definition echo_fine :: "loop_event \<Rightarrow> byte list list \<Rightarrow> bool" where
  "echo_fine e hist \<longleftrightarrow> calm e \<and> length (echoed (hist @ chunks e)) < 2 ^ 31"

lemma echoed_append [simp]: "echoed (xs @ ys) = echoed xs @ echoed ys"
  by (simp add: echoed_def)

lemma echo_event:
  assumes at: "echo_conn tid (ev_ptr e) bytes (ev_mask e) w" and e: "calm e" "ev_ptr e \<noteq> acceptor_id srv"
    and len: "length (bytes @ echoed (chunks e)) < 2 ^ 31"
    and a: "2 \<le> length (write_answers w)" "\<forall>a \<in> set (write_answers w). 0 \<le> a"
  obtains w' n where "channel_event EchoServerSingleCalcThread_user tid e (srv, w) = Inr (srv, w')"
    "echo_conn tid (ev_ptr e) (bytes @ echoed (chunks e)) (ev_mask e) w'" "only tid (ev_ptr e) w w'" "usr w' = usr w"
    "n \<le> 2" "write_answers w' = drop n (write_answers w)"
proof -
  let ?c = "ev_ptr e" and ?user = "EchoServerSingleCalcThread_user"
  from at obtain k where k: "conns w ?c = Some k" "has_callback (pSocketChannel k)" "revents (pSocketChannel k) = ev_mask e"
    by (auto simp: echo_conn_def open_at_def)
  have quiet: "ev_mask e AND EPOLLHUP = 0 \<or> ev_mask e AND EPOLLIN \<noteq> 0" using e(1) by (auto simp: calm_def)
  obtain w1 n where w1: "(if ev_mask e AND EPOLLIN = 0 then Inr w else handleRead ?user tid (ev_read e) ?c w) = Inr w1"
      "echo_conn tid ?c (bytes @ echoed (chunks e)) (ev_mask e) w1" "only tid ?c w w1" "usr w1 = usr w"
      "n \<le> 1" "write_answers w1 = drop n (write_answers w)"
  proof (cases "ev_mask e AND EPOLLIN = 0")
    case True
    then show thesis using at only_refl by (intro that [of w 0]) (auto simp: chunks_def)
  next
    case False
    with e obtain d where d: "ev_read e = ReadvData d" "d \<noteq> []" "length d \<le> 65536" by (auto simp: calm_def)
    with False have d': "chunks e = [d]" by (simp add: chunks_def)
    have "length (bytes @ d @ [10]) < 2 ^ 31" "write_answers w \<noteq> []" using len a(1) by (auto simp: d')
    from echo_conn_reads [OF at d(2,3) this a(2)] obtain w' n where
      "handleRead ?user tid (ReadvData d) ?c w = Inr w'" "echo_conn tid ?c (bytes @ d @ [10]) (ev_mask e) w'"
      "only tid ?c w w'" "usr w' = usr w" "n \<le> 1" "write_answers w' = drop n (write_answers w)" by blast
    then show thesis using False d by (intro that [of w' n]) (simp_all add: d')
  qed
  from w1(2) obtain k1 where k1: "open_at tid ?c 1 (bytes @ echoed (chunks e)) (ev_mask e) w1 k1"
    and buf: "buffer_ok (inBuf k1) \<and> content (inBuf k1) = [] \<and> length (vec (inBuf k1)) \<le> 1032 + length (bytes @ echoed (chunks e))"
    unfolding echo_conn_def by blast
  have a1: "write_answers w1 \<noteq> []" using a(1) w1(5,6) by auto
  show thesis
  proof (rule open_at_writable [OF k1 a1])
    fix w2 k2 j
    assume w2: "handleWrite ?c w1 = Inr w2" "open_at tid ?c 1 (bytes @ echoed (chunks e)) (ev_mask e) w2 k2" "only tid ?c w1 w2"
      "usr w2 = usr w1" "inBuf k2 = inBuf k1" "conn_context k2 = conn_context k1" "j \<le> 1" "write_answers w2 = drop j (write_answers w1)"
    then have at2: "echo_conn tid ?c (bytes @ echoed (chunks e)) (ev_mask e) w2" using buf by (auto simp: echo_conn_def)
    define w3 where "w3 = (if ev_mask e AND EPOLLOUT = 0 then w1 else w2)"
    have "(if ev_mask e AND EPOLLOUT = 0 then Inr w1 else handleWrite ?c w1) = Inr w3" using w2(1) by (simp add: w3_def)
    from conn_stays_open [OF k e(2) quiet w1(1,3) this] have "channel_event ?user tid e (srv, w) = Inr (srv, w3)" .
    moreover have "echo_conn tid ?c (bytes @ echoed (chunks e)) (ev_mask e) w3" using w1(2) at2 by (simp add: w3_def)
    moreover have "only tid ?c w w3" using w1(3) only_trans [OF w1(3) w2(3)] by (simp add: w3_def)
    moreover have "usr w3 = usr w" using w1(4) w2(4) by (simp add: w3_def)
    moreover have "write_answers w3 = drop (if ev_mask e AND EPOLLOUT = 0 then n else j + n) (write_answers w)"
      using w1(6) w2(8) by (simp add: w3_def)
    ultimately show thesis
      using w1(5) w2(7) by (intro that [of w3 "if ev_mask e AND EPOLLOUT = 0 then n else j + n"]) auto
  qed
qed

text \<open>Accepting: the new connection is idle and the others are as they were.\<close>

definition accept_state :: "nat \<Rightarrow> int \<Rightarrow> ('x, 'u) world \<Rightarrow> ('x, 'u) world" where
  "accept_state tid fd w = (accepted_world tid (threadPool w) fd w)\<lparr>conns := (conns w)(next_conn w :=
     Some ((new_conn (next_conn w) fd tid)\<lparr>pUser := True, closeCallback := Some ServerRemove, refs := 1\<rparr>))\<rparr>"

lemma newConnection_accepted:
  assumes "srv_user srv" "connections w fd = None" "loops (threadPool w) = []" "baseLoop (threadPool w) = tid"
  shows "TcpServer_newConnection srv EchoServerSingleCalcThread_user tid fd w = Inr (accept_state tid fd w)"
proof -
  have pool: "getNextLoop (threadPool w) = Inr (tid, threadPool w)" using assms by (simp add: getNextLoop_def)
  have user: "onConnection EchoServerSingleCalcThread_user = (\<lambda>tid c w. Inr (w\<lparr>usr := (\<lambda>_ _ u. u) tid c (usr w)\<rparr>))"
    by (simp add: EchoServerSingleCalcThread_user_def fun_eq_iff)
  from newConnection_result [OF pool assms(2,1) user, of tid] show ?thesis by (simp add: accept_state_def accepted_world_def)
qed

lemma accepted_conn:
  assumes "0 \<le> fd" "epolls w tid fd = None"
  shows "echo_conn tid (next_conn w) [] 0 (accept_state tid fd w)" "joined tid fd w (accept_state tid fd w)"
proof -
  have "buffer_ok (Buffer_init kInitialSize)" "content (Buffer_init kInitialSize) = []"
    using Buffer_init_ok [of kInitialSize] by (simp_all add: kInitialSize_def)
  then show "echo_conn tid (next_conn w) [] 0 (accept_state tid fd w)"
    using assms new_buffer_length
    by (simp add: echo_conn_def open_at_def stream_at_def stream_ok_def in_sync_def isWriting_def accept_state_def accepted_world_def
        new_conn_def TcpConnection_init_def epoll_add_def)
  show "joined tid fd w (accept_state tid fd w)"
    using assms by (auto simp: joined_def accept_state_def accepted_world_def epoll_add_def new_conn_def TcpConnection_init_def)
qed


interpretation echo: loop_service "EchoServerSingleCalcThread_user :: ('x, 'u) muduo_user" tid us "\<lambda>c hist. echo_conn tid c (echoed hist)" "\<lambda>c. []"
    "\<lambda>e hist. Some (hist @ chunks e)" echo_fine "\<lambda>e hist. 2" for tid us
proof
  fix c hist ev and w :: "('x, 'u) world"
  assume at: "echo_conn tid c (echoed hist) ev w"
  then obtain k where k: "open_at tid c 1 (echoed hist) ev w k" "buffer_ok (inBuf k) \<and> content (inBuf k) = []
      \<and> length (vec (inBuf k)) \<le> 1032 + length (echoed hist)" by (auto simp: echo_conn_def)
  show "watched tid c ev w" using open_at_watched [OF k(1)] by simp
  show "echo_conn tid c (echoed hist) ev w'" if "same_at tid c w w'" for w'
    using open_at_local [OF k(1) that] k(2) by (auto simp: echo_conn_def)
  show "echo_conn tid c (echoed hist) ev' (put_conn c (k\<lparr>pSocketChannel := setRevents ev' (pSocketChannel k)\<rparr>) w)"
    if "conns w c = Some k" for k ev'
    using echo_conn_stored [OF at that] .
next
  fix srv :: tcp_server and fd and w :: "('x, 'u) world"
  assume a: "usr w = us" "srv_user srv" "loops (threadPool w) = []" "baseLoop (threadPool w) = tid" "connections w fd = None" "0 \<le> fd" "epolls w tid fd = None"
  show "\<exists>w'. TcpServer_newConnection srv EchoServerSingleCalcThread_user tid fd w = Inr w' \<and> joined tid fd w w'
      \<and> echo_conn tid (next_conn w) (echoed []) 0 w'"
    using newConnection_accepted [OF a(2,5,3,4)] accepted_conn [OF a(6,7)] by (intro exI [of _ "accept_state tid fd w"]) simp
next
  fix e hist and srv :: tcp_server and w :: "('x, 'u) world"
  assume at: "echo_conn tid (ev_ptr e) (echoed hist) (ev_mask e) w" and e: "ev_ptr e \<noteq> acceptor_id srv" "echo_fine e hist"
    and a: "2 \<le> length (write_answers w)" "\<forall>x \<in> set (write_answers w). 0 \<le> x"
  have "calm e" "length (echoed hist @ echoed (chunks e)) < 2 ^ 31" using e(2) by (simp_all add: echo_fine_def)
  from echo_event [OF at this(1) e(1) this(2) a] obtain w' n where
    "channel_event EchoServerSingleCalcThread_user tid e (srv, w) = Inr (srv, w')"
    "echo_conn tid (ev_ptr e) (echoed hist @ echoed (chunks e)) (ev_mask e) w'" "only tid (ev_ptr e) w w'" "usr w' = usr w"
    "n \<le> 2" "write_answers w' = drop n (write_answers w)" by blast
  then show "\<exists>w' n. channel_event EchoServerSingleCalcThread_user tid e (srv, w) = Inr (srv, w') \<and> n \<le> 2
      \<and> write_answers w' = drop n (write_answers w) \<and> usr w' = usr w
      \<and> (case Some (hist @ chunks e) of None \<Rightarrow> gone tid (ev_ptr e) w w'
          | Some hist' \<Rightarrow> only tid (ev_ptr e) w w' \<and> echo_conn tid (ev_ptr e) (echoed hist') (ev_mask e) w')"
    by (intro exI [of _ w'] exI [of _ n]) simp
next
  fix c and w :: "('x, 'u) world"
  show "onWriteComplate EchoServerSingleCalcThread_user tid c w = Inr w" by (simp add: EchoServerSingleCalcThread_user_def)
qed

section \<open>What the clients are sent\<close>

text \<open>The chunks the events hand to connection \<open>c\<close>.\<close>

definition heard :: "loop_event list \<Rightarrow> nat \<Rightarrow> byte list list" where
  "heard evs c = concat (map chunks (filter (\<lambda>e. ev_ptr e = c) evs))"

lemma heard_simps [simp]:
  "heard [] c = []" "heard (e # es) c = (if ev_ptr e = c then chunks e @ heard es c else heard es c)"
  "heard (xs @ ys) c = heard xs c @ heard ys c"
  by (simp_all add: heard_def)

abbreviation echo_handle :: "loop_event \<Rightarrow> byte list list \<Rightarrow> byte list list option" where
  "echo_handle \<equiv> \<lambda>e hist. Some (hist @ chunks e)"

lemma echo_rounds_fine:
  assumes "\<forall>e \<in> set evs. ev_ptr e \<noteq> p \<longrightarrow> calm e"
    and "\<forall>c. length (echoed ((case st c of None \<Rightarrow> [] | Some hist \<Rightarrow> hist) @ heard evs c)) < 2 ^ 31"
  shows "fine_events (\<lambda>c. []) echo_handle echo_fine p evs (n, st)"
  using assms
proof (induction evs arbitrary: n st)
  case (Cons e es)
  have len: "length (echoed ((case st c of None \<Rightarrow> [] | Some hist \<Rightarrow> hist) @ heard (e # es) c)) < 2 ^ 31" for c
    using Cons.prems(2) by blast
  have "length (echoed ((case st' c of None \<Rightarrow> [] | Some hist \<Rightarrow> hist) @ heard es c)) < 2 ^ 31"
    if "abs_event (\<lambda>c. []) echo_handle p e (n, st) = (n', st')" for n' st' c
    using that len [of c] by (auto split: option.splits if_splits)
  moreover have "ev_ptr e \<noteq> p \<Longrightarrow> st (ev_ptr e) = Some hist \<Longrightarrow> echo_fine e hist" for hist
    using Cons.prems(1) len [of "ev_ptr e"] by (simp add: echo_fine_def)
  ultimately show ?case
    using Cons.IH Cons.prems(1) by (cases "abs_event (\<lambda>c. []) echo_handle p e (n, st)") (auto simp del: abs_event.simps split: option.splits)
qed simp

lemma echo_rounds_need: "need_events (\<lambda>c. []) echo_handle (\<lambda>e hist. 2) p evs (n, st) \<le> 2 * length evs"
proof (induction evs arbitrary: n st)
  case (Cons e es)
  obtain n' st' where e: "abs_event (\<lambda>c. []) echo_handle p e (n, st) = (n', st')" by fastforce
  from Cons.IH [of n' st'] show ?case by (auto simp: e simp del: abs_event.simps split: option.splits)
qed simp

text \<open>Every connection made is open, and its history is what was heard from its client.\<close>

lemma echo_histories:
  assumes "live_events (\<lambda>c. []) echo_handle p evs (n, st)" "n + accepts p evs \<le> p" "\<forall>c \<ge> n. st c = None" "\<forall>c < n. st c \<noteq> None"
    and "c < n + accepts p evs"
  shows "snd (abs_events (\<lambda>c. []) echo_handle p evs (n, st)) c = Some ((case st c of None \<Rightarrow> [] | Some hist \<Rightarrow> hist) @ heard evs c)"
  using assms
proof (induction evs arbitrary: n st)
  case Nil
  then show ?case by auto
next
  case (Cons e es)
  show ?case
  proof (cases "ev_ptr e = p")
    case True
    with Cons.prems(2,5) have c: "ev_ptr e \<noteq> c" by simp
    show ?thesis
    proof (cases "ev_mask e AND EPOLLIN = 0")
      case off: True
      with True c Cons.prems Cons.IH [of n st] show ?thesis by simp
    next
      case on: False
      let ?st = "st(n := Some [])"
      have "st n = None" using Cons.prems(3) by simp
      then have same: "(case ?st c of None \<Rightarrow> [] | Some hist \<Rightarrow> hist) = (case st c of None \<Rightarrow> [] | Some hist \<Rightarrow> hist)" by simp
      have "live_events (\<lambda>c. []) echo_handle p es (Suc n, ?st)" "Suc n + accepts p es \<le> p" "c < Suc n + accepts p es"
        using True on Cons.prems by simp_all
      moreover have "\<forall>c \<ge> Suc n. ?st c = None" "\<forall>c < Suc n. ?st c \<noteq> None" using Cons.prems(3,4) by (auto simp: less_Suc_eq)
      ultimately have "snd (abs_events (\<lambda>c. []) echo_handle p es (Suc n, ?st)) c
          = Some ((case ?st c of None \<Rightarrow> [] | Some hist \<Rightarrow> hist) @ heard es c)" by (intro Cons.IH)
      then show ?thesis using True on c unfolding same by simp
    qed
  next
    case False
    with Cons.prems(1) obtain hist where e: "ev_ptr e < n" "st (ev_ptr e) = Some hist" by auto
    let ?st = "st(ev_ptr e := Some (hist @ chunks e))"
    have "live_events (\<lambda>c. []) echo_handle p es (n, ?st)" "n + accepts p es \<le> p" "c < n + accepts p es"
      using False e Cons.prems by (simp_all add: False)
    moreover have "\<forall>c \<ge> n. ?st c = None" "\<forall>c < n. ?st c \<noteq> None" using Cons.prems(3,4) e(1) by auto
    ultimately have "snd (abs_events (\<lambda>c. []) echo_handle p es (n, ?st)) c
        = Some ((case ?st c of None \<Rightarrow> [] | Some hist \<Rightarrow> hist) @ heard es c)" by (intro Cons.IH)
    moreover have "(case ?st c of None \<Rightarrow> [] | Some hist \<Rightarrow> hist) @ heard es c
        = (case st c of None \<Rightarrow> [] | Some hist \<Rightarrow> hist) @ heard (e # es) c" using e(2) by auto
    moreover have "abs_event (\<lambda>c. []) echo_handle p e (n, st) = (n, ?st)" using False e(2) by simp
    ultimately show ?thesis by (simp only: abs_events.simps)
  qed
qed

text \<open>The end of a client's input: the server's pointer to the connection is the last one.\<close>

lemma closing_event:
  assumes at: "echo_conn tid (ev_ptr e) bytes (ev_mask e) w" and "ev_ptr e \<noteq> acceptor_id srv"
    and e: "ev_mask e AND EPOLLIN \<noteq> 0" "ev_read e = ReadvData []"
  shows "channel_event EchoServerSingleCalcThread_user tid e (srv, w) = Inl UseAfterFree"
proof -
  let ?c = "ev_ptr e" and ?user = "EchoServerSingleCalcThread_user"
  from at obtain k where k: "conns w ?c = Some k" "refs k = Suc 0" "TcpConnection.owned ?c k w" "pUser k" "has_callback (pSocketChannel k)"
      "0 \<le> ch_fd (pSocketChannel k)" "buffer_ok (inBuf k)" "length (vec (inBuf k)) \<le> 1032 + length bytes" "length bytes < 2 ^ 31" "revents (pSocketChannel k) = ev_mask e"
    by (auto simp: echo_conn_def open_at_def TcpConnection.owned_def)
  have room: "room (inBuf k) 0" using k(8,9) by (simp add: room_def)
  have user: "onClose ?user = (\<lambda>tid c w. Inr (w\<lparr>usr := (\<lambda>c u. u) c (usr w)\<rparr>))"
    by (simp add: EchoServerSingleCalcThread_user_def fun_eq_iff)
  have "setRevents (ev_mask e) (pSocketChannel k) = pSocketChannel k"
    using k(10) by (cases "pSocketChannel k") (simp add: setRevents_def)
  then have "put_conn ?c (k\<lparr>pSocketChannel := setRevents (ev_mask e) (pSocketChannel k)\<rparr>) w = w"
    using k(1) by (cases k; cases w) (auto simp: put_conn_def fun_upd_idem)
  then have "channel_event ?user tid e (srv, w) = andThen (conn_event ?user tid (ev_read e) (ev_mask e) ?c w) (\<lambda>w'. Inr (srv, w'))"
    using k(1) assms(2) by (simp add: channel_event_def conn_event_def Let_def)
  moreover have "conn_event ?user tid (ReadvData []) (ev_mask e) ?c w = Inl UseAfterFree"
    using conn_event_eof [OF k(1-6) e(1) k(7) room user, of tid] by auto
  ultimately show ?thesis using e(2) by simp
qed


section \<open>The server started\<close>

text \<open>\<^verbatim>\<open>main\<close> of \<^verbatim>\<open>EchoServerSingleCalcThread\<close>, as far as the loop has come: nobody calls \<^verbatim>\<open>quit\<close>.\<close>

definition EchoServerSingleCalcThread_main ::
  "acceptor \<Rightarrow> nat \<Rightarrow> (nat \<Rightarrow> nat) \<Rightarrow> loop_event list list \<Rightarrow> ('x, 'u) world \<Rightarrow> (tcp_server \<times> ('x, 'u) world) result" where
  "EchoServerSingleCalcThread_main a tid new_loop rounds w =
     (let (srv, w1) = EchoServerSingleCalcThread_new a tid w
      in loop_rounds EchoServerSingleCalcThread_user tid rounds (EchoServerSingleCalcThread_start new_loop srv w1))"

lemma echo_server_started:
  assumes "nothing_open tid w0" "writes_succeed w0" "Acceptor_init p lfd b l = Inr a"
    and "EchoServerSingleCalcThread_new a tid w0 = (srv0, w1)" "EchoServerSingleCalcThread_start new_loop srv0 w1 = (srv, w)"
  shows "loop_inv tid (usr w1) conn_at srv (\<lambda>c. None) rv w" "acceptor_id srv = p" "next_conn w = 0" "write_answers w = write_answers w0"
    "0 \<le> lfd \<Longrightarrow> epolls w tid = [lfd \<mapsto> (EPOLLIN, p)]"
proof -
  obtain srv1 where init: "TcpServer_init a tid w0 = (srv1, w1)" and srv0: "srv0 = TcpServer_setCallback True srv1"
    using assms(4) by (auto simp: EchoServerSingleCalcThread_new_def split: prod.splits)
  have "TcpServer_start new_loop (TcpServer_setCallback True srv1) (w1\<lparr>usr := usr w1\<rparr>) = (srv, w)"
    using assms(5) by (simp add: srv0 EchoServerSingleCalcThread_start_def)
  note start = server_started [OF assms(1-3) init this]
  show "loop_inv tid (usr w1) conn_at srv (\<lambda>c. None) rv w" "acceptor_id srv = p" "next_conn w = 0" "write_answers w = write_answers w0"
    "0 \<le> lfd \<Longrightarrow> epolls w tid = [lfd \<mapsto> (EPOLLIN, p)]" by (rule start; assumption)+
qed

text \<open>The turns of the loop from the start; \<open>evs\<close> are the events of a further turn, which the server can handle too.\<close>

abbreviation echo_inv :: "nat \<Rightarrow> 'u \<Rightarrow> tcp_server \<Rightarrow> (nat \<Rightarrow> byte list list option) \<Rightarrow> (nat \<Rightarrow> 32 word) \<Rightarrow> ('x, 'u) world \<Rightarrow> bool" where
  "echo_inv tid us \<equiv> loop_inv tid us (\<lambda>c hist. echo_conn tid c (echoed hist))"

lemma echo_rounds:
  assumes "nothing_open tid w0" "writes_succeed w0" "Acceptor_init p lfd b l = Inr a"
    and "EchoServerSingleCalcThread_new a tid w0 = (srv0, w1)" "EchoServerSingleCalcThread_start new_loop srv0 w1 = (srv, w)"
    and "kernel_rounds EchoServerSingleCalcThread_user tid rounds (srv, w)" "\<forall>e \<in> set (concat rounds @ evs). ev_ptr e \<noteq> p \<longrightarrow> calm e"
    and "\<forall>c. length (echoed (heard (concat rounds @ evs) c)) < 2 ^ 31" "2 * length (concat rounds) \<le> length (write_answers w0)"
  shows "\<exists>srv' w' rv' st'. EchoServerSingleCalcThread_main a tid new_loop rounds w0 = Inr (srv', w') \<and> echo_inv tid (usr w1) srv' st' rv' w'
    \<and> acceptor_id srv' = p \<and> next_conn w' = accepts p (concat rounds) \<and> (\<forall>c < next_conn w'. st' c = Some (heard (concat rounds) c))
    \<and> fine_events (\<lambda>c. []) echo_handle echo_fine p evs (next_conn w', st')
    \<and> length (write_answers w0) \<le> length (write_answers w') + 2 * length (concat rounds)"
proof -
  note start = echo_server_started [OF assms(1-5)]
  have "\<forall>c. length (echoed ((case None of None \<Rightarrow> [] | Some hist \<Rightarrow> hist) @ heard (concat rounds @ evs) c)) < 2 ^ 31"
    using assms(8) by simp
  from echo_rounds_fine [OF assms(7), where st = "\<lambda>c. None" and n = 0, OF this]
  have fine: "fine_events (\<lambda>c. []) echo_handle echo_fine p (concat rounds) (0, \<lambda>c. None)"
    "fine_events (\<lambda>c. []) echo_handle echo_fine p evs (abs_events (\<lambda>c. []) echo_handle p (concat rounds) (0, \<lambda>c. None))"
    by (simp_all add: fine_events_append)
  let ?need = "need_events (\<lambda>c. []) echo_handle (\<lambda>e hist. 2) p (concat rounds) (0, \<lambda>c. None)"
  have need: "?need \<le> 2 * length (concat rounds)" by (rule echo_rounds_need)
  from echo.inv_rounds [OF start(1) assms(6)] fine(1) need assms(9) obtain srv' w' rv' n st' where
    run: "loop_rounds EchoServerSingleCalcThread_user tid rounds (srv, w) = Inr (srv', w')" "echo_inv tid (usr w1) srv' st' rv' w'"
      "acceptor_id srv' = p" "(next_conn w', st') = abs_events (\<lambda>c. []) echo_handle p (concat rounds) (0, \<lambda>c. None)"
      "live_events (\<lambda>c. []) echo_handle p (concat rounds) (0, \<lambda>c. None)" "n \<le> ?need" "write_answers w' = drop n (write_answers w)"
    by (auto simp: start(2-4))
  have next_eq: "next_conn w' = accepts p (concat rounds)"
    using abs_events_accepts [of "\<lambda>c. []" echo_handle p "concat rounds" 0 "\<lambda>c. None"] run(4) by (metis add_0 fst_conv)
  have "0 + accepts p (concat rounds) \<le> p" using loop_invD(4) [OF run(2)] next_eq run(3) by simp
  from echo_histories [OF run(5) this] run(4) have "st' c = Some (heard (concat rounds) c)" if "c < next_conn w'" for c
    using that next_eq by (metis add_0 append_Nil not_less_zero option.simps(4) snd_conv)
  moreover have "EchoServerSingleCalcThread_main a tid new_loop rounds w0 = Inr (srv', w')"
    using run(1) assms(4,5) by (simp add: EchoServerSingleCalcThread_main_def)
  moreover have "length (write_answers w0) \<le> length (write_answers w') + 2 * length (concat rounds)"
    using run(6,7) need start(4) by simp
  ultimately show ?thesis using run(2,3) fine(2) next_eq unfolding run(4) [symmetric]
    by (intro exI [of _ srv'] exI [of _ w'] exI [of _ rv'] exI [of _ st']) simp
qed

section \<open>Properties\<close>

text \<open>C4:
  The echo server with one thread serves any number of clients as long as no \<^verbatim>\<open>write\<close> fails and no client leaves: from its start,
  through any number of turns of the loop in which clients connect, send and read what they are sent, however these events come together
  and however few bytes (none at all included) the kernel takes at a time, the loop does not fault, there is one connection for
  each accepted client, kept and watched, with \<^verbatim>\<open>EPOLLOUT\<close> exactly while bytes are left, and what was written to it, followed by
  what is left over, is each chunk it was heard to send, in order, with a newline. A \<^verbatim>\<open>write\<close> that fails, \<^verbatim>\<open>EAGAIN\<close> included, makes the
  program throw (theorem \<open>write_error_throws\<close>), so \<open>writes_succeed\<close> is a hypothesis.
\<close>

theorem echo_server_serves:
  assumes "nothing_open tid w0" "writes_succeed w0" "Acceptor_init p lfd b l = Inr a"
    and "EchoServerSingleCalcThread_new a tid w0 = (srv0, w1)" "EchoServerSingleCalcThread_start new_loop srv0 w1 = (srv, w)"
    and "kernel_rounds EchoServerSingleCalcThread_user tid rounds (srv, w)" "\<forall>e \<in> set (concat rounds). ev_ptr e \<noteq> p \<longrightarrow> calm e"
    and "\<forall>c. length (echoed (heard (concat rounds) c)) < 2 ^ 31" "2 * length (concat rounds) \<le> length (write_answers w0)"
  shows "\<exists>srv' w'. EchoServerSingleCalcThread_main a tid new_loop rounds w0 = Inr (srv', w')
    \<and> next_conn w' = accepts p (concat rounds)
    \<and> (\<forall>c < next_conn w'. wire w' c @ unsent_bytes c w' = echoed (heard (concat rounds) c)
        \<and> (\<exists>k. conns w' c = Some k \<and> connections w' (sockfd k) = Some c
            \<and> epolls w' tid (sockfd k) = Some (events (pSocketChannel k), c)
            \<and> (isWriting (pSocketChannel k) \<longleftrightarrow> unsent_bytes c w' \<noteq> [])))"
proof -
  from echo_rounds [OF assms(1-6), of "[]"] assms(7-9) obtain srv' w' rv' st' where
    run: "EchoServerSingleCalcThread_main a tid new_loop rounds w0 = Inr (srv', w')" "echo_inv tid (usr w1) srv' st' rv' w'"
      "next_conn w' = accepts p (concat rounds)" "\<forall>c < next_conn w'. st' c = Some (heard (concat rounds) c)" by auto
  have "wire w' c @ unsent_bytes c w' = echoed (heard (concat rounds) c) \<and> (\<exists>k. conns w' c = Some k \<and> connections w' (sockfd k) = Some c
      \<and> epolls w' tid (sockfd k) = Some (events (pSocketChannel k), c) \<and> (isWriting (pSocketChannel k) \<longleftrightarrow> unsent_bytes c w' \<noteq> []))"
    if "c < next_conn w'" for c
  proof -
    have "st' c = Some (heard (concat rounds) c)" using run(4) that by blast
    from loop_invD(7) [OF run(2) this] show ?thesis
      by (auto simp: echo_conn_def open_at_def stream_at_def stream_ok_def in_sync_def unsent_bytes_def)
  qed
  with run(1,3) show ?thesis by blast
qed

text \<open>A client that says two bytes.\<close>

definition demo_hello :: loop_event where
  "demo_hello = \<lparr>ev_ptr = 0, ev_mask = EPOLLIN OR EPOLLOUT, ev_read = ReadvData [104, 105], ev_accept = -1\<rparr>"

lemma demo_hello_events [simp]:
  "ev_ptr demo_hello = 0" "ev_read demo_hello = ReadvData [104, 105]" "ev_mask demo_hello = EPOLLIN OR EPOLLOUT" "calm demo_hello"
  by (simp_all add: demo_hello_def calm_def)

lemma demo_heard:
  "heard [demo_accept, demo_hello] c = (if c = 9 then [[]] else if c = 0 then [[104, 105]] else [])"
proof -
  have "chunks demo_accept = [[]]" by (simp add: chunks_def demo_accept_def)
  moreover have "chunks demo_hello = [[104, 105]]" by (simp add: chunks_def demo_hello_def)
  ultimately show ?thesis by (simp add: demo_hello_events)
qed

lemma demo_started:
  obtains srv0 w1 srv w where "nothing_open 0 (quiet_world [1, 1, 1, 1, 1, 1])" "writes_succeed (quiet_world [1, 1, 1, 1, 1, 1])"
    "Acceptor_init 9 3 0 0 = Inr demo_acceptor"
    "EchoServerSingleCalcThread_new demo_acceptor 0
       (quiet_world [1, 1, 1, 1, 1, 1]) = (srv0, w1)"
    "EchoServerSingleCalcThread_start Suc srv0 w1 = (srv, w)"
    "kernel_rounds EchoServerSingleCalcThread_user 0 [[demo_accept], [demo_hello]] (srv, w)"
proof -
  let ?a = demo_acceptor and ?w0 = "quiet_world [1, 1, 1, 1, 1, 1]" and ?user = "EchoServerSingleCalcThread_user :: (unit, nat) muduo_user"
  obtain srv0 w1 where new: "EchoServerSingleCalcThread_new ?a 0 ?w0 = (srv0, w1)" by fastforce
  obtain srv w where start: "EchoServerSingleCalcThread_start Suc srv0 w1 = (srv, w)" by fastforce
  have init: "nothing_open 0 ?w0" "writes_succeed ?w0" "Acceptor_init 9 3 0 0 = Inr ?a"
    by (simp_all add: nothing_open_def writes_succeed_def quiet_world_def Acceptor_init_def createAndListen_def demo_acceptor_def)
  note S = echo_server_started [OF init new start]
  have first: "kernel_answers 0 [demo_accept] w" "may_accept 0 srv w demo_accept"
    using S(2,3,5) by (auto simp: kernel_answers_def may_accept_def MAX_EVENTS_def demo_hello_events)
  have "\<forall>c. length (echoed (heard (concat [[]] @ [demo_accept]) c)) < 2 ^ 31"
    by (simp add: chunks_def demo_accept_def)
  from echo_rounds [OF init new start, of "[]" "[demo_accept]"] this
  have "fine_events (\<lambda>c. []) echo_handle echo_fine 9 [demo_accept] (0, \<lambda>c. None)" by (simp add: demo_hello_events)
  moreover have "need_events (\<lambda>c. []) echo_handle (\<lambda>e hist. 2) 9 [demo_accept] (0, \<lambda>c. None) = 0" by (simp add: demo_hello_events)
  ultimately obtain srv1 w2 rv st where
    r: "loop_round ?user 0 [demo_accept] (srv, w) = Inr (srv1, w2)" "echo_inv 0 (usr w1) srv1 st rv w2" "acceptor_id srv1 = 9"
      "(next_conn w2, st) = abs_events (\<lambda>c. []) echo_handle 9 [demo_accept] (0, \<lambda>c. None)"
    using echo.inv_round [OF S(1) first(1)] first(2) S(2,3) by auto
  then have "st 0 = Some []" by (simp add: demo_hello_events)
  from loop_invD(7) [OF r(2) this] have "\<exists>k. conns w2 0 = Some k \<and> epolls w2 0 (ch_fd (pSocketChannel k)) = Some (events (pSocketChannel k), 0)"
    by (auto simp: echo_conn_def open_at_def stream_at_def stream_ok_def in_sync_def)
  then have "kernel_answers 0 [demo_hello] w2" by (auto simp: kernel_answers_def MAX_EVENTS_def demo_hello_events)
  moreover have "may_accept 0 srv1 w2 demo_hello" using r(3) by (simp add: may_accept_def demo_hello_events)
  ultimately have "kernel_rounds ?user 0 [[demo_accept], [demo_hello]] (srv, w)"
    using first r(1) by (simp split: sum.splits)
  then show thesis using init new start by (intro that)
qed

lemma echo_server_serves_witness:
  "\<exists>srv w. EchoServerSingleCalcThread_main demo_acceptor 0 Suc [[demo_accept], [demo_hello]] (quiet_world [1, 1, 1, 1, 1, 1]) = Inr (srv, w)
     \<and> next_conn w = 1 \<and> wire w 0 @ unsent_bytes 0 w = [104, 105, 10]"
proof (rule demo_started)
  fix srv0 w1 srv w
  let ?rounds = "[[demo_accept], [demo_hello]]"
  assume start: "nothing_open 0 (quiet_world [1, 1, 1, 1, 1, 1])" "writes_succeed (quiet_world [1, 1, 1, 1, 1, 1])"
      "Acceptor_init 9 3 0 0 = Inr demo_acceptor"
      "EchoServerSingleCalcThread_new demo_acceptor 0
         (quiet_world [1, 1, 1, 1, 1, 1]) = (srv0, w1)"
      "EchoServerSingleCalcThread_start Suc srv0 w1 = (srv, w)"
      "kernel_rounds EchoServerSingleCalcThread_user 0 ?rounds (srv, w)"
  have small: "\<forall>e \<in> set (concat ?rounds). ev_ptr e \<noteq> 9 \<longrightarrow> calm e" "\<forall>c. length (echoed (heard (concat ?rounds) c)) < 2 ^ 31"
      "2 * length (concat ?rounds) \<le> length (write_answers (quiet_world [1, 1, 1, 1, 1, 1]))"
    using demo_heard by (simp_all add: quiet_world_def demo_hello_events del: heard_simps)
  have "accepts 9 (concat ?rounds) = 1" by (simp add: demo_hello_events)
  with echo_server_serves [OF start small] obtain srv' w' where
    "EchoServerSingleCalcThread_main demo_acceptor 0 Suc ?rounds (quiet_world [1, 1, 1, 1, 1, 1]) = Inr (srv', w')" "next_conn w' = 1"
    "wire w' 0 @ unsent_bytes 0 w' = echoed (heard [demo_accept, demo_hello] 0)" by auto
  moreover have "echoed (heard [demo_accept, demo_hello] 0) = [104, 105, 10]"
    using demo_heard [of 0] by (simp del: heard_simps)
  ultimately show ?thesis by metis
qed

text \<open>C25:
  The first client that closes brings the loop down: the server holds the last pointer to the connection, so that
  the connection and its channel are destroyed by the callback of the channel, whose \<^verbatim>\<open>handleEvent\<close> then reads freed
  memory; whatever the turns before, in which no \<^verbatim>\<open>write\<close> has failed, and whatever else the kernel reports in the same turn.
\<close>

theorem first_close_faults:
  assumes "nothing_open tid w0" "writes_succeed w0" "Acceptor_init p lfd b l = Inr a"
    and "EchoServerSingleCalcThread_new a tid w0 = (srv0, w1)" "EchoServerSingleCalcThread_start new_loop srv0 w1 = (srv, w)"
    and "kernel_rounds EchoServerSingleCalcThread_user tid rounds (srv, w)"
    and "EchoServerSingleCalcThread_main a tid new_loop rounds w0 = Inr (srv', w')"
    and "kernel_answers tid (evs @ e # es) w'" "\<forall>e \<in> set evs. may_accept tid srv' w' e"
    and "\<forall>e \<in> set (concat rounds @ evs). ev_ptr e \<noteq> p \<longrightarrow> calm e"
    and "ev_ptr e \<noteq> p" "ev_mask e AND EPOLLIN \<noteq> 0" "ev_read e = ReadvData []"
    and "\<forall>c. length (echoed (heard (concat rounds @ evs) c)) < 2 ^ 31" "2 * length (concat rounds @ evs) \<le> length (write_answers w0)"
  shows "EchoServerSingleCalcThread_main a tid new_loop (rounds @ [evs @ e # es]) w0 = Inl UseAfterFree"
proof -
  let ?user = EchoServerSingleCalcThread_user and ?all = "evs @ e # es"
  have "2 * length (concat rounds) \<le> length (write_answers w0)" using assms(15) by simp
  from echo_rounds [OF assms(1-6,10,14) this] assms(7) obtain rv st where
    w': "echo_inv tid (usr w1) srv' st rv w'" "acceptor_id srv' = p" "fine_events (\<lambda>c. []) echo_handle echo_fine p evs (next_conn w', st)"
      "length (write_answers w0) \<le> length (write_answers w') + 2 * length (concat rounds)" by auto
  have distinct: "distinct (map ev_ptr ?all)" using assms(8) by (simp add: kernel_answers_def)
  note ours = kernel_ours [OF w'(1) assms(8)]
  from echo.inv_store_all [OF w'(1) distinct ours] obtain srv2 w2 rv2 where
    w2: "store_all ?all (srv', w') = Inr (srv2, w2)" "echo_inv tid (usr w1) srv2 st rv2 w2" "acceptor_id srv2 = acceptor_id srv'"
      "next_conn w2 = next_conn w'" "write_answers w2 = write_answers w'" "epolls w2 = epolls w'" "\<forall>e \<in> set ?all. armed srv2 rv2 e"
    by (elim exE conjE)
  have "\<forall>e \<in> set evs. may_accept tid srv2 w2 e \<and> armed srv2 rv2 e \<and> ours srv2 st e" "distinct (map ev_ptr evs)"
    using assms(9) ours w2(7) distinct by (simp_all add: may_accept_def ours_def w2(3,4,6))
  moreover have "need_events (\<lambda>c. []) echo_handle (\<lambda>e hist. 2) p evs (next_conn w', st) \<le> length (write_answers w')"
    using echo_rounds_need [of p evs "next_conn w'" st] w'(4) assms(15) by simp
  ultimately obtain w3 rv3 n st3 where
    w3: "channel_events ?user tid evs (srv2, w2) = Inr (srv2, w3)" "echo_inv tid (usr w1) srv2 st3 rv3 w3"
      "\<forall>d < next_conn w2. d \<notin> ev_ptr ` set evs \<longrightarrow> rv3 d = rv2 d \<and> st3 d = st d"
    using echo.inv_events [OF w2(2)] w'(2,3) w2(3-5) by fastforce
  from ours assms(11) w'(2) obtain hist where st: "st (ev_ptr e) = Some hist" by (auto simp: ours_def)
  have "ev_ptr e < next_conn w2" using loop_invD(6) [OF w2(2) st] .
  moreover have "ev_ptr e \<notin> ev_ptr ` set evs" using distinct by auto
  ultimately have "st3 (ev_ptr e) = Some hist" "rv3 (ev_ptr e) = ev_mask e"
    using w3(3) st w2(3,7) w'(2) assms(11) by (auto simp: armed_def)
  with loop_invD(7) [OF w3(2), of "ev_ptr e"] have at: "echo_conn tid (ev_ptr e) (echoed hist) (ev_mask e) w3" by simp
  have "channel_event ?user tid e (srv2, w3) = Inl UseAfterFree"
    by (rule closing_event [OF at _ assms(12,13)]) (simp add: w2(3) w'(2) assms(11))
  then have "loop_round ?user tid ?all (srv', w') = Inl UseAfterFree"
    using w2(1) w3(1) by (simp add: loop_round_def channel_events_append)
  then show ?thesis
    using assms(4,5,7) by (simp add: EchoServerSingleCalcThread_main_def loop_rounds_append)
qed

lemma first_close_faults_witness:
  "EchoServerSingleCalcThread_main demo_acceptor 0 Suc [[demo_accept], [demo_hello], [demo_bye]] (quiet_world [1, 1, 1, 1, 1, 1])
     = Inl UseAfterFree"
proof (rule demo_started)
  fix srv0 w1 srv w
  let ?rounds = "[[demo_accept], [demo_hello]]"
  assume start: "nothing_open 0 (quiet_world [1, 1, 1, 1, 1, 1])" "writes_succeed (quiet_world [1, 1, 1, 1, 1, 1])"
      "Acceptor_init 9 3 0 0 = Inr demo_acceptor"
      "EchoServerSingleCalcThread_new demo_acceptor 0
         (quiet_world [1, 1, 1, 1, 1, 1]) = (srv0, w1)"
      "EchoServerSingleCalcThread_start Suc srv0 w1 = (srv, w)"
      "kernel_rounds EchoServerSingleCalcThread_user 0 ?rounds (srv, w)"
  have small: "\<forall>e \<in> set (concat ?rounds @ []). ev_ptr e \<noteq> 9 \<longrightarrow> calm e" "\<forall>c. length (echoed (heard (concat ?rounds @ []) c)) < 2 ^ 31"
      "2 * length (concat ?rounds) \<le> length (write_answers (quiet_world [1, 1, 1, 1, 1, 1]))"
    using demo_heard by (simp_all add: quiet_world_def demo_hello_events del: heard_simps)
  have "accepts 9 (concat ?rounds) = 1" by (simp add: demo_hello_events)
  with echo_rounds [OF start small] obtain srv' w' rv st where
    r: "EchoServerSingleCalcThread_main demo_acceptor 0 Suc ?rounds (quiet_world [1, 1, 1, 1, 1, 1]) = Inr (srv', w')"
      "echo_inv 0 (usr w1) srv' st rv w'" "next_conn w' = 1" "\<forall>c < next_conn w'. st c = Some (heard (concat ?rounds) c)" by auto
  then have "st 0 = Some (heard (concat ?rounds) 0)" by simp
  from loop_invD(7) [OF r(2) this] have "\<exists>k. conns w' 0 = Some k \<and> epolls w' 0 (ch_fd (pSocketChannel k)) = Some (events (pSocketChannel k), 0)"
    by (auto simp: echo_conn_def open_at_def stream_at_def stream_ok_def in_sync_def)
  then have kernel: "kernel_answers 0 ([] @ demo_bye # []) w'" by (auto simp: kernel_answers_def MAX_EVENTS_def demo_bye_def)
  have bye: "ev_ptr demo_bye \<noteq> 9" "ev_mask demo_bye AND EPOLLIN \<noteq> 0" "ev_read demo_bye = ReadvData []"
    by (simp_all add: demo_bye_def)
  have "2 * length (concat ?rounds @ []) \<le> length (write_answers (quiet_world [1, 1, 1, 1, 1, 1]))" by (simp add: quiet_world_def)
  from first_close_faults [OF start r(1) kernel _ small(1) bye small(2) this] show ?thesis by simp
qed

end
