(* ===== verification/RpcLoop.thy ===== *)
theory RpcLoop
  imports ServerLoop RpcPrograms
begin

text \<open>
  \<^verbatim>\<open>RpcServer\<close> in its loop: the server as a service of \<open>ServerLoop\<close>. The state of a connection is its channel and what is
  left in its input buffer; an event that ends a connection closes it without a fault, because its own channel
  still refers to it. The turns of the loop do to every open connection what the model of the server in \<open>RpcServer\<close> does.
\<close>

section \<open>One connection\<close>

text \<open>Connection \<open>c\<close> keeps its channel as its context, and has been given to send what the channel has sent.\<close>

fun rpc_conn ::
  "nat \<Rightarrow> (byte list \<Rightarrow> 'sv option option) \<Rightarrow> nat \<Rightarrow> ('v, 'z) rpc_channel_scheme \<times> buffer \<Rightarrow> 32 word
    \<Rightarrow> ('v, 'z, 'sv) server_world \<Rightarrow> bool" where
  "rpc_conn tid sv c (ch, b) ev w \<longleftrightarrow> usr w = sv
     \<and> (\<exists>k. open_at tid c 2 (concat (sent ch)) ev w k \<and> getContext k = Some ch \<and> inBuf k = b)"

text \<open>The channel of a new connection; \<open>junk c\<close> and \<open>own c\<close> are as in \<^verbatim>\<open>RpcServer_onConnection\<close>.\<close>

definition rpc_start :: "(nat \<Rightarrow> 64 word) \<Rightarrow> (nat \<Rightarrow> 'z) \<Rightarrow> nat \<Rightarrow> ('v, 'z) rpc_channel_scheme \<times> buffer" where
  "rpc_start junk own c = (setServices (rpc_channel.extend (RpcChannel_conn (junk c)) (own c)), Buffer_init kInitialSize)"

text \<open>What an event makes of a connection: it is closed, left alone, or its channel is fed what was read.\<close>

definition rpc_handle ::
  "'a RpcMetaMessage codec_env \<Rightarrow> ('a, 'p) pb \<Rightarrow> ('v, 'sv, 'md, ('v, 'z) rpc_channel_scheme) rpc_lib
    \<Rightarrow> (byte list \<Rightarrow> 'sv option option) \<Rightarrow> loop_event \<Rightarrow> ('v, 'z) rpc_channel_scheme \<times> buffer
    \<Rightarrow> (('v, 'z) rpc_channel_scheme \<times> buffer) option" where
  "rpc_handle cenv rt lib sv e s =
     (if closing e then None
      else case chunks e of
        [] \<Rightarrow> Some s
      | d # ds \<Rightarrow> (case andThen (readFd (snd s) (ReadvData d)) (\<lambda>r. channel_onMessage cenv rt lib sv (fst s) (rf_buffer r)) of
          Inl f \<Rightarrow> None | Inr s' \<Rightarrow> Some s'))"

definition rpc_fine ::
  "'a RpcMetaMessage codec_env \<Rightarrow> ('a, 'p) pb \<Rightarrow> ('v, 'sv, 'md, ('v, 'z) rpc_channel_scheme) rpc_lib
    \<Rightarrow> (byte list \<Rightarrow> 'sv option option) \<Rightarrow> loop_event \<Rightarrow> ('v, 'z) rpc_channel_scheme \<times> buffer \<Rightarrow> bool" where
  "rpc_fine cenv rt lib sv e s =
     (case rpc_handle cenv rt lib sv e s of
        None \<Rightarrow> closing e \<and> buffer_ok (snd s) \<and> room (snd s) 0
      | Some s' \<Rightarrow> length (concat (sent (fst s'))) < 2 ^ 31)"

text \<open>Every frame and the \<^verbatim>\<open>EPOLLOUT\<close> need one answer of \<^verbatim>\<open>write\<close> at most.\<close>

definition rpc_need ::
  "'a RpcMetaMessage codec_env \<Rightarrow> ('a, 'p) pb \<Rightarrow> ('v, 'sv, 'md, ('v, 'z) rpc_channel_scheme) rpc_lib
    \<Rightarrow> (byte list \<Rightarrow> 'sv option option) \<Rightarrow> loop_event \<Rightarrow> ('v, 'z) rpc_channel_scheme \<times> buffer \<Rightarrow> nat" where
  "rpc_need cenv rt lib sv e s =
     (case rpc_handle cenv rt lib sv e s of
        None \<Rightarrow> 0 | Some s' \<Rightarrow> Suc (length (sent (fst s')) - length (sent (fst s))))"

lemma channel_appends:
  assumes "appending lib" "channel_onMessage cenv rt lib sv ch b = Inr (ch', b')"
  shows "prefix (sent ch) (sent ch')"
proof -
  have "callback_refinement (onRpcMessage cenv rt lib sv) (onRpcMessage cenv rt lib sv) (=) (\<lambda>s. prefix (sent s) (sent ch'))"
    by unfold_locales (auto dest: appending.onRpcMessage_appends [OF assms(1)] intro: prefix_order.trans)
  moreover have "Codec.onMessage cenv (ProtobufCodecLite rpc_tag (onRpcMessage cenv rt lib sv)) ch b = Inr (ch', b')"
    using assms(2) by (simp add: channel_onMessage_def channel_codec_def)
  ultimately show ?thesis by (rule callback_refinement.onMessage_back) simp
qed

lemma channel_grows:
  assumes "buffer_ok b" "channel_onMessage cenv rt lib sv ch b = Inr (ch', b')"
  shows "grows b 0 b'"
proof -
  let ?cd = "channel_codec cenv rt lib sv"
  obtain ms rest e where d: "decode_spec cenv (tag ?cd) (content b) = (ms, rest, e)" by (cases "decode_spec cenv (tag ?cd) (content b)") auto
  have "tag_ok (tag ?cd)" by (simp add: channel_codec_def ProtobufCodecLite_def)
  from onMessage_refines [OF assms(1) this d] assms(2) show ?thesis
    by (auto simp: channel_onMessage_def andThen_eq_Inr channel_codec_def ProtobufCodecLite_def defaultErrorCallback_def split: option.splits)
qed

lemma rpc_reads:
  fixes w :: "('v, 'z, 'sv) server_world" and ch :: "('v, 'z) rpc_channel_scheme"
  assumes lib: "appending lib" and at: "rpc_conn tid sv c (ch, b) ev w"
    and d: "d \<noteq> []" "readFd b (ReadvData d) = Inr r" "channel_onMessage cenv rt lib sv ch (rf_buffer r) = Inr (ch', b')"
    and len: "length (concat (sent ch')) < 2 ^ 31" and n: "length (sent ch') \<le> length (sent ch) + length (write_answers w)"
    and a: "\<forall>a \<in> set (write_answers w). 0 \<le> a"
  shows "\<exists>w' n. handleRead (RpcServer_user cenv rt lib junk own) tid (ReadvData d) c w = Inr w' \<and> rpc_conn tid sv c (ch', b') ev w'
    \<and> only tid c w w' \<and> n \<le> length (sent ch') - length (sent ch) \<and> write_answers w' = drop n (write_answers w)"
proof -
  let ?user = "RpcServer_user cenv rt lib junk own" and ?B = "concat (sent ch)" and ?N = "length (write_answers w)"
  from at obtain k where k: "open_at tid c 2 ?B ev w k" "getContext k = Some ch" "inBuf k = b" and sv: "usr w = sv" by auto
  then have k': "conns w c = Some k" "pLoop k = tid" "pUser k" "0 \<le> ch_fd (pSocketChannel k)" "refs k = 2"
    "stream_at c ?B (1032 + length ?B) w" "length ?B < 2 ^ 31" by (simp_all add: open_at_def)
  from channel_appends [OF lib d(3)] obtain new where new: "sent ch' = sent ch @ new" by (auto simp: prefix_def)
  have wires: "wiring c (server_home c) lib cenv rt ?user tid (1032 + length ?B) new ?N"
    using server.rpc_home_axioms lib len n k'(7) by (simp add: wiring_def wiring_axioms_def new)
  have here: "wired (server_home c) tid c sv ?B (1032 + length ?B) (sent ch) ?N k ch w"
    using k k' a sv by (simp add: wired_def)
  from wiring.read_refines [OF wires here k'(3,4) _ d(1) _ d(3)] k'(5) d(2) k(3) new obtain w' where
    w': "handleRead ?user tid (ReadvData d) c w = Inr w'" "only tid c w w'"
      "wired (server_home c) tid c sv ?B (1032 + length ?B) (sent ch) ?N (k\<lparr>inBuf := b'\<rparr>) ch' w'" by auto
  from w'(3) obtain k2 fs where k2: "conns w' c = Some k2" "kept (k\<lparr>inBuf := b'\<rparr>) k2" and home: "get_channel (server_home c) w' = Some ch'"
      "home_services (server_home c) w' = sv"
    and fs: "sent ch' = sent ch @ fs" "stream_at c (?B @ concat fs) (1032 + length ?B + length (concat fs)) w'"
      "?N \<le> length (write_answers w') + length fs"
    unfolding wired_def by (elim conjE exE)
  have ctx: "getContext k2 = Some ch'" "usr w' = sv" using home k2(1) by simp_all
  have fs_new: "fs = new" using fs(1) new by simp
  have s2: "stream_at c (concat (sent ch')) (1032 + length (concat (sent ch'))) w'" "?N \<le> length (write_answers w') + length new"
    using fs(2,3) by (simp_all add: fs_new new add.assoc)
  have keep: "refs k2 = 2" "inBuf k2 = b'" using k2(2) k'(5) by (simp_all add: kept_def)
  have "rpc_conn tid sv c (ch', b') ev w'"
    using open_at_step [OF k(1) w'(2) k2(1) keep(1) s2(1) len] ctx keep(2) by auto
  moreover obtain j where j: "write_answers w' = drop j (write_answers w)" using w'(2) unfolding only_def by blast
  have "write_answers w' = drop (?N - length (write_answers w')) (write_answers w)"
    unfolding j by (cases "j \<le> ?N") simp_all
  moreover have "?N - length (write_answers w') \<le> length (sent ch') - length (sent ch)" using s2(2) by (simp add: new)
  ultimately show ?thesis using w'(1,2) by blast
qed

text \<open>What the loop sees of an event of a connection.\<close>

lemma rpc_event:
  fixes w :: "('v, 'z, 'sv) server_world" and ch :: "('v, 'z) rpc_channel_scheme"
  assumes lib: "appending lib" and at: "rpc_conn tid sv (ev_ptr e) (ch, b) (ev_mask e) w" and p: "ev_ptr e \<noteq> acceptor_id srv"
    and h: "rpc_handle cenv rt lib sv e (ch, b) = Some (ch', b')" "length (concat (sent ch')) < 2 ^ 31"
    and need: "Suc (length (sent ch') - length (sent ch)) \<le> length (write_answers w)" and a: "\<forall>a \<in> set (write_answers w). 0 \<le> a"
  shows "\<exists>w' n. channel_event (RpcServer_user cenv rt lib junk own) tid e (srv, w) = Inr (srv, w')
    \<and> n \<le> Suc (length (sent ch') - length (sent ch)) \<and> write_answers w' = drop n (write_answers w)
    \<and> only tid (ev_ptr e) w w' \<and> rpc_conn tid sv (ev_ptr e) (ch', b') (ev_mask e) w'"
proof -
  let ?c = "ev_ptr e" and ?user = "RpcServer_user cenv rt lib junk own" and ?m = "length (sent ch') - length (sent ch)"
  have open_e: "\<not> closing e" using h(1) by (auto simp: rpc_handle_def)
  from at obtain k where k: "open_at tid ?c 2 (concat (sent ch)) (ev_mask e) w k" "inBuf k = b" by auto
  then have ch: "conns w ?c = Some k" "has_callback (pSocketChannel k)" "revents (pSocketChannel k) = ev_mask e" "0 \<le> ch_fd (pSocketChannel k)"
    by (simp_all add: open_at_def)
  have quiet: "ev_mask e AND EPOLLHUP = 0 \<or> ev_mask e AND EPOLLIN \<noteq> 0" using open_e by (auto simp: closing_def)
  have same: "ch' = ch \<and> b' = b" if "chunks e = []" using h(1) open_e that by (simp add: rpc_handle_def)
  have "\<exists>w1 n. (if ev_mask e AND EPOLLIN = 0 then Inr w else handleRead ?user tid (ev_read e) ?c w) = Inr w1
      \<and> rpc_conn tid sv ?c (ch', b') (ev_mask e) w1 \<and> only tid ?c w w1 \<and> n \<le> ?m \<and> write_answers w1 = drop n (write_answers w)"
  proof (cases "chunks e")
    case Nil
    have "(if ev_mask e AND EPOLLIN = 0 then Inr w else handleRead ?user tid (ev_read e) ?c w) = Inr w"
    proof (cases "ev_mask e AND EPOLLIN = 0")
      case False
      then obtain err where err: "ev_read e = ReadvError err" "err \<noteq> ECONNRESET"
        using Nil open_e by (cases "ev_read e") (auto simp: chunks_def closing_def)
      have "put_conn ?c (k\<lparr>inBuf := inBuf k\<rparr>) w = w" using ch(1) by (cases w) (auto simp: put_conn_def fun_upd_idem)
      then show ?thesis using False err ch(1,4) by (simp add: handleRead_def readFd_def Let_def)
    qed simp
    with at same [OF Nil] show ?thesis using only_refl by (intro exI [of _ w] exI [of _ 0]) simp
  next
    case (Cons d ds)
    then have d: "ev_mask e AND EPOLLIN \<noteq> 0" "ev_read e = ReadvData d" by (auto simp: chunks_def split: if_splits readv_outcome.splits)
    then have "d \<noteq> []" using open_e by (auto simp: closing_def)
    from h(1) Cons open_e obtain r where r: "readFd b (ReadvData d) = Inr r" "channel_onMessage cenv rt lib sv ch (rf_buffer r) = Inr (ch', b')"
      by (auto simp: rpc_handle_def andThen_eq_Inr split: sum.splits)
    have "length (sent ch') \<le> length (sent ch) + length (write_answers w)" using need by simp
    from rpc_reads [OF lib at \<open>d \<noteq> []\<close> r h(2) this a, of junk own] d show ?thesis by simp
  qed
  then obtain w1 n where w1: "(if ev_mask e AND EPOLLIN = 0 then Inr w else handleRead ?user tid (ev_read e) ?c w) = Inr w1"
      "rpc_conn tid sv ?c (ch', b') (ev_mask e) w1" "only tid ?c w w1" "n \<le> ?m" "write_answers w1 = drop n (write_answers w)" by blast
  from w1(2) obtain k1 where k1: "open_at tid ?c 2 (concat (sent ch')) (ev_mask e) w1 k1" "getContext k1 = Some ch'" "inBuf k1 = b'" "usr w1 = sv"
    by auto
  have a1: "write_answers w1 \<noteq> []" using need w1(4,5) by auto
  show ?thesis
  proof (rule open_at_writable [OF k1(1) a1])
    fix w2 k2 j
    assume w2: "handleWrite ?c w1 = Inr w2" "open_at tid ?c 2 (concat (sent ch')) (ev_mask e) w2 k2" "only tid ?c w1 w2"
      "usr w2 = usr w1" "inBuf k2 = inBuf k1" "conn_context k2 = conn_context k1" "j \<le> 1" "write_answers w2 = drop j (write_answers w1)"
    then have at2: "rpc_conn tid sv ?c (ch', b') (ev_mask e) w2" using k1 by (auto simp: getContext_def)
    define w3 where "w3 = (if ev_mask e AND EPOLLOUT = 0 then w1 else w2)"
    have "(if ev_mask e AND EPOLLOUT = 0 then Inr w1 else handleWrite ?c w1) = Inr w3" using w2(1) by (simp add: w3_def)
    from conn_stays_open [OF ch(1-3) p quiet w1(1,3) this] have "channel_event ?user tid e (srv, w) = Inr (srv, w3)" .
    moreover have "rpc_conn tid sv ?c (ch', b') (ev_mask e) w3" using w1(2) at2 unfolding w3_def by (simp only: if_split) blast
    moreover have "only tid ?c w w3" using w1(3) only_trans [OF w1(3) w2(3)] by (simp add: w3_def)
    moreover have "write_answers w3 = drop (if ev_mask e AND EPOLLOUT = 0 then n else j + n) (write_answers w)"
      using w1(5) w2(8) by (simp add: w3_def)
    moreover have "(if ev_mask e AND EPOLLOUT = 0 then n else j + n) \<le> Suc ?m" using w1(4) w2(7) by simp
    ultimately show ?thesis by blast
  qed
qed

lemma rpc_closes:
  fixes w :: "('v, 'z, 'sv) server_world" and ch :: "('v, 'z) rpc_channel_scheme"
  assumes at: "rpc_conn tid sv (ev_ptr e) (ch, b) (ev_mask e) w" and p: "ev_ptr e \<noteq> acceptor_id srv"
    and e: "closing e" "buffer_ok b" "room b 0"
  shows "\<exists>w'. channel_event (RpcServer_user cenv rt lib junk own) tid e (srv, w) = Inr (srv, w') \<and> gone tid (ev_ptr e) w w'
    \<and> usr w' = usr w \<and> write_answers w' = write_answers w"
proof -
  let ?c = "ev_ptr e"
  from at obtain k where k: "open_at tid ?c 2 (concat (sent ch)) (ev_mask e) w k" "inBuf k = b" by auto
  then have "conns w ?c = Some k" "refs k = Suc (Suc 0)" "TcpConnection.owned ?c k w" "pUser k" "closeCallback k = Some ServerRemove"
      "sockfd k = ch_fd (pSocketChannel k)" "pLoop k = tid" "has_callback (pSocketChannel k)" "0 \<le> ch_fd (pSocketChannel k)"
      "revents (pSocketChannel k) = ev_mask e" "buffer_ok (inBuf k)" "room (inBuf k) 0"
    using e(2,3) by (auto simp: open_at_def TcpConnection.owned_def)
  moreover have "onClose (RpcServer_user cenv rt lib junk own) = (\<lambda>tid c. Inr)" by (simp add: fun_eq_iff)
  ultimately show ?thesis using e(1) p by (rule conn_closes)
qed

lemma rpc_accepts:
  fixes w :: "('v, 'z, 'sv) server_world" and lib :: "('v, 'sv, 'md, ('v, 'z) rpc_channel_scheme) rpc_lib" and own :: "nat \<Rightarrow> 'z"
  assumes "usr w = sv" "srv_user srv" "loops (threadPool w) = []" "baseLoop (threadPool w) = tid" "connections w fd = None"
    and fd: "0 \<le> fd" "epolls w tid fd = None"
  shows "\<exists>w'. TcpServer_newConnection srv (RpcServer_user cenv rt lib junk own) tid fd w = Inr w' \<and> joined tid fd w w'
    \<and> rpc_conn tid sv (next_conn w) (rpc_start junk own (next_conn w)) 0 w'"
proof -
  let ?c = "next_conn w" and ?ch = "setServices (rpc_channel.extend (RpcChannel_conn (junk (next_conn w)) :: 'v rpc_channel) (own (next_conn w)))"
  define k where "k = (new_conn ?c fd tid)\<lparr>pUser := True, closeCallback := Some ServerRemove, conn_context := Some ?ch, refs := 2\<rparr>"
  define w' where "w' = (accepted_world tid (threadPool w) fd w)\<lparr>conns := (conns w)(?c := Some k)\<rparr>"
  have pool: "getNextLoop (threadPool w) = Inr (tid, threadPool w)" using assms by (simp add: getNextLoop_def)
  have "TcpServer_newConnection srv (RpcServer_user cenv rt lib junk own) tid fd w = Inr w'"
    by (simp add: newConnection_start [OF pool assms(5,2)] accepted_world_def Let_def with_ref_def connectEstablished_def
        share_def put_conn_def RpcServer_onConnection_def setContext_def release_def w'_def k_def)
  moreover have "joined tid fd w w'"
    using assms by (auto simp: joined_def w'_def accepted_world_def epoll_add_def k_def new_conn_def TcpConnection_init_def)
  moreover have sent: "sent ?ch = []" by (simp add: setServices_def rpc_channel.defs RpcChannel_conn_def)
  have "open_at tid ?c 2 (concat (sent ?ch)) 0 w' k"
    using fd new_buffer_length new_conn_parts(4) Buffer_init_ok [of kInitialSize]
    by (simp add: sent open_at_def stream_at_def stream_ok_def in_sync_def isWriting_def w'_def accepted_world_def
        k_def new_conn_def TcpConnection_init_def epoll_add_def kInitialSize_def)
  then have "rpc_conn tid sv ?c (rpc_start junk own ?c) 0 w'"
    using assms(1) by (auto simp: rpc_start_def k_def getContext_def w'_def accepted_world_def new_conn_parts intro!: exI [of _ k])
  ultimately show ?thesis by blast
qed

lemma rpc_service:
  fixes lib :: "('v, 'sv, 'md, ('v, 'z) rpc_channel_scheme) rpc_lib" and own :: "nat \<Rightarrow> 'z"
  assumes lib: "appending lib"
  shows "loop_service (RpcServer_user cenv rt lib junk own) tid sv (rpc_conn tid sv) (rpc_start junk own)
    (rpc_handle cenv rt lib sv) (rpc_fine cenv rt lib sv) (rpc_need cenv rt lib sv)"
proof
  fix c s ev and w w' :: "('v, 'z, 'sv) server_world"
  assume at: "rpc_conn tid sv c s ev w"
  obtain ch b where s: "s = (ch, b)" by (cases s)
  from at obtain k where k: "open_at tid c 2 (concat (sent ch)) ev w k" "getContext k = Some ch" "inBuf k = b" and sv: "usr w = sv"
    by (auto simp: s)
  show "watched tid c ev w" using open_at_watched [OF k(1)] by simp
  show "rpc_conn tid sv c s ev w'" if "same_at tid c w w'"
    using open_at_local [OF k(1) that] k(2,3) that sv by (auto simp: s same_at_def)
  show "rpc_conn tid sv c s ev' (put_conn c (k'\<lparr>pSocketChannel := setRevents ev' (pSocketChannel k')\<rparr>) w)" if "conns w c = Some k'" for k' ev'
  proof -
    have "k' = k" using that k(1) by (simp add: open_at_def)
    with open_at_stored [OF k(1), of ev'] k(2,3) sv show ?thesis
      by (auto simp: s getContext_def put_conn_def intro!: exI [of _ "k\<lparr>pSocketChannel := setRevents ev' (pSocketChannel k)\<rparr>"])
  qed
next
  fix srv :: tcp_server and fd and w :: "('v, 'z, 'sv) server_world"
  assume "usr w = sv" "srv_user srv" "loops (threadPool w) = []" "baseLoop (threadPool w) = tid" "connections w fd = None"
    "0 \<le> fd" "epolls w tid fd = None"
  then show "\<exists>w'. TcpServer_newConnection srv (RpcServer_user cenv rt lib junk own) tid fd w = Inr w' \<and> joined tid fd w w'
      \<and> rpc_conn tid sv (next_conn w) (rpc_start junk own (next_conn w)) 0 w'"
    by (rule rpc_accepts)
next
  fix e s and srv :: tcp_server and w :: "('v, 'z, 'sv) server_world"
  assume at: "rpc_conn tid sv (ev_ptr e) s (ev_mask e) w" and p: "ev_ptr e \<noteq> acceptor_id srv" and f: "rpc_fine cenv rt lib sv e s"
    and n: "rpc_need cenv rt lib sv e s \<le> length (write_answers w)" and a: "\<forall>x \<in> set (write_answers w). 0 \<le> x"
  obtain ch b where s: "s = (ch, b)" by (cases s)
  show "\<exists>w' n. channel_event (RpcServer_user cenv rt lib junk own) tid e (srv, w) = Inr (srv, w') \<and> n \<le> rpc_need cenv rt lib sv e s
      \<and> write_answers w' = drop n (write_answers w) \<and> usr w' = usr w
      \<and> (case rpc_handle cenv rt lib sv e s of None \<Rightarrow> gone tid (ev_ptr e) w w'
          | Some s' \<Rightarrow> only tid (ev_ptr e) w w' \<and> rpc_conn tid sv (ev_ptr e) s' (ev_mask e) w')"
  proof (cases "rpc_handle cenv rt lib sv e s")
    case None
    with f have "closing e" "buffer_ok b" "room b 0" by (simp_all add: rpc_fine_def s)
    from rpc_closes [OF at [unfolded s] p this, of cenv rt lib junk own] obtain w' where
      "channel_event (RpcServer_user cenv rt lib junk own) tid e (srv, w) = Inr (srv, w')" "gone tid (ev_ptr e) w w'"
      "usr w' = usr w" "write_answers w' = write_answers w" by blast
    with None show ?thesis by (intro exI [of _ w'] exI [of _ 0]) simp
  next
    case (Some s')
    obtain ch' b' where s': "s' = (ch', b')" by (cases s')
    have len: "length (concat (sent ch')) < 2 ^ 31" and need: "Suc (length (sent ch') - length (sent ch)) \<le> length (write_answers w)"
      using f n Some by (simp_all add: rpc_fine_def rpc_need_def s s')
    from rpc_event [OF lib at [unfolded s] p Some [unfolded s s'] len need a, of junk own] obtain w' n where
      "channel_event (RpcServer_user cenv rt lib junk own) tid e (srv, w) = Inr (srv, w')" "n \<le> Suc (length (sent ch') - length (sent ch))"
      "write_answers w' = drop n (write_answers w)" "only tid (ev_ptr e) w w'" "rpc_conn tid sv (ev_ptr e) (ch', b') (ev_mask e) w'" by blast
    moreover from this(5) at have "usr w' = usr w" by (simp add: s)
    ultimately show ?thesis using Some by (intro exI [of _ w'] exI [of _ n]) (simp add: rpc_need_def s s' del: rpc_conn.simps)
  qed
next
  fix c and w :: "('v, 'z, 'sv) server_world"
  show "onWriteComplate (RpcServer_user cenv rt lib junk own) tid c w = Inr w" by (simp add: RpcServer_user_def)
qed

section \<open>The server of the model\<close>

text \<open>What the events of the loop are to the server in \<open>RpcServer\<close>; \<open>n\<close> connections have been made before.\<close>

fun rpc_events ::
  "nat \<Rightarrow> (nat \<Rightarrow> 64 word) \<Rightarrow> (nat \<Rightarrow> 'z) \<Rightarrow> nat \<Rightarrow> loop_event list \<Rightarrow> ('sv, 'z) server_event list" where
  "rpc_events p junk own n [] = []"
| "rpc_events p junk own n (e # es) =
     (if ev_ptr e = p
      then if ev_mask e AND EPOLLIN = 0 then rpc_events p junk own n es
           else Connect n (junk n) (own n) # rpc_events p junk own (Suc n) es
      else (if closing e then [] else map (Receive (ev_ptr e)) (chunks e)) @ rpc_events p junk own n es)"

text \<open>The frames sent on the first \<open>n\<close> connections.\<close>

definition frames_sent :: "('v, 'sv, 'z) rpc_server \<Rightarrow> nat \<Rightarrow> nat" where
  "frames_sent s n = (\<Sum>c < n. case contexts s c of None \<Rightarrow> 0 | Some ch \<Rightarrow> length (sent ch))"

text \<open>The bytes read by all events.\<close>

definition bytes_read :: "loop_event list \<Rightarrow> nat" where
  "bytes_read evs = length (concat (concat (map chunks evs)))"

text \<open>
  The server of the model has made \<open>n\<close> connections, and the open ones of the loop, \<open>st\<close>, are as they are there; their
  buffers have room for \<open>m\<close> bytes.
\<close>

definition follows ::
  "(byte list \<Rightarrow> 'sv option option) \<Rightarrow> nat \<Rightarrow> nat \<Rightarrow> (nat \<Rightarrow> (('v, 'z) rpc_channel_scheme \<times> buffer) option)
    \<Rightarrow> ('v, 'sv, 'z) rpc_server \<Rightarrow> bool" where
  "follows sv m n st s \<longleftrightarrow> registry s = sv \<and> (\<forall>c. contexts s c \<noteq> None \<longleftrightarrow> c < n)
     \<and> (\<forall>c ch b. st c = Some (ch, b) \<longrightarrow> contexts s c = Some ch \<and> input_buffers s c = b \<and> buffer_ok b \<and> room b m)"

lemma frames_sent_update:
  fixes s s' :: "('v, 'sv, 'z) rpc_server"
  assumes "c < n" "contexts s c = Some ch" "prefix (sent ch) (sent ch')" "contexts s' = (contexts s)(c := Some ch')"
  shows "frames_sent s' n = frames_sent s n + (length (sent ch') - length (sent ch))"
proof -
  let ?f = "\<lambda>t c. case contexts t c of None \<Rightarrow> 0 | Some ch \<Rightarrow> length (sent ch)"
  have apart: "frames_sent t n = ?f t c + sum (?f t) ({..<n} - {c})" for t :: "('v, 'sv, 'z) rpc_server"
    unfolding frames_sent_def using assms(1) by (intro sum.remove) auto
  have "sum (?f s') ({..<n} - {c}) = sum (?f s) ({..<n} - {c})" by (rule sum.cong) (auto simp: assms(4))
  then show ?thesis using prefix_length_le [OF assms(3)] by (simp add: apart assms(2,4))
qed

lemma readFd_grows:
  assumes "buffer_ok b" "room b (length d)" "readFd b (ReadvData d) = Inr r"
  shows "grows b (length d) (rf_buffer r)"
proof -
  have "length d \<le> iov_capacity b" using assms(3) by (simp add: readFd_def Let_def split: if_splits)
  from readFd_data_ok [OF assms(1,2) this] assms(3) show ?thesis by auto
qed

lemma room_less: "room b m \<Longrightarrow> k \<le> m \<Longrightarrow> room b k"
  by (simp add: room_def)

lemma follows_less: "follows sv m n st s \<Longrightarrow> k \<le> m \<Longrightarrow> follows sv k n st s"
  unfolding follows_def by (metis room_less)

text \<open>One event: a run of the model that does not fault says what the loop does.\<close>

lemma receive_follows:
  assumes lib: "appending lib" and rel: "follows sv (length d + m) n st s"
    and run: "server_step cenv rt lib full_name (Receive c d) s = Inr s1"
  obtains ch r ch' b' where "c < n" "contexts s c = Some ch" "readFd (input_buffers s c) (ReadvData d) = Inr r"
    "channel_onMessage cenv rt lib sv ch (rf_buffer r) = Inr (ch', b')" "prefix (sent ch) (sent ch')"
    "contexts s1 = (contexts s)(c := Some ch')" "input_buffers s1 = (input_buffers s)(c := b')" "registry s1 = sv"
    "buffer_ok (input_buffers s c) \<Longrightarrow> room (input_buffers s c) (length d + m) \<Longrightarrow> buffer_ok b' \<and> room b' m"
proof -
  from run obtain r ch ch' b' where r: "readFd (input_buffers s c) (ReadvData d) = Inr r" "contexts s c = Some ch"
      "channel_onMessage cenv rt lib (registry s) ch (rf_buffer r) = Inr (ch', b')"
    and s1: "s1 = s\<lparr>contexts := (contexts s)(c := Some ch'), input_buffers := (input_buffers s)(c := b')\<rparr>"
    by (auto simp: server_onMessage_def andThen_eq_Inr split: option.splits)
  have sv: "registry s = sv" "c < n" using rel r(2) by (auto simp: follows_def)
  have "buffer_ok b' \<and> room b' m" if ok: "buffer_ok (input_buffers s c)" "room (input_buffers s c) (length d + m)"
  proof -
    have g: "grows (input_buffers s c) (length d) (rf_buffer r)"
      by (rule readFd_grows [OF ok(1) room_less [OF ok(2)] r(1)]) simp
    from channel_grows [OF grows_ok [OF g] r(3)] have g': "grows (rf_buffer r) 0 b'" .
    from grows_room [OF grows_trans [OF g g'], of m] ok(2) grows_ok [OF g'] show ?thesis by simp
  qed
  with r s1 sv channel_appends [OF lib r(3)] show thesis by (intro that) simp_all
qed

lemma server_run_append:
  "server_run cenv rt lib full_name (xs @ ys) s = andThen (server_run cenv rt lib full_name xs s) (server_run cenv rt lib full_name ys)"
  by (induction xs arbitrary: s) (auto simp: andThen_def split: sum.splits)

text \<open>What a channel has sent stays sent.\<close>

lemma rpc_run_extends:
  fixes s :: "('v, 'sv, 'z) rpc_server"
  assumes lib: "appending lib" and "server_run cenv rt lib full_name (rpc_events p junk own n evs) s = Inr s'" "c < n" "contexts s c = Some ch"
  shows "\<exists>ch'. contexts s' c = Some ch' \<and> prefix (sent ch) (sent ch')"
  using assms(2-4)
proof (induction evs arbitrary: n s ch)
  case (Cons e es)
  let ?run = "server_run cenv rt lib full_name"
  show ?case
  proof (cases "ev_ptr e = p")
    case True
    show ?thesis
    proof (cases "ev_mask e AND EPOLLIN = 0")
      case off: True
      with True Cons.prems Cons.IH [of n s ch] show ?thesis by simp
    next
      case on: False
      let ?s = "server_onConnection (junk n) (own n) n (s\<lparr>input_buffers := (input_buffers s)(n := Buffer_init kInitialSize)\<rparr>)"
      have "?run (rpc_events p junk own (Suc n) es) ?s = Inr s'" using True on Cons.prems(1) by simp
      moreover have "contexts ?s c = Some ch" using Cons.prems(2,3) by (simp add: server_onConnection_def Let_def)
      ultimately show ?thesis using Cons.IH [of "Suc n" ?s ch] Cons.prems(2) by simp
    qed
  next
    case False
    let ?rs = "if closing e then [] else map (Receive (ev_ptr e)) (chunks e) :: ('sv, 'z) server_event list"
    have "?run (?rs @ rpc_events p junk own n es) s = Inr s'" using False Cons.prems(1) by simp
    then obtain s1 where s1: "?run ?rs s = Inr s1" "?run (rpc_events p junk own n es) s1 = Inr s'"
      unfolding server_run_append by (auto simp: andThen_eq_Inr)
    have "\<exists>ch1. contexts s1 c = Some ch1 \<and> prefix (sent ch) (sent ch1)"
    proof (cases "?rs = []")
      case True
      with s1(1) [unfolded True] Cons.prems(3) show ?thesis by simp
    next
      case False
      then obtain d where d: "?rs = [Receive (ev_ptr e) d]"
        by (cases "ev_read e") (auto simp: chunks_def split: if_splits)
      from s1(1) [unfolded d] obtain b0 ch0 ch1 b1 where step: "contexts s (ev_ptr e) = Some ch0"
          "channel_onMessage cenv rt lib (registry s) ch0 b0 = Inr (ch1, b1)"
          "s1 = s\<lparr>contexts := (contexts s)(ev_ptr e := Some ch1), input_buffers := (input_buffers s)(ev_ptr e := b1)\<rparr>"
        by (auto simp: andThen_eq_Inr server_onMessage_def split: option.splits)
      from channel_appends [OF lib step(2)] step(1,3) Cons.prems(3) show ?thesis by auto
    qed
    then obtain ch1 where "contexts s1 c = Some ch1" "prefix (sent ch) (sent ch1)" by blast
    with Cons.IH [OF s1(2) Cons.prems(2)] show ?thesis by (blast intro: prefix_order.trans)
  qed
qed auto

text \<open>The automaton of the loop can handle what comes, and keeps up with the model.\<close>

lemma rpc_rounds:
  fixes lib :: "('v, 'sv, 'md, ('v, 'z) rpc_channel_scheme) rpc_lib" and own :: "nat \<Rightarrow> 'z"
  assumes lib: "appending lib" and "follows sv (bytes_read evs) n st s" "bytes_read evs \<le> 2 ^ 40"
    and "server_run cenv rt lib full_name (rpc_events p junk own n evs) s = Inr s'"
    and "\<forall>c ch. contexts s' c = Some ch \<longrightarrow> length (concat (sent ch)) < 2 ^ 31"
  defines "start \<equiv> rpc_start junk own" and "handle \<equiv> rpc_handle cenv rt lib sv"
  shows "fine_events start handle (rpc_fine cenv rt lib sv) p evs (n, st)
    \<and> need_events start handle (rpc_need cenv rt lib sv) p evs (n, st) + frames_sent s n
        \<le> frames_sent s' (n + accepts p evs) + length evs
    \<and> follows sv 0 (n + accepts p evs) (snd (abs_events start handle p evs (n, st))) s'"
  using assms(2-5)
proof (induction evs arbitrary: n st s)
  case Nil
  then show ?case by (simp add: bytes_read_def)
next
  case (Cons e es)
  let ?run = "server_run cenv rt lib full_name" and ?c = "ev_ptr e" and ?m = "bytes_read es"
  have bytes: "bytes_read (e # es) = length (concat (chunks e)) + ?m" by (simp add: bytes_read_def)
  then have small: "?m \<le> 2 ^ 40" using Cons.prems(2) by simp
  show ?case
  proof (cases "?c = p")
    case True
    show ?thesis
    proof (cases "ev_mask e AND EPOLLIN = 0")
      case off: True
      have "follows sv ?m n st s" by (rule follows_less [OF Cons.prems(1)]) (simp add: bytes)
      from Cons.IH [OF this small _ Cons.prems(4)] Cons.prems(3) show ?thesis using True off by simp
    next
      case on: False
      let ?s = "server_onConnection (junk n) (own n) n (s\<lparr>input_buffers := (input_buffers s)(n := Buffer_init kInitialSize)\<rparr>)"
        and ?st = "st(n := Some (start n))"
      have run: "?run (rpc_events p junk own (Suc n) es) ?s = Inr s'" using True on Cons.prems(3) by simp
      have new: "buffer_ok (Buffer_init kInitialSize)" "room (Buffer_init kInitialSize) ?m"
        using Buffer_init_ok [of kInitialSize] new_buffer_length small by (simp_all add: kInitialSize_def room_def)
      have "contexts ?s = (contexts s)(n := Some (fst (start n)))" "sent (fst (start n)) = []" "registry ?s = registry s"
        "input_buffers ?s = (input_buffers s)(n := Buffer_init kInitialSize)" "snd (start n) = Buffer_init kInitialSize"
        by (simp_all add: server_onConnection_def Let_def start_def rpc_start_def setServices_def rpc_channel.defs RpcChannel_conn_def)
      note parts = this
      have "follows sv ?m n st s" by (rule follows_less [OF Cons.prems(1)]) (simp add: bytes)
      then have "follows sv ?m (Suc n) ?st ?s"
        using new by (auto simp: follows_def parts less_Suc_eq prod_eq_iff)
      moreover have "frames_sent ?s (Suc n) = frames_sent s n" by (simp add: frames_sent_def parts)
      ultimately show ?thesis using Cons.IH [OF _ small run Cons.prems(4), of ?st] True on by (simp del: fun_upd_apply)
    qed
  next
    case False
    let ?rs = "if closing e then [] else map (Receive ?c) (chunks e) :: ('sv, 'z) server_event list"
    have "?run (?rs @ rpc_events p junk own n es) s = Inr s'" using False Cons.prems(3) by simp
    then obtain s1 where s1: "?run ?rs s = Inr s1" "?run (rpc_events p junk own n es) s1 = Inr s'"
      unfolding server_run_append by (auto simp: andThen_eq_Inr)
    let ?st = "st(?c := Option.bind (st ?c) (handle e))"
    let ?need = "case st ?c of None \<Rightarrow> 0 | Some a \<Rightarrow> rpc_need cenv rt lib sv e a"
    have len: "length (concat (sent ch)) < 2 ^ 31" if c: "contexts s1 c = Some ch" "c < n" for c ch
    proof -
      from rpc_run_extends [OF lib s1(2) c(2,1)] obtain ch' where ch': "contexts s' c = Some ch'" "prefix (sent ch) (sent ch')" by blast
      have "length (concat (sent ch)) \<le> length (concat (sent ch'))" using ch'(2) by (auto simp: prefix_def)
      also have "\<dots> < 2 ^ 31" using Cons.prems(4) ch'(1) by blast
      finally show ?thesis .
    qed
    have "(case st ?c of None \<Rightarrow> True | Some a \<Rightarrow> rpc_fine cenv rt lib sv e a) \<and> ?need + frames_sent s n \<le> Suc (frames_sent s1 n)
      \<and> follows sv ?m n ?st s1"
    proof (cases "?rs = []")
      case True
      have s: "s1 = s" using s1(1) [unfolded True] by simp
      have rel: "follows sv ?m n st s" by (rule follows_less [OF Cons.prems(1)]) (simp add: bytes)
      have h: "handle e a = (if closing e then None else Some a)" for a
        using True by (auto simp: handle_def rpc_handle_def split: if_splits)
      have "follows sv ?m n ?st s"
      proof (cases "st ?c")
        case None
        with rel show ?thesis by (auto simp: follows_def)
      next
        case (Some a)
        with rel h [of a] show ?thesis by (auto simp: follows_def)
      qed
      moreover have "rpc_fine cenv rt lib sv e a \<and> rpc_need cenv rt lib sv e a \<le> 1" if a: "st ?c = Some a" for a
      proof -
        obtain ch b where ab: "a = (ch, b)" by (cases a)
        with rel a have ctx: "contexts s ?c = Some ch" "buffer_ok b" "room b ?m" "?c < n" by (auto simp: follows_def)
        from len [of ?c ch] ctx(1,4) have "length (concat (sent ch)) < 2 ^ 31" by (simp add: s)
        with h [of a] ctx(2) room_less [OF ctx(3)] show ?thesis by (auto simp: rpc_fine_def rpc_need_def handle_def ab)
      qed
      ultimately show ?thesis by (auto simp: s simp del: fun_upd_apply split: option.splits)
    next
      case False
      then obtain d where d: "?rs = [Receive ?c d]" "chunks e = [d]" and e: "\<not> closing e"
        by (cases "ev_read e") (auto simp: chunks_def split: if_splits)
      have rel: "follows sv (length d + ?m) n st s" using Cons.prems(1) bytes by (simp add: d(2))
      have "server_step cenv rt lib full_name (Receive ?c d) s = Inr s1" using s1(1) [unfolded d(1)] by (auto simp: andThen_eq_Inr)
      then show ?thesis
      proof (rule receive_follows [OF lib rel])
        fix ch r ch' b'
        assume r: "?c < n" "contexts s ?c = Some ch" "readFd (input_buffers s ?c) (ReadvData d) = Inr r"
          "channel_onMessage cenv rt lib sv ch (rf_buffer r) = Inr (ch', b')" "prefix (sent ch) (sent ch')"
          "contexts s1 = (contexts s)(?c := Some ch')" "input_buffers s1 = (input_buffers s)(?c := b')" "registry s1 = sv"
          "buffer_ok (input_buffers s ?c) \<Longrightarrow> room (input_buffers s ?c) (length d + ?m) \<Longrightarrow> buffer_ok b' \<and> room b' ?m"
        have frames: "frames_sent s1 n = frames_sent s n + (length (sent ch') - length (sent ch))"
          by (rule frames_sent_update [OF r(1,2,5,6)])
        have small': "length (concat (sent ch')) < 2 ^ 31" using len [of ?c ch'] r(1,6) by simp
        have h: "handle e (ch, input_buffers s ?c) = Some (ch', b')"
          using e d(2) r(3,4) by (simp add: handle_def rpc_handle_def)
        have state: "a = (ch, input_buffers s ?c)" "buffer_ok (input_buffers s ?c)" "room (input_buffers s ?c) (length d + ?m)"
          if "st ?c = Some a" for a
          using rel that r(2) by (cases a; auto simp: follows_def)+
        have rel': "follows sv ?m n st s" by (rule follows_less [OF rel]) simp
        have "follows sv ?m n ?st s1"
        proof (cases "st ?c")
          case None
          then show ?thesis using rel' r(1,2) by (auto simp: follows_def r(6-8))
        next
          case (Some a)
          from r(9) [OF state(2,3) [OF Some]] have "buffer_ok b' \<and> room b' ?m" .
          moreover have st: "?st = st(?c := Some (ch', b'))" using h state(1) [OF Some] Some by simp
          ultimately show ?thesis using rel' r(1,2) unfolding st follows_def r(6-8) by auto
        qed
        moreover have "rpc_fine cenv rt lib sv e a \<and> rpc_need cenv rt lib sv e a = Suc (length (sent ch') - length (sent ch))" if "st ?c = Some a" for a
          using h small' unfolding state(1) [OF that] by (simp add: rpc_fine_def rpc_need_def handle_def)
        ultimately show ?thesis using frames by (auto split: option.splits)
      qed
    qed
    then have step: "case st ?c of None \<Rightarrow> True | Some a \<Rightarrow> rpc_fine cenv rt lib sv e a" "?need + frames_sent s n \<le> Suc (frames_sent s1 n)"
      "follows sv ?m n ?st s1" by blast+
    define st1 where "st1 = ?st"
    have "follows sv ?m n st1 s1" using step(3) by (simp only: st1_def)
    note rest = Cons.IH [OF this small s1(2) Cons.prems(4)]
    have abs: "abs_event start handle p e (n, st) = (n, st1)" "accepts p (e # es) = accepts p es" using False by (simp_all add: st1_def)
    have "fine_events start handle (rpc_fine cenv rt lib sv) p (e # es) (n, st)"
      unfolding fine_events.simps abs using step(1) rest by blast
    moreover have "need_events start handle (rpc_need cenv rt lib sv) p (e # es) (n, st)
        = ?need + need_events start handle (rpc_need cenv rt lib sv) p es (n, st1)"
      unfolding need_events.simps abs using False by (simp only: if_False)
    moreover have "abs_events start handle p (e # es) (n, st) = abs_events start handle p es (n, st1)"
      by (simp only: abs_events.simps abs)
    ultimately show ?thesis using rest step(2) abs(2) by simp
  qed
qed

text \<open>A connection is open unless an event has ended it.\<close>

lemma rpc_open:
  assumes "live_events start (rpc_handle cenv rt lib sv) p evs (n, st)"
    and "fine_events start (rpc_handle cenv rt lib sv) (rpc_fine cenv rt lib sv) p evs (n, st)"
    and "n + accepts p evs \<le> p" "\<forall>c \<ge> n. st c = None" "c < n + accepts p evs"
  shows "snd (abs_events start (rpc_handle cenv rt lib sv) p evs (n, st)) c = None
    \<longleftrightarrow> c < n \<and> st c = None \<or> (\<exists>e \<in> set evs. ev_ptr e = c \<and> closing e)"
  using assms
proof (induction evs arbitrary: n st)
  case Nil
  then show ?case by auto
next
  case (Cons e es)
  let ?handle = "rpc_handle cenv rt lib sv"
  show ?case
  proof (cases "ev_ptr e = p")
    case True
    with Cons.prems(3,5) have c: "ev_ptr e \<noteq> c" by simp
    show ?thesis
    proof (cases "ev_mask e AND EPOLLIN = 0")
      case off: True
      with True c Cons.prems Cons.IH [of n st] show ?thesis by simp
    next
      case on: False
      define st1 where "st1 = st(n := Some (start n))"
      have abs: "abs_event start ?handle p e (n, st) = (Suc n, st1)" using True on by (simp add: st1_def)
      have "live_events start ?handle p es (Suc n, st1)" "fine_events start ?handle (rpc_fine cenv rt lib sv) p es (Suc n, st1)"
        using Cons.prems(1,2) unfolding live_events.simps fine_events.simps abs by blast+
      moreover have "Suc n + accepts p es \<le> p" "c < Suc n + accepts p es" using True on Cons.prems(3,5) by simp_all
      moreover have "\<forall>c \<ge> Suc n. st1 c = None" using Cons.prems(4) by (simp add: st1_def)
      ultimately have "snd (abs_events start ?handle p es (Suc n, st1)) c = None
          \<longleftrightarrow> c < Suc n \<and> st1 c = None \<or> (\<exists>e \<in> set es. ev_ptr e = c \<and> closing e)" by (intro Cons.IH)
      moreover have "c < Suc n \<and> st1 c = None \<longleftrightarrow> c < n \<and> st c = None" by (auto simp: st1_def)
      ultimately show ?thesis using c unfolding abs_events.simps abs by simp
    qed
  next
    case False
    with Cons.prems(1) obtain a where a: "ev_ptr e < n" "st (ev_ptr e) = Some a" by auto
    define st1 where "st1 = st(ev_ptr e := ?handle e a)"
    have abs: "abs_event start ?handle p e (n, st) = (n, st1)" using False a(2) by (simp add: st1_def)
    have "rpc_fine cenv rt lib sv e a" using Cons.prems(2) False a(2) by simp
    then have ends: "?handle e a = None \<longleftrightarrow> closing e" by (auto simp: rpc_fine_def rpc_handle_def split: option.splits)
    have "live_events start ?handle p es (n, st1)" "fine_events start ?handle (rpc_fine cenv rt lib sv) p es (n, st1)"
      using Cons.prems(1,2) unfolding live_events.simps fine_events.simps abs by blast+
    moreover have "n + accepts p es \<le> p" "c < n + accepts p es" using False Cons.prems(3,5) by simp_all
    moreover have "\<forall>c \<ge> n. st1 c = None" using Cons.prems(4) a(1) by (simp add: st1_def)
    ultimately have "snd (abs_events start ?handle p es (n, st1)) c = None
        \<longleftrightarrow> c < n \<and> st1 c = None \<or> (\<exists>e \<in> set es. ev_ptr e = c \<and> closing e)" by (intro Cons.IH)
    moreover have "c < n \<and> st1 c = None \<longleftrightarrow> c < n \<and> st c = None \<or> ev_ptr e = c \<and> closing e"
      using a ends by (auto simp: st1_def)
    ultimately show ?thesis unfolding abs_events.simps abs by auto
  qed
qed

section \<open>Properties\<close>

text \<open>The server of the model, new; the events of its loop; and the connections that have been ended.\<close>

definition new_rpc_server :: "('v, 'sv, 'z) rpc_server" where
  "new_rpc_server = \<lparr>registry = (\<lambda>n. None), contexts = (\<lambda>c. None), input_buffers = (\<lambda>c. Buffer_init kInitialSize)\<rparr>"

definition ended :: "loop_event list \<Rightarrow> nat \<Rightarrow> bool" where
  "ended evs c \<longleftrightarrow> (\<exists>e \<in> set evs. ev_ptr e = c \<and> closing e)"

lemma ended_append: "ended (xs @ ys) c \<longleftrightarrow> ended xs c \<or> ended ys c"
  by (auto simp: ended_def)

text \<open>The turns of the loop from \<^verbatim>\<open>main\<close> on, with the invariant of the loop at their end.\<close>

lemma rpc_loop_run:
  fixes lib :: "('v, 'sv, 'md, ('v, 'z) rpc_channel_scheme) rpc_lib" and own :: "nat \<Rightarrow> 'z"
  assumes "appending lib" "nothing_open tid w0" "writes_succeed w0" "Acceptor_init p lfd b l = Inr a"
    and "sudoku_server_main full_name impl a tid new_loop w0 = Inr (srv, w)"
    and "kernel_rounds (RpcServer_user cenv rt lib junk own) tid rounds (srv, w)"
    and "server_run cenv rt lib full_name (Register (Some impl) # rpc_events p junk own 0 (concat rounds)) new_rpc_server = Inr s"
    and "\<forall>c ch. contexts s c = Some ch \<longrightarrow> length (concat (sent ch)) < 2 ^ 31" "bytes_read (concat rounds) \<le> 2 ^ 40"
    and "frames_sent s (accepts p (concat rounds)) + length (concat rounds) \<le> length (write_answers w0)"
  defines "sv \<equiv> [full_name impl \<mapsto> Some impl]"
  shows "\<exists>srv' w' rv' st'. loop_rounds (RpcServer_user cenv rt lib junk own) tid rounds (srv, w) = Inr (srv', w')
    \<and> loop_inv tid sv (rpc_conn tid sv) srv' st' rv' w' \<and> next_conn w' = accepts p (concat rounds)
    \<and> next_conn w' \<le> acceptor_id srv' \<and> (\<forall>c < next_conn w'. st' c = None \<longleftrightarrow> ended (concat rounds) c)
    \<and> follows sv 0 (next_conn w') st' s"
proof -
  let ?user = "RpcServer_user cenv rt lib junk own" and ?evs = "concat rounds" and ?st0 = "\<lambda>c. None"
  let ?start = "rpc_start junk own" and ?handle = "rpc_handle cenv rt lib sv"
  obtain srv1 w1 where init: "TcpServer_init a tid (w0\<lparr>usr := \<lambda>n. None\<rparr>) = (srv1, w1)" by fastforce
  then have "usr w1 = (\<lambda>n. None)" by (auto simp: TcpServer_init_def)
  then have go: "TcpServer_start new_loop (TcpServer_setCallback True srv1) (w1\<lparr>usr := sv\<rparr>) = (srv, w)"
    using assms(5) init by (simp add: sudoku_server_main_def RpcServer_new_def RpcServer_registerService_def RpcServer_start_def sv_def)
  have quiet: "nothing_open tid (w0\<lparr>usr := \<lambda>n. None\<rparr>)" "writes_succeed (w0\<lparr>usr := \<lambda>n. None\<rparr>)"
    using assms(2,3) by (simp_all add: nothing_open_def writes_succeed_def)
  note started = server_started [OF quiet assms(4) init go]
  define s0 :: "('v, 'sv, 'z) rpc_server" where "s0 = new_rpc_server\<lparr>registry := sv\<rparr>"
  have run: "server_run cenv rt lib full_name (rpc_events p junk own 0 ?evs) s0 = Inr s"
    using assms(7) by (simp add: registerService_def new_rpc_server_def s0_def sv_def)
  have "follows sv (bytes_read ?evs) 0 ?st0 s0" by (simp add: follows_def s0_def new_rpc_server_def)
  from rpc_rounds [OF assms(1) this assms(9) run assms(8)] have
    fine: "fine_events ?start ?handle (rpc_fine cenv rt lib sv) p ?evs (0, ?st0)"
    and need: "need_events ?start ?handle (rpc_need cenv rt lib sv) p ?evs (0, ?st0) \<le> frames_sent s (accepts p ?evs) + length ?evs"
    and rel: "follows sv 0 (accepts p ?evs) (snd (abs_events ?start ?handle p ?evs (0, ?st0))) s" by auto
  have room: "need_events ?start ?handle (rpc_need cenv rt lib sv) p ?evs (0, ?st0) \<le> length (write_answers w)"
    using need assms(10) started(4) by simp
  from loop_service.inv_rounds [OF rpc_service [OF assms(1)] started(1) assms(6), unfolded started(2,3), OF fine room]
  obtain srv' w' rv' st' where
    r: "loop_rounds ?user tid rounds (srv, w) = Inr (srv', w')" "loop_inv tid sv (rpc_conn tid sv) srv' st' rv' w'" "acceptor_id srv' = p"
      "(next_conn w', st') = abs_events ?start ?handle p ?evs (0, ?st0)" "live_events ?start ?handle p ?evs (0, ?st0)"
    by (elim exE conjE)
  have made: "next_conn w' = accepts p ?evs" using abs_events_accepts [of ?start ?handle p ?evs 0 ?st0] r(4) by (metis add_0 fst_conv)
  have below: "0 + accepts p ?evs \<le> p" using loop_invD(4) [OF r(2)] made r(3) by simp
  have st': "st' = snd (abs_events ?start ?handle p ?evs (0, ?st0))" using r(4) by (metis snd_conv)
  have "st' c = None \<longleftrightarrow> ended ?evs c" if "c < next_conn w'" for c
    using rpc_open [OF r(5) fine below, of c] that made by (simp add: st' ended_def)
  with r made loop_invD(4) [OF r(2)] rel show ?thesis
    by (intro exI [of _ srv'] exI [of _ w'] exI [of _ rv'] exI [of _ st']) (simp add: st')
qed

text \<open>What the invariant says of the connections that have ended: they exist, and nothing lists them.\<close>

lemma rpc_ended:
  assumes "loop_inv tid sv (rpc_conn tid sv) srv st rv w" "c < next_conn w" "st c = None"
  shows "connections w fd \<noteq> Some c" "epolls w tid fd \<noteq> Some (m, c)"
proof -
  have "c \<noteq> acceptor_id srv" using assms(2) loop_invD(4) [OF assms(1)] by simp
  with assms(3) loop_invD(8,9) [OF assms(1)] show "connections w fd \<noteq> Some c" "epolls w tid fd \<noteq> Some (m, c)" by blast+
qed

text \<open>C2:
  The RPC server in its loop refines the model of the server, as long as no \<^verbatim>\<open>write\<close> fails. Take \<^verbatim>\<open>main\<close> of \<^verbatim>\<open>sudoku/server.cc\<close> from its
  start through any number of turns of the loop, in which clients connect, send requests in any pieces, read answers, and hang up, close
  or reset. If no \<^verbatim>\<open>write\<close> fails (\<open>writes_succeed\<close>: the kernel may take few bytes or none, but a \<^verbatim>\<open>write\<close> that answers \<^verbatim>\<open>EAGAIN\<close>, or
  \<^verbatim>\<open>EPIPE\<close> and \<^verbatim>\<open>ECONNRESET\<close> because the client went before its answer, makes the program throw, theorem
  \<open>write_error_throws\<close>), and if the model, in which each connection is a channel on a byte stream, runs these events
  without a fault, then the program does not fault either; every connection whose client has not gone is kept and watched, its channel
  and its unread input are the model's, and the bytes written to it, followed by those waiting, are the frames the model
  has sent on it. A connection whose client has gone is neither listed nor watched any more, and the others go on.
\<close>

theorem rpc_server_loop_refines:
  fixes lib :: "('v, 'sv, 'md, ('v, 'z) rpc_channel_scheme) rpc_lib" and own :: "nat \<Rightarrow> 'z"
  assumes "appending lib" "nothing_open tid w0" "writes_succeed w0" "Acceptor_init p lfd b l = Inr a"
    and "sudoku_server_main full_name impl a tid new_loop w0 = Inr (srv, w)"
    and "kernel_rounds (RpcServer_user cenv rt lib junk own) tid rounds (srv, w)"
    and "server_run cenv rt lib full_name (Register (Some impl) # rpc_events p junk own 0 (concat rounds)) new_rpc_server = Inr s"
    and "\<forall>c ch. contexts s c = Some ch \<longrightarrow> length (concat (sent ch)) < 2 ^ 31" "bytes_read (concat rounds) \<le> 2 ^ 40"
    and "frames_sent s (accepts p (concat rounds)) + length (concat rounds) \<le> length (write_answers w0)"
  shows "\<exists>srv' w'. loop_rounds (RpcServer_user cenv rt lib junk own) tid rounds (srv, w) = Inr (srv', w')
    \<and> next_conn w' = accepts p (concat rounds)
    \<and> (\<forall>c < next_conn w'. if ended (concat rounds) c
        then (\<forall>fd. connections w' fd \<noteq> Some c) \<and> (\<forall>fd m. epolls w' tid fd \<noteq> Some (m, c))
        else \<exists>k ch. conns w' c = Some k \<and> contexts s c = Some ch \<and> getContext k = Some ch \<and> inBuf k = input_buffers s c
          \<and> wire w' c @ unsent_bytes c w' = concat (sent ch) \<and> connections w' (sockfd k) = Some c
          \<and> epolls w' tid (sockfd k) = Some (events (pSocketChannel k), c))"
proof -
  define sv where "sv = [full_name impl \<mapsto> Some impl]"
  from rpc_loop_run [OF assms, folded sv_def] obtain srv' w' rv' st' where
    r: "loop_rounds (RpcServer_user cenv rt lib junk own) tid rounds (srv, w) = Inr (srv', w')"
      "loop_inv tid sv (rpc_conn tid sv) srv' st' rv' w'" "next_conn w' = accepts p (concat rounds)"
      "\<forall>c < next_conn w'. st' c = None \<longleftrightarrow> ended (concat rounds) c" "follows sv 0 (next_conn w') st' s"
    by (elim exE conjE)
  have "if ended (concat rounds) c
        then (\<forall>fd. connections w' fd \<noteq> Some c) \<and> (\<forall>fd m. epolls w' tid fd \<noteq> Some (m, c))
        else \<exists>k ch. conns w' c = Some k \<and> contexts s c = Some ch \<and> getContext k = Some ch \<and> inBuf k = input_buffers s c
          \<and> wire w' c @ unsent_bytes c w' = concat (sent ch) \<and> connections w' (sockfd k) = Some c
          \<and> epolls w' tid (sockfd k) = Some (events (pSocketChannel k), c)" if c: "c < next_conn w'" for c
  proof (cases "st' c")
    case None
    then have "connections w' fd \<noteq> Some c" "epolls w' tid fd \<noteq> Some (m, c)" for fd m
      using rpc_ended [OF r(2) c] by blast+
    with None r(4) c show ?thesis by simp
  next
    case (Some a)
    obtain ch b where a: "a = (ch, b)" by (cases a)
    have model: "contexts s c = Some ch" "input_buffers s c = b" using r(5) Some by (auto simp: follows_def a)
    from loop_invD(7) [OF r(2) Some] obtain k where k: "open_at tid c 2 (concat (sent ch)) (rv' c) w' k" "getContext k = Some ch" "inBuf k = b"
      by (auto simp: a)
    then have "conns w' c = Some k" "wire w' c @ unsent_bytes c w' = concat (sent ch)" "connections w' (sockfd k) = Some c"
      "epolls w' tid (sockfd k) = Some (events (pSocketChannel k), c)"
      by (auto simp: open_at_def stream_at_def stream_ok_def in_sync_def unsent_bytes_def)
    with k(2,3) model r(4) c Some show ?thesis by auto
  qed
  with r(1,3) show ?thesis by blast
qed

text \<open>C21:
  No connection of the RPC server is ever freed, because its channel, which it keeps as its context, points back to it. Take \<^verbatim>\<open>main\<close>
  through any turns \<open>before\<close> and then any further turns \<open>after\<close>, in which no \<^verbatim>\<open>write\<close> fails and the model does not fault: every
  connection made in \<open>before\<close> still exists at the end of \<open>after\<close>, with a reference, also when its client went long ago and neither
  the server's map nor the kernel lists it any more.
\<close>

theorem rpc_connections_never_freed:
  fixes lib :: "('v, 'sv, 'md, ('v, 'z) rpc_channel_scheme) rpc_lib" and own :: "nat \<Rightarrow> 'z"
  assumes "appending lib" "nothing_open tid w0" "writes_succeed w0" "Acceptor_init p lfd b l = Inr a"
    and "sudoku_server_main full_name impl a tid new_loop w0 = Inr (srv, w)"
    and "kernel_rounds (RpcServer_user cenv rt lib junk own) tid (before @ after) (srv, w)"
    and "server_run cenv rt lib full_name (Register (Some impl) # rpc_events p junk own 0 (concat (before @ after))) new_rpc_server = Inr s"
    and "\<forall>c ch. contexts s c = Some ch \<longrightarrow> length (concat (sent ch)) < 2 ^ 31" "bytes_read (concat (before @ after)) \<le> 2 ^ 40"
    and "frames_sent s (accepts p (concat (before @ after))) + length (concat (before @ after)) \<le> length (write_answers w0)"
  shows "\<exists>srv' w'. loop_rounds (RpcServer_user cenv rt lib junk own) tid (before @ after) (srv, w) = Inr (srv', w')
    \<and> (\<forall>c < accepts p (concat before). (\<exists>k. conns w' c = Some k \<and> 0 < refs k)
        \<and> (ended (concat before) c \<longrightarrow> (\<forall>fd. connections w' fd \<noteq> Some c) \<and> (\<forall>fd m. epolls w' tid fd \<noteq> Some (m, c))))"
proof -
  define sv where "sv = [full_name impl \<mapsto> Some impl]"
  from rpc_loop_run [OF assms, folded sv_def] obtain srv' w' rv' st' where
    r: "loop_rounds (RpcServer_user cenv rt lib junk own) tid (before @ after) (srv, w) = Inr (srv', w')"
      "loop_inv tid sv (rpc_conn tid sv) srv' st' rv' w'" "next_conn w' = accepts p (concat (before @ after))"
      "\<forall>c < next_conn w'. st' c = None \<longleftrightarrow> ended (concat (before @ after)) c"
    by (elim exE conjE)
  have "c < next_conn w'" "ended (concat before) c \<Longrightarrow> st' c = None" if "c < accepts p (concat before)" for c
    using that r(3,4) by (simp_all add: accepts_append ended_append)
  then show ?thesis using r(1) loop_invD(5) [OF r(2)] rpc_ended [OF r(2)] by blast
qed

text \<open>A client that asks once.\<close>

definition demo_ask :: loop_event where
  "demo_ask = \<lparr>ev_ptr = 0, ev_mask = EPOLLIN OR EPOLLOUT,
     ev_read = ReadvData (frame demo_env rpc_tag (request_msg wire_pb 7 echo_method [5])), ev_accept = -1\<rparr>"

definition demo_loop_world :: "(byte list, unit, unit) server_world" where
  "demo_loop_world = \<lparr>conns = Map.empty, next_conn = 0, epolls = (\<lambda>l fd. None), pendingFunctors = (\<lambda>l. []),
     write_answers = [1, 1, 1, 1], wire = (\<lambda>c. []), connections = (\<lambda>fd. None), threadPool = EventLoopThreadPool_init 0,
     client_connection = None, usr = (\<lambda>n. None)\<rparr>"

lemma demo_quiet: "nothing_open 0 demo_loop_world" "writes_succeed demo_loop_world"
  by (simp_all add: nothing_open_def writes_succeed_def demo_loop_world_def)

lemma demo_ask_simps:
  "ev_ptr demo_ask = 0" "ev_mask demo_ask = EPOLLIN OR EPOLLOUT" "\<not> closing demo_ask"
  "chunks demo_ask = [frame demo_env rpc_tag (request_msg wire_pb 7 echo_method [5])]"
  using demo_frames(1) by (auto simp: demo_ask_def closing_def chunks_def)

lemma demo_model_run:
  "\<exists>s. server_run demo_env wire_pb demo_lib (\<lambda>sv. [83])
     (Register (Some ()) # rpc_events 9 (\<lambda>c. 0) (\<lambda>c. ()) 0 [demo_accept, demo_ask]) new_rpc_server = Inr s
   \<and> contexts s = [0 \<mapsto> RpcChannel.demo_server\<lparr>fresh := 1, sent := [frame demo_env rpc_tag (response_msg wire_pb 7 [5])]\<rparr>]"
proof -
  let ?m = "request_msg wire_pb 7 echo_method [5]" and ?ans = "frame demo_env rpc_tag (response_msg wire_pb 7 [5])"
  let ?fr = "frame demo_env rpc_tag ?m"
  have services: "(\<lambda>n. None)([83] := Some (Some ())) = echo_services" by (auto simp: echo_services_def)
  have new: "setServices (rpc_channel.extend (RpcChannel_conn 0) ()) = RpcChannel.demo_server"
    by (simp add: RpcChannel.demo_server_def rpc_channel.defs RpcChannel_conn_def)
  have pieces: "concat [?fr] = ?fr" "\<forall>d \<in> set [?fr]. length d \<le> kExtraBuf" using demo_frames(2) by (simp_all add: kExtraBuf_def)
  from demo_answered [OF this] obtain b' where "feed demo_env (channel_codec demo_env wire_pb demo_lib echo_services) RpcChannel.demo_server
      (Buffer_init kInitialSize) [?fr] = Inr (RpcChannel.demo_server\<lparr>fresh := 1, sent := [?ans]\<rparr>, b')" by blast
  then obtain r where "readFd (Buffer_init kInitialSize) (ReadvData ?fr) = Inr r"
    "channel_onMessage demo_env wire_pb demo_lib echo_services RpcChannel.demo_server (rf_buffer r)
      = Inr (RpcChannel.demo_server\<lparr>fresh := 1, sent := [?ans]\<rparr>, b')"
    by (auto simp: andThen_eq_Inr channel_onMessage_def)
  then show ?thesis
    by (simp add: demo_ask_simps new_rpc_server_def registerService_def server_onConnection_def server_onMessage_def Let_def services new)
qed

text \<open>The server of the small instance, started, and its first turn.\<close>

lemma demo_server_started:
  obtains srv w where "sudoku_server_main (\<lambda>sv. [83]) () demo_acceptor 0 Suc demo_loop_world = Inr (srv, w)"
    and "\<And>e. ev_ptr e = 0 \<Longrightarrow> kernel_rounds (RpcServer_user demo_env wire_pb demo_lib (\<lambda>c. 0) (\<lambda>c. ())) 0 [[demo_accept], [e]] (srv, w)"
proof -
  let ?user = "RpcServer_user demo_env wire_pb demo_lib (\<lambda>c. 0) (\<lambda>c. ())"
  let ?sv = "[[83] \<mapsto> Some ()] :: byte list \<Rightarrow> unit option option"
  let ?start = "rpc_start (\<lambda>c. 0) (\<lambda>c. ()) :: nat \<Rightarrow> byte list rpc_channel \<times> buffer" and ?handle = "rpc_handle demo_env wire_pb demo_lib ?sv"
  obtain srv1 w1 where init: "TcpServer_init demo_acceptor 0 demo_loop_world = (srv1, w1)" by fastforce
  obtain srv w where go: "TcpServer_start Suc (TcpServer_setCallback True srv1) (w1\<lparr>usr := ?sv\<rparr>) = (srv, w)" by fastforce
  have same: "demo_loop_world\<lparr>usr := \<lambda>n. None\<rparr> = demo_loop_world" by (simp add: demo_loop_world_def)
  have "usr w1 = (\<lambda>n. None)" using init by (auto simp: TcpServer_init_def demo_loop_world_def)
  then have main: "sudoku_server_main (\<lambda>sv. [83]) () demo_acceptor 0 Suc demo_loop_world = Inr (srv, w)"
    using init go by (simp add: sudoku_server_main_def RpcServer_new_def RpcServer_registerService_def RpcServer_start_def same)
  note S = server_started [OF demo_quiet demo_acceptor_init init go]
  have first: "kernel_answers 0 [demo_accept] w" "\<forall>e \<in> set [demo_accept]. may_accept 0 srv w e"
    using S(2,3,6) by (auto simp: kernel_answers_def may_accept_def MAX_EVENTS_def)
  have fine: "fine_events ?start ?handle (rpc_fine demo_env wire_pb demo_lib ?sv) 9 [demo_accept] (0, \<lambda>c. None)"
    "need_events ?start ?handle (rpc_need demo_env wire_pb demo_lib ?sv) 9 [demo_accept] (0, \<lambda>c. None) \<le> length (write_answers w)"
    by simp_all
  from loop_service.inv_round [OF rpc_service [OF echo_app.appending_axioms] S(1) first, unfolded S(2,3), OF fine]
  obtain srv2 w2 rv st where
    r: "loop_round ?user 0 [demo_accept] (srv, w) = Inr (srv2, w2)" "loop_inv 0 ?sv (rpc_conn 0 ?sv) srv2 st rv w2" "acceptor_id srv2 = 9"
      "(next_conn w2, st) = abs_events ?start ?handle 9 [demo_accept] (0, \<lambda>c. None)"
    by (elim exE conjE)
  obtain ch b where start: "?start 0 = (ch, b)" by (cases "?start 0")
  then have "st 0 = Some (ch, b)" using r(4) by simp
  from loop_invD(7) [OF r(2) this] obtain k where "open_at 0 0 2 (concat (sent ch)) (rv 0) w2 k" by auto
  from open_at_watched [OF this] have "\<exists>fd m. epolls w2 0 fd = Some (m, 0)" unfolding watched_def by auto
  then have "kernel_answers 0 [e] w2" "may_accept 0 srv2 w2 e" if "ev_ptr e = 0" for e
    using that r(3) by (auto simp: kernel_answers_def may_accept_def MAX_EVENTS_def)
  then have "kernel_rounds ?user 0 [[demo_accept], [e]] (srv, w)" if "ev_ptr e = 0" for e
    using that first r(1) by (simp split: sum.splits)
  with main show thesis by (rule that)
qed

lemma rpc_server_loop_refines_witness:
  "\<exists>srv w srv' w'. sudoku_server_main (\<lambda>sv. [83]) () demo_acceptor 0 Suc demo_loop_world = Inr (srv, w)
     \<and> loop_rounds (RpcServer_user demo_env wire_pb demo_lib (\<lambda>c. 0) (\<lambda>c. ())) 0 [[demo_accept], [demo_ask]] (srv, w) = Inr (srv', w')
     \<and> next_conn w' = 1 \<and> wire w' 0 @ unsent_bytes 0 w' = frame demo_env rpc_tag (response_msg wire_pb 7 [5])"
proof (rule demo_server_started)
  fix srv w
  let ?user = "RpcServer_user demo_env wire_pb demo_lib (\<lambda>c. 0) (\<lambda>c. ())" and ?rounds = "[[demo_accept], [demo_ask]]"
  let ?ans = "frame demo_env rpc_tag (response_msg wire_pb 7 [5])"
  assume main: "sudoku_server_main (\<lambda>sv. [83]) () demo_acceptor 0 Suc demo_loop_world = Inr (srv, w)"
    and "\<And>e. ev_ptr e = 0 \<Longrightarrow> kernel_rounds ?user 0 [[demo_accept], [e]] (srv, w)"
  then have kernel: "kernel_rounds ?user 0 ?rounds (srv, w)" by (simp add: demo_ask_simps del: kernel_rounds.simps)
  from demo_model_run obtain s where s: "server_run demo_env wire_pb demo_lib (\<lambda>sv. [83])
      (Register (Some ()) # rpc_events 9 (\<lambda>c. 0) (\<lambda>c. ()) 0 (concat ?rounds)) new_rpc_server = Inr s"
    "contexts s = [0 \<mapsto> RpcChannel.demo_server\<lparr>fresh := 1, sent := [?ans]\<rparr>]" by auto
  have small: "\<forall>c ch. contexts s c = Some ch \<longrightarrow> length (concat (sent ch)) < 2 ^ 31" "bytes_read (concat ?rounds) \<le> 2 ^ 40"
    "frames_sent s (accepts 9 (concat ?rounds)) + length (concat ?rounds) \<le> length (write_answers demo_loop_world)"
    using demo_frames(2,3) by (simp_all add: s(2) bytes_read_def demo_ask_simps frames_sent_def demo_loop_world_def)
  have "\<not> ended (concat ?rounds) 0" "accepts 9 (concat ?rounds) = 1" by (simp_all add: ended_def demo_ask_simps)
  with rpc_server_loop_refines [OF echo_app.appending_axioms demo_quiet demo_acceptor_init main kernel s(1) small] s(2) main
  show ?thesis by fastforce
qed

lemma demo_bye_simps [simp]:
  "ev_ptr demo_bye = 0" "ev_mask demo_bye = EPOLLIN OR EPOLLHUP" "closing demo_bye" "chunks demo_bye = [[]]"
  by (simp_all add: demo_bye_def closing_def chunks_def)

lemma rpc_connections_never_freed_witness:
  "\<exists>srv w srv' w' k. sudoku_server_main (\<lambda>sv. [83]) () demo_acceptor 0 Suc demo_loop_world = Inr (srv, w)
     \<and> loop_rounds (RpcServer_user demo_env wire_pb demo_lib (\<lambda>c. 0) (\<lambda>c. ())) 0 [[demo_accept], [demo_bye]] (srv, w) = Inr (srv', w')
     \<and> conns w' 0 = Some k \<and> 0 < refs k \<and> (\<forall>fd. connections w' fd \<noteq> Some 0)"
proof (rule demo_server_started)
  fix srv w
  let ?user = "RpcServer_user demo_env wire_pb demo_lib (\<lambda>c. 0) (\<lambda>c. ())" and ?rounds = "[[demo_accept], [demo_bye]]"
  assume main: "sudoku_server_main (\<lambda>sv. [83]) () demo_acceptor 0 Suc demo_loop_world = Inr (srv, w)"
    and "\<And>e. ev_ptr e = 0 \<Longrightarrow> kernel_rounds ?user 0 [[demo_accept], [e]] (srv, w)"
  then have kernel: "kernel_rounds ?user 0 (?rounds @ []) (srv, w)" by (simp del: kernel_rounds.simps)
  obtain s where s: "server_run demo_env wire_pb demo_lib (\<lambda>sv. [83])
      (Register (Some ()) # rpc_events 9 (\<lambda>c. 0) (\<lambda>c. ()) 0 (concat (?rounds @ []))) new_rpc_server = Inr s"
    "contexts s = [0 \<mapsto> setServices (RpcChannel_conn 0)]"
    by (simp add: registerService_def new_rpc_server_def server_onConnection_def Let_def rpc_channel.defs RpcChannel_conn_def)
  have "sent (setServices (RpcChannel_conn 0) :: byte list rpc_channel) = []" by (simp add: setServices_def RpcChannel_conn_def)
  then have small: "\<forall>c ch. contexts s c = Some ch \<longrightarrow> length (concat (sent ch)) < 2 ^ 31" "bytes_read (concat (?rounds @ [])) \<le> 2 ^ 40"
    "frames_sent s (accepts 9 (concat (?rounds @ []))) + length (concat (?rounds @ [])) \<le> length (write_answers demo_loop_world)"
    by (simp_all add: s(2) bytes_read_def frames_sent_def demo_loop_world_def)
  have "accepts 9 (concat ?rounds) = 1" "ended (concat ?rounds) 0" by (simp_all add: ended_def)
  with rpc_connections_never_freed [OF echo_app.appending_axioms demo_quiet demo_acceptor_init main kernel s(1) small] obtain srv' w' k where
    r: "loop_rounds ?user 0 ?rounds (srv, w) = Inr (srv', w')" "conns w' 0 = Some k" "0 < refs k" "\<forall>fd. connections w' fd \<noteq> Some 0"
    by (auto simp del: loop_rounds.simps)
  with main r show ?thesis by blast
qed

end
