(* ===== verification/ThreadExamples.thy ===== *)
theory ThreadExamples
  imports Sync
begin

text \<open>
  The programs on threads under \<^verbatim>\<open>simplifyMuduo/examples/\<close>: \<^verbatim>\<open>MutexTest.cc\<close>, \<^verbatim>\<open>BlockingQueueTest.cc\<close>,
  \<^verbatim>\<open>ThreadPoolTest.cc\<close> and \<^verbatim>\<open>Thread_test.cc\<close>. The lemmas show that the guarded pushes of \<^verbatim>\<open>MutexTest\<close> lose nothing,
  which pointers the tasks of \<^verbatim>\<open>BlockingQueueTest\<close> may use, and what the other two run.
\<close>

section \<open>MutexTest\<close>

definition kCount :: nat where
  "kCount = 1 * 1000 * 1000"

definition kMaxThreads :: nat where
  "kMaxThreads = 8"

text \<open>Where a thread is in \<^verbatim>\<open>UserTask\<close>; the number is its \<^verbatim>\<open>i\<close>.\<close>

datatype task_place = NoTask | TaskTest nat | TaskLock nat | TaskPush nat | TaskUnlock nat | TaskDone

text \<open>An element of \<open>g_vec\<close> is paired with the thread that pushed it.\<close>

record mutex_test =
  g_mutex :: mutex
  g_vec :: "(nat \<times> int) list"
  task_place :: "nat \<Rightarrow> task_place"

definition at_task :: "nat \<Rightarrow> task_place \<Rightarrow> mutex_test \<Rightarrow> mutex_test" where
  "at_task t p s = s\<lparr>task_place := (task_place s)(t := p)\<rparr>"

text \<open>The next statement of \<^verbatim>\<open>UserTask\<close> in thread \<open>t\<close>, for the bound \<open>bound\<close> of its loop.\<close>

definition UserTask :: "nat \<Rightarrow> nat \<Rightarrow> mutex_test \<Rightarrow> mutex_test result option" where
  "UserTask bound t s =
     (case task_place s t of
        TaskTest i \<Rightarrow> Some (Inr (at_task t (if i < bound then TaskLock i else TaskDone) s))
      | TaskLock i \<Rightarrow> map_option (\<lambda>m. Inr (at_task t (TaskPush i) (s\<lparr>g_mutex := m\<rparr>))) (MutexLock_lock t (g_mutex s))
      | TaskPush i \<Rightarrow> Some (Inr (at_task t (TaskUnlock i) (s\<lparr>g_vec := g_vec s @ [(t, int i)]\<rparr>)))
      | TaskUnlock i \<Rightarrow> Some (andThen (MutexLock_unlock t (g_mutex s)) (\<lambda>m. Inr (at_task t (TaskTest (i + 1)) (s\<lparr>g_mutex := m\<rparr>))))
      | _ \<Rightarrow> None)"

text \<open>One round of the last loop of \<^verbatim>\<open>main\<close>: the vector is cleared and \<open>n\<close> threads are started.\<close>

definition MutexTest_round :: "nat \<Rightarrow> mutex_test" where
  "MutexTest_round n = \<lparr>g_mutex = MutexLock_init, g_vec = [], task_place = (\<lambda>t. if t < n then TaskTest 0 else NoTask)\<rparr>"

text \<open>The loop of \<^verbatim>\<open>main\<close> without lock.\<close>

function push_loop :: "nat \<Rightarrow> nat \<Rightarrow> int list \<Rightarrow> int list" where
  "push_loop bound i v = (if i < bound then push_loop bound (i + 1) (v @ [int i]) else v)"
  by auto
termination by (relation "measure (\<lambda>(bound, i, v). bound - i)") auto

declare push_loop.simps [simp del]

lemma push_loop_eq: "push_loop bound i v = v @ map int [i..<bound]"
proof (induction bound i v rule: push_loop.induct)
  case (1 bound i v)
  then show ?case by (subst push_loop.simps) (simp add: upt_conv_Cons)
qed

definition in_task :: "task_place \<Rightarrow> bool" where
  "in_task p = (case p of TaskPush i \<Rightarrow> True | TaskUnlock i \<Rightarrow> True | _ \<Rightarrow> False)"

lemma at_task_simps [simp]:
  "task_place (at_task t p s) t = p" "u \<noteq> t \<Longrightarrow> task_place (at_task t p s) u = task_place s u"
  "g_mutex (at_task t p s) = g_mutex s" "g_vec (at_task t p s) = g_vec s"
  by (simp_all add: at_task_def)

lemma UserTask_cases [consumes 1, case_names test lock push unlock]:
  assumes "UserTask bound t s = Some (Inr s')"
  obtains
    (test) i where "task_place s t = TaskTest i" "s' = at_task t (if i < bound then TaskLock i else TaskDone) s"
  | (lock) i where "task_place s t = TaskLock i" "g_mutex s = None" "s' = at_task t (TaskPush i) (s\<lparr>g_mutex := Some t\<rparr>)"
  | (push) i where "task_place s t = TaskPush i" "s' = at_task t (TaskUnlock i) (s\<lparr>g_vec := g_vec s @ [(t, int i)]\<rparr>)"
  | (unlock) i where "task_place s t = TaskUnlock i" "g_mutex s = Some t" "s' = at_task t (TaskTest (i + 1)) (s\<lparr>g_mutex := None\<rparr>)"
proof (cases "task_place s t")
  case (TaskTest i)
  with assms show ?thesis by (simp add: UserTask_def test)
next
  case (TaskLock i)
  with assms show ?thesis by (auto simp: UserTask_def intro: lock)
next
  case (TaskPush i)
  with assms show ?thesis by (simp add: UserTask_def push)
next
  case (TaskUnlock i)
  with assms show ?thesis by (auto simp: UserTask_def andThen_eq_Inr intro: unlock)
qed (use assms in \<open>simp_all add: UserTask_def\<close>)

text \<open>\<open>tasks_run bound n s\<close>: a state of the round with \<open>n\<close> threads.\<close>

inductive tasks_run :: "nat \<Rightarrow> nat \<Rightarrow> mutex_test \<Rightarrow> bool" for bound n where
  round_starts: "tasks_run bound n (MutexTest_round n)"
| task_runs: "tasks_run bound n s \<Longrightarrow> UserTask bound t s = Some (Inr s') \<Longrightarrow> tasks_run bound n s'"

lemma UserTask_discipline:
  assumes "UserTask bound t s = Some (Inr s')"
  shows "g_mutex s' = g_mutex s \<and> (in_task (task_place s' t) \<longleftrightarrow> in_task (task_place s t))
      \<or> MutexLock_lock t (g_mutex s) = Some (g_mutex s') \<and> in_task (task_place s' t)
      \<or> in_task (task_place s t) \<and> MutexLock_unlock t (g_mutex s) = Inr (g_mutex s') \<and> \<not> in_task (task_place s' t)"
  using assms by (cases rule: UserTask_cases) (simp_all add: in_task_def)

lemma UserTask_others:
  assumes "UserTask bound t s = Some (Inr s')" "u \<noteq> t"
  shows "task_place s' u = task_place s u"
  using assms by (cases rule: UserTask_cases) simp_all

interpretation task_section: guarded_section g_mutex "\<lambda>s t. in_task (task_place s t)"
  "\<lambda>t s s'. UserTask bound t s = Some (Inr s')" "\<lambda>s. s = MutexTest_round n" for bound n
  by (rule guarded_section.intro, (simp_all add: MutexTest_round_def MutexLock_init_def in_task_def)[2],
      simp add: UserTask_others, erule UserTask_discipline)

lemma tasks_run_reachable: "tasks_run bound n s \<Longrightarrow> task_section.reachable bound n s"
  by (induction rule: tasks_run.induct) (auto intro: task_section.reachable_start task_section.reachable_step)

text \<open>What thread \<open>t\<close> has pushed is what its place says.\<close>

fun pushed_at :: "nat \<Rightarrow> task_place \<Rightarrow> nat" where
  "pushed_at bound NoTask = 0"
| "pushed_at bound (TaskTest i) = i"
| "pushed_at bound (TaskLock i) = i"
| "pushed_at bound (TaskPush i) = i"
| "pushed_at bound (TaskUnlock i) = i + 1"
| "pushed_at bound TaskDone = bound"

fun index_ok :: "nat \<Rightarrow> task_place \<Rightarrow> bool" where
  "index_ok bound (TaskTest i) \<longleftrightarrow> i \<le> bound"
| "index_ok bound (TaskLock i) \<longleftrightarrow> i < bound"
| "index_ok bound (TaskPush i) \<longleftrightarrow> i < bound"
| "index_ok bound (TaskUnlock i) \<longleftrightarrow> i < bound"
| "index_ok bound p \<longleftrightarrow> True"

definition pushed_by :: "nat \<Rightarrow> (nat \<times> int) list \<Rightarrow> int list" where
  "pushed_by t v = map snd (filter (\<lambda>e. fst e = t) v)"

lemma pushed_by_append [simp]: "pushed_by t (v @ [(u, x)]) = pushed_by t v @ (if u = t then [x] else [])"
  by (simp add: pushed_by_def)

definition tasks_ok :: "nat \<Rightarrow> nat \<Rightarrow> mutex_test \<Rightarrow> bool" where
  "tasks_ok bound n s \<longleftrightarrow> (\<forall>t. pushed_by t (g_vec s) = map int [0..<pushed_at bound (task_place s t)]
     \<and> index_ok bound (task_place s t) \<and> (task_place s t = NoTask \<longleftrightarrow> n \<le> t)) \<and> (\<forall>e \<in> set (g_vec s). fst e < n)"

lemma tasks_run_ok: "tasks_run bound n s \<Longrightarrow> tasks_ok bound n s"
proof (induction rule: tasks_run.induct)
  case round_starts
  show ?case by (simp add: tasks_ok_def MutexTest_round_def pushed_by_def)
next
  case (task_runs s t s')
  then have mine: "pushed_by t (g_vec s) = map int [0..<pushed_at bound (task_place s t)]" "index_ok bound (task_place s t)"
    "task_place s t = NoTask \<longleftrightarrow> n \<le> t" by (auto simp: tasks_ok_def)
  from task_runs.hyps(2) show ?case
  proof (cases rule: UserTask_cases)
    case (push i)
    with mine have "t < n" by simp
    with push mine task_runs.IH show ?thesis by (auto simp: tasks_ok_def at_task_def)
  qed (use mine task_runs.IH in \<open>auto simp: tasks_ok_def at_task_def\<close>)
qed

lemma length_by_threads:
  "\<forall>e \<in> set v. fst e < n \<Longrightarrow> length v = (\<Sum>t<n. length (pushed_by t v))"
proof (induction v rule: rev_induct)
  case (snoc e v)
  then have "fst e < n" "length v = (\<Sum>t<n. length (pushed_by t v))" by auto
  moreover have "(\<Sum>t<n. length (pushed_by t (v @ [e]))) = (\<Sum>t<n. length (pushed_by t v)) + (\<Sum>t<n. if t = fst e then 1 else 0)"
    unfolding sum.distrib [symmetric] by (rule sum.cong) (auto simp: pushed_by_def)
  ultimately show ?case by (simp add: sum.delta)
qed (simp add: pushed_by_def)

text \<open>Two threads are never at the \<^verbatim>\<open>push_back\<close> at the same time, so it may be one step.\<close>

lemma pushes_exclude:
  assumes "tasks_run bound n s" "task_place s t = TaskPush i" "task_place s u = TaskPush j"
  shows "t = u"
  using task_section.mutual_exclusion [OF tasks_run_reachable [OF assms(1)], of t u] assms(2,3) by (simp add: in_task_def)

text \<open>Until all threads are done, one of them can go on.\<close>

lemma tasks_progress:
  assumes "tasks_run bound n s" "t < n" "task_place s t \<noteq> TaskDone"
  shows "\<exists>u s'. UserTask bound u s = Some (Inr s')"
proof (cases "g_mutex s")
  case None
  then have "\<not> in_task (task_place s t)"
    using task_section.critical_holds [OF tasks_run_reachable [OF assms(1)], of t] by simp
  moreover have "task_place s t \<noteq> NoTask" using tasks_run_ok [OF assms(1)] assms(2) by (auto simp: tasks_ok_def)
  ultimately show ?thesis
    using None assms(3) by (intro exI [of _ t]) (cases "task_place s t"; simp add: UserTask_def in_task_def)
next
  case (Some h)
  then have "in_task (task_place s h)"
    using task_section.critical_holds [OF tasks_run_reachable [OF assms(1)], of h] by simp
  with Some show ?thesis
    by (intro exI [of _ h]) (cases "task_place s h"; simp add: UserTask_def in_task_def)
qed

text \<open>
  Every element is pushed: when the \<open>n\<close> threads have returned, each has pushed \<open>0\<close> to \<open>bound - 1\<close> in this order, and
  nothing else is in the vector.
\<close>

theorem guarded_pushes_all_there:
  assumes "tasks_run bound n s" "\<forall>t < n. task_place s t = TaskDone"
  shows "(\<forall>t < n. pushed_by t (g_vec s) = map int [0..<bound]) \<and> length (g_vec s) = n * bound"
proof -
  note ok = tasks_run_ok [OF assms(1), unfolded tasks_ok_def]
  have each: "\<forall>t < n. pushed_by t (g_vec s) = map int [0..<bound]"
    using ok assms(2) by (metis pushed_at.simps(6))
  moreover have "length (g_vec s) = (\<Sum>t<n. length (pushed_by t (g_vec s)))"
    using ok by (intro length_by_threads) blast
  ultimately show ?thesis by simp
qed

section \<open>BlockingQueueTest\<close>

text \<open>\<^verbatim>\<open>testMove\<close>: the integer behind the pointer that travels through the queue twice; what is printed.\<close>

definition testMove :: "int list option" where
  "testMove =
     (case bq_take_locked (bq_put 3 BlockingQueue_init) of
        (Some x, q) \<Rightarrow> (case bq_take_locked (bq_put (300 :: int) q) of (Some y, q') \<Rightarrow> Some [x, y] | _ \<Rightarrow> None)
      | _ \<Rightarrow> None)"

lemma testMove_prints: "testMove = Some [3, 300]"
  by code_simp

text \<open>
  A task carries its string and the address of the local \<^verbatim>\<open>param\<close> of the round that made it. \<open>bt_param\<close> is that local
  while it lives: the round and the value.
\<close>

record queue_test =
  bt_threads :: "thread list"
  bt_queue :: "(string \<times> nat) blocking_queue"
  bt_param :: "(nat \<times> int) option"
  bt_printed :: "(string \<times> int) list"

fun test_threads :: "(nat \<Rightarrow> int option) \<Rightarrow> int \<Rightarrow> nat \<Rightarrow> thread list" where
  "test_threads created gettid 0 = []"
| "test_threads created gettid (Suc i) =
     test_threads created gettid i @ [Thread_start (created i) (Thread_init (take 31 (''work thread '' @ int_to_string (int i))) gettid)]"

definition QueueTest_new :: "(nat \<Rightarrow> int option) \<Rightarrow> int \<Rightarrow> nat \<Rightarrow> queue_test" where
  "QueueTest_new created gettid threadNum =
     \<lparr>bt_threads = test_threads created gettid threadNum, bt_queue = BlockingQueue_init, bt_param = None, bt_printed = []\<rparr>"

text \<open>\<^verbatim>\<open>producerTask\<close> reads the integer its pointer points to.\<close>

definition producerTask :: "string \<Rightarrow> nat \<Rightarrow> queue_test \<Rightarrow> queue_test result" where
  "producerTask str p s =
     (case bt_param s of
        Some (i, v) \<Rightarrow> if i = p then Inr (s\<lparr>bt_printed := bt_printed s @ [(str, v)]\<rparr>) else Inl UseAfterFree
      | None \<Rightarrow> Inl UseAfterFree)"

text \<open>One round of \<^verbatim>\<open>consumerTask\<close> that finds a task.\<close>

definition consumerTask :: "queue_test \<Rightarrow> queue_test result" where
  "consumerTask s =
     (case bq_take_locked (bt_queue s) of
        (None, q) \<Rightarrow> Inr s
      | (Some (str, p), q) \<Rightarrow> producerTask str p (s\<lparr>bt_queue := q\<rparr>))"

definition work_name :: "nat \<Rightarrow> string" where
  "work_name i = take 31 (''work thread times = '' @ int_to_string (int i))"

text \<open>
  \<^verbatim>\<open>mainThreadToPutTask\<close>: in each round \<^verbatim>\<open>param\<close> begins to live, the task is put, \<open>prompt i\<close> says how many rounds the
  consumers make during the \<^verbatim>\<open>sleep(1)\<close>, and \<^verbatim>\<open>param\<close> is gone.
\<close>

fun consume :: "nat \<Rightarrow> queue_test \<Rightarrow> queue_test result" where
  "consume 0 s = Inr s"
| "consume (Suc n) s = andThen (consumerTask s) (consume n)"

fun put_tasks :: "(nat \<Rightarrow> nat) \<Rightarrow> nat \<Rightarrow> nat \<Rightarrow> queue_test \<Rightarrow> queue_test result" where
  "put_tasks prompt i 0 s = Inr s"
| "put_tasks prompt i (Suc n) s =
     andThen (consume (prompt i) (s\<lparr>bt_param := Some (i, int i * 10), bt_queue := bq_put (work_name i, i) (bt_queue s)\<rparr>))
       (\<lambda>s'. put_tasks prompt (Suc i) n (s'\<lparr>bt_param := None\<rparr>))"

definition mainThreadToPutTask :: "(nat \<Rightarrow> nat) \<Rightarrow> nat \<Rightarrow> queue_test \<Rightarrow> queue_test result" where
  "mainThreadToPutTask prompt rounds s = put_tasks prompt 0 rounds s"

text \<open>A consumer that makes at least one round per second prints every task; \<open>0 < prompt i\<close> is what the sleep hopes for.\<close>

lemma consume_empty: "bq_queue (bt_queue s) = [] \<Longrightarrow> consume n s = Inr s"
  by (induction n) (simp_all add: consumerTask_def bq_take_locked_def)

lemma put_tasks_prompt:
  assumes "\<forall>j. 0 < prompt j" "bq_queue (bt_queue s) = []" "bq_waiting (bt_queue s) = 0"
  shows "\<exists>s'. put_tasks prompt i n s = Inr s' \<and> bq_queue (bt_queue s') = [] \<and> bq_waiting (bt_queue s') = 0
    \<and> bt_printed s' = bt_printed s @ map (\<lambda>j. (work_name j, int j * 10)) [i..<i + n]"
  using assms(2,3)
proof (induction n arbitrary: i s)
  case (Suc n)
  obtain k where k: "prompt i = Suc k" using assms(1) by (metis gr0_conv_Suc)
  let ?s1 = "s\<lparr>bt_param := Some (i, int i * 10), bt_queue := (bt_queue s)\<lparr>bq_queue := []\<rparr>, bt_printed := bt_printed s @ [(work_name i, int i * 10)]\<rparr>"
  have "consume (prompt i) (s\<lparr>bt_param := Some (i, int i * 10), bt_queue := bq_put (work_name i, i) (bt_queue s)\<rparr>) = consume k ?s1"
    using Suc.prems by (simp add: k consumerTask_def bq_take_locked_def bq_put_def bq_notify_def producerTask_def)
  also have "\<dots> = Inr ?s1" using Suc.prems by (simp add: consume_empty)
  finally have run: "put_tasks prompt i (Suc n) s = put_tasks prompt (Suc i) n (?s1\<lparr>bt_param := None\<rparr>)" by simp
  have "[i..<i + Suc n] = i # [Suc i..<Suc i + n]" by (simp add: upt_conv_Cons)
  with Suc.IH [of "?s1\<lparr>bt_param := None\<rparr>" "Suc i"] Suc.prems show ?case unfolding run by auto
qed simp

text \<open>
  A consumer that comes a second late reads the local of a round that has ended: here it makes no round during the
  first sleep.
\<close>

lemma late_consumer_reads_dead_local:
  assumes "prompt 0 = 0" "0 < prompt 1" "2 \<le> rounds"
  shows "mainThreadToPutTask prompt rounds (QueueTest_new created gettid n) = Inl UseAfterFree"
proof -
  obtain k m where "prompt 1 = Suc k" "rounds = Suc (Suc m)"
    using assms(2,3) by (metis Suc_le_D gr0_conv_Suc numeral_2_eq_2 Suc_le_mono)
  with assms(1) show ?thesis
    by (simp add: mainThreadToPutTask_def QueueTest_new_def BlockingQueue_init_def bq_put_def bq_notify_def consumerTask_def
        bq_take_locked_def producerTask_def)
qed

section \<open>ThreadPoolTest\<close>

text \<open>The tasks are named; \<open>pool_task_at i\<close> is the \<open>i\<close>-th bound call of \<^verbatim>\<open>UserThreadTask02\<close>.\<close>

datatype pool_task = UserThreadTask01 | UserThreadTask02 string

definition pool_task_at :: "nat \<Rightarrow> pool_task" where
  "pool_task_at i = UserThreadTask02 (take 31 (''task '' @ int_to_string (int i)))"

fun add_tasks ::
  "(pool_task \<Rightarrow> 's \<Rightarrow> 's result) \<Rightarrow> pool_task list \<Rightarrow> pool_task thread_pool \<Rightarrow> 's \<Rightarrow> (pool_task thread_pool \<times> 's) result" where
  "add_tasks run [] p s = Inr (p, s)"
| "add_tasks run (f # fs) p s = andThen (addTask run f p s) (\<lambda>(p', s'). add_tasks run fs p' s')"

definition ThreadPoolTest_main ::
  "(nat \<Rightarrow> int option) \<Rightarrow> int \<Rightarrow> (pool_task \<Rightarrow> 's \<Rightarrow> 's result) \<Rightarrow> 's \<Rightarrow> (pool_task thread_pool \<times> 's) result" where
  "ThreadPoolTest_main created gettid run s =
     add_tasks run (UserThreadTask01 # UserThreadTask01 # map pool_task_at [0..<100])
       (ThreadPool_start created gettid 5 (ThreadPool_init ''my threadPoll test'')) s"

lemma add_tasks_queue:
  assumes "tp_threads p \<noteq> []"
  shows "\<exists>p'. add_tasks run fs p s = Inr (p', s) \<and> tp_threads p' = tp_threads p
    \<and> bq_queue (tp_tasks p') = bq_queue (tp_tasks p) @ fs"
  using assms
proof (induction fs arbitrary: p)
  case (Cons f fs)
  let ?p = "p\<lparr>tp_tasks := bq_put f (tp_tasks p)\<rparr>"
  have "addTask run f p s = Inr (?p, s)" using Cons.prems by (simp add: addTask_def)
  with Cons.IH [of ?p] Cons.prems show ?case by (auto simp: bq_put_def bq_notify_def)
qed simp

text \<open>The main thread runs none of the 102 tasks itself: all are in the queue, in the order in which they were added.\<close>

lemma ThreadPoolTest_queues_all:
  "\<exists>p. ThreadPoolTest_main created gettid run s = Inr (p, s) \<and> length (tp_threads p) = 5
    \<and> bq_queue (tp_tasks p) = UserThreadTask01 # UserThreadTask01 # map pool_task_at [0..<100]"
proof -
  let ?p = "ThreadPool_start created gettid 5 (ThreadPool_init ''my threadPoll test'') :: pool_task thread_pool"
  have p: "length (tp_threads ?p) = 5" "bq_queue (tp_tasks ?p) = []"
    by (simp_all add: ThreadPool_start_def ThreadPool_init_def BlockingQueue_init_def numeral_eq_Suc Let_def)
  then have "tp_threads ?p \<noteq> []" by auto
  from add_tasks_queue [OF this, of run "UserThreadTask01 # UserThreadTask01 # map pool_task_at [0..<100]" s] p
  show ?thesis unfolding ThreadPoolTest_main_def by fastforce
qed

section \<open>Counting down in a thread\<close>

text \<open>
  The loop \<^verbatim>\<open>while (count--)\<close> of \<^verbatim>\<open>ThreadFunc2\<close> and of \<^verbatim>\<open>Foo\<close>: how often its body runs and what \<^verbatim>\<open>count\<close> is
  afterwards. The decrement of the smallest \<^verbatim>\<open>int\<close> overflows.
\<close>

function count_down :: "int \<Rightarrow> nat \<Rightarrow> (nat \<times> int) result" where
  "count_down c printed =
     (if c \<le> - (2 ^ 31) then Inl IntOverflow
      else if c = 0 then Inr (printed, c - 1)
      else count_down (c - 1) (printed + 1))"
  by auto
termination by (relation "measure (\<lambda>(c, printed). nat (c + 2 ^ 31))") auto

declare count_down.simps [simp del]

definition ThreadFunc2 :: "int \<Rightarrow> nat result" where
  "ThreadFunc2 c = andThen (count_down c 0) (\<lambda>(printed, c'). Inr printed)"

definition MemberFun :: "int \<Rightarrow> (nat \<times> int) result" where
  "MemberFun foo_count = count_down foo_count 0"

lemma count_down_returns: "count_down (int n) printed = Inr (printed + n, -1)"
proof (induction n arbitrary: printed)
  case 0
  show ?case by (subst count_down.simps) simp
next
  case (Suc n)
  then show ?case by (subst count_down.simps) simp
qed

lemma count_down_overflows: "c < 0 \<Longrightarrow> - (2 ^ 31) \<le> c \<Longrightarrow> count_down c printed = Inl IntOverflow"
proof (induction c printed rule: count_down.induct)
  case (1 c printed)
  then show ?case by (subst count_down.simps) auto
qed

text \<open>
  The body runs \<open>count\<close> times for a count that is not negative; otherwise the loop ends only in an overflow. A
  second call of \<^verbatim>\<open>MemberFun\<close> on the same object is such a call: the first leaves -1.
\<close>

lemma ThreadFunc2_prints:
  assumes "- (2 ^ 31) \<le> c"
  shows "ThreadFunc2 c = (if 0 \<le> c then Inr (nat c) else Inl IntOverflow)"
proof (cases "0 \<le> c")
  case True
  with count_down_returns [of "nat c" 0] show ?thesis by (simp add: ThreadFunc2_def)
next
  case False
  with count_down_overflows [of c 0] assms show ?thesis by (simp add: ThreadFunc2_def)
qed

lemma MemberFun_twice:
  "andThen (MemberFun (int n)) (\<lambda>(printed, c). MemberFun c) = Inl IntOverflow"
  using count_down_overflows [of "-1" 0] by (simp add: MemberFun_def count_down_returns)

text \<open>The four threads of \<^verbatim>\<open>main\<close> are started in order, then joined in order; their objects are destroyed at its end.\<close>

definition Thread_test_main :: "(nat \<Rightarrow> int option) \<Rightarrow> int \<Rightarrow> pthread_call list" where
  "Thread_test_main created gettid =
     (let threads = map (\<lambda>i. Thread_start (created i) (Thread_init '''' gettid)) [0..<4]
      in concat (map (\<lambda>t. Thread_dtor (Thread_join t)) threads))"

text \<open>
  If every thread could be created, each is joined once and none detached; one that could not be created is
  joined all the same, by the identifier 0 its object began with.
\<close>

lemma Thread_test_joins:
  "Thread_test_main created gettid = map (\<lambda>i. PthreadJoin (case created i of None \<Rightarrow> 0 | Some p \<Rightarrow> p)) [0..<4]"
proof -
  have one: "Thread_dtor (Thread_join (Thread_start c (Thread_init n g))) = [PthreadJoin (case c of None \<Rightarrow> 0 | Some p \<Rightarrow> p)]" for c n g
    by (cases c) (simp_all add: Thread_dtor_def Thread_join_def Thread_start_def Thread_init_def setDefaultName_def Let_def)
  show ?thesis by (simp add: Thread_test_main_def one comp_def Let_def numeral_eq_Suc)
qed

end
