(* ===== verification/TimerExamples.thy ===== *)
theory TimerExamples
  imports TimerQueue EventLoop Channel
begin

text \<open>
  How \<^verbatim>\<open>EventLoop\<close> is put together (its constructor with that of \<^verbatim>\<open>TimerQueue\<close>, and the destructors), and the programs
  \<^verbatim>\<open>TimeQueueTest.cc\<close> and \<^verbatim>\<open>TimestampTest.cc\<close> under \<^verbatim>\<open>simplifyMuduo/examples/\<close>. The lemmas show what a new loop
  listens to, that the histogram of \<^verbatim>\<open>TimestampTest\<close> counts every step once inside its array, and that
  \<^verbatim>\<open>TimeQueueTest\<close> runs into the fault of \<^verbatim>\<open>cancelTimer\<close>.
\<close>

section \<open>Building a loop\<close>

text \<open>The answer of \<^verbatim>\<open>timerfd_create\<close>, \<open>fd\<close>, is used whatever it is; \<open>p\<close> names the channel object.\<close>

definition TimerQueue_new :: "nat \<Rightarrow> int \<Rightarrow> epoll_set \<Rightarrow> channel \<times> epoll_set" where
  "TimerQueue_new p fd s = enableReading (setCallback (Channel_init p fd)) s"

text \<open>
  A loop with its two channels and its interest list; \<open>lp_tid\<close> is \<^verbatim>\<open>_threadId\<close>, \<open>lp_open\<close> lists the descriptors the
  loop has created and not closed.
\<close>

record 'f io_loop =
  lp_tid :: int
  lp_events :: "'f event_loop"
  lp_interest :: epoll_set
  lp_timer_channel :: channel
  lp_event_channel :: channel
  lp_open :: "int list"

definition EventLoop_new :: "int \<Rightarrow> int \<Rightarrow> nat \<Rightarrow> int \<Rightarrow> nat \<Rightarrow> int \<Rightarrow> 'f io_loop" where
  "EventLoop_new tid epollfd p timerfd p' eventfd =
     (let (tch, s) = TimerQueue_new p timerfd (\<lambda>fd. None);
          (ech, s') = enableReading (setCallback (Channel_init p' eventfd)) s
      in \<lparr>lp_tid = tid, lp_events = EventLoop_init, lp_interest = s', lp_timer_channel = tch, lp_event_channel = ech,
          lp_open = filter (\<lambda>fd. 0 \<le> fd) [epollfd, timerfd, eventfd]\<rparr>)"

definition isInLoopThread :: "int \<Rightarrow> 'f io_loop \<Rightarrow> bool" where
  "isInLoopThread tid lp \<longleftrightarrow> lp_tid lp = tid"

definition EventLoop_update :: "channel \<Rightarrow> 'f io_loop \<Rightarrow> channel \<times> 'f io_loop" where
  "EventLoop_update ch lp = (let (ch', s) = Epoll_update ch (lp_interest lp) in (ch', lp\<lparr>lp_interest := s\<rparr>))"

text \<open>Both descriptors are watched by their channels, which are the only ones.\<close>

lemma new_loop_listens:
  assumes "0 \<le> timerfd" "0 \<le> eventfd" "timerfd \<noteq> eventfd" "lp = EventLoop_new tid epollfd p timerfd p' eventfd"
  shows "lp_interest lp = [timerfd \<mapsto> (EPOLLIN, p), eventfd \<mapsto> (EPOLLIN, p')]"
    and "in_sync (lp_timer_channel lp) (lp_interest lp)" "in_sync (lp_event_channel lp) (lp_interest lp)"
  using assms
  by (auto simp: EventLoop_new_def TimerQueue_new_def enableReading_def setCallback_def Channel_init_def Epoll_update_def
      setIndex_def epoll_add_def in_sync_def Let_def)

text \<open>A loop whose \<^verbatim>\<open>eventfd\<close> could not be created is built all the same and watches nothing that could wake it up.\<close>

lemma loop_without_eventfd:
  assumes "eventfd < 0"
  shows "lp_interest (EventLoop_new tid epollfd p timerfd p' eventfd) fd = (if fd = timerfd \<and> 0 \<le> fd then Some (EPOLLIN, p) else None)"
  using assms
  by (auto simp: EventLoop_new_def TimerQueue_new_def enableReading_def setCallback_def Channel_init_def Epoll_update_def
      setIndex_def epoll_add_def Let_def)

text \<open>
  The destructor of \<^verbatim>\<open>EventLoop\<close>: of the members, only \<^verbatim>\<open>TimerQueue\<close> closes its descriptor; \<^verbatim>\<open>Epoll\<close> and
  \<^verbatim>\<open>EventLoop\<close> itself only print.
\<close>

definition EventLoop_dtor ::
  "'f io_loop \<Rightarrow> ('c, 's) timer_queue \<Rightarrow> ('f io_loop \<times> ('c, 's) timer_queue) result" where
  "EventLoop_dtor lp q =
     andThen (TimerQueue_dtor (lp_timer_channel lp) (lp_interest lp) q) (\<lambda>(s, q').
       Inr (lp\<lparr>lp_interest := s, lp_open := filter (\<lambda>fd. fd \<noteq> ch_fd (lp_timer_channel lp)) (lp_open lp)\<rparr>, q'))"

text \<open>Every loop leaves two descriptors open.\<close>

lemma destroyed_loop_leaks:
  assumes "0 \<le> epollfd" "0 \<le> timerfd" "0 \<le> eventfd" "distinct [epollfd, timerfd, eventfd]"
    and "EventLoop_dtor (EventLoop_new tid epollfd p timerfd p' eventfd) q = Inr (lp, q')"
  shows "lp_open lp = [epollfd, eventfd]"
  using assms
  by (auto simp: EventLoop_dtor_def EventLoop_new_def TimerQueue_new_def enableReading_def setCallback_def Channel_init_def
      Epoll_update_def setIndex_def epoll_add_def andThen_eq_Inr Let_def)

section \<open>TimestampTest\<close>

definition kNumber :: nat where
  "kNumber = 1000 * 1000"

text \<open>What the loop of \<^verbatim>\<open>benchmark\<close> prints besides the histogram; the gap is converted to \<^verbatim>\<open>int\<close>.\<close>

datatype gap = Reverse | BigGap "32 word"

definition increment_at :: "nat list \<Rightarrow> int \<Rightarrow> nat list result" where
  "increment_at incs i = (if 0 \<le> i \<and> i < int (length incs) then Inr (incs[nat i := incs ! nat i + 1]) else Inl OutOfBounds)"

fun benchmark_loop :: "int64 \<Rightarrow> timestamp list \<Rightarrow> nat list \<Rightarrow> gap list \<Rightarrow> (nat list \<times> gap list) result" where
  "benchmark_loop start [] incs gaps = Inr (incs, gaps)"
| "benchmark_loop start (t # ts) incs gaps =
     (let next = microSecondsSinceEpoch t; inc = sint (next - start)
      in if inc < 0 then benchmark_loop next ts incs (gaps @ [Reverse])
         else if inc < 100 then andThen (increment_at incs inc) (\<lambda>incs'. benchmark_loop next ts incs' gaps)
         else benchmark_loop next ts incs (gaps @ [BigGap (word_of_int inc)]))"

definition benchmark :: "timestamp list \<Rightarrow> (nat list \<times> gap list) result" where
  "benchmark stamps =
     (case stamps of [] \<Rightarrow> Inl OutOfBounds
      | t # ts \<Rightarrow> benchmark_loop (microSecondsSinceEpoch t) ts (replicate 100 0) [])"

lemma benchmark_loop_counts:
  assumes "length incs = 100"
  shows "\<exists>incs' gaps'. benchmark_loop start ts incs gaps = Inr (incs', gaps') \<and> length incs' = 100
    \<and> sum_list incs' + length gaps' = sum_list incs + length gaps + length ts"
  using assms
proof (induction ts arbitrary: start incs gaps)
  case (Cons t ts)
  let ?inc = "sint (microSecondsSinceEpoch t - start)"
  consider "?inc < 0" | "0 \<le> ?inc" "?inc < 100" | "100 \<le> ?inc" by linarith
  then show ?case
  proof cases
    case 1
    with Cons.IH [OF Cons.prems, of "microSecondsSinceEpoch t" "gaps @ [Reverse]"] show ?thesis by (simp add: Let_def)
  next
    case 2
    let ?i = "nat ?inc"
    have i: "?i < length incs" using 2 Cons.prems by simp
    have "length (incs[?i := incs ! ?i + 1]) = 100" using Cons.prems by simp
    from Cons.IH [OF this, of "microSecondsSinceEpoch t" gaps] 2 i Cons.prems show ?thesis
      by (auto simp: Let_def increment_at_def sum_list_update elem_le_sum_list)
  next
    case 3
    with Cons.IH [OF Cons.prems, of "microSecondsSinceEpoch t" "gaps @ [BigGap (word_of_int ?inc)]"] show ?thesis
      by (simp add: Let_def)
  qed
qed simp

text \<open>
  The histogram is complete and stays inside its array: for any stamps, also when the clock goes backwards, each step between
  two of them is counted once or printed once.
\<close>

lemma benchmark_counts_all:
  assumes "stamps \<noteq> []"
  shows "\<exists>incs gaps. benchmark stamps = Inr (incs, gaps) \<and> length incs = 100
    \<and> sum_list incs + length gaps = length stamps - 1"
proof -
  obtain t ts where "stamps = t # ts" using assms by (cases stamps) auto
  with benchmark_loop_counts [of "replicate 100 0" "microSecondsSinceEpoch t" ts "[]"] show ?thesis
    by (auto simp: benchmark_def sum_list_replicate)
qed

section \<open>TimeQueueTest\<close>

text \<open>The callbacks the program binds, and its globals: the counter, the loop's flag, and what is printed.\<close>

datatype test_callback = PrintMsg string | CancelMsg timer_id

record test_globals =
  tg_cnt :: int
  tg_quit :: bool
  tg_printed :: "string list"

definition TimeQueueTest_print :: "string \<Rightarrow> test_globals \<Rightarrow> test_globals" where
  "TimeQueueTest_print msg g =
     (let g1 = g\<lparr>tg_printed := tg_printed g @ [msg], tg_cnt := tg_cnt g + 1\<rparr>
      in if tg_cnt g1 = 20 then g1\<lparr>tg_quit := True\<rparr> else g1)"

definition TimeQueueTest_cancel ::
  "timer_id \<Rightarrow> (test_callback, test_globals) timer_queue \<Rightarrow> (test_callback, test_globals) timer_queue result" where
  "TimeQueueTest_cancel t q = cancelTimer True t q"

fun test_call ::
  "test_callback \<Rightarrow> (test_callback, test_globals) timer_queue \<Rightarrow> (test_callback, test_globals) timer_queue result" where
  "test_call (PrintMsg msg) q = Inr (q\<lparr>env := TimeQueueTest_print msg (env q)\<rparr>)"
| "test_call (CancelMsg t) q = TimeQueueTest_cancel t q"

text \<open>\<^verbatim>\<open>main\<close> up to \<^verbatim>\<open>loop()\<close>; \<open>p i\<close> is the address of the \<open>i\<close>-th timer.\<close>

definition TimeQueueTest_main ::
  "(double \<Rightarrow> double) \<Rightarrow> (nat \<Rightarrow> ptr) \<Rightarrow> (test_callback, test_globals) timer_queue
    \<Rightarrow> (test_callback, test_globals) timer_queue result" where
  "TimeQueueTest_main rnd p q =
     (let q0 = q\<lparr>env := TimeQueueTest_print ''main'' (env q)\<rparr>;
          after = (\<lambda>i delay cb. runAfter rnd True (p i) delay (Some cb))
      in andThen (after 0 1 (PrintMsg ''once1'') q0) (\<lambda>(_, q1).
         andThen (after 1 (3/2) (PrintMsg ''once1.5'') q1) (\<lambda>(_, q2).
         andThen (after 2 (5/2) (PrintMsg ''once2.5'') q2) (\<lambda>(_, q3).
         andThen (after 3 (7/2) (PrintMsg ''once3.5'') q3) (\<lambda>(_, q4).
         andThen (runEvery rnd True (p 4) 2 (Some (PrintMsg ''every2'')) q4) (\<lambda>(_, q5).
         andThen (after 5 (9/2) (PrintMsg ''once4.5'') q5) (\<lambda>(t45, q6).
         andThen (runEvery rnd True (p 6) 3 (Some (PrintMsg ''every3'')) q6) (\<lambda>(t3, q7).
         andThen (after 7 (21/5) (CancelMsg t45) q7) (\<lambda>(_, q8).
         andThen (after 8 (24/5) (CancelMsg t45) q8) (\<lambda>(_, q9).
         andThen (after 9 5 (CancelMsg t3) q9) (\<lambda>(_, q10). Inr q10)))))))))))"

text \<open>The loop: the timer descriptor becomes readable again and again.\<close>

fun timer_rounds ::
  "(double \<Rightarrow> double) \<Rightarrow> nat \<Rightarrow> (test_callback, test_globals) timer_queue \<Rightarrow> (test_callback, test_globals) timer_queue result" where
  "timer_rounds rnd 0 q = Inr q"
| "timer_rounds rnd (Suc n) q =
     (if tg_quit (env q) then Inr q else andThen (timer_handleRead rnd test_call q) (timer_rounds rnd n))"

definition test_queue :: "timeval list \<Rightarrow> (test_callback, test_globals) timer_queue" where
  "test_queue tvs = \<lparr>pTimers = [], timer_heap = (\<lambda>p. None), clock = tvs, armed = None, sequeue = 0, tq_pending = [],
     env = \<lparr>tg_cnt = 0, tg_quit = False, tg_printed = []\<rparr>\<rparr>"

text \<open>
  The program's own run, on a clock that shows each moment the descriptor gets readable: after seven rounds, at 104.0 s, it
  has printed eight messages; the eighth round runs \<^verbatim>\<open>cancel(t45)\<close> while the timer is pending.
\<close>

definition TimeQueueTest_clock :: "timeval list" where
  "TimeQueueTest_clock =
     replicate 11 (100, 0) @ replicate 2 (101, 0) @ replicate 2 (101, 500000) @ replicate 3 (102, 0) @ replicate 2 (102, 500000)
     @ replicate 3 (103, 0) @ replicate 2 (103, 500000) @ replicate 3 (104, 0) @ [(104, 200000)]"

definition TimeQueueTest_run :: "nat \<Rightarrow> (test_callback, test_globals) timer_queue result" where
  "TimeQueueTest_run n =
     andThen (TimeQueueTest_main (\<lambda>x. x) (\<lambda>i. of_nat i + 1) (test_queue TimeQueueTest_clock)) (timer_rounds (\<lambda>x. x) n)"

lemma TimeQueueTest_prints:
  "map_sum (\<lambda>x. x) (\<lambda>q. tg_printed (env q)) (TimeQueueTest_run 7) =
     Inr [''main'', ''once1'', ''once1.5'', ''every2'', ''once2.5'', ''every3'', ''once3.5'', ''every2'']"
  by code_simp

lemma TimeQueueTest_faults: "map_sum (\<lambda>x. x) env (TimeQueueTest_run 8) = Inl UseAfterFree"
  by code_simp

end
