(* ===== verification/Spec2Isabelle.thy ===== *)
theory Spec2Isabelle
  imports Prelude Endian Buffer Codec RpcMeta WireFormat RpcChannel RpcServer Channel EventLoopThreadPool
    TcpConnection TcpServer TcpClient Timestamps TimerQueue EventLoop Threads Sync EventLoopThread RpcNetwork Examples
    RpcPrograms NetExamples Locality ServerLoop EchoLoop RpcLoop ThreadExamples TimerExamples
begin

text \<open>
  This library models \<^verbatim>\<open>rpc_muduo\<close>: a C++ remote procedure call layer (\<^verbatim>\<open>rpc/\<close>) on a small
  event-driven network library (\<^verbatim>\<open>simplifyMuduo/\<close>).

  \<^bold>\<open>The program.\<close> A caller's stub calls \<^verbatim>\<open>RpcChannel::CallMethod\<close>, which numbers the call and hands a
  \<^verbatim>\<open>RpcMetaMessage\<close> to \<^verbatim>\<open>ProtobufCodecLite\<close>; the codec writes a frame (length, tag, payload, checksum) in network
  byte order into a \<^verbatim>\<open>Buffer\<close> and passes it to \<^verbatim>\<open>TcpConnection::send\<close>. The connection writes what the
  kernel takes and keeps the rest until its \<^verbatim>\<open>Channel\<close> reports \<^verbatim>\<open>EPOLLOUT\<close>. On the other side the loop reads into the
  connection's input buffer, the codec cuts frames out of it, and the server's channel finds the
  service, runs the method and answers on the same path. Connections come from \<^verbatim>\<open>Acceptor\<close>/\<^verbatim>\<open>TcpServer\<close> or
  \<^verbatim>\<open>Connector\<close>/\<^verbatim>\<open>TcpClient\<close>; \<^verbatim>\<open>EventLoop\<close> waits with \<^verbatim>\<open>Epoll\<close>, runs the handlers, the functors
  other threads queued and, through \<^verbatim>\<open>TimerQueue\<close>, the timers.

  \<^bold>\<open>Theories and sources.\<close>
  \<^item> \<open>Prelude\<close>: machine types, faults, the result type, byte vectors; shared lemmas and collections.
  \<^item> \<open>Endian\<close>: \<^verbatim>\<open>simplifyMuduo/include/EndianCode.h\<close>. \<open>Buffer\<close>: \<^verbatim>\<open>Buffer.h\<close>, \<^verbatim>\<open>Buffer.cc\<close>.
  \<^item> \<open>Codec\<close>: \<^verbatim>\<open>rpc/ProtobufCodecLite.h\<close>, \<^verbatim>\<open>.cc\<close> and \<^verbatim>\<open>google-inl.h\<close>.
  \<^item> \<open>RpcMeta\<close>, \<open>WireFormat\<close>: \<^verbatim>\<open>rpc/RpcMeta.pb.h\<close>, \<^verbatim>\<open>.cc\<close>; the second holds the contracts of the protobuf library.
  \<^item> \<open>RpcChannel\<close>, \<open>RpcServer\<close>: the files of the same names in \<^verbatim>\<open>rpc/\<close>.
  \<^item> \<open>Channel\<close>: \<^verbatim>\<open>Channel.h\<close>, \<^verbatim>\<open>Channel.cc\<close>, \<^verbatim>\<open>Epoll.cc\<close>, the constants of \<^verbatim>\<open>Common.h\<close>.
  \<^item> \<open>EventLoopThreadPool\<close>: the pool of loops and its rotation.
  \<^item> \<open>TcpConnection\<close>: \<^verbatim>\<open>TcpConnection.h\<close>, \<^verbatim>\<open>.cc\<close>, the two \<^verbatim>\<open>removeConnection\<close>, the objects and shared pointers around them
    (record \<open>world\<close>).
  \<^item> \<open>TcpServer\<close>: \<^verbatim>\<open>Acceptor\<close> and \<^verbatim>\<open>TcpServer\<close>. \<open>TcpClient\<close>: \<^verbatim>\<open>Connector\<close> and \<^verbatim>\<open>TcpClient\<close>.
  \<^item> \<open>Timestamps\<close>: \<^verbatim>\<open>Timestamp\<close>. \<open>TimerQueue\<close>: \<^verbatim>\<open>Timer.h\<close>, \<^verbatim>\<open>TimerQueue\<close>, the timer interface of \<^verbatim>\<open>EventLoop\<close>.
  \<^item> \<open>EventLoop\<close>: the rest of \<^verbatim>\<open>EventLoop.cc\<close>, with the threads that use it as a step relation.
  \<^item> \<open>Threads\<close>: \<^verbatim>\<open>Thread\<close>, \<^verbatim>\<open>CurrentThread\<close>, \<^verbatim>\<open>ThreadPool\<close> and \<^verbatim>\<open>BlockingQueue\<close>, a critical section being one step.
  \<^item> \<open>Sync\<close>: \<^verbatim>\<open>Mutex.h\<close>, \<^verbatim>\<open>Condition.h\<close> and \<^verbatim>\<open>BlockingQueue.h\<close> statement by statement, threads interleaving freely, as
    a refinement of the queue in \<open>Threads\<close>.
  \<^item> \<open>EventLoopThread\<close>: \<^verbatim>\<open>EventLoopThread\<close> with its destructor, the destructor of \<^verbatim>\<open>EventLoopThreadPool\<close>,
    and the program \<^verbatim>\<open>EventLoopThreadTest\<close>.
  \<^item> \<open>RpcNetwork\<close>: \<^verbatim>\<open>RpcServer\<close> as the user of \<^verbatim>\<open>TcpServer\<close>, the clients of \<^verbatim>\<open>examples/\<close> as users of
    \<^verbatim>\<open>TcpClient\<close>, channels in the world of connections. \<open>Examples\<close>: the programs of \<^verbatim>\<open>examples/sudoku\<close>,
    \<^verbatim>\<open>examples/qpstest\<close> and \<^verbatim>\<open>examples/rpccodec\<close>. \<open>RpcPrograms\<close>: their main functions, and the loop of the sudoku client
    with its timer.
  \<^item> \<open>ServerLoop\<close>: the turns of \<^verbatim>\<open>EventLoop::loop\<close> with \<^verbatim>\<open>Epoll::poll\<close> over the acceptor's channel and the connections'
    own channels, for any service whose handlers work on one connection at a time (\<open>Locality\<close>). \<open>EchoLoop\<close>:
    \<^verbatim>\<open>EchoServerSingleCalcThread\<close> with its main function in this loop. \<open>RpcLoop\<close>: \<^verbatim>\<open>RpcServer\<close>, from \<^verbatim>\<open>main\<close> of
    \<^verbatim>\<open>examples/sudoku/server.cc\<close>, in this loop.
  \<^item> The programs under \<^verbatim>\<open>simplifyMuduo/examples/\<close>: \<open>NetExamples\<close> (the echo servers and the client that reads lines),
    \<open>ThreadExamples\<close> (\<^verbatim>\<open>MutexTest\<close>, \<^verbatim>\<open>BlockingQueueTest\<close>, \<^verbatim>\<open>ThreadPoolTest\<close>, \<^verbatim>\<open>ThreadTest\<close>) and \<open>TimerExamples\<close>
    (\<^verbatim>\<open>TimestampTest\<close>, \<^verbatim>\<open>TimeQueueTest\<close>), which also puts an \<^verbatim>\<open>EventLoop\<close> together from its parts.

  A class is a record of its data members, a method a function on it; a C++ fault (out-of-bounds access, use after free,
  null dereference, thrown exception, exit) is the left value of the result. Objects whose lifetime matters
  live in maps from addresses, with counted shared pointers for connections.

  \<^bold>\<open>What is shown.\<close> The public operations of a buffer refine a byte queue between two free areas; the codec's round trip, its
  verdict on every first frame and its safety on hostile input; the message class, with what its accessors return and with both objects
  of a swap or a merge, refines records of optional fields, and its serialisation round-trips; calls are completed exactly once, requests
  answered or refused; bytes leave a connection in order and completely; the kernel's interest list agrees with each channel; new
  connections reach one loop and their user once; due timers fire in order, also when callbacks add timers; no wakeup, functor, element
  or signal is lost; \<^verbatim>\<open>startLoop\<close> returns the loop whatever spurious returns \<^verbatim>\<open>wait\<close> makes. The wired server refines its channel, a call
  crosses both connections and returns, and the qpstest client makes exactly its requests. Mutexes exclude, the statements of the
  blocking queue refine its atomic operations, and a sleeping loop thread can be destroyed. As long as no \<^verbatim>\<open>write\<close> fails, the RPC server
  in its loop refines the model of the server, with clients that come, ask and leave, and the echo server serves any number of clients
  that do not leave; the sudoku client sends one request for each expiry of its timer. A line typed into the test client comes back
  from the echo server. This theory composes the codec with the connection.

  The errors found on the way are theorems too: a failed write throws (\<^verbatim>\<open>EAGAIN\<close> and a peer that is gone included, hence the hypothesis
  \<open>writes_succeed\<close> of the statements about the loops), a close destroys the connection inside its own handler, a failed accept becomes a
  connection, a refused connect is announced as a success, cancelling a timer faults, the RPC server never frees a connection, the
  first close brings the echo server down, a request before the connection the sudoku client; the destructor of a loop thread faults
  exactly when its loop was never started or is gone by one of the two halves of \<^verbatim>\<open>quit\<close>; the echo server's workers use closed connections.

  \<^bold>\<open>Interfaces.\<close> \<open>byte_queue\<close> (what a buffer promises), \<open>byte_stream\<close> (a connection to whoever sends frames on it),
  \<open>callback_refinement\<close> (a client of the decode loop), \<open>pb_progress\<close>, \<open>pb_wire\<close> and \<open>message_class\<close> (the protobuf library),
  \<open>serving\<close>, \<open>rpc_client\<close> and \<open>appending\<close> (the user's code), \<open>rpc_home\<close> and \<open>wiring\<close> (where a channel lives), \<open>loop_service\<close>
  (what a server's handlers promise the loop, given by the echo server and by the RPC server), \<open>guarded_section\<close>
  (operations under a \<^verbatim>\<open>MutexLockGuard\<close>, interpreted on the queue and on \<^verbatim>\<open>MutexTest\<close>).

  \<^bold>\<open>Parameters and bounds.\<close> Code outside the repository is a parameter: zlib's \<^verbatim>\<open>adler32\<close>, the protobuf library (\<open>pb\<close>), the
  user's messages, services, closures and callbacks, the rounding of \<^verbatim>\<open>double\<close>, \<^verbatim>\<open>inet_pton\<close>; the answers of system calls are
  inputs. Contracts on them are locales, interpreted on executable instances. The decode loops end by a measure on the
  input; the loop of threads is a step relation, so that no fuel is needed. Bounds in the statements keep
  sizes within the machine's integers (messages below \<open>2^31\<close> bytes, vectors within the address space).

  \<^bold>\<open>Not modelled.\<close> Log output; arenas, descriptor tables and reflection of the generated message classes, and the
  message classes of the examples; data races, i.e. reads of shared members outside a critical section, the unlocked
  \<^verbatim>\<open>size()\<close> of the blocking queue among them; the \<^verbatim>\<open>main\<close> functions of \<^verbatim>\<open>simplifyMuduo/examples/\<close> that only build
  objects modelled here and enter the loop; the output and the clocks of the examples, but for what a statement is about.
  What a failed \<^verbatim>\<open>write\<close> does to the process beyond the exception (\<^verbatim>\<open>SIGPIPE\<close>) is not modelled; the statement about due timers
  leaves out callbacks that cancel timers, which the model runs (\<open>TimerExamples\<close> has one). The state of a service is kept with each channel: a service object whose
  own state is shared by several connections cannot be expressed (the services of the examples have none).
\<close>

section \<open>From the codec of the sender to the codec of the receiver\<close>

text \<open>C1:
  Messages survive the whole path: encode each with the codec and send the frames on a new connection, in whatever way
  the kernel's writes, the writable events and everything else interleave, and let the peer read any part of what
  is on the wire so far, in arbitrary pieces. Its receive loop then hands exactly the first \<open>n\<close> of these messages to
  the message callback, in order; once the output buffer is empty and the whole wire has been read, these are
  all of them and the peer's input buffer is empty.
\<close>

theorem messages_delivered:
  fixes codec_env :: "('m, 'z) codec_env_scheme" and cd :: "('s, 'm) codec" and w w' :: "('x, 'u) world"
  assumes "tag_ok (tag cd)"
    and "\<forall>m \<in> set ms. encodable codec_env (tag cd) m \<and> parseFromArray codec_env (serializeToArray codec_env m) = Some m"
    and "map (codec_send codec_env cd) ms = map Inr frames"
    and "opened_conn c w" "conn_steps c w frames w'" "length (concat frames) < 2 ^ 31"
    and "concat pieces @ later = wire w' c" "\<forall>d \<in> set pieces. length d \<le> kExtraBuf"
  shows "\<exists>n b'. (later = [] \<and> unsent_bytes c w' = [] \<longrightarrow> length ms \<le> n \<and> content b' = [])
    \<and> (\<forall>s. feed codec_env cd s (Buffer_init kInitialSize) pieces
        = andThen (deliver (messageCallback cd) s (take n ms)) (\<lambda>s'. Inr (s', b')))"
  by (rule tcp.messages_arrive [OF assms])

lemma messages_delivered_witness:
  "\<exists>w' b'. sendInLoop 0 (frame (raw_env Little) rpc_tag [7]) (demo_world [100] 1) = Inr w'
     \<and> (\<forall>s. feed (raw_env Little) log_codec s (Buffer_init kInitialSize) [take 3 (wire w' 0), drop 3 (wire w' 0)]
          = andThen (deliver log_message s [[7]]) (\<lambda>s'. Inr (s', b')))"
proof -
  define fr where "fr = frame (raw_env Little) rpc_tag [7]"
  have len: "length fr < 50" by (simp add: fr_def length_frame length_frame_body rpc_tag_def)
  note d = demo_world_ok [where as = "[100]" and r = 1]
  have room: "room (outBuf (demo_conn 1)) (length fr)" using len by (simp add: room_def demo_conn_ok)
  have all: "min (nat 100) (length fr) = length fr" using len by simp
  from sendInLoop_direct [OF d(1,2) room _ demo_conn_ok(1) d(4), unfolded all] len obtain w' k' where
    w': "sendInLoop 0 fr (demo_world [100] 1) = Inr w'" and adv: "advance 0 (demo_world [100] 1) (demo_conn 1) fr (length fr) True w' k'"
    by auto
  have conn: "conns w' 0 = Some k'" "content (outBuf k') = []" "wire w' 0 = fr"
    using adv by (simp_all add: advance_def demo_conn_ok demo_world_ok)
  have steps: "conn_steps 0 (demo_world [100] 1) [fr] w'"
    using steps_send [OF steps_start w'] by simp
  have sent: "map (codec_send (raw_env Little) log_codec) [[7]] = map Inr [fr]"
    using codec_send_ok [of "raw_env Little" log_codec "[7]"] raw_encodable [of "[7]" Little] by (simp add: fr_def)
  have opened: "opened_conn 0 (demo_world [100] 1)"
    using d(1,2,5) by (auto simp: opened_conn_def demo_conn_ok)
  have "\<exists>n b'. (([] :: byte list) = [] \<and> unsent_bytes 0 w' = [] \<longrightarrow> length [[7 :: byte]] \<le> n \<and> content b' = [])
      \<and> (\<forall>s. feed (raw_env Little) log_codec s (Buffer_init kInitialSize) [take 3 fr, drop 3 fr]
        = andThen (deliver (messageCallback log_codec) s (take n [[7]])) (\<lambda>s'. Inr (s', b')))"
    by (rule messages_delivered [OF _ _ sent opened steps])
       (use len conn(3) raw_encodable [of "[7]" Little] in \<open>simp_all add: kExtraBuf_def min_le_iff_disj\<close>)
  with w' conn show ?thesis by (auto simp: fr_def log_codec_def unsent_bytes_def)
qed

end
